(* ===== verification/Prelude.thy ===== *)
theory Prelude
  imports Main "HOL-Library.Word"
begin

text \<open>
  What the component theories share: the names of the machine integer types, the standard-library
  operations the Rust sources call on vectors and integers (\<^verbatim>\<open>Vec::resize\<close>, \<^verbatim>\<open>checked\<close> indexing,
  \<^verbatim>\<open>saturating_sub\<close>), the three-way comparison of \<^verbatim>\<open>std::cmp::Ordering\<close>, and the list facts
  that the component proofs reuse. The collection \<open>rust_std\<close> holds the facts about the modelled
  standard-library operations.
\<close>

named_theorems rust_std

section \<open>Machine integers\<close>

type_synonym u8 = "8 word"
type_synonym u16 = "16 word"
type_synonym u32 = "32 word"
type_synonym u64 = "64 word"

text \<open>\<^verbatim>\<open>u64::saturating_sub\<close>: subtraction that stops at zero.\<close>

definition saturating_sub :: "'n::len word \<Rightarrow> 'n word \<Rightarrow> 'n word" where
  "saturating_sub a b = (if b \<le> a then a - b else 0)"

section \<open>Three-way comparison\<close>

text \<open>\<^verbatim>\<open>std::cmp::Ordering\<close> and \<^verbatim>\<open>Ord::cmp\<close> of a totally ordered type.\<close>

datatype ordering = Less | Equal | Greater

definition ord_cmp :: "'a::linorder \<Rightarrow> 'a \<Rightarrow> ordering" where
  "ord_cmp a b = (if a < b then Less else if a = b then Equal else Greater)"

text \<open>\<^verbatim>\<open>Ordering::then_with\<close>: the second comparison decides when the first finds no difference.\<close>

definition then_with :: "ordering \<Rightarrow> ordering \<Rightarrow> ordering" where
  "then_with c d = (if c = Equal then d else c)"

text \<open>\<^verbatim>\<open>Ordering::reverse\<close>, which is how \<^verbatim>\<open>std::cmp::Reverse\<close> compares.\<close>

fun ord_reverse :: "ordering \<Rightarrow> ordering" where
  "ord_reverse Less = Greater"
| "ord_reverse Equal = Equal"
| "ord_reverse Greater = Less"

section \<open>Vectors\<close>

text \<open>\<^verbatim>\<open>Vec::resize\<close>: truncate, or pad with the given value.\<close>

definition vec_resize :: "'a list \<Rightarrow> nat \<Rightarrow> 'a \<Rightarrow> 'a list" where
  "vec_resize xs n v = take n xs @ replicate (n - length xs) v"

text \<open>\<^verbatim>\<open>slice.get(i).copied().unwrap_or(d)\<close>.\<close>

definition get_or :: "'a \<Rightarrow> 'a list \<Rightarrow> nat \<Rightarrow> 'a" where
  "get_or d xs i = (if i < length xs then xs ! i else d)"

section \<open>Facts about the modelled library\<close>

lemma ord_cmp_simps [simp]:
  "ord_cmp a b = Less \<longleftrightarrow> a < b"
  "ord_cmp a b = Equal \<longleftrightarrow> a = b"
  "ord_cmp a b = Greater \<longleftrightarrow> b < a"
  by (auto simp: ord_cmp_def)

lemma then_with_simps [simp]:
  "then_with c d = Less \<longleftrightarrow> c = Less \<or> c = Equal \<and> d = Less"
  "then_with c d = Equal \<longleftrightarrow> c = Equal \<and> d = Equal"
  "then_with c d = Greater \<longleftrightarrow> c = Greater \<or> c = Equal \<and> d = Greater"
  by (auto simp: then_with_def)

lemma ord_reverse_simps [simp]:
  "ord_reverse c = Less \<longleftrightarrow> c = Greater"
  "ord_reverse c = Equal \<longleftrightarrow> c = Equal"
  "ord_reverse c = Greater \<longleftrightarrow> c = Less"
  by (cases c; simp)+

lemma not_Greater: "c \<noteq> Greater \<longleftrightarrow> c = Less \<or> c = Equal"
  by (cases c) simp_all

text \<open>A comparison that answers \<^const>\<open>Less\<close> and \<^const>\<open>Equal\<close> as the order does is the order's own.\<close>

lemma ord_cmp_unique: "(c = Less \<longleftrightarrow> a < b) \<Longrightarrow> (c = Equal \<longleftrightarrow> a = b) \<Longrightarrow> c = ord_cmp a b"
  by (cases c) (auto simp: ord_cmp_def)

lemma length_vec_resize [simp, rust_std]: "length (vec_resize xs n v) = n"
  by (simp add: vec_resize_def)

lemma get_or_vec_resize [simp, rust_std]:
  "length xs \<le> n \<Longrightarrow> get_or v (vec_resize xs n v) i = get_or v xs i"
  by (auto simp: get_or_def vec_resize_def nth_append)

lemma get_or_Nil [simp]: "get_or d [] i = d"
  by (simp add: get_or_def)

lemma get_or_list_update [rust_std]:
  "get_or d (xs[j := v]) i = (if i = j \<and> j < length xs then v else get_or d xs i)"
  by (auto simp: get_or_def)

lemma get_or_beyond: "length xs \<le> i \<Longrightarrow> get_or d xs i = d"
  by (simp add: get_or_def)

lemma max_word_0 [simp]: "max x (0 :: 'n::len word) = x" "max (0 :: 'n word) x = x"
  by (auto simp: max_def)

lemma saturating_sub_self [simp]: "saturating_sub a a = 0"
  by (simp add: saturating_sub_def)

lemma unat_saturating_sub [rust_std]: "unat (saturating_sub a b) = unat a - unat b"
  by (auto simp: saturating_sub_def unat_sub word_le_nat_alt)

end
