(* ===== verification/Clock.thy ===== *)
theory Clock
  imports Prelude
begin

text \<open>
  The logical clocks of \<^verbatim>\<open>crates/clock/src/clock.rs\<close>: replica identifiers, Lamport timestamps with
  their total order, and version vectors (\<^verbatim>\<open>Global\<close>). Integers keep their widths; \<^verbatim>\<open>+=\<close> wraps, as it
  does in the release profile of the workspace. The \<^verbatim>\<open>debug_assert\<close> of \<^verbatim>\<open>Global::observe\<close> is not part
  of a release build and has no branch here.

  A version vector is \<^emph>\<open>canonical\<close> when it does not end in a zero. Every vector the code builds is
  canonical, and on canonical vectors the derived equality is equality of the vectors as functions;
  the order facts below are stated for them.
\<close>

section \<open>Replica identifiers and Lamport timestamps\<close>

datatype replica_id = ReplicaId (as_u16: u16)

instantiation replica_id :: linorder
begin
definition less_eq_replica_id :: "replica_id \<Rightarrow> replica_id \<Rightarrow> bool" where
  "less_eq_replica_id a b \<longleftrightarrow> as_u16 a \<le> as_u16 b"
definition less_replica_id :: "replica_id \<Rightarrow> replica_id \<Rightarrow> bool" where
  "less_replica_id a b \<longleftrightarrow> as_u16 a < as_u16 b"
instance
  by standard (auto simp: less_eq_replica_id_def less_replica_id_def replica_id.expand)
end

definition LOCAL :: replica_id where "LOCAL = ReplicaId 0"
definition REMOTE_SERVER :: replica_id where "REMOTE_SERVER = ReplicaId 1"
definition AGENT :: replica_id where "AGENT = ReplicaId 2"
definition LOCAL_BRANCH :: replica_id where "LOCAL_BRANCH = ReplicaId 3"
definition FIRST_COLLAB_ID :: replica_id where "FIRST_COLLAB_ID = ReplicaId 8"

definition is_remote :: "replica_id \<Rightarrow> bool" where
  "is_remote r \<longleftrightarrow> r = REMOTE_SERVER \<or> FIRST_COLLAB_ID \<le> r"

datatype lamport = Lamport (lvalue: u32) (lreplica: replica_id)

text \<open>\<^verbatim>\<open>Ord for Lamport\<close>: by sequence number, the replica breaking ties.\<close>

definition lamport_cmp :: "lamport \<Rightarrow> lamport \<Rightarrow> ordering" where
  "lamport_cmp a b = then_with (ord_cmp (lvalue a) (lvalue b)) (ord_cmp (lreplica a) (lreplica b))"

definition lamport_partial_cmp :: "lamport \<Rightarrow> lamport \<Rightarrow> ordering option" where
  "lamport_partial_cmp a b = Some (lamport_cmp a b)"

text \<open>The operators \<^verbatim>\<open><\<close> and \<^verbatim>\<open><=\<close> of Rust are the defaults of \<^verbatim>\<open>PartialOrd\<close>, read off \<^verbatim>\<open>partial_cmp\<close>.\<close>

lemma lamport_cmp_Equal [simp]: "lamport_cmp a b = Equal \<longleftrightarrow> a = b"
  by (auto simp: lamport_cmp_def intro: lamport.expand)

lemma lamport_cmp_Less: "lamport_cmp a b = Less \<longleftrightarrow> lvalue a < lvalue b \<or> lvalue a = lvalue b \<and> lreplica a < lreplica b"
  by (auto simp: lamport_cmp_def)

instantiation lamport :: linorder
begin

definition less_lamport :: "lamport \<Rightarrow> lamport \<Rightarrow> bool" where
  "less_lamport a b \<longleftrightarrow> lamport_partial_cmp a b = Some Less"

definition less_eq_lamport :: "lamport \<Rightarrow> lamport \<Rightarrow> bool" where
  "less_eq_lamport a b \<longleftrightarrow> lamport_partial_cmp a b \<in> {Some Less, Some Equal}"

instance
  by standard (auto simp: less_lamport_def less_eq_lamport_def lamport_partial_cmp_def lamport_cmp_Less intro: lamport.expand)

end

lemma less_lamport_iff: "a < b \<longleftrightarrow> lvalue a < lvalue b \<or> lvalue a = lvalue b \<and> lreplica a < lreplica b" for a b :: lamport
  by (simp add: less_lamport_def lamport_partial_cmp_def lamport_cmp_Less)

lemma less_eq_lamport_iff: "a \<le> b \<longleftrightarrow> lvalue a < lvalue b \<or> lvalue a = lvalue b \<and> lreplica a \<le> lreplica b" for a b :: lamport
  by (auto simp: order_le_less less_lamport_iff intro: lamport.expand)

lemma lamport_cmp_ord: "lamport_cmp a b = ord_cmp a b"
  by (rule ord_cmp_unique) (simp_all add: less_lamport_def lamport_partial_cmp_def)

definition lamport_MIN :: lamport where "lamport_MIN = Lamport 0 (ReplicaId 0)"
definition lamport_MAX :: lamport where "lamport_MAX = Lamport (- 1) (ReplicaId (- 1))"

definition lamport_new :: "replica_id \<Rightarrow> lamport" where
  "lamport_new r = Lamport 1 r"

definition lamport_as_u64 :: "lamport \<Rightarrow> u64" where
  "lamport_as_u64 t = or (push_bit 32 (ucast (lvalue t))) (ucast (as_u16 (lreplica t)))"

text \<open>\<^verbatim>\<open>tick\<close> returns the timestamp handed out and the advanced clock.\<close>

definition lamport_tick :: "lamport \<Rightarrow> lamport \<times> lamport" where
  "lamport_tick c = (c, Lamport (lvalue c + 1) (lreplica c))"

definition lamport_observe :: "lamport \<Rightarrow> lamport \<Rightarrow> lamport" where
  "lamport_observe c t = Lamport (max (lvalue c) (lvalue t) + 1) (lreplica c)"

section \<open>Version vectors\<close>

record global =
  gvalues :: "u32 list"

definition global_new :: global where
  "global_new = \<lparr>gvalues = []\<rparr>"

definition global_get :: "global \<Rightarrow> replica_id \<Rightarrow> u32" where
  "global_get g r = get_or 0 (gvalues g) (unat (as_u16 r))"

definition global_observe :: "global \<Rightarrow> lamport \<Rightarrow> global" where
  "global_observe g t =
     (if 0 < lvalue t then
        let i = unat (as_u16 (lreplica t));
            new_len = i + 1;
            vs = (if new_len > length (gvalues g) then vec_resize (gvalues g) new_len 0 else gvalues g)
        in g\<lparr>gvalues := vs[i := max (vs ! i) (lvalue t)]\<rparr>
      else g)"

text \<open>The loops over \<^verbatim>\<open>self.values.iter_mut().zip(&other.values)\<close> rewrite the common prefix.\<close>

fun zip_update :: "('a \<Rightarrow> 'b \<Rightarrow> 'a) \<Rightarrow> 'a list \<Rightarrow> 'b list \<Rightarrow> 'a list" where
  "zip_update f (x # xs) (y # ys) = f x y # zip_update f xs ys"
| "zip_update f xs _ = xs"

definition global_join :: "global \<Rightarrow> global \<Rightarrow> global" where
  "global_join g other =
     (let vs = (if length (gvalues other) > length (gvalues g)
                then vec_resize (gvalues g) (length (gvalues other)) 0 else gvalues g)
      in g\<lparr>gvalues := zip_update max vs (gvalues other)\<rparr>)"

definition meet_seq :: "u32 \<Rightarrow> u32 \<Rightarrow> u32" where
  "meet_seq left right =
     (if left = 0 then right else if right = 0 then left else min left right)"

text \<open>\<^verbatim>\<open>new_len\<close> of the loop: one past the last non-zero entry among the first \<open>n\<close>.\<close>

fun last_nonzero :: "u32 list \<Rightarrow> nat \<Rightarrow> nat \<Rightarrow> nat \<Rightarrow> nat" where
  "last_nonzero [] n ix new_len = new_len"
| "last_nonzero (v # vs) n ix new_len =
     (if ix < n then last_nonzero vs n (ix + 1) (if v \<noteq> 0 then ix + 1 else new_len) else new_len)"

definition global_meet :: "global \<Rightarrow> global \<Rightarrow> global" where
  "global_meet g other =
     (let vs = (if length (gvalues other) > length (gvalues g)
                then vec_resize (gvalues g) (length (gvalues other)) 0 else gvalues g);
          ws = zip_update meet_seq vs (gvalues other);
          new_len = last_nonzero ws (length (gvalues other)) 0 0
      in g\<lparr>gvalues := (if length (gvalues other) = length ws then take new_len ws else ws)\<rparr>)"

definition global_observed :: "global \<Rightarrow> lamport \<Rightarrow> bool" where
  "global_observed g t \<longleftrightarrow> lvalue t \<le> global_get g (lreplica t)"

definition global_iter :: "global \<Rightarrow> lamport list" where
  "global_iter g = map (\<lambda>(i, v). Lamport v (ReplicaId (of_nat i))) (enumerate 0 (gvalues g))"

definition global_observed_any :: "global \<Rightarrow> global \<Rightarrow> bool" where
  "global_observed_any g other \<longleftrightarrow>
     list_ex (\<lambda>(left, right). 0 < lvalue right \<and> lvalue right \<le> lvalue left)
       (zip (global_iter g) (global_iter other))"

definition global_observed_all :: "global \<Rightarrow> global \<Rightarrow> bool" where
  "global_observed_all g other \<longleftrightarrow>
     (if length (gvalues g) < length (gvalues other) then False
      else list_all (\<lambda>(left, right). lvalue right \<le> lvalue left)
             (zip (global_iter g) (global_iter other)))"

definition global_changed_since :: "global \<Rightarrow> global \<Rightarrow> bool" where
  "global_changed_since g other \<longleftrightarrow>
     length (gvalues other) < length (gvalues g) \<or>
     list_ex (\<lambda>(left, right). right < left) (zip (gvalues g) (gvalues other))"

text \<open>\<^verbatim>\<open>Iterator::max_by_key\<close> keeps the last of several maximal elements.\<close>

fun max_by_key :: "('a \<Rightarrow> 'k::linorder) \<Rightarrow> 'a list \<Rightarrow> 'a option" where
  "max_by_key k [] = None"
| "max_by_key k (x # xs) =
     Some (fold (\<lambda>y best. if k best \<le> k y then y else best) xs x)"

definition global_most_recent :: "global \<Rightarrow> lamport option" where
  "global_most_recent g = max_by_key lvalue (global_iter g)"

definition global_from_iter :: "lamport list \<Rightarrow> global" where
  "global_from_iter ts = fold (\<lambda>t g. global_observe g t) ts global_new"

text \<open>The representation invariant: no trailing zero, and one entry per replica identifier.\<close>

definition canonical :: "global \<Rightarrow> bool" where
  "canonical g \<longleftrightarrow> (gvalues g \<noteq> [] \<longrightarrow> last (gvalues g) \<noteq> 0) \<and> length (gvalues g) \<le> 2 ^ 16"

section \<open>Reading a version vector\<close>

lemma unat_replica_bound [simp]:
  "unat (as_u16 r) < 65536" "unat (as_u16 r) \<le> 65535" "unat (as_u16 r) < 4294967296"
proof -
  have "unat (as_u16 r) < 2 ^ LENGTH(16)" by (rule unsigned_less)
  then show "unat (as_u16 r) < 65536" "unat (as_u16 r) \<le> 65535" "unat (as_u16 r) < 4294967296"
    by simp_all
qed

lemma global_get_of_nat:
  "i < 65536 \<Longrightarrow> global_get g (ReplicaId (of_nat i)) = get_or 0 (gvalues g) i"
  by (simp add: global_get_def unat_of_nat)

lemma global_get_new [simp]: "global_get global_new r = 0"
  by (simp add: global_get_def global_new_def)

lemma length_zip_update [simp]: "length (zip_update f xs ys) = length xs"
  by (induction f xs ys rule: zip_update.induct) auto

lemma nth_zip_update:
  "i < length xs \<Longrightarrow> zip_update f xs ys ! i = (if i < length ys then f (xs ! i) (ys ! i) else xs ! i)"
  by (induction f xs ys arbitrary: i rule: zip_update.induct) (auto simp: nth_Cons split: nat.splits)

lemma get_or_zip_update:
  assumes "length ys \<le> length xs" and "\<And>x. f x 0 = x"
  shows "get_or 0 (zip_update f xs ys) i = f (get_or 0 xs i) (get_or (0 :: u32) ys i)"
  using assms by (auto simp: get_or_def nth_zip_update)

lemma get_or_padded:
  "get_or 0 (if n > length xs then vec_resize xs n 0 else xs) i = get_or 0 xs i"
  by simp

lemma length_padded:
  "length (if n > length xs then vec_resize xs n v else xs) = max n (length xs)"
  by simp

theorem global_get_observe:
  "global_get (global_observe g t) r =
     (if r = lreplica t then max (global_get g r) (lvalue t) else global_get g r)"
proof (cases "0 < lvalue t")
  case True
  let ?i = "unat (as_u16 (lreplica t))"
  let ?vs = "if ?i + 1 > length (gvalues g) then vec_resize (gvalues g) (?i + 1) 0 else gvalues g"
  have len: "?i < length ?vs" by simp
  have at: "?vs ! ?i = global_get g (lreplica t)"
    using get_or_padded [of "gvalues g" "?i + 1" ?i] len by (simp only: get_or_def global_get_def if_True)
  have eq: "gvalues (global_observe g t) = ?vs[?i := max (?vs ! ?i) (lvalue t)]"
    using True by (simp add: global_observe_def Let_def)
  have idx: "unat (as_u16 r) = ?i \<longleftrightarrow> r = lreplica t"
    by (metis replica_id.expand word_unat_eq_iff)
  have "global_get (global_observe g t) r =
      get_or 0 (?vs[?i := max (?vs ! ?i) (lvalue t)]) (unat (as_u16 r))"
    by (simp only: global_get_def eq)
  also have "\<dots> = (if r = lreplica t then max (global_get g r) (lvalue t) else get_or 0 ?vs (unat (as_u16 r)))"
    using len at idx by (simp only: get_or_list_update) auto
  also have "get_or 0 ?vs (unat (as_u16 r)) = global_get g r"
    by (simp only: get_or_padded global_get_def)
  finally show ?thesis .
next
  case False
  then have "lvalue t = 0" by (simp add: word_greater_zero_iff)
  then show ?thesis by (simp add: global_observe_def)
qed

lemma global_get_join [simp]:
  "global_get (global_join g h) r = max (global_get g r) (global_get h r)"
  by (simp add: global_get_def global_join_def Let_def get_or_zip_update)

section \<open>Canonical vectors\<close>

lemma no_trailing_zero_eqI:
  fixes xs ys :: "u32 list"
  assumes "\<And>i. i < n \<Longrightarrow> get_or 0 xs i = get_or 0 ys i"
    and "length xs \<le> n" "length ys \<le> n"
    and "xs \<noteq> [] \<longrightarrow> last xs \<noteq> 0" "ys \<noteq> [] \<longrightarrow> last ys \<noteq> 0"
  shows "xs = ys"
proof -
  have *: "length us \<le> length vs"
    if "\<And>i. i < n \<Longrightarrow> get_or 0 us i = get_or 0 vs i" "length us \<le> n" "us \<noteq> [] \<longrightarrow> last us \<noteq> 0"
    for us vs :: "u32 list"
  proof (rule ccontr)
    assume "\<not> ?thesis"
    then have lt: "length vs < length us" by simp
    then have ne: "us \<noteq> []" by auto
    have "get_or 0 us (length us - 1) = get_or 0 vs (length us - 1)"
      using that(1) [of "length us - 1"] that(2) ne by (cases us) auto
    moreover from lt have "\<not> length us - 1 < length vs" by simp
    ultimately have "last us = 0" using ne by (simp add: get_or_def last_conv_nth)
    with that(3) ne show False by simp
  qed
  have len: "length xs = length ys"
    using * [of xs ys] * [of ys xs] assms by (metis le_antisym)
  then show ?thesis
    using assms(1,2) by (intro nth_equalityI) (simp_all add: get_or_def, metis order.strict_trans2)
qed

lemma canonical_eqI:
  assumes "canonical g" "canonical h" "\<And>r. global_get g r = global_get h r"
  shows "g = (h :: global)"
proof -
  have "get_or 0 (gvalues g) i = get_or 0 (gvalues h) i" if "i < 65536" for i
    using assms(3) [of "ReplicaId (of_nat i)"] that by (simp add: global_get_of_nat)
  then have "gvalues g = gvalues h"
    using assms(1,2) by (intro no_trailing_zero_eqI [where n = 65536]) (auto simp: canonical_def)
  then show ?thesis by (cases g; cases h) simp
qed

lemma canonical_new [simp, intro]: "canonical global_new"
  by (simp add: canonical_def global_new_def)

lemma last_list_update_max:
  assumes "i < length vs" "0 < (v :: u32)" "last vs \<noteq> 0 \<or> i = length vs - 1"
  shows "last (vs[i := max (vs ! i) v]) \<noteq> 0"
proof -
  have "0 < max (vs ! i) v" by (rule less_le_trans [OF assms(2) max.cobounded2])
  moreover have "vs \<noteq> []" using assms(1) by auto
  ultimately show ?thesis using assms by (auto simp: last_list_update word_greater_zero_iff)
qed

lemma canonical_observe [simp, intro]:
  assumes "canonical g" shows "canonical (global_observe g t)"
proof (cases "0 < lvalue t")
  case True
  let ?i = "unat (as_u16 (lreplica t))"
  show ?thesis
  proof (cases "length (gvalues g) < ?i + 1")
    case True
    then show ?thesis
      using True \<open>0 < lvalue t\<close>
      by (simp add: canonical_def global_observe_def Let_def last_list_update_max)
  next
    case False
    then have "gvalues g \<noteq> []" by auto
    with assms False \<open>0 < lvalue t\<close> show ?thesis
      by (simp add: canonical_def global_observe_def Let_def last_list_update_max)
  qed
next
  case False
  with assms show ?thesis by (simp add: global_observe_def)
qed

lemma canonical_last:
  "canonical g \<Longrightarrow> gvalues g \<noteq> [] \<Longrightarrow> get_or 0 (gvalues g) (length (gvalues g) - 1) \<noteq> 0"
  by (simp add: canonical_def get_or_def last_conv_nth)

lemma canonicalI:
  assumes "gvalues g \<noteq> [] \<Longrightarrow> get_or 0 (gvalues g) (length (gvalues g) - 1) \<noteq> 0"
    and "length (gvalues g) \<le> 2 ^ 16"
  shows "canonical g"
  using assms by (auto simp: canonical_def get_or_def last_conv_nth)

lemma global_join_entry:
  "get_or 0 (gvalues (global_join g h)) i = max (get_or 0 (gvalues g) i) (get_or 0 (gvalues h) i)"
  by (simp add: global_join_def Let_def get_or_zip_update)

lemma length_global_join: "length (gvalues (global_join g h)) = max (length (gvalues g)) (length (gvalues h))"
  by (simp add: global_join_def Let_def)

lemma max_word_eq_0: "max a b = (0 :: 'n::len word) \<longleftrightarrow> a = 0 \<and> b = 0"
  by (auto simp: max_def)

lemma canonical_join [simp, intro]:
  assumes "canonical g" "canonical h" shows "canonical (global_join g h)"
proof (rule canonicalI)
  assume ne: "gvalues (global_join g h) \<noteq> []"
  show "get_or 0 (gvalues (global_join g h)) (length (gvalues (global_join g h)) - 1) \<noteq> 0"
  proof (cases "length (gvalues g) \<le> length (gvalues h)")
    case True
    with ne have "gvalues h \<noteq> []" using length_global_join [of g h] by auto
    from canonical_last [OF assms(2) this] True show ?thesis
      by (simp add: global_join_entry length_global_join max_word_eq_0)
  next
    case False
    then have "gvalues g \<noteq> []" by auto
    from canonical_last [OF assms(1) this] False show ?thesis
      by (simp add: global_join_entry length_global_join max_word_eq_0)
  qed
qed (use assms in \<open>simp add: length_global_join canonical_def\<close>)

lemma canonical_from_iter [simp, intro]: "canonical (global_from_iter ts)"
proof -
  have "canonical (fold (\<lambda>t g. global_observe g t) ts g)" if "canonical g" for g
    using that by (induction ts arbitrary: g) auto
  then show ?thesis by (simp add: global_from_iter_def)
qed

lemma last_nonzero_spec:
  assumes "nl \<le> ix" and "k = last_nonzero vs (ix + length vs) ix nl"
  shows "(\<forall>i < length vs. k \<le> ix + i \<longrightarrow> vs ! i = 0) \<and>
         (k = nl \<or> ix < k \<and> k \<le> ix + length vs \<and> vs ! (k - ix - 1) \<noteq> 0)"
  using assms
proof (induction vs arbitrary: ix nl k)
  case Nil
  then show ?case by simp
next
  case (Cons v vs)
  define nl' where "nl' = (if v \<noteq> 0 then ix + 1 else nl)"
  have k: "k = last_nonzero vs (Suc ix + length vs) (Suc ix) nl'"
    using Cons.prems(2) by (simp add: nl'_def)
  have zeros: "\<forall>i < length vs. k \<le> Suc ix + i \<longrightarrow> vs ! i = 0"
    and last: "k = nl' \<or> Suc ix < k \<and> k \<le> Suc ix + length vs \<and> vs ! (k - Suc ix - 1) \<noteq> 0"
    using Cons.IH [OF _ k] Cons.prems(1) by (auto simp: nl'_def)
  have "(v # vs) ! i = 0" if "i < length (v # vs)" "k \<le> ix + i" for i
    using that zeros last Cons.prems(1) by (cases i) (auto simp: nl'_def split: if_splits)
  moreover have "k = nl \<or> ix < k \<and> k \<le> ix + length (v # vs) \<and> (v # vs) ! (k - ix - 1) \<noteq> 0"
    using last
  proof
    assume "Suc ix < k \<and> k \<le> Suc ix + length vs \<and> vs ! (k - Suc ix - 1) \<noteq> 0"
    moreover from this have "k - ix - 1 = Suc (k - Suc ix - 1)" by arith
    ultimately show ?thesis by simp
  qed (auto simp: nl'_def split: if_splits)
  ultimately show ?case by blast
qed

lemma meet_seq_0 [simp]: "meet_seq x 0 = x" "meet_seq 0 x = x"
  by (auto simp: meet_seq_def)

definition meet_values :: "global \<Rightarrow> global \<Rightarrow> u32 list" where
  "meet_values g h =
     zip_update meet_seq
       (if length (gvalues h) > length (gvalues g)
        then vec_resize (gvalues g) (length (gvalues h)) 0 else gvalues g) (gvalues h)"

lemma meet_values_entry:
  "get_or 0 (meet_values g h) i = meet_seq (get_or 0 (gvalues g) i) (get_or 0 (gvalues h) i)"
  by (simp add: meet_values_def get_or_zip_update)

lemma length_meet_values [simp]:
  "length (meet_values g h) = max (length (gvalues g)) (length (gvalues h))"
  by (simp add: meet_values_def)

lemma global_meet_cases:
  obtains (truncated) k where "gvalues (global_meet g h) = take k (meet_values g h)"
      "length (gvalues g) \<le> length (gvalues h)" "k \<le> length (gvalues h)"
      "\<And>i. k \<le> i \<Longrightarrow> get_or 0 (meet_values g h) i = 0"
      "0 < k \<Longrightarrow> get_or 0 (meet_values g h) (k - 1) \<noteq> 0"
    | (whole) "gvalues (global_meet g h) = meet_values g h" "length (gvalues h) < length (gvalues g)"
proof (cases "length (gvalues g) \<le> length (gvalues h)")
  case True
  let ?w = "meet_values g h"
  let ?k = "last_nonzero ?w (length (gvalues h)) 0 0"
  have len: "length ?w = length (gvalues h)" using True by simp
  have *: "(\<forall>i < length ?w. ?k \<le> i \<longrightarrow> ?w ! i = 0) \<and> (?k = 0 \<or> ?k \<le> length ?w \<and> ?w ! (?k - 1) \<noteq> 0)"
    using last_nonzero_spec [of 0 0 ?k ?w] len by auto
  have "gvalues (global_meet g h) = take ?k ?w"
    using len by (simp add: global_meet_def Let_def meet_values_def)
  moreover have "get_or 0 ?w i = 0" if "?k \<le> i" for i
    using * that by (auto simp: get_or_def)
  moreover have "get_or 0 ?w (?k - 1) \<noteq> 0" if "0 < ?k"
    using * that by (auto simp: get_or_def)
  ultimately show thesis
    using that(1) [of ?k] True * len by auto
next
  case False
  then show thesis
    by (intro that(2)) (simp_all add: global_meet_def Let_def meet_values_def)
qed

theorem global_get_meet:
  "global_get (global_meet g h) r = meet_seq (global_get g r) (global_get h r)"
proof (cases rule: global_meet_cases [of g h])
  case (truncated k)
  then show ?thesis
    using meet_values_entry [of g h "unat (as_u16 r)"] truncated(4) [of "unat (as_u16 r)"]
    by (cases "unat (as_u16 r) < k") (auto simp: global_get_def get_or_def split: if_splits)
next
  case whole
  then show ?thesis by (simp add: global_get_def meet_values_entry)
qed

lemma canonical_meet [simp, intro]:
  assumes "canonical g" "canonical h" shows "canonical (global_meet g h)"
proof (cases rule: global_meet_cases [of g h])
  case (truncated k)
  show ?thesis
  proof (rule canonicalI)
    assume "gvalues (global_meet g h) \<noteq> []"
    then have "0 < k" using truncated(1) by auto
    then show "get_or 0 (gvalues (global_meet g h)) (length (gvalues (global_meet g h)) - 1) \<noteq> 0"
      using truncated by (auto simp: get_or_def min_def split: if_splits)
  qed (use truncated assms in \<open>auto simp: canonical_def\<close>)
next
  case whole
  then have "gvalues g \<noteq> []" by auto
  from canonical_last [OF assms(1) this] whole show ?thesis
    by (intro canonicalI)
      (use assms in \<open>auto simp: meet_values_entry get_or_beyond canonical_def\<close>)
qed

section \<open>The order of version vectors\<close>

lemma length_global_iter [simp]: "length (global_iter g) = length (gvalues g)"
  by (simp add: global_iter_def)

lemma nth_global_iter:
  "i < length (gvalues g) \<Longrightarrow> global_iter g ! i = Lamport (gvalues g ! i) (ReplicaId (of_nat i))"
  by (simp add: global_iter_def nth_enumerate_eq)

lemma canonical_length: "canonical g \<Longrightarrow> length (gvalues g) \<le> 65536"
  by (simp add: canonical_def)

lemma all_replicas_iff:
  assumes "length (gvalues g) \<le> 65536" "length (gvalues h) \<le> 65536" "P 0 0"
  shows "(\<forall>r. P (global_get g r) (global_get h r)) \<longleftrightarrow>
         (\<forall>i. P (get_or 0 (gvalues g) i) (get_or 0 (gvalues h) i))"
proof
  assume all: "\<forall>r. P (global_get g r) (global_get h r)"
  show "\<forall>i. P (get_or 0 (gvalues g) i) (get_or 0 (gvalues h) i)"
  proof
    fix i
    show "P (get_or 0 (gvalues g) i) (get_or 0 (gvalues h) i)"
    proof (cases "i < 65536")
      case True
      with all [rule_format, of "ReplicaId (of_nat i)"] show ?thesis by (simp add: global_get_of_nat)
    next
      case False
      with assms show ?thesis by (simp add: get_or_beyond)
    qed
  qed
qed (simp add: global_get_def)

lemma ex_replica_iff:
  assumes "length (gvalues g) \<le> 65536" "length (gvalues h) \<le> 65536" "\<not> P 0 0"
  shows "(\<exists>r. P (global_get g r) (global_get h r)) \<longleftrightarrow>
         (\<exists>i. P (get_or 0 (gvalues g) i) (get_or 0 (gvalues h) i))"
  using all_replicas_iff [of g h "\<lambda>a b. \<not> P a b"] assms by auto

lemma global_observed_all_iff:
  assumes "canonical g" "canonical h"
  shows "global_observed_all g h \<longleftrightarrow> (\<forall>r. global_get h r \<le> global_get g r)"
proof -
  note canonical_length [OF assms(1)] canonical_length [OF assms(2)]
  then have "(\<forall>r. global_get h r \<le> global_get g r) \<longleftrightarrow>
      (\<forall>i. get_or 0 (gvalues h) i \<le> get_or 0 (gvalues g) i)"
    using all_replicas_iff [of h g "(\<le>)"] by simp
  also have "\<dots> \<longleftrightarrow> length (gvalues h) \<le> length (gvalues g) \<and>
      (\<forall>i < length (gvalues h). gvalues h ! i \<le> gvalues g ! i)" (is "?L \<longleftrightarrow> ?R")
  proof
    assume L: ?L
    have len: "length (gvalues h) \<le> length (gvalues g)"
    proof (rule ccontr)
      assume "\<not> ?thesis"
      then have "gvalues h \<noteq> []" "length (gvalues g) \<le> length (gvalues h) - 1" by auto
      with canonical_last [OF assms(2)] L [rule_format, of "length (gvalues h) - 1"] show False
        by (simp add: get_or_beyond)
    qed
    moreover have "gvalues h ! i \<le> gvalues g ! i" if "i < length (gvalues h)" for i
      using L [rule_format, of i] len that by (simp add: get_or_def)
    ultimately show ?R by blast
  next
    assume ?R
    then show ?L by (simp add: get_or_def)
  qed
  also have "\<dots> \<longleftrightarrow> global_observed_all g h"
    by (auto simp: global_observed_all_def list_all_length nth_global_iter)
  finally show ?thesis ..
qed

lemma global_observed_any_iff:
  assumes "canonical g" "canonical h"
  shows "global_observed_any g h \<longleftrightarrow> (\<exists>r. 0 < global_get h r \<and> global_get h r \<le> global_get g r)"
proof -
  note canonical_length [OF assms(1)] canonical_length [OF assms(2)]
  then have "(\<exists>r. 0 < global_get h r \<and> global_get h r \<le> global_get g r) \<longleftrightarrow>
      (\<exists>i. 0 < get_or 0 (gvalues h) i \<and> get_or 0 (gvalues h) i \<le> get_or 0 (gvalues g) i)"
    using ex_replica_iff [of h g "\<lambda>b a. 0 < b \<and> b \<le> a"] by simp
  also have "\<dots> \<longleftrightarrow> global_observed_any g h"
  proof -
    have "(0 < get_or 0 (gvalues h) i \<and> get_or 0 (gvalues h) i \<le> get_or 0 (gvalues g) i) \<longleftrightarrow>
        i < length (gvalues g) \<and> i < length (gvalues h) \<and>
        0 < gvalues h ! i \<and> gvalues h ! i \<le> gvalues g ! i" for i
      by (cases "i < length (gvalues g)"; cases "i < length (gvalues h)") (auto simp: get_or_def)
    then show ?thesis
      by (simp add: global_observed_any_def list_ex_length nth_global_iter cong: conj_cong)
  qed
  finally show ?thesis ..
qed

lemma global_changed_since_iff:
  assumes "canonical g" "canonical h"
  shows "global_changed_since g h \<longleftrightarrow> \<not> global_observed_all h g"
proof (cases "length (gvalues h) < length (gvalues g)")
  case True
  then show ?thesis by (simp add: global_changed_since_def global_observed_all_def)
next
  case False
  have "global_changed_since g h \<longleftrightarrow> (\<exists>i < length (gvalues g). gvalues h ! i < gvalues g ! i)"
    using False by (simp add: global_changed_since_def list_ex_length cong: conj_cong)
  moreover have "global_observed_all h g \<longleftrightarrow> (\<forall>i < length (gvalues g). gvalues g ! i \<le> gvalues h ! i)"
    using False by (simp add: global_observed_all_def list_all_length nth_global_iter)
  ultimately show ?thesis by (simp add: not_le)
qed

text \<open>
  On canonical version vectors \<^verbatim>\<open>join\<close> is the least upper bound of the order that
  \<^verbatim>\<open>observed_all\<close> decides, and it is canonical again.
\<close>

theorem global_join_least_upper_bound:
  assumes "canonical a" and "canonical b" and "canonical c"
  shows "canonical (global_join a b)"
    and "global_observed_all c (global_join a b) \<longleftrightarrow>
           global_observed_all c a \<and> global_observed_all c b"
  using assms by (auto simp: global_observed_all_iff)

theorem global_join_laws:
  assumes "canonical a" and "canonical b" and "canonical c"
  shows "global_join a b = global_join b a"
    and "global_join (global_join a b) c = global_join a (global_join b c)"
    and "global_join a a = a"
  by (rule canonical_eqI; use assms in \<open>simp add: max.commute max.assoc max.left_commute\<close>)+

lemma global_observed_observe [simp]: "global_observed (global_observe g t) t"
  by (simp add: global_observed_def global_get_observe)

lemma global_observed_mono:
  "global_observed g t \<Longrightarrow> global_observed (global_observe g t') t"
  by (auto simp: global_observed_def global_get_observe max.coboundedI1)

theorem global_get_from_iter:
  "global_get (global_from_iter ts) r =
     fold (\<lambda>t m. max m (lvalue t)) (filter (\<lambda>t. lreplica t = r) ts) 0"
proof -
  have "global_get (fold (\<lambda>t g. global_observe g t) ts g) r =
      fold (\<lambda>t m. max m (lvalue t)) (filter (\<lambda>t. lreplica t = r) ts) (global_get g r)" for g
    by (induction ts arbitrary: g) (auto simp: global_get_observe)
  then show ?thesis by (simp add: global_from_iter_def)
qed

section \<open>Lamport timestamps\<close>

lemma unat_lamport_as_u64:
  "unat (lamport_as_u64 t) = unat (lvalue t) * 2 ^ 32 + unat (as_u16 (lreplica t))"
proof -
  let ?hi = "push_bit 32 (ucast (lvalue t)) :: u64" and ?lo = "ucast (as_u16 (lreplica t)) :: u64"
  have v: "unat (lvalue t) < 2 ^ 32"
    using unsigned_less [of "lvalue t", where 'a = nat] by simp_all
  have "and ?hi ?lo = 0"
    by (rule bit_word_eqI) (auto simp: bit_simps dest: bit_imp_le_length)
  then have "lamport_as_u64 t = ?hi + ?lo"
    by (simp add: lamport_as_u64_def disjunctive_add_eq_or)
  moreover have "unat ?hi = unat (lvalue t) * 2 ^ 32"
    using v by (simp add: push_bit_eq_mult unat_word_ariths unsigned_ucast_eq take_bit_nat_eq_self)
  moreover have "unat ?lo = unat (as_u16 (lreplica t))"
    unfolding unsigned_ucast_eq
    by (rule take_bit_nat_eq_self) (rule less_trans [OF unat_replica_bound(1)], simp)
  moreover have "unat (lvalue t) * 4294967296 + unat (as_u16 (lreplica t)) < 18446744073709551616"
    using v unat_replica_bound(3) [of "lreplica t"] unfolding power_numeral by (simp, linarith)
  ultimately show ?thesis by (simp add: unat_word_ariths)
qed

lemma packed_less_iff:
  fixes x y a b :: nat
  assumes "a < 2 ^ 32" "b < 2 ^ 32"
  shows "x * 2 ^ 32 + a < y * 2 ^ 32 + b \<longleftrightarrow> x < y \<or> x = y \<and> a < b"
proof (cases x y rule: linorder_cases)
  case less
  then have "x * 2 ^ 32 + 2 ^ 32 \<le> y * 2 ^ 32"
    using mult_le_mono1 [of "Suc x" y "2 ^ 32"] by simp
  with less assms show ?thesis by linarith
next
  case greater
  then have "y * 2 ^ 32 + 2 ^ 32 \<le> x * 2 ^ 32"
    using mult_le_mono1 [of "Suc y" x "2 ^ 32"] by simp
  with greater assms show ?thesis by linarith
qed simp

text \<open>
  Packing a timestamp into 64 bits is an order embedding.
\<close>

theorem lamport_as_u64_less_iff: "lamport_as_u64 a < lamport_as_u64 b \<longleftrightarrow> a < b"
proof -
  have "unat (as_u16 (lreplica a)) < 2 ^ 32" "unat (as_u16 (lreplica b)) < 2 ^ 32"
    by simp_all
  from packed_less_iff [OF this] show ?thesis
    by (simp only: word_less_nat_alt unat_lamport_as_u64 less_lamport_iff less_replica_id_def
        word_unat_eq_iff)
qed

lemma word_less_succ: "(x :: u32) < - 1 \<Longrightarrow> x < x + 1"
  using inc_less_eq_self_iff_eq [of x] by (auto simp: not_le)

theorem lamport_clock_advances:
  assumes "lvalue c < - 1" and "lvalue t < - 1"
  shows "fst (lamport_tick c) < snd (lamport_tick c)"
    and "t < lamport_observe c t" and "c < lamport_observe c t"
  using assms word_less_succ [of "lvalue c"] word_less_succ [of "max (lvalue c) (lvalue t)"]
  by (auto simp: lamport_tick_def lamport_observe_def less_lamport_iff max_def split: if_splits)

end
