(* ===== verification/Locator.thy ===== *)
theory Locator
  imports Prelude "HOL-Library.List_Lexorder"
begin

text \<open>
  Fragment positions, \<^verbatim>\<open>crates/text/src/locator.rs\<close>: a locator is a vector of 64-bit digits ordered
  lexicographically (a proper prefix is smaller), and \<^verbatim>\<open>Locator::between\<close> builds a new locator from
  two neighbours. The loop over the two padded digit streams is a recursive function whose
  termination is proved: once both locators are exhausted the left digit is \<open>0\<close> and the right digit
  \<^verbatim>\<open>u64::MAX\<close>, and the midpoint exceeds the left digit.

  The theorems say when \<^verbatim>\<open>between\<close> lands strictly between its arguments. It always exceeds the left
  one; it stays below the right one exactly when the right one is not the left one followed by
  zero digits. No locator that \<^verbatim>\<open>between\<close> returns ends in a zero, so this never happens in a buffer.
\<close>

section \<open>Definitions\<close>

datatype locator = Locator (digits: "u64 list")

instantiation locator :: linorder
begin
definition less_eq_locator :: "locator \<Rightarrow> locator \<Rightarrow> bool" where
  "less_eq_locator a b \<longleftrightarrow> digits a \<le> digits b"
definition less_locator :: "locator \<Rightarrow> locator \<Rightarrow> bool" where
  "less_locator a b \<longleftrightarrow> digits a < digits b"
instance
  by standard (auto simp: less_eq_locator_def less_locator_def locator.expand)
end

definition locator_min :: locator where
  "locator_min = Locator [0]"

definition locator_max :: locator where
  "locator_max = Locator [- 1]"

text \<open>\<^verbatim>\<open>assign\<close>: resize to the other locator's length, then copy its digits.\<close>

definition locator_assign :: "locator \<Rightarrow> locator \<Rightarrow> locator" where
  "locator_assign l other =
     (let ds = vec_resize (digits l) (length (digits other)) 0
      in Locator (map (\<lambda>i. if i < length ds then digits other ! i else 0) [0 ..< length ds]))"

definition mid_digit :: "u64 \<Rightarrow> u64 \<Rightarrow> u64" where
  "mid_digit lhs rhs = lhs + drop_bit 48 (saturating_sub rhs lhs)"

definition head_or :: "'a \<Rightarrow> 'a list \<Rightarrow> 'a" where
  "head_or d xs = (case xs of [] \<Rightarrow> d | x # _ \<Rightarrow> x)"

lemma mid_digit_exhausted: "(0 :: u64) < mid_digit 0 (- 1)"
  by (simp add: mid_digit_def saturating_sub_def word_greater_zero_iff)

function between_digits :: "u64 list \<Rightarrow> u64 list \<Rightarrow> u64 list" where
  "between_digits ls rs =
     (let lhs = head_or 0 ls; rhs = head_or (- 1) rs; mid = mid_digit lhs rhs
      in if lhs < mid then [mid] else mid # between_digits (tl ls) (tl rs))"
  by pat_completeness auto
termination
proof (relation "measure (\<lambda>(ls, rs). length ls + length rs)", goal_cases)
  case (2 ls rs lhs rhs mid)
  then have "ls \<noteq> [] \<or> rs \<noteq> []"
    using mid_digit_exhausted by (auto simp: head_or_def)
  then show ?case by (cases ls; cases rs) auto
qed simp

declare between_digits.simps [simp del]

definition locator_between :: "locator \<Rightarrow> locator \<Rightarrow> locator" where
  "locator_between lhs rhs = Locator (between_digits (digits lhs) (digits rhs))"

definition locator_len :: "locator \<Rightarrow> nat" where
  "locator_len l = length (digits l)"

definition locator_is_empty :: "locator \<Rightarrow> bool" where
  "locator_is_empty l \<longleftrightarrow> locator_len l = 0"

text \<open>What every locator stored in a buffer satisfies: it does not end in a zero digit.\<close>

definition locator_ok :: "locator \<Rightarrow> bool" where
  "locator_ok l \<longleftrightarrow> digits l \<noteq> [] \<and> last (digits l) \<noteq> 0"

section \<open>Assignment and midpoints\<close>

lemma locator_assign_eq [simp]: "locator_assign l other = other"
  by (cases other) (auto simp: locator_assign_def Let_def intro: nth_equalityI)

lemma unat_mid_digit:
  "unat (mid_digit l r) = unat l + (unat r - unat l) div 2 ^ 48"
proof -
  have "(unat r - unat l) div 2 ^ 48 \<le> unat r - unat l" by simp
  moreover have "unat r < 2 ^ 64" "unat l < 2 ^ 64"
    using unsigned_less [of r, where 'a = nat] unsigned_less [of l, where 'a = nat] by simp_all
  ultimately have "unat l + (unat r - unat l) div 2 ^ 48 < 2 ^ 64" by linarith
  then show ?thesis
    by (simp add: mid_digit_def unat_word_ariths unat_drop_bit_eq drop_bit_eq_div unat_saturating_sub)
qed

lemma mid_digit_ge: "l \<le> mid_digit l r"
  by (simp add: word_le_nat_alt unat_mid_digit)

lemma mid_digit_less: "l < r \<Longrightarrow> mid_digit l r < r"
proof -
  assume "l < r"
  then have "0 < unat r - unat l" by (simp add: word_less_nat_alt)
  then have "(unat r - unat l) div 2 ^ 48 < unat r - unat l" by (intro div_less_dividend) simp_all
  then show ?thesis by (simp add: word_less_nat_alt unat_mid_digit)
qed

lemma mid_digit_same [simp]: "mid_digit l l = l"
  by (simp add: mid_digit_def)

section \<open>Between\<close>

lemma between_digits_last: "between_digits ls rs \<noteq> [] \<and> last (between_digits ls rs) \<noteq> 0"
proof (induction ls rs rule: between_digits.induct)
  case (1 ls rs)
  then show ?case
    by (subst (1 2) between_digits.simps) (auto simp: Let_def word_greater_zero_iff)
qed

text \<open>The new digits agree with the left ones, padded with zeros, until the last, which is larger.\<close>

lemma between_digits_greater: "ls < between_digits ls rs"
proof (induction ls rs rule: between_digits.induct)
  case (1 ls rs)
  show ?case
  proof (cases "head_or 0 ls < mid_digit (head_or 0 ls) (head_or (- 1) rs)")
    case True
    then show ?thesis
      by (subst between_digits.simps) (cases ls; simp add: Let_def head_or_def)
  next
    case False
    with mid_digit_ge [of "head_or 0 ls"] have eq: "mid_digit (head_or 0 ls) (head_or (- 1) rs) = head_or 0 ls"
      by (metis order.not_eq_order_implies_strict)
    have "tl ls < between_digits (tl ls) (tl rs)" using 1 False by simp
    with eq show ?thesis
      by (subst between_digits.simps) (cases ls; simp add: Let_def head_or_def)
  qed
qed

lemma between_digits_less:
  assumes "ls < rs" "\<nexists>n. rs = ls @ replicate n 0"
  shows "between_digits ls rs < rs"
  using assms
proof (induction ls rs rule: between_digits.induct)
  case (1 ls rs)
  from \<open>ls < rs\<close> obtain r rs' where rs: "rs = r # rs'" by (cases rs) auto
  let ?l = "head_or 0 ls"
  have le: "?l \<le> r" using \<open>ls < rs\<close> rs by (cases ls) (auto simp: head_or_def)
  show ?case
  proof (cases "?l < r")
    case True
    then have "mid_digit ?l r < r" by (rule mid_digit_less)
    then show ?thesis
      using rs by (subst between_digits.simps) (simp add: Let_def head_or_def)
  next
    case False
    with le have eq: "?l = r" by simp
    have "tl ls < rs' \<and> (\<nexists>n. rs' = tl ls @ replicate n 0)"
    proof (cases ls)
      case Nil
      with eq rs 1(3) have "r = 0" by (simp add: head_or_def)
      with 1(3) rs Nil have no: "\<nexists>n. rs' = replicate n 0" by (metis append_Nil replicate_Suc)
      then have "rs' \<noteq> []" by (metis replicate_0)
      with no Nil show ?thesis by (cases rs') auto
    next
      case (Cons l ls')
      with eq rs 1(2,3) show ?thesis by (auto simp: head_or_def)
    qed
    then have "between_digits (tl ls) rs' < rs'"
      using 1(1) [OF refl refl refl] eq rs by (simp add: head_or_def)
    then show ?thesis
      using eq rs by (subst between_digits.simps) (simp add: Let_def head_or_def)
  qed
qed

lemma between_digits_zeros: "rs = ls @ replicate n 0 \<Longrightarrow> rs < between_digits ls rs"
proof (induction ls rs arbitrary: n rule: between_digits.induct)
  case (1 ls rs)
  show ?case
  proof (cases rs)
    case Nil
    then show ?thesis using between_digits_last [of ls rs] by (cases "between_digits ls rs") auto
  next
    case (Cons r rs')
    have hd: "head_or 0 ls = r" and tl: "\<exists>m. rs' = tl ls @ replicate m 0"
    proof -
      show "head_or 0 ls = r"
        using \<open>rs = ls @ replicate n 0\<close> Cons by (cases ls; cases n) (auto simp: head_or_def)
      show "\<exists>m. rs' = tl ls @ replicate m 0"
      proof (cases ls)
        case Nil
        with \<open>rs = ls @ replicate n 0\<close> Cons show ?thesis by (cases n) auto
      next
        case (Cons l ls')
        with \<open>rs = ls @ replicate n 0\<close> \<open>rs = r # rs'\<close> show ?thesis by auto
      qed
    qed
    from tl obtain m where "rs' = tl ls @ replicate m 0" ..
    then have "rs' < between_digits (tl ls) rs'"
      using 1(1) [OF refl refl refl, of m] hd Cons by (simp add: head_or_def)
    with hd Cons show ?thesis
      by (subst between_digits.simps) (simp add: Let_def head_or_def)
  qed
qed

lemma locator_between_greater: "lhs < locator_between lhs rhs"
  by (simp add: less_locator_def locator_between_def between_digits_greater)

lemma locator_between_ok: "locator_ok (locator_between lhs rhs)"
  by (simp add: locator_ok_def locator_between_def between_digits_last)

lemma locator_ok_max [simp]: "locator_ok locator_max"
  by (simp add: locator_ok_def locator_max_def)

lemma locator_between_less_iff:
  assumes "lhs < rhs"
  shows "locator_between lhs rhs < rhs \<longleftrightarrow> (\<nexists>n. digits rhs = digits lhs @ replicate n 0)"
  using assms between_digits_less [of "digits lhs" "digits rhs"] between_digits_zeros [of "digits rhs" "digits lhs"]
  by (auto simp: less_locator_def locator_between_def)

lemma locator_between_less:
  assumes "lhs < rhs" "locator_ok rhs"
  shows "locator_between lhs rhs < rhs"
proof -
  have "\<nexists>n. digits rhs = digits lhs @ replicate n 0"
  proof
    assume "\<exists>n. digits rhs = digits lhs @ replicate n 0"
    then obtain n where n: "digits rhs = digits lhs @ replicate n 0" ..
    show False
    proof (cases n)
      case 0
      with n assms(1) show False by (simp add: less_locator_def)
    next
      case (Suc m)
      with n have "last (digits rhs) = 0" by (simp add: last_append last_replicate)
      with assms(2) show False by (simp add: locator_ok_def)
    qed
  qed
  with assms(1) show ?thesis by (simp add: locator_between_less_iff)
qed

section \<open>Dense position identifiers\<close>

text \<open>
  What the buffer relies on when it gives a new fragment a position between two others: a total order,
  an operation that returns something strictly between two ordered positions, and a class of
  positions closed under it. \<open>chain n\<close> is \<open>n\<close> successive insertions before a fixed right neighbour, the
  pattern of \<^verbatim>\<open>push_fragments_for_insertion\<close>.
\<close>

locale dense_ids =
  fixes between :: "'i::linorder \<Rightarrow> 'i \<Rightarrow> 'i" and ok :: "'i \<Rightarrow> bool"
  assumes above: "a < between a b"
    and below: "a < b \<Longrightarrow> ok b \<Longrightarrow> between a b < b"
    and ok_between: "ok (between a b)"
begin

primrec chain :: "'i \<Rightarrow> 'i \<Rightarrow> nat \<Rightarrow> 'i list" where
  "chain a b 0 = []"
| "chain a b (Suc n) = between a b # chain (between a b) b n"

lemma chain_bounds:
  assumes "a < b" "ok b" "x \<in> set (chain a b n)"
  shows "a < x \<and> x < b \<and> ok x"
  using assms
proof (induction n arbitrary: a)
  case (Suc n)
  then show ?case using above [of a b] below [of a b] ok_between by fastforce
qed simp

lemma chain_sorted: "a < b \<Longrightarrow> ok b \<Longrightarrow> sorted_wrt (<) (chain a b n)"
proof (induction n arbitrary: a)
  case (Suc n)
  then have "between a b < b" by (simp add: below)
  then have "sorted_wrt (<) (chain (between a b) b n)" using Suc by blast
  moreover have "\<forall>x \<in> set (chain (between a b) b n). between a b < x"
    using chain_bounds [OF \<open>between a b < b\<close> \<open>ok b\<close>] by blast
  ultimately show ?case by simp
qed simp

end

interpretation locators: dense_ids locator_between locator_ok
  by unfold_locales (rule locator_between_greater, erule (1) locator_between_less, rule locator_between_ok)

section \<open>Sequential insertion keeps locators short\<close>

lemma between_digits_single:
  "2 ^ 48 \<le> unat r - unat l \<Longrightarrow> between_digits [l] [r] = [mid_digit l r]"
proof -
  assume "2 ^ 48 \<le> unat r - unat l"
  then have "1 \<le> (unat r - unat l) div 2 ^ 48" by (simp add: div_greater_zero_iff Suc_le_eq)
  then have "l < mid_digit l r" by (simp add: word_less_nat_alt unat_mid_digit)
  then show ?thesis by (subst between_digits.simps) (simp add: head_or_def)
qed

primrec append_forward :: "locator \<Rightarrow> nat \<Rightarrow> locator" where
  "append_forward l 0 = l"
| "append_forward l (Suc n) = locator_between (append_forward l n) locator_max"

lemma append_forward_single:
  "n \<le> 2 ^ 47 \<Longrightarrow> \<exists>d. append_forward locator_min n = Locator [d] \<and> unat d \<le> n * 65536"
proof (induction n)
  case 0
  then show ?case by (simp add: locator_min_def)
next
  case (Suc n)
  then obtain d where d: "append_forward locator_min n = Locator [d]" "unat d \<le> n * 65536" by auto
  have m: "unat (- 1 :: u64) = 2 ^ 64 - 1" by (simp add: unsigned_minus_1_eq_mask mask_eq_exp_minus_1)
  have "unat d \<le> 2 ^ 47 * 65536" using d(2) Suc.prems by simp
  then have "2 ^ 48 \<le> unat (- 1 :: u64) - unat d" unfolding m by simp
  moreover have "unat (mid_digit d (- 1)) \<le> Suc n * 65536"
  proof -
    have "(unat (- 1 :: u64) - unat d) div 2 ^ 48 \<le> (2 ^ 64 - 1) div 2 ^ 48"
      unfolding m by (rule div_le_mono) simp
    then show ?thesis using d(2) by (simp add: unat_mid_digit)
  qed
  ultimately show ?case
    using d(1) by (simp add: locator_between_def locator_max_def between_digits_single)
qed

end
