(* ===== verification/Sum_Tree.thy ===== *)
theory Sum_Tree
  imports Prelude "HOL-Library.Monad_Syntax"
begin

text \<open>
  The B+ tree of \<^verbatim>\<open>crates/sum_tree/src/sum_tree.rs\<close>: leaves hold items and their summaries, internal
  nodes hold children and their summaries, and every node carries the sum of its subtree.

  The traits \<^verbatim>\<open>Item\<close> and \<^verbatim>\<open>Summary\<close>, at the context the call passes, are a record of operations that
  every function takes as its first argument. A result \<open>None\<close> is a panic of the source: an
  \<^verbatim>\<open>unwrap\<close> of an empty child list, a node accessor applied to the other kind of node, an array of
  capacity \<open>2 * TREE_BASE\<close> asked to hold more, or a height subtraction that underflows. Reference
  counts (\<^verbatim>\<open>Arc\<close>) and copy-on-write are not visible in a functional model; heights are natural
  numbers, the source's \<^verbatim>\<open>u8\<close> being wide enough for any tree that fits in memory.

  The locale \<open>summary_laws\<close> states what \<^verbatim>\<open>Summary\<close> implementations promise: addition is associative
  and \<^verbatim>\<open>zero\<close> is a left identity. A right identity is not asked for, because key summaries
  (\<^verbatim>\<open>add_summary\<close> replaces \<^verbatim>\<open>self\<close>) do not have one. Under these laws every operation on well-formed
  trees returns (no panic), is well formed again, and acts on the sequence of items as the name of
  the operation says.
\<close>

section \<open>Traits and nodes\<close>

record ('a, 's) item_impl =
  szero :: 's
  sadd :: "'s \<Rightarrow> 's \<Rightarrow> 's"
  summarize :: "'a \<Rightarrow> 's"

datatype bias = Left | Right

fun bias_invert :: "bias \<Rightarrow> bias" where
  "bias_invert Left = Right"
| "bias_invert Right = Left"

datatype ('a, 's) sum_tree =
    Internal (node_height: nat) (summary: 's) (node_summaries: "'s list")
      (node_trees: "('a, 's) sum_tree list")
  | Leaf (summary: 's) (leaf_items: "'a list") (leaf_summaries: "'s list")

definition TREE_BASE :: nat where
  "TREE_BASE = 6"

text \<open>Collecting into, pushing onto or extending an \<^verbatim>\<open>ArrayVec\<close> of capacity \<open>2 * TREE_BASE\<close>.\<close>

definition array_vec :: "'x list \<Rightarrow> 'x list option" where
  "array_vec xs = (if length xs \<le> 2 * TREE_BASE then Some xs else None)"

fun is_leaf :: "('a, 's) sum_tree \<Rightarrow> bool" where
  "is_leaf (Leaf _ _ _) = True"
| "is_leaf (Internal _ _ _ _) = False"

fun height :: "('a, 's) sum_tree \<Rightarrow> nat" where
  "height (Internal h _ _ _) = h"
| "height (Leaf _ _ _) = 0"

fun child_summaries :: "('a, 's) sum_tree \<Rightarrow> 's list" where
  "child_summaries (Internal _ _ css _) = css"
| "child_summaries (Leaf _ _ iss) = iss"

fun child_trees :: "('a, 's) sum_tree \<Rightarrow> ('a, 's) sum_tree list option" where
  "child_trees (Internal _ _ _ cts) = Some cts"
| "child_trees (Leaf _ _ _) = None"

fun node_items :: "('a, 's) sum_tree \<Rightarrow> 'a list option" where
  "node_items (Leaf _ its _) = Some its"
| "node_items (Internal _ _ _ _) = None"

fun is_underflowing :: "('a, 's) sum_tree \<Rightarrow> bool" where
  "is_underflowing (Internal _ _ _ cts) \<longleftrightarrow> length cts < TREE_BASE"
| "is_underflowing (Leaf _ its _) \<longleftrightarrow> length its < TREE_BASE"

definition ssum :: "('a, 's) item_impl \<Rightarrow> 's list \<Rightarrow> 's" where
  "ssum D ss = foldl (sadd D) (szero D) ss"

fun is_empty :: "('a, 's) sum_tree \<Rightarrow> bool" where
  "is_empty (Internal _ _ _ _) = False"
| "is_empty (Leaf _ its _) \<longleftrightarrow> its = []"

definition st_new :: "('a, 's) item_impl \<Rightarrow> ('a, 's) sum_tree" where
  "st_new D = Leaf (szero D) [] []"

definition st_from_summary :: "'s \<Rightarrow> ('a, 's) sum_tree" where
  "st_from_summary s = Leaf s [] []"

lemma size_child [termination_simp]:
  "t \<in> set ts \<Longrightarrow> size t < Suc (size_list size ts)"
  by (induction ts) auto

lemma size_end_child [termination_simp]:
  "ts \<noteq> [] \<Longrightarrow> size (last ts) < Suc (n + size_list size ts)"
  "ts \<noteq> [] \<Longrightarrow> size (hd ts) < Suc (n + size_list size ts)"
  by (meson size_child last_in_set hd_in_set less_le_trans Suc_le_mono le_add2)+

fun leftmost_leaf :: "('a, 's) sum_tree \<Rightarrow> ('a, 's) sum_tree option" where
  "leftmost_leaf (Leaf s its iss) = Some (Leaf s its iss)"
| "leftmost_leaf (Internal h s css []) = None"
| "leftmost_leaf (Internal h s css (c # cts)) = leftmost_leaf c"

function (sequential) rightmost_leaf :: "('a, 's) sum_tree \<Rightarrow> ('a, 's) sum_tree option" where
  "rightmost_leaf (Leaf s its iss) = Some (Leaf s its iss)"
| "rightmost_leaf (Internal h s css cts) =
     (if cts = [] then None else rightmost_leaf (last cts))"
  by pat_completeness auto
termination by (relation "measure size") (auto simp: size_end_child)

definition first :: "('a, 's) sum_tree \<Rightarrow> 'a option option" where
  "first t = do { leaf \<leftarrow> leftmost_leaf t; its \<leftarrow> node_items leaf;
                  Some (if its = [] then None else Some (hd its)) }"

definition last_item :: "('a, 's) sum_tree \<Rightarrow> 'a option option" where
  "last_item t = do { leaf \<leftarrow> rightmost_leaf t; its \<leftarrow> node_items leaf;
                      Some (if its = [] then None else Some (last its)) }"

definition last_summary :: "('a, 's) sum_tree \<Rightarrow> 's option option" where
  "last_summary t = do { leaf \<leftarrow> rightmost_leaf t;
                         Some (if child_summaries leaf = [] then None
                               else Some (last (child_summaries leaf))) }"

section \<open>Appending\<close>

text \<open>
  How \<^verbatim>\<open>push_tree_recursive\<close> adds entries to a node: in place when they fit, otherwise by splitting the
  entries in two halves, the second of which becomes a new right sibling.
\<close>

definition grow_internal ::
  "('a, 's) item_impl \<Rightarrow> nat \<Rightarrow> 's \<Rightarrow> 's list \<Rightarrow> ('a, 's) sum_tree list \<Rightarrow>
   's list \<Rightarrow> ('a, 's) sum_tree list \<Rightarrow> (('a, 's) sum_tree \<times> ('a, 's) sum_tree option) option" where
  "grow_internal D h s' css cts sums trees =
     (let child_count = length cts + length trees in
      if 2 * TREE_BASE < child_count then do {
        let midpoint = (child_count + child_count mod 2) div 2;
        left_summaries \<leftarrow> array_vec (take midpoint (css @ sums));
        right_summaries \<leftarrow> array_vec (drop midpoint (css @ sums));
        left_trees \<leftarrow> array_vec (take midpoint (cts @ trees));
        right_trees \<leftarrow> array_vec (drop midpoint (cts @ trees));
        Some (Internal h (ssum D left_summaries) left_summaries left_trees,
              Some (Internal h (ssum D right_summaries) right_summaries right_trees))
      } else do {
        all_summaries \<leftarrow> array_vec (css @ sums);
        all_trees \<leftarrow> array_vec (cts @ trees);
        Some (Internal h s' all_summaries all_trees, None)
      })"

definition grow_leaf ::
  "('a, 's) item_impl \<Rightarrow> 's \<Rightarrow> 'a list \<Rightarrow> 's list \<Rightarrow> 's \<Rightarrow> 'a list \<Rightarrow> 's list \<Rightarrow>
   (('a, 's) sum_tree \<times> ('a, 's) sum_tree option) option" where
  "grow_leaf D s its iss other_summary other_items other_summaries =
     (let child_count = length its + length other_items in
      if 2 * TREE_BASE < child_count then do {
        let midpoint = (child_count + child_count mod 2) div 2;
        left_items \<leftarrow> array_vec (take midpoint (its @ other_items));
        right_items \<leftarrow> array_vec (drop midpoint (its @ other_items));
        left_summaries \<leftarrow> array_vec (take midpoint (iss @ other_summaries));
        right_summaries \<leftarrow> array_vec (drop midpoint (iss @ other_summaries));
        Some (Leaf (ssum D left_summaries) left_items left_summaries,
              Some (Leaf (ssum D right_summaries) right_items right_summaries))
      } else do {
        all_items \<leftarrow> array_vec (its @ other_items);
        all_summaries \<leftarrow> array_vec (iss @ other_summaries);
        Some (Leaf (sadd D s other_summary) all_items all_summaries, None)
      })"

text \<open>
  \<^verbatim>\<open>push_tree_recursive\<close> appends a tree that is no higher than \<^verbatim>\<open>self\<close>. It returns the updated node
  and, when the node had to split, its new right sibling.
\<close>

function (sequential) push_tree_recursive ::
  "('a, 's) item_impl \<Rightarrow> ('a, 's) sum_tree \<Rightarrow> ('a, 's) sum_tree \<Rightarrow>
   (('a, 's) sum_tree \<times> ('a, 's) sum_tree option) option" where
  "push_tree_recursive D (Internal h s css cts) other =
     (let s' = sadd D s (summary other) in
      if h < height other then None else
      do {
        (css', cts', sums, trees) \<leftarrow>
          (if h - height other = 0 then
             do { ocs \<leftarrow> child_trees other; Some (css, cts, child_summaries other, ocs) }
           else if h - height other = 1 \<and> \<not> is_underflowing other then
             Some (css, cts, [summary other], [other])
           else if cts = [] \<or> css = [] then None
           else do {
             (l, split) \<leftarrow> push_tree_recursive D (last cts) other;
             Some (butlast css @ [summary l], butlast cts @ [l],
                   (case split of None \<Rightarrow> [] | Some t \<Rightarrow> [summary t]),
                   (case split of None \<Rightarrow> [] | Some t \<Rightarrow> [t])) });
        grow_internal D h s' css' cts' sums trees
      })"
| "push_tree_recursive D (Leaf s its iss) other =
     do {
       other_items \<leftarrow> node_items other;
       grow_leaf D s its iss (summary other) other_items (child_summaries other)
     }"
  by pat_completeness auto
termination
  by (relation "measure (\<lambda>(D, t, other). size t)") (auto simp: size_end_child)

text \<open>
  \<^verbatim>\<open>merge_into_right\<close> and \<^verbatim>\<open>append_large\<close> return the optional left sibling and the updated \<^verbatim>\<open>large\<close>.
\<close>

definition split_merge :: "nat \<Rightarrow> nat" where
  "split_merge count = (count + 1) div 2"

fun merge_into_right ::
  "('a, 's) item_impl \<Rightarrow> ('a, 's) sum_tree \<Rightarrow> ('a, 's) sum_tree \<Rightarrow>
   (('a, 's) sum_tree option \<times> ('a, 's) sum_tree) option" where
  "merge_into_right D (Internal sh ss scs sts) (Internal h s css cts) =
     (let count = length cts + length sts in
      if count \<le> 2 * TREE_BASE then do {
        all_trees \<leftarrow> array_vec (sts @ cts);
        all_summaries \<leftarrow> array_vec (scs @ css);
        Some (None, Internal h (sadd D ss s) all_summaries all_trees)
      } else do {
        left_trees \<leftarrow> array_vec (take (split_merge count) (sts @ cts));
        right_trees \<leftarrow> array_vec (drop (split_merge count) (sts @ cts));
        left_summaries \<leftarrow> array_vec (take (split_merge count) (scs @ css));
        right_summaries \<leftarrow> array_vec (drop (split_merge count) (scs @ css));
        Some (Some (Internal h (ssum D left_summaries) left_summaries left_trees),
              Internal h (ssum D right_summaries) right_summaries right_trees)
      })"
| "merge_into_right D (Leaf ss sis sss) (Leaf s its iss) =
     (let count = length sis + length its in
      if count \<le> 2 * TREE_BASE then do {
        all_items \<leftarrow> array_vec (sis @ its);
        all_summaries \<leftarrow> array_vec (sss @ iss);
        Some (None, Leaf (sadd D ss s) all_items all_summaries)
      } else do {
        left_items \<leftarrow> array_vec (take (split_merge count) (sis @ its));
        right_items \<leftarrow> array_vec (drop (split_merge count) (sis @ its));
        left_summaries \<leftarrow> array_vec (take (split_merge count) (sss @ iss));
        right_summaries \<leftarrow> array_vec (drop (split_merge count) (sss @ iss));
        Some (Some (Leaf (ssum D left_summaries) left_items left_summaries),
              Leaf (ssum D right_summaries) right_items right_summaries)
      })"
| "merge_into_right D _ _ = None"

function (sequential) append_large ::
  "('a, 's) item_impl \<Rightarrow> ('a, 's) sum_tree \<Rightarrow> ('a, 's) sum_tree \<Rightarrow>
   (('a, 's) sum_tree option \<times> ('a, 's) sum_tree) option" where
  "append_large D small (Internal h s css cts) =
     (if height small = h then
        (if \<not> is_underflowing small then Some (Some small, Internal h s css cts)
         else merge_into_right D small (Internal h s css cts))
      else if cts = [] \<or> css = [] then None
      else do {
        let full_summary = sadd D (summary small) s;
        (res, fst') \<leftarrow> append_large D small (hd cts);
        let css' = summary fst' # tl css;
        let cts' = fst' # tl cts;
        (case res of
           None \<Rightarrow> Some (None, Internal h full_summary css' cts')
         | Some tree \<Rightarrow>
             (if length cts' < 2 * TREE_BASE then do {
                all_summaries \<leftarrow> array_vec (summary tree # css');
                all_trees \<leftarrow> array_vec (tree # cts');
                Some (None, Internal h full_summary all_summaries all_trees)
              } else do {
                new_child_summaries \<leftarrow> array_vec (summary tree # take TREE_BASE css');
                new_child_trees \<leftarrow> array_vec (tree # take TREE_BASE cts');
                Some (Some (Internal h (ssum D new_child_summaries) new_child_summaries new_child_trees),
                      Internal h (ssum D (drop TREE_BASE css')) (drop TREE_BASE css')
                        (drop TREE_BASE cts'))
              }))
      })"
| "append_large D small (Leaf s its iss) =
     (if height small = 0 then
        (if \<not> is_underflowing small then Some (Some small, Leaf s its iss)
         else merge_into_right D small (Leaf s its iss))
      else None)"
  by pat_completeness auto
termination
  by (relation "measure (\<lambda>(D, small, t). size t)") (auto simp: size_end_child)

definition from_child_trees ::
  "('a, 's) item_impl \<Rightarrow> ('a, 's) sum_tree \<Rightarrow> ('a, 's) sum_tree \<Rightarrow> ('a, 's) sum_tree" where
  "from_child_trees D left right =
     Internal (height left + 1) (ssum D [summary left, summary right])
       [summary left, summary right] [left, right]"

definition append_tree ::
  "('a, 's) item_impl \<Rightarrow> ('a, 's) sum_tree \<Rightarrow> ('a, 's) sum_tree \<Rightarrow> ('a, 's) sum_tree option" where
  "append_tree D self other =
     (if is_empty self then Some other
      else if is_empty other then Some self
      else if height self < height other then do {
        (res, other') \<leftarrow> append_large D self other;
        Some (case res of None \<Rightarrow> other' | Some tree \<Rightarrow> from_child_trees D tree other')
      } else do {
        (self', split) \<leftarrow> push_tree_recursive D self other;
        Some (case split of None \<Rightarrow> self' | Some tree \<Rightarrow> from_child_trees D self' tree)
      })"

definition push ::
  "('a, 's) item_impl \<Rightarrow> ('a, 's) sum_tree \<Rightarrow> 'a \<Rightarrow> ('a, 's) sum_tree option" where
  "push D self x = append_tree D self (Leaf (summarize D x) [x] [summarize D x])"

definition st_from_item :: "('a, 's) item_impl \<Rightarrow> 'a \<Rightarrow> ('a, 's) sum_tree option" where
  "st_from_item D x = push D (st_new D) x"

section \<open>The items of a tree and well-formed trees\<close>

fun tree_items :: "('a, 's) sum_tree \<Rightarrow> 'a list" where
  "tree_items (Leaf s its iss) = its"
| "tree_items (Internal h s css cts) = concat (map tree_items cts)"

text \<open>
  A node of height \<open>n\<close>: between one and \<open>2 * TREE_BASE\<close> entries, the cached summaries are those of the
  entries, and every child is a node of height \<open>n - 1\<close>. A tree is a node, or the empty leaf.
\<close>

fun wf_node :: "('a, 's) item_impl \<Rightarrow> nat \<Rightarrow> ('a, 's) sum_tree \<Rightarrow> bool" where
  "wf_node D n (Leaf s its iss) \<longleftrightarrow>
     n = 0 \<and> its \<noteq> [] \<and> length its \<le> 2 * TREE_BASE \<and>
     iss = map (summarize D) its \<and> s = ssum D iss"
| "wf_node D n (Internal h s css cts) \<longleftrightarrow>
     n = h \<and> 0 < h \<and> cts \<noteq> [] \<and> length cts \<le> 2 * TREE_BASE \<and>
     css = map summary cts \<and> s = ssum D css \<and> list_all (wf_node D (h - 1)) cts"

definition wf_tree :: "('a, 's) item_impl \<Rightarrow> ('a, 's) sum_tree \<Rightarrow> bool" where
  "wf_tree D t \<longleftrightarrow> t = st_new D \<or> wf_node D (height t) t"

lemma wf_node_height: "wf_node D n t \<Longrightarrow> height t = n"
  by (cases t) auto

lemma wf_node_items: "wf_node D n t \<Longrightarrow> tree_items t \<noteq> []"
proof (induction t arbitrary: n)
  case (Internal h s css cts)
  then obtain c cts' where "cts = c # cts'" by (cases cts) auto
  with Internal show ?case by auto
qed auto

lemma wf_node_not_empty: "wf_node D n t \<Longrightarrow> \<not> is_empty t"
  by (cases t) auto

lemma wf_tree_new [simp, intro]: "wf_tree D (st_new D)"
  by (simp add: wf_tree_def)

lemma wf_treeI [intro]: "wf_node D n t \<Longrightarrow> wf_tree D t"
  by (metis wf_node_height wf_tree_def)

lemma wf_treeE [elim?]:
  assumes "wf_tree D t"
  obtains (empty) "t = st_new D" "is_empty t" "tree_items t = []"
    | (node) "wf_node D (height t) t" "\<not> is_empty t" "tree_items t \<noteq> []"
  using assms wf_node_items wf_node_not_empty by (fastforce simp: wf_tree_def st_new_def)

lemma tree_items_st_new [simp]: "tree_items (st_new D) = []"
  by (simp add: st_new_def)

lemma is_empty_iff: "wf_tree D t \<Longrightarrow> is_empty t \<longleftrightarrow> tree_items t = []"
  by (elim wf_treeE) auto

lemma wf_node_0D: "wf_node D 0 t \<Longrightarrow> \<exists>s its iss. t = Leaf s its iss"
  by (cases t) auto

lemma wf_node_SucD: "wf_node D n t \<Longrightarrow> 0 < n \<Longrightarrow> \<exists>s css cts. t = Internal n s css cts"
  by (cases t) auto

lemma array_vec_Some [simp]: "length xs \<le> 2 * TREE_BASE \<Longrightarrow> array_vec xs = Some xs"
  by (simp add: array_vec_def)

section \<open>The laws of summaries\<close>

locale summary_laws =
  fixes D :: "('a, 's) item_impl"
  assumes sadd_assoc: "sadd D (sadd D a b) c = sadd D a (sadd D b c)"
    and sadd_left_zero: "sadd D (szero D) a = a"
begin

definition smry :: "'a list \<Rightarrow> 's" where
  "smry xs = ssum D (map (summarize D) xs)"

lemma foldl_sadd: "foldl (sadd D) (sadd D a b) ss = sadd D a (foldl (sadd D) b ss)"
  by (induction ss arbitrary: b) (simp_all add: sadd_assoc)

lemma ssum_single [simp]: "ssum D [s] = s"
  by (simp add: ssum_def sadd_left_zero)

lemma ssum_append: "ts \<noteq> [] \<Longrightarrow> ssum D (ss @ ts) = sadd D (ssum D ss) (ssum D ts)"
  by (cases ts) (auto simp: ssum_def foldl_sadd sadd_left_zero)

lemma ssum_Cons: "ss \<noteq> [] \<Longrightarrow> ssum D (s # ss) = sadd D s (ssum D ss)"
  using ssum_append [of ss "[s]"] by simp

lemma ssum_hd_tl: "ss \<noteq> [] \<Longrightarrow> foldl (sadd D) (hd ss) (tl ss) = ssum D ss"
  by (cases ss) (auto simp: ssum_def sadd_left_zero)

lemma smry_append: "ys \<noteq> [] \<Longrightarrow> smry (xs @ ys) = sadd D (smry xs) (smry ys)"
  by (simp add: smry_def ssum_append)

lemma ssum_summaries:
  assumes "ts \<noteq> []" "\<And>t. t \<in> set ts \<Longrightarrow> summary t = smry (tree_items t) \<and> tree_items t \<noteq> []"
  shows "ssum D (map summary ts) = smry (concat (map tree_items ts))"
  using assms
proof (induction ts rule: list_nonempty_induct)
  case (single t)
  then show ?case by simp
next
  case (cons t ts)
  moreover obtain t' ts' where "ts = t' # ts'" using cons.hyps by (cases ts) auto
  ultimately have "concat (map tree_items ts) \<noteq> []" by simp
  with cons show ?case by (simp add: ssum_Cons smry_append)
qed

lemma wf_node_summary: "wf_node D n t \<Longrightarrow> summary t = smry (tree_items t)"
proof (induction t arbitrary: n)
  case (Internal h s css cts)
  then have "summary t = smry (tree_items t) \<and> tree_items t \<noteq> []" if "t \<in> set cts" for t
    using that wf_node_items by (force simp: list_all_iff)
  then show ?case using Internal.prems by (auto intro: ssum_summaries)
qed (simp add: smry_def)

theorem wf_tree_summary: "wf_tree D t \<Longrightarrow> summary t = smry (tree_items t)"
  by (elim wf_treeE) (auto simp: wf_node_summary st_new_def smry_def ssum_def)

lemma kids_summary:
  "list_all (wf_node D n) ts \<Longrightarrow> ts \<noteq> [] \<Longrightarrow> ssum D (map summary ts) = smry (concat (map tree_items ts))"
  by (rule ssum_summaries) (auto simp: list_all_iff wf_node_summary wf_node_items)

text \<open>A node built from children of the right height is well formed when its summary is right.\<close>

lemma wf_InternalI:
  assumes "list_all (wf_node D n) ts" "ts \<noteq> []" "length ts \<le> 2 * TREE_BASE"
    and "s = smry (concat (map tree_items ts))"
  shows "wf_node D (Suc n) (Internal (Suc n) s (map summary ts) ts)"
  using assms kids_summary by simp

lemma wf_InternalI':
  assumes "list_all (wf_node D n) ts" "ts \<noteq> []" "length ts \<le> 2 * TREE_BASE"
  shows "wf_node D (Suc n) (Internal (Suc n) (ssum D (map summary ts)) (map summary ts) ts)"
  using assms by simp

lemma wf_LeafI:
  assumes "its \<noteq> []" "length its \<le> 2 * TREE_BASE" "s = smry its"
  shows "wf_node D 0 (Leaf s its (map (summarize D) its))"
  using assms by (simp add: smry_def)

text \<open>The outcome of growing a node: the node and, if it split, its right sibling, with the items given.\<close>

definition grown :: "nat \<Rightarrow> ('a, 's) sum_tree \<Rightarrow> ('a, 's) sum_tree option \<Rightarrow> 'a list \<Rightarrow> bool" where
  "grown n l r xs \<longleftrightarrow> wf_node D n l \<and>
     (case r of None \<Rightarrow> tree_items l = xs
      | Some t \<Rightarrow> wf_node D n t \<and> tree_items l @ tree_items t = xs)"

lemma half_bounds:
  assumes "2 * TREE_BASE < c" "c \<le> 4 * TREE_BASE"
  shows "0 < (c + c mod 2) div 2" "(c + c mod 2) div 2 < c"
    "(c + c mod 2) div 2 \<le> 2 * TREE_BASE" "c - (c + c mod 2) div 2 \<le> 2 * TREE_BASE"
  using assms by (auto simp: TREE_BASE_def)

lemma concat_take_drop: "concat (map f (take n xs)) @ concat (map f (drop n xs)) = concat (map f xs)"
  by (metis append_take_drop_id concat_append map_append)

lemma list_all_take_drop: "list_all P xs \<Longrightarrow> list_all P (take n xs) \<and> list_all P (drop n xs)"
  by (auto simp: list_all_iff dest: in_set_takeD in_set_dropD)

definition node_of :: "nat \<Rightarrow> ('a, 's) sum_tree list \<Rightarrow> ('a, 's) sum_tree" where
  "node_of n ts = Internal (Suc n) (ssum D (map summary ts)) (map summary ts) ts"

definition leaf_of :: "'a list \<Rightarrow> ('a, 's) sum_tree" where
  "leaf_of xs = Leaf (ssum D (map (summarize D) xs)) xs (map (summarize D) xs)"

lemma wf_halves_internal:
  assumes "list_all (wf_node D n) ts" "0 < m" "m < length ts"
    "m \<le> 2 * TREE_BASE" "length ts - m \<le> 2 * TREE_BASE"
  shows "wf_node D (Suc n) (node_of n (take m ts))" "wf_node D (Suc n) (node_of n (drop m ts))"
  unfolding node_of_def
  using assms list_all_take_drop [OF assms(1), of m] by (auto intro!: wf_InternalI' simp del: wf_node.simps)

lemma wf_halves_leaf:
  assumes "0 < m" "m < length xs" "m \<le> 2 * TREE_BASE" "length xs - m \<le> 2 * TREE_BASE"
  shows "wf_node D 0 (leaf_of (take m xs))" "wf_node D 0 (leaf_of (drop m xs))"
  unfolding leaf_of_def using assms by auto

lemma tree_items_node_of [simp]: "tree_items (node_of n ts) = concat (map tree_items ts)"
  by (simp add: node_of_def)

lemma tree_items_leaf_of [simp]: "tree_items (leaf_of xs) = xs"
  by (simp add: leaf_of_def)

lemma grow_internal_ok:
  assumes kids: "list_all (wf_node D n) (cts @ trees)" "cts \<noteq> []"
    and len: "length cts \<le> 2 * TREE_BASE" "length trees \<le> 2 * TREE_BASE"
    and sums: "css = map summary cts" "sums = map summary trees"
    and s': "s' = smry (concat (map tree_items (cts @ trees)))"
  shows "\<exists>l r. grow_internal D (Suc n) s' css cts sums trees = Some (l, r) \<and>
           grown (Suc n) l r (concat (map tree_items (cts @ trees)))"
proof (cases "2 * TREE_BASE < length cts + length trees")
  case True
  define ts where "ts = cts @ trees"
  define m where "m = (length ts + length ts mod 2) div 2"
  have m: "0 < m" "m < length ts" "m \<le> 2 * TREE_BASE" "length ts - m \<le> 2 * TREE_BASE"
    using half_bounds [of "length ts"] True len unfolding m_def ts_def by auto
  have "grow_internal D (Suc n) s' css cts sums trees =
      Some (node_of n (take m ts), Some (node_of n (drop m ts)))"
    using True m(3,4) sums
    by (simp add: grow_internal_def Let_def node_of_def take_map drop_map
        flip: m_def ts_def map_append length_append)
  then show ?thesis
    using wf_halves_internal [OF _ m] kids(1) concat_take_drop [of tree_items m ts]
    by (simp add: grown_def ts_def)
next
  case False
  then have "wf_node D (Suc n) (Internal (Suc n) s' (map summary (cts @ trees)) (cts @ trees))"
    using kids s' by (intro wf_InternalI) auto
  then show ?thesis
    using False len sums by (simp add: grow_internal_def grown_def)
qed

lemma grow_leaf_ok:
  assumes "its \<noteq> []" "other_items \<noteq> []"
    and len: "length its \<le> 2 * TREE_BASE" "length other_items \<le> 2 * TREE_BASE"
    and sums: "iss = map (summarize D) its" "ois = map (summarize D) other_items"
    and s: "s = smry its" "os = smry other_items"
  shows "\<exists>l r. grow_leaf D s its iss os other_items ois = Some (l, r) \<and>
           grown 0 l r (its @ other_items)"
proof (cases "2 * TREE_BASE < length its + length other_items")
  case True
  define xs where "xs = its @ other_items"
  define m where "m = (length xs + length xs mod 2) div 2"
  have m: "0 < m" "m < length xs" "m \<le> 2 * TREE_BASE" "length xs - m \<le> 2 * TREE_BASE"
    using half_bounds [of "length xs"] True len unfolding m_def xs_def by auto
  have "grow_leaf D s its iss os other_items ois = Some (leaf_of (take m xs), Some (leaf_of (drop m xs)))"
    using True m(3,4) sums
    by (simp add: grow_leaf_def Let_def leaf_of_def take_map drop_map
        flip: m_def xs_def map_append length_append)
  then show ?thesis
    using wf_halves_leaf [OF m] by (simp add: grown_def flip: xs_def)
next
  case False
  have "wf_node D 0 (Leaf (sadd D s os) (its @ other_items) (map (summarize D) (its @ other_items)))"
    using False assms by (intro wf_LeafI) (auto simp: smry_append)
  then show ?thesis
    using False len sums by (simp add: grow_leaf_def grown_def)
qed

lemma wf_node_other_children:
  assumes "wf_node D (Suc n) t"
  obtains cts where "child_trees t = Some cts" "child_summaries t = map summary cts"
    "list_all (wf_node D n) cts" "cts \<noteq> []" "length cts \<le> 2 * TREE_BASE"
    "tree_items t = concat (map tree_items cts)"
  using assms by (cases t) auto

lemma concat_butlast_last:
  "cts \<noteq> [] \<Longrightarrow> concat (map f cts) = concat (map f (butlast cts)) @ f (last cts)"
  by (induction cts) auto

lemma push_tree_recursive_ok:
  assumes "wf_node D n self" "wf_node D m other" "m \<le> n"
  shows "\<exists>l r. push_tree_recursive D self other = Some (l, r) \<and>
           grown n l r (tree_items self @ tree_items other)"
  using assms
proof (induction self arbitrary: n)
  case (Internal h s css cts)
  then obtain k where k: "h = Suc k" "n = Suc k" by (cases h) auto
  have self: "list_all (wf_node D k) cts" "cts \<noteq> []" "css \<noteq> []" "length cts \<le> 2 * TREE_BASE"
      "css = map summary cts" "s = smry (concat (map tree_items cts))"
    using Internal.prems(1) kids_summary [of k cts] by (auto simp: k)
  have hm: "height other = m" using Internal.prems(2) by (rule wf_node_height)
  have so: "summary other = smry (tree_items other)" "tree_items other \<noteq> []"
    using wf_node_summary [OF Internal.prems(2)] wf_node_items [OF Internal.prems(2)] by simp_all
  have s': "sadd D s (summary other) = smry (concat (map tree_items cts) @ tree_items other)"
    using self so by (simp add: smry_append)
  consider (same) "m = Suc k" | (child) "m = k" "\<not> is_underflowing other"
    | (deep) "m \<le> k" "\<not> (m = k \<and> \<not> is_underflowing other)"
    using Internal.prems(3) k by fastforce
  then show ?case
  proof cases
    case same
    obtain ots where ots: "child_trees other = Some ots" "child_summaries other = map summary ots"
        "list_all (wf_node D k) ots" "ots \<noteq> []" "length ots \<le> 2 * TREE_BASE"
        "tree_items other = concat (map tree_items ots)"
      using wf_node_other_children [of k other] Internal.prems(2) same by blast
    show ?thesis
      using grow_internal_ok [of k cts ots css "map summary ots" "sadd D s (summary other)"] self ots s' k same hm
      by simp
  next
    case child
    then show ?thesis
      using grow_internal_ok [of k cts "[other]" css "[summary other]" "sadd D s (summary other)"]
        self s' k hm Internal.prems(2) by (simp add: TREE_BASE_def)
  next
    case deep
    have last: "wf_node D k (last cts)" using self(1,2) by (simp add: list_all_iff)
    obtain l r where lr: "push_tree_recursive D (last cts) other = Some (l, r)"
        "grown k l r (tree_items (last cts) @ tree_items other)"
      using Internal.IH [of "last cts" k] last Internal.prems(2) deep(1) self(2) by auto
    define trees where "trees = (case r of None \<Rightarrow> [] | Some t \<Rightarrow> [t])"
    have items: "concat (map tree_items ((butlast cts @ [l]) @ trees)) = concat (map tree_items cts) @ tree_items other"
      using lr(2) self(2) by (auto simp: grown_def trees_def concat_butlast_last split: option.splits)
    have "list_all (wf_node D k) ((butlast cts @ [l]) @ trees)"
      using lr(2) self(1) by (auto simp: grown_def trees_def list_all_iff dest: in_set_butlastD split: option.splits)
    moreover have "(case r of None \<Rightarrow> [] | Some t \<Rightarrow> [summary t]) = map summary trees"
      by (simp add: trees_def split: option.splits)
    moreover have "butlast css @ [summary l] = map summary (butlast cts @ [l])"
      using self(5) by (simp add: map_butlast)
    moreover have "length trees \<le> 2 * TREE_BASE" "length (butlast cts @ [l]) \<le> 2 * TREE_BASE"
      using self(2,4) by (auto simp: trees_def TREE_BASE_def split: option.splits)
    ultimately show ?thesis
      using grow_internal_ok [of k "butlast cts @ [l]" trees "butlast css @ [summary l]" "map summary trees"
          "sadd D s (summary other)"] s' items lr(1) deep hm self(2,3) k
      by (auto simp flip: trees_def)
  qed
next
  case (Leaf s its iss)
  then have m0: "m = 0" "n = 0" by auto
  with Leaf.prems(2) obtain os oits oiss where other: "other = Leaf os oits oiss"
    using wf_node_0D by blast
  with m0 Leaf.prems show ?case
    using grow_leaf_ok [of its oits iss oiss s os] by (simp add: smry_def)
qed

text \<open>The outcome of prepending to a node: the node and, if it split, its new left sibling.\<close>

definition prepended :: "nat \<Rightarrow> ('a, 's) sum_tree option \<Rightarrow> ('a, 's) sum_tree \<Rightarrow> 'a list \<Rightarrow> bool" where
  "prepended n r l xs \<longleftrightarrow> wf_node D n l \<and>
     (case r of None \<Rightarrow> tree_items l = xs
      | Some t \<Rightarrow> wf_node D n t \<and> tree_items t @ tree_items l = xs)"

lemma split_merge_bounds:
  assumes "2 * TREE_BASE < c" "c \<le> 4 * TREE_BASE"
  shows "0 < split_merge c" "split_merge c < c" "split_merge c \<le> 2 * TREE_BASE"
    "c - split_merge c \<le> 2 * TREE_BASE"
  using assms by (auto simp: TREE_BASE_def split_merge_def)

lemma merge_into_right_internal:
  assumes "wf_node D (Suc n) (Internal sh ss scs sts)" "wf_node D (Suc n) (Internal h s css cts)"
  shows "\<exists>r l. merge_into_right D (Internal sh ss scs sts) (Internal h s css cts) = Some (r, l) \<and>
           prepended (Suc n) r l (concat (map tree_items (sts @ cts)))"
proof (cases "length cts + length sts \<le> 2 * TREE_BASE")
  case True
  have "wf_node D (Suc n) (Internal (Suc n) (sadd D ss s) (map summary (sts @ cts)) (sts @ cts))"
    using assms True kids_summary [of n "sts @ cts"] by (intro wf_InternalI) (auto simp: ssum_append)
  then show ?thesis using True assms by (simp add: prepended_def)
next
  case False
  define ts where "ts = sts @ cts"
  define m where "m = split_merge (length cts + length sts)"
  have m: "0 < m" "m < length ts" "m \<le> 2 * TREE_BASE" "length ts - m \<le> 2 * TREE_BASE"
    using split_merge_bounds [of "length cts + length sts"] False assms unfolding m_def ts_def by auto
  have "merge_into_right D (Internal sh ss scs sts) (Internal h s css cts) =
      Some (Some (node_of n (take m ts)), node_of n (drop m ts))"
    using False m(3,4) assms
    by (simp add: Let_def node_of_def take_map drop_map flip: m_def ts_def map_append)
  moreover have "list_all (wf_node D n) ts" using assms by (auto simp: ts_def)
  ultimately show ?thesis
    using wf_halves_internal [OF _ m] concat_take_drop [of tree_items m ts]
    by (simp add: prepended_def del: merge_into_right.simps flip: ts_def map_append)
qed

lemma merge_into_right_leaf:
  assumes "wf_node D 0 (Leaf ss sis sss)" "wf_node D 0 (Leaf s its iss)"
  shows "\<exists>r l. merge_into_right D (Leaf ss sis sss) (Leaf s its iss) = Some (r, l) \<and>
           prepended 0 r l (sis @ its)"
proof (cases "length sis + length its \<le> 2 * TREE_BASE")
  case True
  have "wf_node D 0 (Leaf (sadd D ss s) (sis @ its) (map (summarize D) (sis @ its)))"
    using assms True by (intro wf_LeafI) (auto simp: smry_def ssum_append)
  then show ?thesis using True assms by (simp add: prepended_def)
next
  case False
  define xs where "xs = sis @ its"
  define m where "m = split_merge (length xs)"
  have m: "0 < m" "m < length xs" "m \<le> 2 * TREE_BASE" "length xs - m \<le> 2 * TREE_BASE"
    using split_merge_bounds [of "length xs"] False assms unfolding m_def xs_def by auto
  have "merge_into_right D (Leaf ss sis sss) (Leaf s its iss) =
      Some (Some (leaf_of (take m xs)), leaf_of (drop m xs))"
    using False m(3,4) assms
    by (simp add: Let_def leaf_of_def take_map drop_map flip: m_def xs_def map_append length_append)
  then show ?thesis
    using wf_halves_leaf [OF m] by (simp add: prepended_def del: merge_into_right.simps flip: xs_def)
qed

lemma merge_into_right_ok:
  assumes "wf_node D n small" "wf_node D n large"
  shows "\<exists>r l. merge_into_right D small large = Some (r, l) \<and>
           prepended n r l (tree_items small @ tree_items large)"
proof (cases n)
  case 0
  with assms obtain ss sis sss s its iss where "small = Leaf ss sis sss" "large = Leaf s its iss"
    using wf_node_0D by metis
  with assms 0 show ?thesis using merge_into_right_leaf [of ss sis sss s its iss] by simp
next
  case (Suc k)
  with assms obtain ss scs sts s css cts where "small = Internal n ss scs sts" "large = Internal n s css cts"
    using wf_node_SucD [of D n] by (metis zero_less_Suc)
  with assms Suc show ?thesis
    using merge_into_right_internal [of k n ss scs sts n s css cts] by simp
qed

lemma append_large_ok:
  assumes "wf_node D m small" "wf_node D n large" "m \<le> n"
  shows "\<exists>r l. append_large D small large = Some (r, l) \<and>
           prepended n r l (tree_items small @ tree_items large)"
  using assms
proof (induction large arbitrary: n)
  case (Internal h s css cts)
  then obtain k where k: "h = Suc k" "n = Suc k" by (cases h) auto
  have large: "list_all (wf_node D k) cts" "cts \<noteq> []" "css \<noteq> []" "length cts \<le> 2 * TREE_BASE"
      "css = map summary cts" "s = smry (concat (map tree_items cts))"
    using Internal.prems(2) kids_summary [of k cts] by (auto simp: k)
  have hm: "height small = m" using Internal.prems(1) by (rule wf_node_height)
  show ?case
  proof (cases "m = Suc k")
    case True
    then show ?thesis
      using merge_into_right_ok [of n small "Internal h s css cts"] Internal.prems k hm
      by (auto simp: prepended_def simp del: merge_into_right.simps wf_node.simps)
  next
    case False
    then have le: "m \<le> k" using Internal.prems(3) k by simp
    obtain c cs where cts: "cts = c # cs" using large(2) by (cases cts) auto
    obtain r l where rl: "append_large D small c = Some (r, l)"
        "prepended k r l (tree_items small @ tree_items c)"
      using Internal.IH [of c k] Internal.prems(1) le large(1) cts by auto
    define ts where "ts = l # cs"
    have ts: "list_all (wf_node D k) ts" "ts \<noteq> []" "length ts = length cts"
        "summary l # tl css = map summary ts"
      using rl(2) large(1,5) cts by (auto simp: ts_def prepended_def)
    have full: "sadd D (summary small) s = smry (tree_items small @ concat (map tree_items cts))"
      using large wf_node_summary [OF Internal.prems(1)] wf_node_items [of D k c] cts
      by (simp add: smry_append)
    have step: "append_large D small (Internal h s css cts) = (case r of
           None \<Rightarrow> Some (None, Internal h (sadd D (summary small) s) (map summary ts) ts)
         | Some tree \<Rightarrow>
             (if length ts < 2 * TREE_BASE then do {
                all_summaries \<leftarrow> array_vec (map summary (tree # ts));
                all_trees \<leftarrow> array_vec (tree # ts);
                Some (None, Internal h (sadd D (summary small) s) all_summaries all_trees)
              } else do {
                new_child_summaries \<leftarrow> array_vec (map summary (tree # take TREE_BASE ts));
                new_child_trees \<leftarrow> array_vec (tree # take TREE_BASE ts);
                Some (Some (Internal h (ssum D new_child_summaries) new_child_summaries new_child_trees),
                      Internal h (ssum D (map summary (drop TREE_BASE ts))) (map summary (drop TREE_BASE ts))
                        (drop TREE_BASE ts))
              }))"
      using rl(1) False hm k large(2,3) cts ts(4)
      by (simp add: take_map drop_map Let_def flip: ts_def split: option.split)
    show ?thesis
    proof (cases r)
      case None
      then have items: "concat (map tree_items ts) = tree_items small @ concat (map tree_items cts)"
        using rl(2) cts by (simp add: ts_def prepended_def)
      have "wf_node D (Suc k) (Internal (Suc k) (sadd D (summary small) s) (map summary ts) ts)"
        using ts large(4) full items by (intro wf_InternalI) auto
      then show ?thesis using None step items k by (simp add: prepended_def)
    next
      case (Some t)
      then have t: "wf_node D k t" and items:
          "concat (map tree_items (t # ts)) = tree_items small @ concat (map tree_items cts)"
        using rl(2) cts by (simp_all add: ts_def prepended_def)
      show ?thesis
      proof (cases "length ts < 2 * TREE_BASE")
        case True
        have "wf_node D (Suc k) (Internal (Suc k) (sadd D (summary small) s) (map summary (t # ts)) (t # ts))"
          using ts t True full items by (intro wf_InternalI) auto
        then show ?thesis using Some True step items k by (simp add: prepended_def)
      next
        case False
        then have len: "length ts = 2 * TREE_BASE" using ts(3) large(4) by simp
        have "wf_node D (Suc k) (node_of k (t # take TREE_BASE ts))"
            "wf_node D (Suc k) (node_of k (drop TREE_BASE ts))"
          using ts(1) t len list_all_take_drop [OF ts(1), of TREE_BASE]
          by (auto simp: node_of_def TREE_BASE_def)
        moreover have "append_large D small (Internal h s css cts) =
            Some (Some (node_of k (t # take TREE_BASE ts)), node_of k (drop TREE_BASE ts))"
          using Some False step k len by (simp add: node_of_def TREE_BASE_def)
        ultimately show ?thesis
          using items concat_take_drop [of tree_items TREE_BASE ts] k by (simp add: prepended_def)
      qed
    qed
  qed
next
  case (Leaf s its iss)
  then have "m = 0" "n = 0" by auto
  with Leaf.prems show ?case
    using merge_into_right_ok [of 0 small "Leaf s its iss"] wf_node_height [of D m small]
    by (auto simp: prepended_def simp del: merge_into_right.simps wf_node.simps)
qed

lemma from_child_trees_ok:
  assumes "wf_node D n l" "wf_node D n r"
  shows "wf_node D (Suc n) (from_child_trees D l r)"
    and "tree_items (from_child_trees D l r) = tree_items l @ tree_items r"
  using assms wf_node_height [OF assms(1)] by (auto simp: from_child_trees_def TREE_BASE_def)

theorem append_tree_ok:
  assumes "wf_tree D a" "wf_tree D b"
  shows "\<exists>c. append_tree D a b = Some c \<and> wf_tree D c \<and> tree_items c = tree_items a @ tree_items b"
proof -
  consider "is_empty a" | "is_empty b" "\<not> is_empty a"
    | (nodes) "wf_node D (height a) a" "wf_node D (height b) b" "\<not> is_empty a" "\<not> is_empty b"
    using assms by (metis wf_treeE)
  then show ?thesis
  proof cases
    case nodes
    show ?thesis
    proof (cases "height a < height b")
      case True
      then obtain r l where rl: "append_large D a b = Some (r, l)"
          "prepended (height b) r l (tree_items a @ tree_items b)"
        using append_large_ok nodes by (metis less_imp_le)
      with nodes True show ?thesis
        by (cases r) (auto simp: append_tree_def prepended_def from_child_trees_ok wf_treeI
            dest: from_child_trees_ok(1))
    next
      case False
      then obtain l r where lr: "push_tree_recursive D a b = Some (l, r)"
          "grown (height a) l r (tree_items a @ tree_items b)"
        using push_tree_recursive_ok nodes by (metis not_less)
      with nodes False show ?thesis
        by (cases r) (auto simp: append_tree_def grown_def from_child_trees_ok wf_treeI
            dest: from_child_trees_ok(1))
    qed
  qed (use assms in \<open>auto simp: append_tree_def is_empty_iff\<close>)
qed

lemma wf_single_leaf: "wf_node D 0 (Leaf (summarize D x) [x] [summarize D x])"
  by (simp add: TREE_BASE_def)

corollary push_ok:
  assumes "wf_tree D t"
  shows "\<exists>c. push D t x = Some c \<and> wf_tree D c \<and> tree_items c = tree_items t @ [x]"
  using append_tree_ok [OF assms wf_treeI [OF wf_single_leaf]] by (simp add: push_def)

end

end
