(* ===== verification/Sum_Tree_Build.thy ===== *)
theory Sum_Tree_Build
  imports Sum_Tree
begin

text \<open>
  Bulk construction and in-place updates of \<^verbatim>\<open>crates/sum_tree/src/sum_tree.rs\<close>: \<^verbatim>\<open>from_iter\<close> with its loop
  over the nodes of one level, the chunked \<^verbatim>\<open>from_par_iter\<close>, \<^verbatim>\<open>extend\<close>, and the updates of the first and
  last item. The two constructors are proved to build the same tree, and the level loop to terminate.
\<close>

section \<open>Construction from a sequence\<close>

function chunks :: "nat \<Rightarrow> 'x list \<Rightarrow> 'x list list" where
  "chunks n xs = (if xs = [] \<or> n = 0 then [] else take n xs # chunks n (drop n xs))"
  by pat_completeness auto
termination by (relation "measure (\<lambda>(n, xs). length xs)") auto

declare chunks.simps [simp del]

text \<open>A leaf of \<^verbatim>\<open>from_iter\<close>: the summary starts at the first item's and adds the others.\<close>

definition leaf_node :: "('a, 's) item_impl \<Rightarrow> 'a list \<Rightarrow> ('a, 's) sum_tree" where
  "leaf_node D its =
     (let iss = map (summarize D) its
      in Leaf (foldl (sadd D) (hd iss) (tl iss)) its iss)"

text \<open>
  One level of \<^verbatim>\<open>from_iter\<close>: children are pushed onto the current parent, which starts at
  \<^verbatim>\<open>Summary::zero\<close> and is flushed when it holds \<open>2 * TREE_BASE\<close> children.
\<close>

fun add_child :: "('a, 's) item_impl \<Rightarrow> ('a, 's) sum_tree \<Rightarrow> ('a, 's) sum_tree \<Rightarrow> ('a, 's) sum_tree" where
  "add_child D c (Internal h s css cts) =
     Internal h (sadd D s (summary c)) (css @ [summary c]) (cts @ [c])"
| "add_child D c (Leaf s its iss) = Leaf s its iss"

fun build_parents ::
  "('a, 's) item_impl \<Rightarrow> nat \<Rightarrow> ('a, 's) sum_tree list \<Rightarrow> ('a, 's) sum_tree option \<Rightarrow>
   ('a, 's) sum_tree list \<Rightarrow> ('a, 's) sum_tree list" where
  "build_parents D h [] current parents =
     parents @ (case current of None \<Rightarrow> [] | Some p \<Rightarrow> [p])"
| "build_parents D h (c # nodes) current parents =
     (let p = (case current of None \<Rightarrow> Internal h (szero D) [] [] | Some p \<Rightarrow> p);
          p' = add_child D c p
      in if length (node_trees p') = 2 * TREE_BASE
         then build_parents D h nodes None (parents @ [p'])
         else build_parents D h nodes (Some p') parents)"

definition parent_node :: "('a, 's) item_impl \<Rightarrow> nat \<Rightarrow> ('a, 's) sum_tree list \<Rightarrow> ('a, 's) sum_tree" where
  "parent_node D h cts = Internal h (ssum D (map summary cts)) (map summary cts) cts"

lemma add_child_parent_node: "add_child D c (parent_node D h cs) = parent_node D h (cs @ [c])"
  by (simp add: parent_node_def ssum_def)

lemma chunks_append: "length xs = n \<Longrightarrow> 0 < n \<Longrightarrow> chunks n (xs @ ys) = xs # chunks n ys"
  by (subst chunks.simps) auto

lemma chunks_short: "xs \<noteq> [] \<Longrightarrow> length xs \<le> n \<Longrightarrow> chunks n xs = [xs]"
  by (subst chunks.simps) (cases n; auto simp: chunks.simps [of n "[]"] chunks.simps [of _ "[]"])

lemma build_parents_chunks:
  assumes "length cs < 2 * TREE_BASE"
  shows "build_parents D h nodes (if cs = [] then None else Some (parent_node D h cs)) parents =
           parents @ map (parent_node D h) (chunks (2 * TREE_BASE) (cs @ nodes))"
  using assms
proof (induction nodes arbitrary: cs parents)
  case Nil
  then show ?case by (auto simp: chunks_short chunks.simps [of _ "[]"])
next
  case (Cons c nodes)
  have p: "add_child D c (case if cs = [] then None else Some (parent_node D h cs) of
      None \<Rightarrow> Internal h (szero D) [] [] | Some p \<Rightarrow> p) = parent_node D h (cs @ [c])"
    using add_child_parent_node [of D c h cs] by (auto simp: parent_node_def ssum_def)
  have len: "length (node_trees (parent_node D h (cs @ [c]))) = Suc (length cs)"
    by (simp add: parent_node_def)
  show ?case
  proof (cases "Suc (length cs) = 2 * TREE_BASE")
    case True
    then show ?thesis
      using Cons.IH [of "[]" "parents @ [parent_node D h (cs @ [c])]"] chunks_append [of "cs @ [c]"] p len
      by (simp add: Let_def)
  next
    case False
    then show ?thesis
      using Cons.IH [of "cs @ [c]" parents] Cons.prems p len by (simp add: Let_def)
  qed
qed

lemma length_chunks_le: "0 < n \<Longrightarrow> length (chunks n xs) \<le> length xs"
proof (induction n xs rule: chunks.induct)
  case (1 n xs)
  then show ?case by (subst chunks.simps) (cases xs, auto)
qed

lemma length_chunks_less:
  assumes "1 < n" "1 < length xs" shows "length (chunks n xs) < length xs"
proof -
  have "length (chunks n xs) = Suc (length (chunks n (drop n xs)))"
    using assms by (subst chunks.simps) auto
  also have "\<dots> \<le> Suc (length (drop n xs))" using assms length_chunks_le [of n "drop n xs"] by simp
  also have "\<dots> < length xs" using assms by auto
  finally show ?thesis .
qed

lemma build_parents_decreases:
  "1 < length nodes \<Longrightarrow> length (build_parents D h nodes None []) < length nodes"
  using build_parents_chunks [of "[]" D h nodes "[]"] length_chunks_less [of "2 * TREE_BASE" nodes]
  by (simp add: TREE_BASE_def)

function from_iter_levels ::
  "('a, 's) item_impl \<Rightarrow> nat \<Rightarrow> ('a, 's) sum_tree list \<Rightarrow> ('a, 's) sum_tree list" where
  "from_iter_levels D h nodes =
     (if 1 < length nodes then from_iter_levels D (h + 1) (build_parents D (h + 1) nodes None [])
      else nodes)"
  by pat_completeness auto
termination
  by (relation "measure (\<lambda>(D, h, nodes). length nodes)") (auto simp: build_parents_decreases)

declare from_iter_levels.simps [simp del]

definition from_iter :: "('a, 's) item_impl \<Rightarrow> 'a list \<Rightarrow> ('a, 's) sum_tree" where
  "from_iter D xs =
     (let nodes = from_iter_levels D 0 (map (leaf_node D) (chunks (2 * TREE_BASE) xs))
      in if nodes = [] then st_new D else last nodes)"

text \<open>\<^verbatim>\<open>from_par_iter\<close> chunks every level and folds each chunk from its first summary.\<close>

definition par_parent_node :: "('a, 's) item_impl \<Rightarrow> nat \<Rightarrow> ('a, 's) sum_tree list \<Rightarrow> ('a, 's) sum_tree" where
  "par_parent_node D h cts =
     (let css = map summary cts in Internal h (foldl (sadd D) (hd css) (tl css)) css cts)"

function from_par_iter_levels ::
  "('a, 's) item_impl \<Rightarrow> nat \<Rightarrow> ('a, 's) sum_tree list \<Rightarrow> ('a, 's) sum_tree list" where
  "from_par_iter_levels D h nodes =
     (if 1 < length nodes
      then from_par_iter_levels D (h + 1)
             (map (par_parent_node D (h + 1)) (chunks (2 * TREE_BASE) nodes))
      else nodes)"
  by pat_completeness auto
termination
  by (relation "measure (\<lambda>(D, h, nodes). length nodes)") (auto simp: length_chunks_less TREE_BASE_def)

declare from_par_iter_levels.simps [simp del]

definition from_par_iter :: "('a, 's) item_impl \<Rightarrow> 'a list \<Rightarrow> ('a, 's) sum_tree" where
  "from_par_iter D xs =
     (let nodes = from_par_iter_levels D 0 (map (leaf_node D) (chunks (2 * TREE_BASE) xs))
      in if nodes = [] then st_new D else last nodes)"

definition extend_tree :: "('a, 's) item_impl \<Rightarrow> ('a, 's) sum_tree \<Rightarrow> 'a list \<Rightarrow> ('a, 's) sum_tree option" where
  "extend_tree D self xs = append_tree D self (from_iter D xs)"

definition par_extend :: "('a, 's) item_impl \<Rightarrow> ('a, 's) sum_tree \<Rightarrow> 'a list \<Rightarrow> ('a, 's) sum_tree option" where
  "par_extend D self xs = append_tree D self (from_par_iter D xs)"

section \<open>Updating the first and the last item\<close>

text \<open>The recursive workers return the new summary of the node, if it has an item, and the node.\<close>

function (sequential) update_last_recursive ::
  "('a, 's) item_impl \<Rightarrow> ('a \<Rightarrow> 'a) \<Rightarrow> ('a, 's) sum_tree \<Rightarrow> ('s option \<times> ('a, 's) sum_tree) option" where
  "update_last_recursive D f (Internal h s css cts) =
     (if cts = [] \<or> css = [] then None
      else do {
        (r, l) \<leftarrow> update_last_recursive D f (last cts);
        last_summary \<leftarrow> r;
        let css' = butlast css @ [last_summary];
        Some (Some (ssum D css'), Internal h (ssum D css') css' (butlast cts @ [l]))
      })"
| "update_last_recursive D f (Leaf s its iss) =
     (if its = [] \<or> iss = [] then Some (None, Leaf s its iss)
      else let it = f (last its); iss' = butlast iss @ [summarize D it]
           in Some (Some (ssum D iss'), Leaf (ssum D iss') (butlast its @ [it]) iss'))"
  by pat_completeness auto
termination
  by (relation "measure (\<lambda>(D, f, t). size t)") (auto simp: size_end_child)

function (sequential) update_first_recursive ::
  "('a, 's) item_impl \<Rightarrow> ('a \<Rightarrow> 'a) \<Rightarrow> ('a, 's) sum_tree \<Rightarrow> ('s option \<times> ('a, 's) sum_tree) option" where
  "update_first_recursive D f (Internal h s css cts) =
     (if cts = [] \<or> css = [] then None
      else do {
        (r, c) \<leftarrow> update_first_recursive D f (hd cts);
        first_summary \<leftarrow> r;
        let css' = first_summary # tl css;
        Some (Some (ssum D css'), Internal h (ssum D css') css' (c # tl cts))
      })"
| "update_first_recursive D f (Leaf s its iss) =
     (if its = [] \<or> iss = [] then Some (None, Leaf s its iss)
      else let it = f (hd its); iss' = summarize D it # tl iss
           in Some (Some (ssum D iss'), Leaf (ssum D iss') (it # tl its) iss'))"
  by pat_completeness auto
termination
  by (relation "measure (\<lambda>(D, f, t). size t)") (auto simp: size_end_child)

definition update_last ::
  "('a, 's) item_impl \<Rightarrow> ('a \<Rightarrow> 'a) \<Rightarrow> ('a, 's) sum_tree \<Rightarrow> ('a, 's) sum_tree option" where
  "update_last D f t = map_option snd (update_last_recursive D f t)"

definition update_first ::
  "('a, 's) item_impl \<Rightarrow> ('a \<Rightarrow> 'a) \<Rightarrow> ('a, 's) sum_tree \<Rightarrow> ('a, 's) sum_tree option" where
  "update_first D f t = map_option snd (update_first_recursive D f t)"

section \<open>The items that construction yields\<close>

lemma chunks_properties:
  "0 < n \<Longrightarrow> concat (chunks n xs) = xs \<and> (\<forall>ys \<in> set (chunks n xs). ys \<noteq> [] \<and> length ys \<le> n \<and> set ys \<subseteq> set xs)"
proof (induction n xs rule: chunks.induct)
  case (1 n xs)
  then show ?case
    by (subst (1 2) chunks.simps) (auto dest: in_set_takeD in_set_dropD)
qed

context summary_laws
begin

lemma wf_leaf_node:
  "its \<noteq> [] \<Longrightarrow> length its \<le> 2 * TREE_BASE \<Longrightarrow> wf_node D 0 (leaf_node D its)"
  by (simp add: leaf_node_def Let_def ssum_hd_tl)

lemma par_parent_node_eq: "cts \<noteq> [] \<Longrightarrow> par_parent_node D h cts = parent_node D h cts"
  by (simp add: par_parent_node_def parent_node_def Let_def ssum_hd_tl)

lemma chunks_wf:
  assumes "list_all P xs" "ys \<in> set (chunks (2 * TREE_BASE) xs)"
  shows "list_all P ys" "ys \<noteq> []" "length ys \<le> 2 * TREE_BASE"
  using assms chunks_properties [of "2 * TREE_BASE" xs] by (auto simp: TREE_BASE_def list_all_iff)

lemma concat_chunks: "concat (chunks (2 * TREE_BASE) xs) = xs"
  using chunks_properties [of "2 * TREE_BASE" xs] by (simp add: TREE_BASE_def)

lemma concat_map_concat: "concat (map (\<lambda>ts. concat (map f ts)) tss) = concat (map f (concat tss))"
  by (induction tss) auto

lemma par_level_eq:
  "map (par_parent_node D h) (chunks (2 * TREE_BASE) nodes) = build_parents D h nodes None []"
  using build_parents_chunks [of "[]" D h nodes "[]"] chunks_wf(2) [of "\<lambda>_. True" nodes]
  by (auto simp: TREE_BASE_def par_parent_node_eq list_all_iff)

lemma from_par_iter_levels_eq: "from_par_iter_levels D h nodes = from_iter_levels D h nodes"
proof (induction "length nodes" arbitrary: h nodes rule: less_induct)
  case less
  show ?case
  proof (cases "1 < length nodes")
    case True
    with less.hyps [OF build_parents_decreases [OF True]] show ?thesis
      by (simp add: from_par_iter_levels.simps [of D h nodes] from_iter_levels.simps [of D h nodes] par_level_eq)
  next
    case False
    then show ?thesis
      by (simp add: from_par_iter_levels.simps [of D h nodes] from_iter_levels.simps [of D h nodes])
  qed
qed

lemma wf_parent_level:
  assumes "list_all (wf_node D h) nodes"
  shows "list_all (wf_node D (Suc h)) (build_parents D (Suc h) nodes None [])"
    and "concat (map tree_items (build_parents D (Suc h) nodes None [])) = concat (map tree_items nodes)"
proof -
  let ?cs = "chunks (2 * TREE_BASE) nodes"
  have eq: "build_parents D (Suc h) nodes None [] = map (parent_node D (Suc h)) ?cs"
    using build_parents_chunks [of "[]" D "Suc h" nodes "[]"] by (simp add: TREE_BASE_def)
  show "list_all (wf_node D (Suc h)) (build_parents D (Suc h) nodes None [])"
    unfolding eq using chunks_wf [OF assms] by (auto simp: list_all_iff parent_node_def)
  have "concat (map tree_items (build_parents D (Suc h) nodes None [])) =
      concat (map tree_items (concat ?cs))"
    unfolding eq by (simp add: parent_node_def comp_def concat_map_concat)
  then show "concat (map tree_items (build_parents D (Suc h) nodes None [])) = concat (map tree_items nodes)"
    by (simp add: concat_chunks)
qed

lemma from_iter_levels_ok:
  assumes "list_all (wf_node D h) nodes" "nodes \<noteq> []"
  shows "\<exists>t n. from_iter_levels D h nodes = [t] \<and> wf_node D n t \<and>
           tree_items t = concat (map tree_items nodes)"
  using assms
proof (induction "length nodes" arbitrary: h nodes rule: less_induct)
  case less
  show ?case
  proof (cases "1 < length nodes")
    case True
    let ?ps = "build_parents D (Suc h) nodes None []"
    have "?ps \<noteq> []"
      using wf_parent_level(2) [OF less.prems(1)] less.prems wf_node_items
      by (cases nodes) (fastforce simp: list_all_iff)+
    with less.hyps [of ?ps "Suc h"] wf_parent_level [OF less.prems(1)] build_parents_decreases [OF True] True
    show ?thesis by (simp add: from_iter_levels.simps [of D h nodes])
  next
    case False
    then obtain t where "nodes = [t]" using less.prems(2) by (cases nodes) auto
    with less.prems show ?thesis by (auto simp: from_iter_levels.simps [of D h "[t]"])
  qed
qed

theorem from_iter_ok: "wf_tree D (from_iter D xs) \<and> tree_items (from_iter D xs) = xs"
proof (cases "xs = []")
  case True
  then show ?thesis
    by (simp add: from_iter_def chunks.simps [of _ "[]"] from_iter_levels.simps [of _ _ "[]"])
next
  case False
  let ?nodes = "map (leaf_node D) (chunks (2 * TREE_BASE) xs)"
  have wf: "list_all (wf_node D 0) ?nodes"
    using chunks_wf [of "\<lambda>_. True" xs] wf_leaf_node by (auto simp: list_all_iff)
  have items: "concat (map tree_items ?nodes) = xs"
    by (simp add: comp_def leaf_node_def Let_def concat_chunks)
  with False have "?nodes \<noteq> []" by auto
  from from_iter_levels_ok [OF wf this] items show ?thesis
    by (auto simp: from_iter_def Let_def wf_treeI)
qed

theorem from_par_iter_eq: "from_par_iter D xs = from_iter D xs"
  by (simp add: from_par_iter_def from_iter_def from_par_iter_levels_eq)

corollary extend_ok:
  assumes "wf_tree D t"
  shows "\<exists>c. extend_tree D t xs = Some c \<and> wf_tree D c \<and> tree_items c = tree_items t @ xs"
  using append_tree_ok [OF assms, of "from_iter D xs"] from_iter_ok by (simp add: extend_tree_def)

section \<open>First and last items\<close>

lemma rightmost_leaf_ok:
  "wf_node D n t \<Longrightarrow> \<exists>s its iss. rightmost_leaf t = Some (Leaf s its iss) \<and> its \<noteq> [] \<and>
     iss = map (summarize D) its \<and> (\<exists>pre. tree_items t = pre @ its)"
proof (induction t arbitrary: n)
  case (Internal h s css cts)
  then have "wf_node D (h - 1) (last cts)" "last cts \<in> set cts" by (auto simp: list_all_iff)
  from Internal.IH [OF this(2,1)] obtain s' its iss pre where
    "rightmost_leaf (last cts) = Some (Leaf s' its iss)" "its \<noteq> []" "iss = map (summarize D) its"
    "tree_items (last cts) = pre @ its" by blast
  with Internal.prems show ?case by (auto simp: concat_butlast_last)
qed auto

lemma leftmost_leaf_ok:
  "wf_node D n t \<Longrightarrow> \<exists>s its iss. leftmost_leaf t = Some (Leaf s its iss) \<and> its \<noteq> [] \<and>
     (\<exists>post. tree_items t = its @ post)"
proof (induction t arbitrary: n)
  case (Internal h s css cts)
  then obtain c cs where "cts = c # cs" "wf_node D (h - 1) c" by (cases cts) auto
  with Internal.IH [of c "h - 1"] show ?case by fastforce
qed auto

lemma first_ok: "wf_tree D t \<Longrightarrow> first t = Some (if tree_items t = [] then None else Some (hd (tree_items t)))"
  by (erule wf_treeE) (auto simp: first_def st_new_def dest!: leftmost_leaf_ok)

lemma last_item_ok:
  "wf_tree D t \<Longrightarrow> last_item t = Some (if tree_items t = [] then None else Some (last (tree_items t)))"
  by (erule wf_treeE) (auto simp: last_item_def st_new_def dest!: rightmost_leaf_ok)

lemma last_summary_ok:
  "wf_tree D t \<Longrightarrow>
   last_summary t = Some (if tree_items t = [] then None else Some (summarize D (last (tree_items t))))"
  by (erule wf_treeE) (auto simp: last_summary_def st_new_def last_map dest!: rightmost_leaf_ok)

lemma update_last_recursive_ok:
  assumes "wf_node D n t"
  shows "\<exists>t'. update_last_recursive D f t = Some (Some (summary t'), t') \<and> wf_node D n t' \<and>
           tree_items t' = butlast (tree_items t) @ [f (last (tree_items t))]"
  using assms
proof (induction t arbitrary: n)
  case (Internal h s css cts)
  then obtain k where k: "h = Suc k" "n = Suc k" by (cases h) auto
  have cts: "list_all (wf_node D k) cts" "cts \<noteq> []" "css \<noteq> []" "css = map summary cts"
      "length cts \<le> 2 * TREE_BASE"
    using Internal.prems by (auto simp: k)
  then have last: "wf_node D k (last cts)" "last cts \<in> set cts" by (auto simp: list_all_iff)
  obtain l where l: "update_last_recursive D f (last cts) = Some (Some (summary l), l)" "wf_node D k l"
      "tree_items l = butlast (tree_items (last cts)) @ [f (last (tree_items (last cts)))]"
    using Internal.IH [OF last(2,1)] by blast
  let ?ts = "butlast cts @ [l]"
  have sums: "butlast css @ [summary l] = map summary ?ts" using cts by (simp add: map_butlast)
  have "wf_node D (Suc k) (Internal (Suc k) (ssum D (map summary ?ts)) (map summary ?ts) ?ts)"
    using cts l(2) by (intro wf_InternalI') (auto simp: list_all_iff dest: in_set_butlastD)
  moreover have "update_last_recursive D f (Internal h s css cts) =
      Some (Some (ssum D (map summary ?ts)), Internal (Suc k) (ssum D (map summary ?ts)) (map summary ?ts) ?ts)"
    using l(1) cts(2,3) sums k by (simp add: Let_def)
  moreover have "tree_items (last cts) \<noteq> []" using last wf_node_items by blast
  ultimately show ?case
    using l(3) k cts(2) by (auto simp: concat_butlast_last butlast_append)
qed (auto simp: Let_def map_butlast)

lemma update_first_recursive_ok:
  assumes "wf_node D n t"
  shows "\<exists>t'. update_first_recursive D f t = Some (Some (summary t'), t') \<and> wf_node D n t' \<and>
           tree_items t' = f (hd (tree_items t)) # tl (tree_items t)"
  using assms
proof (induction t arbitrary: n)
  case (Internal h s css cts)
  then obtain k c cs where k: "h = Suc k" "n = Suc k" and cts: "cts = c # cs"
    by (cases h; cases cts) auto
  have wf: "list_all (wf_node D k) cs" "css = map summary cts" "wf_node D k c" "length cts \<le> 2 * TREE_BASE"
    using Internal.prems by (auto simp: k cts)
  obtain l where l: "update_first_recursive D f c = Some (Some (summary l), l)" "wf_node D k l"
      "tree_items l = f (hd (tree_items c)) # tl (tree_items c)"
    using Internal.IH [of c k] wf(3) cts by auto
  have "wf_node D (Suc k) (Internal (Suc k) (ssum D (map summary (l # cs))) (map summary (l # cs)) (l # cs))"
    using wf l(2) cts by (intro wf_InternalI') auto
  moreover have "tree_items c \<noteq> []" using wf(3) wf_node_items by blast
  ultimately show ?case using l wf(2) cts k by (simp add: Let_def)
qed (auto simp: Let_def map_tl neq_Nil_conv)

lemma update_last_ok:
  assumes "wf_tree D t"
  shows "\<exists>t'. update_last D f t = Some t' \<and> wf_tree D t' \<and>
    tree_items t' = (if tree_items t = [] then [] else butlast (tree_items t) @ [f (last (tree_items t))])"
  using assms
proof (cases rule: wf_treeE)
  case node
  then show ?thesis
    using update_last_recursive_ok [OF node(1), of f] by (auto simp: update_last_def wf_treeI)
qed (simp add: update_last_def st_new_def wf_tree_def)

lemma update_first_ok:
  assumes "wf_tree D t"
  shows "\<exists>t'. update_first D f t = Some t' \<and> wf_tree D t' \<and>
    tree_items t' = (if tree_items t = [] then [] else f (hd (tree_items t)) # tl (tree_items t))"
  using assms
proof (cases rule: wf_treeE)
  case node
  then show ?thesis
    using update_first_recursive_ok [OF node(1), of f] by (auto simp: update_first_def wf_treeI)
qed (simp add: update_first_def st_new_def wf_tree_def)

end

end
