(* ===== verification/Sum_Cursor.thy ===== *)
theory Sum_Cursor
  imports Sum_Tree_Build
begin

text \<open>
  Cursors over a sum tree, \<^verbatim>\<open>crates/sum_tree/src/cursor.rs\<close>. A cursor walks the tree with an explicit
  stack of (node, index, position) entries; \<^verbatim>\<open>seek_internal\<close> moves it forward to a target, feeding what
  it passes to an aggregate (nothing, a slice tree or a summary); \<^verbatim>\<open>search_forward\<close> moves to the next item
  whose ancestors' summaries pass a filter.

  The stack is a list whose head is the top. Its capacity of sixteen entries is not modelled. A
  \<^verbatim>\<open>Dimension\<close> is a record of its zero and its \<^verbatim>\<open>add_summary\<close>, and a \<^verbatim>\<open>SeekTarget\<close> is the function that
  compares it with a position. Both loops of the source are functions with a termination proof: every
  step either pops an entry, or descends from an entry whose remaining weight shrinks. \<open>None\<close> is a
  panic: the assertion that a seek never goes backward, the assertion that the cursor has been
  positioned, an index out of range or a panic of the tree operations.
\<close>

section \<open>Dimensions, targets and aggregates\<close>

record ('s, 'd) dim_impl =
  dzero :: 'd
  dadd :: "'d \<Rightarrow> 's \<Rightarrow> 'd"

text \<open>Whether a seek goes past a position: the target is greater, or equal with bias right.\<close>

definition passes :: "('d \<Rightarrow> ordering) \<Rightarrow> bias \<Rightarrow> 'd \<Rightarrow> bool" where
  "passes cmp bias d \<longleftrightarrow> cmp d = Greater \<or> cmp d = Equal \<and> bias = Right"

record ('a, 's, 'g) seek_aggregate =
  begin_leaf :: "'g \<Rightarrow> 'g"
  end_leaf :: "'g \<Rightarrow> 'g option"
  push_item :: "'g \<Rightarrow> 'a \<Rightarrow> 's \<Rightarrow> 'g option"
  push_tree :: "'g \<Rightarrow> ('a, 's) sum_tree \<Rightarrow> 's \<Rightarrow> 'g option"

definition unit_aggregate :: "('a, 's, unit) seek_aggregate" where
  "unit_aggregate = \<lparr>begin_leaf = \<lambda>g. g, end_leaf = \<lambda>g. Some g,
     push_item = \<lambda>g _ _. Some g, push_tree = \<lambda>g _ _. Some g\<rparr>"

record ('a, 's) slice_seek_aggregate =
  slice_tree :: "('a, 's) sum_tree"
  slice_items :: "'a list"
  slice_summaries :: "'s list"
  slice_summary :: 's

definition slice_aggregate ::
  "('a, 's) item_impl \<Rightarrow> ('a, 's, ('a, 's) slice_seek_aggregate) seek_aggregate" where
  "slice_aggregate D = \<lparr>
     begin_leaf = \<lambda>g. g,
     end_leaf = \<lambda>g. do {
       t \<leftarrow> append_tree D (slice_tree g) (Leaf (slice_summary g) (slice_items g) (slice_summaries g));
       Some (g\<lparr>slice_tree := t, slice_items := [], slice_summaries := [], slice_summary := szero D\<rparr>) },
     push_item = \<lambda>g x s. do {
       its \<leftarrow> array_vec (slice_items g @ [x]);
       iss \<leftarrow> array_vec (slice_summaries g @ [s]);
       Some (g\<lparr>slice_items := its, slice_summaries := iss, slice_summary := sadd D (slice_summary g) s\<rparr>) },
     push_tree = \<lambda>g t s. do {
       t' \<leftarrow> append_tree D (slice_tree g) t;
       Some (g\<lparr>slice_tree := t'\<rparr>) }\<rparr>"

definition slice_init :: "('a, 's) item_impl \<Rightarrow> ('a, 's) slice_seek_aggregate" where
  "slice_init D = \<lparr>slice_tree = st_new D, slice_items = [], slice_summaries = [], slice_summary = szero D\<rparr>"

definition summary_aggregate :: "('s, 'o) dim_impl \<Rightarrow> ('a, 's, 'o) seek_aggregate" where
  "summary_aggregate N = \<lparr>begin_leaf = \<lambda>g. g, end_leaf = \<lambda>g. Some g,
     push_item = \<lambda>g _ s. Some (dadd N g s), push_tree = \<lambda>g _ s. Some (dadd N g s)\<rparr>"

section \<open>Cursors\<close>

record ('a, 's, 'd) stack_entry =
  e_tree :: "('a, 's) sum_tree"
  e_index :: nat
  e_position :: 'd

record ('a, 's, 'd) cursor =
  c_tree :: "('a, 's) sum_tree"
  c_stack :: "('a, 's, 'd) stack_entry list"
  c_position :: 'd
  did_seek :: bool
  at_end :: bool

definition cursor_new :: "('s, 'd) dim_impl \<Rightarrow> ('a, 's) sum_tree \<Rightarrow> ('a, 's, 'd) cursor" where
  "cursor_new M t = \<lparr>c_tree = t, c_stack = [], c_position = dzero M, did_seek = False, at_end = is_empty t\<rparr>"

definition cursor_reset :: "('s, 'd) dim_impl \<Rightarrow> ('a, 's, 'd) cursor \<Rightarrow> ('a, 's, 'd) cursor" where
  "cursor_reset M c = c\<lparr>did_seek := False, at_end := is_empty (c_tree c), c_stack := [], c_position := dzero M\<rparr>"

definition cursor_item :: "('a, 's, 'd) cursor \<Rightarrow> 'a option option" where
  "cursor_item c =
     (if \<not> did_seek c then None
      else case c_stack c of
        [] \<Rightarrow> Some None
      | e # _ \<Rightarrow> do {
          its \<leftarrow> node_items (e_tree e);
          if e_index e = length its then Some None
          else if e_index e < length its then Some (Some (its ! e_index e)) else None })"

definition cursor_item_summary :: "('a, 's, 'd) cursor \<Rightarrow> 's option option" where
  "cursor_item_summary c =
     (if \<not> did_seek c then None
      else case c_stack c of
        [] \<Rightarrow> Some None
      | e # _ \<Rightarrow>
          (if \<not> is_leaf (e_tree e) then None
           else if e_index e = length (child_summaries (e_tree e)) then Some None
           else if e_index e < length (child_summaries (e_tree e))
             then Some (Some (child_summaries (e_tree e) ! e_index e)) else None))"

definition cursor_end :: "('s, 'd) dim_impl \<Rightarrow> ('a, 's, 'd) cursor \<Rightarrow> 'd option" where
  "cursor_end M c = do {
     s \<leftarrow> cursor_item_summary c;
     Some (case s of None \<Rightarrow> c_position c | Some s \<Rightarrow> dadd M (c_position c) s) }"

section \<open>Seeking\<close>

text \<open>
  The scan over the children of an internal node, from the entry's index: it returns the child to
  descend into, if any, and the new index, position, entry position and aggregate.
\<close>

fun advance_children ::
  "('s, 'd) dim_impl \<Rightarrow> ('d \<Rightarrow> bool) \<Rightarrow> ('a, 's, 'g) seek_aggregate \<Rightarrow>
   (('a, 's) sum_tree \<times> 's) list \<Rightarrow> nat \<Rightarrow> 'd \<Rightarrow> 'd \<Rightarrow> 'g \<Rightarrow>
   (('a, 's) sum_tree option \<times> nat \<times> 'd \<times> 'd \<times> 'g) option" where
  "advance_children M pass A [] i pos epos g = Some (None, i, pos, epos, g)"
| "advance_children M pass A ((t, s) # rest) i pos epos g =
     (let child_end = dadd M pos s in
      if pass child_end
      then do { g' \<leftarrow> push_tree A g t s; advance_children M pass A rest (i + 1) child_end child_end g' }
      else Some (Some t, i, pos, epos, g))"

text \<open>The scan over the items of a leaf: whether it stopped at an item, and the new index and position.\<close>

fun advance_items ::
  "('s, 'd) dim_impl \<Rightarrow> ('d \<Rightarrow> bool) \<Rightarrow> ('a, 's, 'g) seek_aggregate \<Rightarrow>
   ('a \<times> 's) list \<Rightarrow> nat \<Rightarrow> 'd \<Rightarrow> 'g \<Rightarrow> (bool \<times> nat \<times> 'd \<times> 'g) option" where
  "advance_items M pass A [] i pos g = Some (False, i, pos, g)"
| "advance_items M pass A ((x, s) # rest) i pos g =
     (let child_end = dadd M pos s in
      if pass child_end
      then do { g' \<leftarrow> push_item A g x s; advance_items M pass A rest (i + 1) child_end g' }
      else Some (True, i, pos, g))"

text \<open>
  The weight of a stack bounds the steps left: an entry below the top has only the children after its
  index to visit; the top entry still has the one at its index unless the loop is ascending.
\<close>

fun tree_weight :: "('a, 's) sum_tree \<Rightarrow> nat" where
  "tree_weight (Leaf _ _ _) = 2"
| "tree_weight (Internal _ _ _ cts) = 2 + sum_list (map tree_weight cts)"

fun kids_weight :: "('a, 's) sum_tree \<Rightarrow> nat \<Rightarrow> nat" where
  "kids_weight (Leaf _ _ _) i = 0"
| "kids_weight (Internal _ _ _ cts) i = sum_list (map tree_weight (drop i cts))"

definition below_weight :: "('a, 's, 'd) stack_entry list \<Rightarrow> nat" where
  "below_weight es = sum_list (map (\<lambda>e. 1 + kids_weight (e_tree e) (e_index e + 1)) es)"

fun stack_weight :: "bool \<Rightarrow> ('a, 's, 'd) stack_entry list \<Rightarrow> nat" where
  "stack_weight ascending [] = 0"
| "stack_weight ascending (e # es) =
     (if ascending then 1 + kids_weight (e_tree e) (e_index e + 1) else 2 + kids_weight (e_tree e) (e_index e)) +
     below_weight es"

lemma below_weight_Cons [simp]:
  "below_weight (e # es) = 1 + kids_weight (e_tree e) (e_index e + 1) + below_weight es"
  by (simp add: below_weight_def)

lemma kids_weight_mono: "i \<le> j \<Longrightarrow> kids_weight t j \<le> kids_weight t i"
proof (cases t)
  case (Internal h s css cts)
  assume "i \<le> j"
  then have "drop j cts = drop (j - i) (drop i cts)" by simp
  then have "drop i cts = take (j - i) (drop i cts) @ drop j cts" by (metis append_take_drop_id)
  then have "sum_list (map tree_weight (drop i cts)) =
      sum_list (map tree_weight (take (j - i) (drop i cts))) + sum_list (map tree_weight (drop j cts))"
    by (metis map_append sum_list_append)
  then show ?thesis using Internal by simp
qed simp

lemma kids_weight_nth:
  "i < length cts \<Longrightarrow> kids_weight (Internal h s css cts) i =
     tree_weight (cts ! i) + kids_weight (Internal h s css cts) (i + 1)"
  by (simp add: Cons_nth_drop_Suc [symmetric])

lemma stack_weight_True: "stack_weight True es = below_weight es"
  by (cases es) (simp_all add: below_weight_def)

lemma stack_weight_pop:
  "Suc (2 * stack_weight True es) < 2 * stack_weight ascending (e # es) + n"
  by (simp add: stack_weight_True)

lemma stack_weight_descend:
  assumes "e_tree e = Internal h s css cts" "j < length cts"
  shows "e_index e < j \<Longrightarrow>
           stack_weight False (\<lparr>e_tree = cts ! j, e_index = 0, e_position = p\<rparr> #
             e\<lparr>e_index := j, e_position := q\<rparr> # es) \<le> stack_weight True (e # es)"
    and "e_index e \<le> j \<Longrightarrow>
           stack_weight False (\<lparr>e_tree = cts ! j, e_index = 0, e_position = p\<rparr> #
             e\<lparr>e_index := j, e_position := q\<rparr> # es) < stack_weight False (e # es)"
proof -
  have "tree_weight (cts ! j) = 2 + kids_weight (cts ! j) 0" by (cases "cts ! j") auto
  then have j: "2 + kids_weight (cts ! j) 0 + kids_weight (e_tree e) (j + 1) = kids_weight (e_tree e) j"
    using kids_weight_nth [OF assms(2), of h s css] assms(1) by simp
  show "stack_weight False (\<lparr>e_tree = cts ! j, e_index = 0, e_position = p\<rparr> #
      e\<lparr>e_index := j, e_position := q\<rparr> # es) \<le> stack_weight True (e # es)" if "e_index e < j"
    using kids_weight_mono [of "e_index e + 1" j "e_tree e"] that j by simp
  show "stack_weight False (\<lparr>e_tree = cts ! j, e_index = 0, e_position = p\<rparr> #
      e\<lparr>e_index := j, e_position := q\<rparr> # es) < stack_weight False (e # es)" if "e_index e \<le> j"
    using kids_weight_mono [of "e_index e" j "e_tree e"] that j by simp
qed

lemma double_less_Suc: "2 * x < Suc (2 * y) \<longleftrightarrow> x \<le> (y :: nat)"
  by arith

lemma advance_children_child:
  assumes "advance_children M pass A (zip (drop i cts) ss) i pos epos g = Some (Some t, j, r)"
  shows "i \<le> j \<and> j < length cts \<and> t = cts ! j"
proof -
  have *: "i \<le> j \<and> j - i < length xs \<and> t = fst (xs ! (j - i))"
    if "advance_children M pass A xs i pos epos g = Some (Some t, j, r)" for xs
    using that
  proof (induction xs arbitrary: i pos epos g)
    case (Cons x xs)
    obtain t' s' where x: "x = (t', s')" by (cases x)
    show ?case
    proof (cases "pass (dadd M pos s')")
      case True
      with Cons.prems x obtain g' where
        "advance_children M pass A xs (i + 1) (dadd M pos s') (dadd M pos s') g' = Some (Some t, j, r)"
        by (auto simp: Let_def split: bind_splits)
      from Cons.IH [OF this] show ?thesis by (auto simp: nth_Cons split: nat.splits)
        (metis Suc_diff_Suc Suc_le_lessD diff_Suc_Suc nat.inject)
    next
      case False
      with Cons.prems x show ?thesis by simp
    qed
  qed simp
  from * [OF assms] show ?thesis by (auto simp: less_diff_conv)
qed

function (sequential) seek_loop ::
  "('s, 'd) dim_impl \<Rightarrow> ('d \<Rightarrow> bool) \<Rightarrow> ('a, 's, 'g) seek_aggregate \<Rightarrow> bool \<Rightarrow>
   ('a, 's, 'd) stack_entry list \<Rightarrow> 'd \<Rightarrow> 'g \<Rightarrow>
   (('a, 's, 'd) stack_entry list \<times> 'd \<times> 'g) option" where
  "seek_loop M pass A ascending [] pos g = Some ([], pos, g)"
| "seek_loop M pass A ascending (e # es) pos g =
     (case e_tree e of
        Internal h s css cts \<Rightarrow>
          (let i = (if ascending then e_index e + 1 else e_index e);
               epos = (if ascending then pos else e_position e) in
           if length cts < i \<or> length css < i then None
           else case advance_children M pass A (zip (drop i cts) (drop i css)) i pos epos g of
                  None \<Rightarrow> None
                | Some (None, j, pos', epos', g') \<Rightarrow> seek_loop M pass A True es pos' g'
                | Some (Some child, j, pos', epos', g') \<Rightarrow>
                    seek_loop M pass A False
                      (\<lparr>e_tree = child, e_index = 0, e_position = pos'\<rparr> #
                       e\<lparr>e_index := j, e_position := epos'\<rparr> # es) pos' g')
      | Leaf s its iss \<Rightarrow>
          (if length its < e_index e \<or> length iss < e_index e then None
           else case advance_items M pass A (zip (drop (e_index e) its) (drop (e_index e) iss))
                       (e_index e) pos (begin_leaf A g) of
                  None \<Rightarrow> None
                | Some (stopped, j, pos', g') \<Rightarrow>
                    (case end_leaf A g' of
                       None \<Rightarrow> None
                     | Some g'' \<Rightarrow>
                         (if stopped then Some (e\<lparr>e_index := j\<rparr> # es, pos', g'')
                          else seek_loop M pass A True es pos' g''))))"
  by pat_completeness auto
termination
proof (relation "measure (\<lambda>(M, pass, A, ascending, es, pos, g).
    2 * stack_weight ascending es + (if ascending then 1 else 0))", goal_cases)
  case 3
  then show ?case
    by (auto dest!: advance_children_child simp: double_less_Suc simp del: stack_weight.simps
        intro: stack_weight_descend split: if_splits)
qed (auto simp: stack_weight_True)

text \<open>\<^verbatim>\<open>seek_internal\<close> returns whether the target was found, the cursor and the aggregate.\<close>

definition seek_internal ::
  "('s, 'd) dim_impl \<Rightarrow> ('a, 's, 'd) cursor \<Rightarrow> ('d \<Rightarrow> ordering) \<Rightarrow> bias \<Rightarrow> ('a, 's, 'g) seek_aggregate \<Rightarrow> 'g \<Rightarrow>
   (bool \<times> ('a, 's, 'd) cursor \<times> 'g) option" where
  "seek_internal M c cmp bias A g =
     (if cmp (c_position c) = Less then None
      else do {
        let stack = (if did_seek c then c_stack c
                     else \<lparr>e_tree = c_tree c, e_index = 0, e_position = dzero M\<rparr> # c_stack c);
        (stack', pos', g') \<leftarrow> seek_loop M (passes cmp bias) A False stack (c_position c) g;
        let c' = c\<lparr>c_stack := stack', c_position := pos', did_seek := True, at_end := (stack' = [])\<rparr>;
        end \<leftarrow> (if bias = Left then cursor_end M c' else Some pos');
        Some (cmp end = Equal, c', g')
      })"

definition seek ::
  "('s, 'd) dim_impl \<Rightarrow> ('a, 's, 'd) cursor \<Rightarrow> ('d \<Rightarrow> ordering) \<Rightarrow> bias \<Rightarrow>
   (bool \<times> ('a, 's, 'd) cursor) option" where
  "seek M c cmp bias = do {
     (found, c', _) \<leftarrow> seek_internal M (cursor_reset M c) cmp bias unit_aggregate ();
     Some (found, c') }"

definition seek_forward ::
  "('s, 'd) dim_impl \<Rightarrow> ('a, 's, 'd) cursor \<Rightarrow> ('d \<Rightarrow> ordering) \<Rightarrow> bias \<Rightarrow>
   (bool \<times> ('a, 's, 'd) cursor) option" where
  "seek_forward M c cmp bias = do {
     (found, c', _) \<leftarrow> seek_internal M c cmp bias unit_aggregate ();
     Some (found, c') }"

definition slice ::
  "('a, 's) item_impl \<Rightarrow> ('s, 'd) dim_impl \<Rightarrow> ('a, 's, 'd) cursor \<Rightarrow> ('d \<Rightarrow> ordering) \<Rightarrow> bias \<Rightarrow>
   (('a, 's) sum_tree \<times> ('a, 's, 'd) cursor) option" where
  "slice D M c cmp bias = do {
     (_, c', g) \<leftarrow> seek_internal M c cmp bias (slice_aggregate D) (slice_init D);
     Some (slice_tree g, c') }"

text \<open>\<^verbatim>\<open>suffix\<close> slices to the target \<^verbatim>\<open>End\<close>, which is greater than every position.\<close>

definition end_target :: "'d \<Rightarrow> ordering" where
  "end_target d = Greater"

definition suffix ::
  "('a, 's) item_impl \<Rightarrow> ('s, 'd) dim_impl \<Rightarrow> ('a, 's, 'd) cursor \<Rightarrow>
   (('a, 's) sum_tree \<times> ('a, 's, 'd) cursor) option" where
  "suffix D M c = slice D M c end_target Right"

definition cursor_summary ::
  "('s, 'd) dim_impl \<Rightarrow> ('s, 'o) dim_impl \<Rightarrow> ('a, 's, 'd) cursor \<Rightarrow> ('d \<Rightarrow> ordering) \<Rightarrow> bias \<Rightarrow>
   ('o \<times> ('a, 's, 'd) cursor) option" where
  "cursor_summary M N c cmp bias = do {
     (_, c', g) \<leftarrow> seek_internal M c cmp bias (summary_aggregate N) (dzero N);
     Some (g, c') }"

section \<open>Searching forward\<close>

text \<open>Skipping the entries of a node whose summary the filter rejects.\<close>

fun skip_rejected ::
  "('s, 'd) dim_impl \<Rightarrow> ('s \<Rightarrow> bool) \<Rightarrow> 's list \<Rightarrow> nat \<Rightarrow> 'd \<Rightarrow> 'd \<Rightarrow> nat \<times> 'd \<times> 'd" where
  "skip_rejected M f [] i pos epos = (i, pos, epos)"
| "skip_rejected M f (s # ss) i pos epos =
     (if f s then (i, pos, epos)
      else skip_rejected M f ss (i + 1) (dadd M pos s) (dadd M epos s))"

lemma skip_rejected_index:
  "skip_rejected M f ss i pos epos = (j, r) \<Longrightarrow> i \<le> j \<and> j \<le> i + length ss"
  by (induction M f ss i pos epos rule: skip_rejected.induct) (auto split: if_splits)

function (sequential) search_forward_loop ::
  "('s, 'd) dim_impl \<Rightarrow> ('s \<Rightarrow> bool) \<Rightarrow> bool \<Rightarrow> ('a, 's, 'd) stack_entry list \<Rightarrow> 'd \<Rightarrow>
   (('a, 's, 'd) stack_entry list \<times> 'd) option" where
  "search_forward_loop M f descend [] pos = Some ([], pos)"
| "search_forward_loop M f descend (e # es) pos =
     (case e_tree e of
        Internal h s css cts \<Rightarrow>
          (let i = (if descend then e_index e else e_index e + 1);
               epos = (if descend then e_position e else pos);
               (j, pos', epos') = skip_rejected M f (drop i css) i pos epos in
           if j < length cts then
             search_forward_loop M f True
               (\<lparr>e_tree = cts ! j, e_index = 0, e_position = pos'\<rparr> #
                e\<lparr>e_index := j, e_position := epos'\<rparr> # es) pos'
           else search_forward_loop M f False es pos')
      | Leaf s its iss \<Rightarrow>
          (if \<not> descend \<and> \<not> e_index e < length iss then None
           else let i = (if descend then e_index e else e_index e + 1);
                    pos0 = (if descend then pos else dadd M pos (iss ! e_index e));
                    epos0 = (if descend then e_position e else dadd M (e_position e) (iss ! e_index e));
                    (j, pos', epos') = skip_rejected M f (drop i iss) i pos0 epos0 in
                if j < length iss then Some (e\<lparr>e_index := j, e_position := epos'\<rparr> # es, pos')
                else search_forward_loop M f False es pos'))"
  by pat_completeness auto
termination
proof (relation "measure (\<lambda>(M, f, descend, es, pos).
    2 * stack_weight (\<not> descend) es + (if descend then 0 else 1))", goal_cases)
  case (2 M f descend e es pos h s css cts i epos x j y pos' epos')
  then have "i \<le> j" by (metis skip_rejected_index)
  with 2 show ?case
    using stack_weight_descend [of e h s css cts j pos' epos' es]
    by (auto simp: double_less_Suc simp del: stack_weight.simps split: if_splits)
qed (auto simp: stack_weight_True)

definition search_forward ::
  "('s, 'd) dim_impl \<Rightarrow> ('s \<Rightarrow> bool) \<Rightarrow> ('a, 's, 'd) cursor \<Rightarrow> ('a, 's, 'd) cursor option" where
  "search_forward M f c =
     (let start = (c_stack c = []);
          descend = (start \<and> \<not> at_end c);
          stack = (if descend then [\<lparr>e_tree = c_tree c, e_index = 0, e_position = dzero M\<rparr>] else c_stack c)
      in do {
        (stack', pos') \<leftarrow> search_forward_loop M f descend stack (c_position c);
        Some (c\<lparr>c_stack := stack', c_position := pos',
                did_seek := (did_seek c \<or> start),
                at_end := (if stack' = [] then True else at_end c)\<rparr>) })"

definition cursor_next :: "('s, 'd) dim_impl \<Rightarrow> ('a, 's, 'd) cursor \<Rightarrow> ('a, 's, 'd) cursor option" where
  "cursor_next M c = search_forward M (\<lambda>_. True) c"

text \<open>\<^verbatim>\<open>Iterator::next\<close> for cursors: the current item, and the cursor one step further.\<close>

definition cursor_iter_next ::
  "('s, 'd) dim_impl \<Rightarrow> ('a, 's, 'd) cursor \<Rightarrow> ('a option \<times> ('a, 's, 'd) cursor) option" where
  "cursor_iter_next M c = do {
     c1 \<leftarrow> (if did_seek c then Some c else cursor_next M c);
     x \<leftarrow> cursor_item c1;
     (case x of None \<Rightarrow> Some (None, c1)
      | Some x \<Rightarrow> do { c2 \<leftarrow> cursor_next M c1; Some (Some x, c2) }) }"

end
