(* ===== verification/Cursor_Correct.thy ===== *)
theory Cursor_Correct
  imports Sum_Cursor
begin

text \<open>
  What the cursor operations do to the sequence of items. A stack stands for the items it has not passed
  yet (\<open>stack_items\<close>); seeking with a target that is monotone along the tree passes exactly the longest
  prefix of items whose end position the target exceeds (\<open>passed_prefix\<close>), hands that prefix to the
  aggregate, and stops at the first other item. The facts hold for any summary, dimension and
  aggregate that satisfy the laws of the locales below.
\<close>

section \<open>Positions\<close>

definition pos_after :: "('a, 's) item_impl \<Rightarrow> ('s, 'd) dim_impl \<Rightarrow> 'd \<Rightarrow> 'a list \<Rightarrow> 'd" where
  "pos_after D M d xs = foldl (\<lambda>d x. dadd M d (summarize D x)) d xs"

fun passed_prefix :: "('a, 's) item_impl \<Rightarrow> ('s, 'd) dim_impl \<Rightarrow> ('d \<Rightarrow> bool) \<Rightarrow> 'd \<Rightarrow> 'a list \<Rightarrow> 'a list" where
  "passed_prefix D M pass d [] = []"
| "passed_prefix D M pass d (x # xs) =
     (let d' = dadd M d (summarize D x) in if pass d' then x # passed_prefix D M pass d' xs else [])"

text \<open>The seek condition is monotone along a sequence: it never holds later without holding earlier.\<close>

definition seekable :: "('a, 's) item_impl \<Rightarrow> ('s, 'd) dim_impl \<Rightarrow> ('d \<Rightarrow> bool) \<Rightarrow> 'd \<Rightarrow> 'a list \<Rightarrow> bool" where
  "seekable D M pass d xs \<longleftrightarrow>
     (\<forall>i j. 0 < i \<and> i \<le> j \<and> j \<le> length xs \<and> pass (pos_after D M d (take j xs)) \<longrightarrow>
            pass (pos_after D M d (take i xs)))"

lemma pos_after_simps [simp]:
  "pos_after D M d [] = d"
  "pos_after D M d (x # xs) = pos_after D M (dadd M d (summarize D x)) xs"
  "pos_after D M d (xs @ ys) = pos_after D M (pos_after D M d xs) ys"
  by (simp_all add: pos_after_def)

lemma passed_prefix_prefix: "\<exists>ys. xs = passed_prefix D M pass d xs @ ys"
  by (induction D M pass d xs rule: passed_prefix.induct) (auto simp: Let_def)

lemma passed_prefix_take:
  "passed_prefix D M pass d xs = take (length (passed_prefix D M pass d xs)) xs"
  using passed_prefix_prefix [of xs D M pass d] by (metis append_eq_conv_conj)

lemma length_passed_prefix: "length (passed_prefix D M pass d xs) \<le> length xs"
  by (metis passed_prefix_prefix length_append le_add1)

lemma seekable_prefix: "seekable D M pass d (xs @ ys) \<Longrightarrow> seekable D M pass d xs"
  unfolding seekable_def
proof (intro allI impI)
  fix i j
  assume *: "\<forall>i j. 0 < i \<and> i \<le> j \<and> j \<le> length (xs @ ys) \<and> pass (pos_after D M d (take j (xs @ ys))) \<longrightarrow>
      pass (pos_after D M d (take i (xs @ ys)))"
    and ij: "0 < i \<and> i \<le> j \<and> j \<le> length xs \<and> pass (pos_after D M d (take j xs))"
  then show "pass (pos_after D M d (take i xs))" using * [rule_format, of i j] by auto
qed

lemma seekable_suffix: "seekable D M pass d (xs @ ys) \<Longrightarrow> seekable D M pass (pos_after D M d xs) ys"
  unfolding seekable_def
proof (intro allI impI)
  fix i j
  assume *: "\<forall>i j. 0 < i \<and> i \<le> j \<and> j \<le> length (xs @ ys) \<and> pass (pos_after D M d (take j (xs @ ys))) \<longrightarrow>
      pass (pos_after D M d (take i (xs @ ys)))"
    and ij: "0 < i \<and> i \<le> j \<and> j \<le> length ys \<and> pass (pos_after D M (pos_after D M d xs) (take j ys))"
  then show "pass (pos_after D M (pos_after D M d xs) (take i ys))"
    using * [rule_format, of "length xs + i" "length xs + j"] by simp
qed

lemma seekable_Cons:
  "seekable D M pass d (x # xs) \<Longrightarrow> seekable D M pass (dadd M d (summarize D x)) xs"
  using seekable_suffix [of D M pass d "[x]" xs] by simp

lemma passed_prefix_all:
  assumes "seekable D M pass d xs" "xs \<noteq> [] \<Longrightarrow> pass (pos_after D M d xs)"
  shows "passed_prefix D M pass d (xs @ ys) = xs @ passed_prefix D M pass (pos_after D M d xs) ys"
  using assms
proof (induction xs arbitrary: d)
  case (Cons x xs)
  let ?d = "dadd M d (summarize D x)"
  have "pass ?d"
    using Cons.prems(1) [unfolded seekable_def, rule_format, of 1 "Suc (length xs)"] Cons.prems(2) by simp
  moreover have "seekable D M pass ?d xs" using Cons.prems(1) by (rule seekable_Cons)
  moreover have "xs \<noteq> [] \<Longrightarrow> pass (pos_after D M ?d xs)" using Cons.prems(2) by simp
  ultimately show ?case using Cons.IH [of ?d] by (simp add: Let_def)
qed simp

lemma passed_prefix_stop:
  "passed_prefix D M pass d xs \<noteq> xs \<Longrightarrow> passed_prefix D M pass d (xs @ ys) = passed_prefix D M pass d xs"
  by (induction D M pass d xs rule: passed_prefix.induct) (auto simp: Let_def split: if_splits)

lemma passed_prefix_append_all:
  "passed_prefix D M pass d xs = xs \<Longrightarrow>
   passed_prefix D M pass d (xs @ ys) = xs @ passed_prefix D M pass (pos_after D M d xs) ys"
  by (induction xs arbitrary: d) (auto simp: Let_def split: if_splits)

section \<open>Laws of dimensions and aggregates\<close>

locale dimension_laws = summary_laws D
  for D :: "('a, 's) item_impl" +
  fixes M :: "('s, 'd) dim_impl"
  assumes dadd_sadd: "dadd M (dadd M d a) b = dadd M d (sadd D a b)"
begin

lemma pos_after_smry: "xs \<noteq> [] \<Longrightarrow> pos_after D M d xs = dadd M d (smry xs)"
proof (induction xs arbitrary: d rule: list_nonempty_induct)
  case (single x)
  then show ?case by (simp add: smry_def)
next
  case (cons x xs)
  then show ?case using smry_append [of xs "[x]"] by (simp add: dadd_sadd smry_def)
qed

lemma pos_after_node: "wf_node D n t \<Longrightarrow> dadd M d (summary t) = pos_after D M d (tree_items t)"
  using wf_node_summary wf_node_items pos_after_smry by metis

end

text \<open>Pushing a run of items onto an aggregate.\<close>

fun fold_items :: "('a, 's) item_impl \<Rightarrow> ('a, 's, 'g) seek_aggregate \<Rightarrow> 'g \<Rightarrow> 'a list \<Rightarrow> 'g option" where
  "fold_items D A g [] = Some g"
| "fold_items D A g (x # xs) = do { g' \<leftarrow> push_item A g x (summarize D x); fold_items D A g' xs }"

text \<open>\<open>inv g xs\<close>: the aggregate \<open>g\<close> has received the items \<open>xs\<close>.\<close>

locale aggregate_laws = summary_laws D
  for D :: "('a, 's) item_impl" +
  fixes A :: "('a, 's, 'g) seek_aggregate" and inv :: "'g \<Rightarrow> 'a list \<Rightarrow> bool"
  assumes push_tree_ok: "inv g xs \<Longrightarrow> wf_node D n t \<Longrightarrow>
      \<exists>g'. push_tree A g t (summary t) = Some g' \<and> inv g' (xs @ tree_items t)"
    and leaf_run_ok: "inv g xs \<Longrightarrow> length ys \<le> 2 * TREE_BASE \<Longrightarrow>
      \<exists>g1 g2. fold_items D A (begin_leaf A g) ys = Some g1 \<and> end_leaf A g1 = Some g2 \<and> inv g2 (xs @ ys)"

section \<open>Stacks\<close>

fun kids_items :: "('a, 's) sum_tree \<Rightarrow> nat \<Rightarrow> 'a list" where
  "kids_items (Internal h s css cts) i = concat (map tree_items (drop i cts))"
| "kids_items (Leaf s its iss) i = drop i its"

definition below_items :: "('a, 's, 'd) stack_entry list \<Rightarrow> 'a list" where
  "below_items es = concat (map (\<lambda>e. kids_items (e_tree e) (e_index e + 1)) es)"

fun stack_items :: "bool \<Rightarrow> ('a, 's, 'd) stack_entry list \<Rightarrow> 'a list" where
  "stack_items ascending [] = []"
| "stack_items ascending (e # es) =
     kids_items (e_tree e) (if ascending then e_index e + 1 else e_index e) @ below_items es"

definition wf_below :: "('a, 's) item_impl \<Rightarrow> ('a, 's, 'd) stack_entry list \<Rightarrow> bool" where
  "wf_below D es \<longleftrightarrow>
     list_all (\<lambda>e. \<not> is_leaf (e_tree e) \<and> wf_node D (height (e_tree e)) (e_tree e) \<and>
                   e_index e < length (child_summaries (e_tree e))) es"

fun wf_stack :: "('a, 's) item_impl \<Rightarrow> bool \<Rightarrow> ('a, 's, 'd) stack_entry list \<Rightarrow> bool" where
  "wf_stack D ascending [] \<longleftrightarrow> True"
| "wf_stack D ascending (e # es) \<longleftrightarrow>
     wf_tree D (e_tree e) \<and>
     (if ascending then e_index e < length (child_summaries (e_tree e))
      else e_index e \<le> length (child_summaries (e_tree e))) \<and>
     wf_below D es"

lemma below_items_simps [simp]:
  "below_items [] = []"
  "below_items (e # es) = kids_items (e_tree e) (e_index e + 1) @ below_items es"
  by (simp_all add: below_items_def)

lemma stack_items_True: "stack_items True es = below_items es"
  by (cases es) auto

lemma wf_below_simps [simp]:
  "wf_below D []"
  "wf_below D (e # es) \<longleftrightarrow> \<not> is_leaf (e_tree e) \<and> wf_node D (height (e_tree e)) (e_tree e) \<and>
     e_index e < length (child_summaries (e_tree e)) \<and> wf_below D es"
  by (simp_all add: wf_below_def)

lemma wf_stack_True: "wf_below D es \<Longrightarrow> wf_stack D True es"
  by (cases es) auto

text \<open>A stack whose top, if any, is a leaf entry that points at an item.\<close>

definition at_item :: "('a, 's, 'd) stack_entry list \<Rightarrow> bool" where
  "at_item es \<longleftrightarrow> (case es of [] \<Rightarrow> True | e # _ \<Rightarrow> is_leaf (e_tree e) \<and> e_index e < length (leaf_items (e_tree e)))"

definition top_is_leaf :: "('a, 's, 'd) stack_entry list \<Rightarrow> bool" where
  "top_is_leaf es \<longleftrightarrow> (case es of [] \<Rightarrow> False | e # _ \<Rightarrow> is_leaf (e_tree e))"

lemma wf_below_top: "wf_below D es \<Longrightarrow> \<not> top_is_leaf es"
  by (cases es) (auto simp: top_is_leaf_def)

lemma at_item_empty: "at_item es \<Longrightarrow> es = [] \<longleftrightarrow> stack_items False es = []"
proof (cases es)
  case (Cons e es')
  assume "at_item es"
  with Cons show ?thesis by (cases "e_tree e") (auto simp: at_item_def)
qed simp

section \<open>Seeking\<close>

locale seeking = dimension_laws D M + aggregate_laws D A inv
  for D :: "('a, 's) item_impl" and M :: "('s, 'd) dim_impl"
    and A :: "('a, 's, 'g) seek_aggregate" and inv :: "'g \<Rightarrow> 'a list \<Rightarrow> bool"
begin

lemma advance_items_ok:
  assumes "fold_items D A g (passed_prefix D M pass pos its) = Some g'"
  shows "advance_items M pass A (zip its (map (summarize D) its)) i pos g =
    Some (passed_prefix D M pass pos its \<noteq> its, i + length (passed_prefix D M pass pos its),
          pos_after D M pos (passed_prefix D M pass pos its), g')"
  using assms
proof (induction its arbitrary: i pos g)
  case (Cons x its)
  then show ?case by (auto simp: Let_def split: bind_splits)
qed simp

text \<open>The scan over children passes the items of some of them and then names the child to enter.\<close>

lemma advance_children_ok:
  assumes "list_all (wf_node D n) ts" "inv g xs" "seekable D M pass pos (concat (map tree_items ts))"
  shows "\<exists>r j pos' epos' g' k. advance_children M pass A (zip ts (map summary ts)) i pos epos g =
            Some (r, j, pos', epos', g') \<and>
          k \<le> length ts \<and> j = i + k \<and>
          pos' = pos_after D M pos (concat (map tree_items (take k ts))) \<and>
          inv g' (xs @ concat (map tree_items (take k ts))) \<and>
          (\<forall>zs. passed_prefix D M pass pos (concat (map tree_items ts) @ zs) =
             concat (map tree_items (take k ts)) @
             passed_prefix D M pass pos' (concat (map tree_items (drop k ts)) @ zs)) \<and>
          (case r of None \<Rightarrow> k = length ts | Some t \<Rightarrow> k < length ts \<and> t = ts ! k)"
  using assms
proof (induction ts arbitrary: i pos epos g xs)
  case Nil
  then show ?case by auto
next
  case (Cons t ts)
  let ?stop = "dadd M pos (summary t)"
  have t: "wf_node D n t" using Cons.prems(1) by simp
  have e: "?stop = pos_after D M pos (tree_items t)" using t by (rule pos_after_node)
  have sk: "seekable D M pass pos (tree_items t)" "seekable D M pass ?stop (concat (map tree_items ts))"
    using Cons.prems(3) seekable_prefix seekable_suffix e by (force, force)
  show ?case
  proof (cases "pass ?stop")
    case False
    then show ?thesis using Cons.prems(2) by (intro exI [of _ "Some t"] exI [of _ i] exI [of _ pos] exI [of _ epos] exI [of _ g] exI [of _ 0]) simp
  next
    case True
    obtain g1 where g1: "push_tree A g t (summary t) = Some g1" "inv g1 (xs @ tree_items t)"
      using push_tree_ok [OF Cons.prems(2) t] by blast
    from Cons.IH [OF _ g1(2) sk(2), of "i + 1" ?stop] Cons.prems(1) obtain r j pos' epos' g' k where IH:
      "advance_children M pass A (zip ts (map summary ts)) (i + 1) ?stop ?stop g1 = Some (r, j, pos', epos', g')"
      "k \<le> length ts" "j = i + 1 + k" "pos' = pos_after D M ?stop (concat (map tree_items (take k ts)))"
      "inv g' ((xs @ tree_items t) @ concat (map tree_items (take k ts)))"
      "\<And>zs. passed_prefix D M pass ?stop (concat (map tree_items ts) @ zs) =
         concat (map tree_items (take k ts)) @
         passed_prefix D M pass pos' (concat (map tree_items (drop k ts)) @ zs)"
      "case r of None \<Rightarrow> k = length ts | Some t \<Rightarrow> k < length ts \<and> t = ts ! k"
      by auto
    have "passed_prefix D M pass pos (tree_items t @ ys) = tree_items t @ passed_prefix D M pass ?stop ys" for ys
      using passed_prefix_all [OF sk(1)] True e by simp
    with IH True g1(1) e show ?thesis
      by (intro exI [of _ r] exI [of _ j] exI [of _ pos'] exI [of _ epos'] exI [of _ g'] exI [of _ "Suc k"])
        (auto split: option.splits)
  qed
qed

definition seek_outcome :: "('d \<Rightarrow> bool) \<Rightarrow> 'd \<Rightarrow> 'a list \<Rightarrow> ('a, 's, 'd) stack_entry list \<Rightarrow> 'd \<Rightarrow> bool" where
  "seek_outcome pass pos xs es' pos' \<longleftrightarrow>
     pos' = pos_after D M pos (passed_prefix D M pass pos xs) \<and>
     wf_stack D False es' \<and> at_item es' \<and>
     stack_items False es' = drop (length (passed_prefix D M pass pos xs)) xs"

lemma seek_outcome_append:
  assumes "seek_outcome pass (pos_after D M pos xs) ys es' pos'"
    and "passed_prefix D M pass pos (xs @ ys) = xs @ passed_prefix D M pass (pos_after D M pos xs) ys"
  shows "seek_outcome pass pos (xs @ ys) es' pos'"
  using assms by (simp add: seek_outcome_def)

lemma kids_items_0 [simp]: "kids_items t 0 = tree_items t"
  by (cases t) auto

lemma wf_tree_internal:
  "wf_tree D (Internal h s css cts) \<Longrightarrow> wf_node D h (Internal h s css cts)"
  by (auto simp: wf_tree_def st_new_def)

lemma wf_tree_leaf:
  "wf_tree D (Leaf s its iss) \<Longrightarrow> iss = map (summarize D) its \<and> length its \<le> 2 * TREE_BASE"
  by (auto simp: wf_tree_def st_new_def)

lemma seek_loop_ok:
  assumes "wf_stack D ascending es" "ascending \<longrightarrow> \<not> top_is_leaf es" "inv g xs"
    and "seekable D M pass pos (stack_items ascending es)"
  shows "\<exists>es' pos' g'. seek_loop M pass A ascending es pos g = Some (es', pos', g') \<and>
           inv g' (xs @ passed_prefix D M pass pos (stack_items ascending es)) \<and>
           seek_outcome pass pos (stack_items ascending es) es' pos'"
  using assms
proof (induction "2 * stack_weight ascending es + (if ascending then 1 else 0)"
    arbitrary: ascending es pos g xs rule: less_induct)
  case less
  show ?case
  proof (cases es)
    case Nil
    with less.prems(3) show ?thesis by (simp add: seek_outcome_def at_item_def)
  next
    case (Cons e es0)
    have pop: "\<exists>es' pos'' g''. seek_loop M pass A True es0 pos' g' = Some (es', pos'', g'') \<and>
        inv g'' (ys @ passed_prefix D M pass pos' (below_items es0)) \<and>
        seek_outcome pass pos' (below_items es0) es' pos''"
      if "inv g' ys" "seekable D M pass pos' (below_items es0)" for pos' g' ys
      using less.hyps [of True es0 g' ys pos'] that less.prems(1) Cons
      by (auto simp: stack_items_True stack_weight_True wf_stack_True wf_below_top)
    show ?thesis
    proof (cases "e_tree e")
      case (Internal h s css cts)
      define i where "i = (if ascending then e_index e + 1 else e_index e)"
      define ts where "ts = drop i cts"
      have node: "wf_node D h (Internal h s css cts)"
        using less.prems(1) Cons Internal by (intro wf_tree_internal) simp
      then have css: "css = map summary cts" and kids: "list_all (wf_node D (h - 1)) ts"
        by (auto simp: ts_def list_all_iff dest: in_set_dropD)
      have i: "i \<le> length cts" using less.prems(1) Cons Internal css by (auto simp: i_def split: if_splits)
      have items: "stack_items ascending es = concat (map tree_items ts) @ below_items es0"
        using Cons Internal by (simp add: ts_def i_def)
      have sk: "seekable D M pass pos (concat (map tree_items ts) @ below_items es0)"
        using less.prems(4) items by simp
      obtain r j pos' epos' g' k where adv:
        "advance_children M pass A (zip ts (map summary ts)) i pos
           (if ascending then pos else e_position e) g = Some (r, j, pos', epos', g')"
        "k \<le> length ts" "j = i + k" "pos' = pos_after D M pos (concat (map tree_items (take k ts)))"
        "inv g' (xs @ concat (map tree_items (take k ts)))"
        "\<And>zs. passed_prefix D M pass pos (concat (map tree_items ts) @ zs) =
           concat (map tree_items (take k ts)) @
           passed_prefix D M pass pos' (concat (map tree_items (drop k ts)) @ zs)"
        "case r of None \<Rightarrow> k = length ts | Some t \<Rightarrow> k < length ts \<and> t = ts ! k"
        using advance_children_ok [OF kids less.prems(3) seekable_prefix [OF sk]] by blast
      let ?pre = "concat (map tree_items (take k ts))" and ?post = "concat (map tree_items (drop k ts)) @ below_items es0"
      have split: "stack_items ascending es = ?pre @ ?post"
        using items concat_take_drop [of tree_items k ts] by simp
      have sk': "seekable D M pass pos' ?post"
        using seekable_suffix [of D M pass pos ?pre ?post] less.prems(4) split adv(4) by simp
      have step: "seek_loop M pass A ascending es pos g = (case r of
          None \<Rightarrow> seek_loop M pass A True es0 pos' g'
        | Some child \<Rightarrow> seek_loop M pass A False
            (\<lparr>e_tree = child, e_index = 0, e_position = pos'\<rparr> #
             e\<lparr>e_index := j, e_position := epos'\<rparr> # es0) pos' g')"
        using adv(1) Cons Internal i css
        by (simp add: Let_def ts_def drop_map flip: i_def split: option.split)
      have "\<exists>es' pos'' g''. seek_loop M pass A ascending es pos g = Some (es', pos'', g'') \<and>
          inv g'' ((xs @ ?pre) @ passed_prefix D M pass pos' ?post) \<and>
          seek_outcome pass pos' ?post es' pos''"
      proof (cases r)
        case None
        then show ?thesis
          using pop [OF adv(5), of pos'] sk' adv(7) step by simp
      next
        case (Some t)
        then have k: "k < length ts" "t = ts ! k" using adv(7) by auto
        then have t: "t = cts ! j" "j < length cts" "wf_node D (h - 1) t" "i \<le> j"
          using kids adv(3) by (auto simp: ts_def list_all_length)
        let ?es = "\<lparr>e_tree = t, e_index = 0, e_position = pos'\<rparr> # e\<lparr>e_index := j, e_position := epos'\<rparr> # es0"
        have "drop k ts = t # drop (j + 1) cts"
          using Cons_nth_drop_Suc [OF t(2)] t(1) adv(3) by (simp add: ts_def add.commute)
        then have its: "stack_items False ?es = ?post" using Internal by simp
        have "wf_stack D False ?es"
          using t less.prems(1) Cons Internal node css by (auto simp: wf_treeI)
        moreover have "2 * stack_weight False ?es <
            2 * stack_weight ascending es + (if ascending then 1 else 0)"
          using stack_weight_descend [OF Internal t(2), of pos' epos' es0] t(1,4) Cons i_def
          by (auto simp: double_less_Suc simp del: stack_weight.simps split: if_splits)
        ultimately show ?thesis
          using less.hyps [of False ?es g' "xs @ ?pre" pos'] its sk' adv(5) step Some
          by (simp del: stack_weight.simps stack_items.simps)
      qed
      then show ?thesis
        using split adv(4,6) seek_outcome_append [of pass pos ?pre ?post] items
        by (auto simp del: stack_items.simps)
    next
      case (Leaf s its iss)
      then have asc: "\<not> ascending" using less.prems(2) Cons by (auto simp: top_is_leaf_def)
      have leaf: "iss = map (summarize D) its" "length its \<le> 2 * TREE_BASE" "e_index e \<le> length its"
        using less.prems(1) Cons Leaf asc by (auto dest!: wf_tree_leaf)
      let ?its = "drop (e_index e) its"
      let ?run = "passed_prefix D M pass pos ?its"
      have "length ?run \<le> 2 * TREE_BASE"
        using length_passed_prefix [of D M pass pos ?its] leaf(2) by simp
      from leaf_run_ok [OF less.prems(3) this] obtain g1 g2 where g:
        "fold_items D A (begin_leaf A g) ?run = Some g1" "end_leaf A g1 = Some g2" "inv g2 (xs @ ?run)"
        by blast
      have items: "stack_items ascending es = ?its @ below_items es0" using Cons Leaf asc by simp
      have step: "seek_loop M pass A ascending es pos g =
          (if ?run \<noteq> ?its then Some (e\<lparr>e_index := e_index e + length ?run\<rparr> # es0, pos_after D M pos ?run, g2)
           else seek_loop M pass A True es0 (pos_after D M pos ?run) g2)"
        using advance_items_ok [OF g(1), of "e_index e"] g(2) Cons Leaf leaf by (simp add: drop_map)
      show ?thesis
      proof (cases "?run = ?its")
        case True
        have "seekable D M pass (pos_after D M pos ?its) (below_items es0)"
          using less.prems(4) items seekable_suffix by simp
        from pop [OF _ this, of g2 "xs @ ?its"] g(3) True step items
          passed_prefix_append_all [OF True, of "below_items es0"]
        show ?thesis using seek_outcome_append [of pass pos ?its "below_items es0"] by auto
      next
        case False
        have pre: "passed_prefix D M pass pos (?its @ below_items es0) = ?run"
          using False by (rule passed_prefix_stop)
        have "length ?run < length ?its"
          using False passed_prefix_take [of D M pass pos ?its] length_passed_prefix [of D M pass pos ?its]
          by (metis le_neq_implies_less take_all_iff order_refl)
        then have "seek_outcome pass pos (?its @ below_items es0)
            (e\<lparr>e_index := e_index e + length ?run\<rparr> # es0) (pos_after D M pos ?run)"
          using less.prems(1) Cons Leaf asc leaf(1)
          by (auto simp: seek_outcome_def pre at_item_def add.commute)
        then show ?thesis using False step items g(3) pre by simp
      qed
    qed
  qed
qed

end

end
