(* ===== verification/Cursor_Ops.thy ===== *)
theory Cursor_Ops
  imports Cursor_Correct
begin

text \<open>
  The operations of a cursor over a well-formed tree, in terms of the number \<open>k\<close> of items it has
  passed: seeking, slicing, summarising, reading the item and stepping. The three aggregates of the
  source satisfy the laws of \<open>aggregate_laws\<close>, so each operation is one instance of \<open>seek_loop_ok\<close>.
\<close>

section \<open>The aggregates\<close>

definition slice_inv :: "('a, 's) item_impl \<Rightarrow> ('a, 's) slice_seek_aggregate \<Rightarrow> 'a list \<Rightarrow> bool" where
  "slice_inv D g xs \<longleftrightarrow> slice_items g = [] \<and> slice_summaries g = [] \<and> slice_summary g = szero D \<and>
     wf_tree D (slice_tree g) \<and> tree_items (slice_tree g) = xs"

lemma slice_inv_init: "slice_inv D (slice_init D) []"
  by (simp add: slice_inv_def slice_init_def)

lemma fold_items_slice:
  assumes "slice_items g = ys0" "slice_summaries g = map (summarize D) ys0" "length (ys0 @ ys) \<le> 2 * TREE_BASE"
  shows "fold_items D (slice_aggregate D) g ys =
    Some (g\<lparr>slice_items := ys0 @ ys, slice_summaries := map (summarize D) (ys0 @ ys),
            slice_summary := foldl (sadd D) (slice_summary g) (map (summarize D) ys)\<rparr>)"
  using assms
proof (induction ys arbitrary: g ys0)
  case Nil
  then show ?case by simp
next
  case (Cons y ys)
  let ?g = "g\<lparr>slice_items := ys0 @ [y], slice_summaries := map (summarize D) (ys0 @ [y]),
    slice_summary := sadd D (slice_summary g) (summarize D y)\<rparr>"
  have "push_item (slice_aggregate D) g y (summarize D y) = Some ?g"
    using Cons.prems by (simp add: slice_aggregate_def array_vec_def)
  moreover have "fold_items D (slice_aggregate D) ?g ys =
    Some (?g\<lparr>slice_items := (ys0 @ [y]) @ ys, slice_summaries := map (summarize D) ((ys0 @ [y]) @ ys),
            slice_summary := foldl (sadd D) (slice_summary ?g) (map (summarize D) ys)\<rparr>)"
    using Cons.prems by (intro Cons.IH) auto
  ultimately show ?case by simp
qed

sublocale summary_laws \<subseteq> unit_laws: aggregate_laws D unit_aggregate "\<lambda>_ _. True"
proof
  fix g ys
  show "\<exists>g1 g2. fold_items D unit_aggregate (begin_leaf unit_aggregate g) ys = Some g1 \<and>
      end_leaf unit_aggregate g1 = Some g2 \<and> True"
    by (induction ys) (auto simp: unit_aggregate_def)
qed (simp add: unit_aggregate_def)

sublocale summary_laws \<subseteq> slice_laws: aggregate_laws D "slice_aggregate D" "slice_inv D"
proof
  fix g xs n t
  assume g: "slice_inv D g xs" and t: "wf_node D n t"
  then obtain t' where "append_tree D (slice_tree g) t = Some t'" "wf_tree D t'" "tree_items t' = xs @ tree_items t"
    using append_tree_ok [of "slice_tree g" t] by (auto simp: slice_inv_def)
  with g show "\<exists>g'. push_tree (slice_aggregate D) g t (summary t) = Some g' \<and> slice_inv D g' (xs @ tree_items t)"
    by (simp add: slice_aggregate_def slice_inv_def)
next
  fix g xs and ys :: "'a list"
  assume g: "slice_inv D g xs" and ys: "length ys \<le> 2 * TREE_BASE"
  let ?leaf = "Leaf (ssum D (map (summarize D) ys)) ys (map (summarize D) ys)"
  let ?g = "g\<lparr>slice_items := ys, slice_summaries := map (summarize D) ys,
    slice_summary := ssum D (map (summarize D) ys)\<rparr>"
  have run: "fold_items D (slice_aggregate D) (begin_leaf (slice_aggregate D) g) ys = Some ?g"
    using fold_items_slice [of g "[]" D ys] g ys by (simp add: slice_inv_def slice_aggregate_def ssum_def)
  have "wf_tree D ?leaf" using ys by (cases ys) (auto simp: st_new_def ssum_def wf_tree_def)
  then obtain t' where "append_tree D (slice_tree g) ?leaf = Some t'" "wf_tree D t'" "tree_items t' = xs @ ys"
    using append_tree_ok [of "slice_tree g" ?leaf] g by (auto simp: slice_inv_def)
  with run show "\<exists>g1 g2. fold_items D (slice_aggregate D) (begin_leaf (slice_aggregate D) g) ys = Some g1 \<and>
      end_leaf (slice_aggregate D) g1 = Some g2 \<and> slice_inv D g2 (xs @ ys)"
    by (simp add: slice_aggregate_def slice_inv_def)
qed

sublocale dimension_laws \<subseteq> summary_agg: aggregate_laws D "summary_aggregate M" "\<lambda>g xs. g = pos_after D M (dzero M) xs"
proof
  fix g xs n t
  assume "g = pos_after D M (dzero M) xs" "wf_node D n t"
  then show "\<exists>g'. push_tree (summary_aggregate M) g t (summary t) = Some g' \<and>
      g' = pos_after D M (dzero M) (xs @ tree_items t)"
    using pos_after_node by (simp add: summary_aggregate_def)
next
  fix g xs and ys :: "'a list"
  assume "g = pos_after D M (dzero M) xs"
  moreover have "fold_items D (summary_aggregate M) g ys = Some (pos_after D M g ys)" for g
    by (induction ys arbitrary: g) (auto simp: summary_aggregate_def)
  ultimately show "\<exists>g1 g2. fold_items D (summary_aggregate M) (begin_leaf (summary_aggregate M) g) ys = Some g1 \<and>
      end_leaf (summary_aggregate M) g1 = Some g2 \<and> g2 = pos_after D M (dzero M) (xs @ ys)"
    by (simp add: summary_aggregate_def)
qed

sublocale dimension_laws \<subseteq> unit_seek: seeking D M unit_aggregate "\<lambda>_ _. True" ..

sublocale dimension_laws \<subseteq> slice_seek: seeking D M "slice_aggregate D" "slice_inv D" ..

section \<open>Cursors as positions in the item sequence\<close>

text \<open>\<open>cursor_at D M k c\<close>: the cursor has passed the first \<open>k\<close> items of its tree.\<close>

definition cursor_at :: "('a, 's) item_impl \<Rightarrow> ('s, 'd) dim_impl \<Rightarrow> nat \<Rightarrow> ('a, 's, 'd) cursor \<Rightarrow> bool" where
  "cursor_at D M k c \<longleftrightarrow>
     wf_tree D (c_tree c) \<and> k \<le> length (tree_items (c_tree c)) \<and>
     c_position c = pos_after D M (dzero M) (take k (tree_items (c_tree c))) \<and>
     (if did_seek c
      then wf_stack D False (c_stack c) \<and> at_item (c_stack c) \<and>
           stack_items False (c_stack c) = drop k (tree_items (c_tree c)) \<and>
           at_end c = (c_stack c = [])
      else c_stack c = [] \<and> k = 0 \<and> at_end c = is_empty (c_tree c))"

text \<open>How many items a seek to a target passes, and the end of the item it stops at.\<close>

definition seek_count ::
  "('a, 's) item_impl \<Rightarrow> ('s, 'd) dim_impl \<Rightarrow> ('d \<Rightarrow> bool) \<Rightarrow> 'd \<Rightarrow> 'a list \<Rightarrow> nat" where
  "seek_count D M pass d xs = length (passed_prefix D M pass d xs)"

definition end_at :: "('a, 's) item_impl \<Rightarrow> ('s, 'd) dim_impl \<Rightarrow> nat \<Rightarrow> 'a list \<Rightarrow> 'd" where
  "end_at D M k xs = pos_after D M (dzero M) (take (k + 1) xs)"

lemma cursor_at_new: "wf_tree D t \<Longrightarrow> cursor_at D M 0 (cursor_new M t)"
  by (simp add: cursor_at_def cursor_new_def)

lemma cursor_at_reset: "cursor_at D M k c \<Longrightarrow> cursor_at D M 0 (cursor_reset M c)"
  by (simp add: cursor_at_def cursor_reset_def)

lemma cursor_reset_tree [simp]: "c_tree (cursor_reset M c) = c_tree c" "c_tree (cursor_new M t) = t"
  by (simp_all add: cursor_reset_def cursor_new_def)

lemma at_item_top:
  assumes "at_item (e # es)" "wf_stack D False (e # es)"
  obtains s its where "e_tree e = Leaf s its (map (summarize D) its)" "e_index e < length its"
proof (cases "e_tree e")
  case (Leaf s its iss)
  then have "iss = map (summarize D) its"
    using assms(2) by (auto simp: wf_tree_def st_new_def)
  with that Leaf assms(1) show ?thesis by (auto simp: at_item_def)
qed (use assms in \<open>auto simp: at_item_def\<close>)

lemma drop_eq_Cons_nth: "drop k xs = y # ys \<Longrightarrow> k < length xs \<and> xs ! k = y \<and> ys = drop (k + 1) xs"
  by (metis Cons_nth_drop_Suc Suc_eq_plus1 drop_all linorder_not_less list.inject list.distinct(1))

text \<open>A cursor that has been positioned reads the item it stands at, its summary and its end.\<close>

lemma cursor_item_at:
  assumes "cursor_at D M k c" "did_seek c"
  shows "cursor_item c = Some (if k < length (tree_items (c_tree c)) then Some (tree_items (c_tree c) ! k) else None)"
    and "cursor_item_summary c =
      Some (if k < length (tree_items (c_tree c)) then Some (summarize D (tree_items (c_tree c) ! k)) else None)"
proof -
  let ?xs = "tree_items (c_tree c)"
  have c: "wf_stack D False (c_stack c)" "at_item (c_stack c)" "stack_items False (c_stack c) = drop k ?xs" "k \<le> length ?xs"
    using assms by (simp_all add: cursor_at_def)
  have "cursor_item c = Some (if k < length ?xs then Some (?xs ! k) else None) \<and>
    cursor_item_summary c = Some (if k < length ?xs then Some (summarize D (?xs ! k)) else None)"
  proof (cases "c_stack c")
    case Nil
    with c assms(2) show ?thesis by (auto simp: cursor_item_def cursor_item_summary_def)
  next
    case (Cons e es)
    with c obtain s its where e: "e_tree e = Leaf s its (map (summarize D) its)" "e_index e < length its"
      by (auto elim: at_item_top)
    then have "drop k ?xs = its ! e_index e # (drop (e_index e + 1) its @ below_items es)"
      using c(3) Cons Cons_nth_drop_Suc [OF e(2), symmetric] by simp
    from drop_eq_Cons_nth [OF this] e Cons assms(2) show ?thesis
      by (simp add: cursor_item_def cursor_item_summary_def)
  qed
  then show "cursor_item c = Some (if k < length ?xs then Some (?xs ! k) else None)"
    "cursor_item_summary c = Some (if k < length ?xs then Some (summarize D (?xs ! k)) else None)" by auto
qed

lemma cursor_end_at:
  assumes "cursor_at D M k c" "did_seek c"
  shows "cursor_end M c = Some (end_at D M k (tree_items (c_tree c)))"
  using cursor_item_at(2) [OF assms] assms(1)
  by (auto simp: cursor_end_def end_at_def cursor_at_def take_Suc_conv_app_nth)

context seeking
begin

text \<open>The general seek: every operation of the cursor that moves to a target is this one.\<close>

lemma seek_internal_ok:
  assumes c: "cursor_at D M k c" and fwd: "cmp (c_position c) \<noteq> Less" and "inv g ys"
    and sk: "seekable D M (passes cmp bias) (c_position c) (drop k (tree_items (c_tree c)))"
  defines "xs \<equiv> tree_items (c_tree c)"
  defines "n \<equiv> seek_count D M (passes cmp bias) (c_position c) (drop k xs)"
  shows "\<exists>c' g'. seek_internal M c cmp bias A g =
      Some (cmp (if bias = Left then end_at D M (k + n) xs else c_position c') = Equal, c', g') \<and>
      c_tree c' = c_tree c \<and> did_seek c' \<and> cursor_at D M (k + n) c' \<and> inv g' (ys @ take n (drop k xs))"
proof -
  let ?es = "if did_seek c then c_stack c else \<lparr>e_tree = c_tree c, e_index = 0, e_position = dzero M\<rparr> # c_stack c"
  have es: "wf_stack D False ?es" "stack_items False ?es = drop k xs"
    using c by (auto simp: cursor_at_def xs_def split: if_splits)
  obtain es' pos' g' where r: "seek_loop M (passes cmp bias) A False ?es (c_position c) g = Some (es', pos', g')"
    "inv g' (ys @ passed_prefix D M (passes cmp bias) (c_position c) (drop k xs))"
    "seek_outcome (passes cmp bias) (c_position c) (drop k xs) es' pos'"
    using seek_loop_ok [of False ?es g ys "passes cmp bias" "c_position c"] es sk \<open>inv g ys\<close>
    by (auto simp: xs_def simp del: stack_items.simps wf_stack.simps)
  have pre: "passed_prefix D M (passes cmp bias) (c_position c) (drop k xs) = take n (drop k xs)"
    by (metis n_def seek_count_def passed_prefix_take)
  have n: "k + n \<le> length xs"
  proof -
    have "k \<le> length xs" using c by (simp add: cursor_at_def xs_def)
    then show ?thesis
      using length_passed_prefix [of D M "passes cmp bias" "c_position c" "drop k xs"]
      by (simp add: n_def seek_count_def)
  qed
  define c' where "c' = c\<lparr>c_stack := es', c_position := pos', did_seek := True, at_end := (es' = [])\<rparr>"
  have "c_position c = pos_after D M (dzero M) (take k xs)" using c by (simp add: cursor_at_def xs_def)
  then have "pos' = pos_after D M (dzero M) (take (k + n) xs)"
    using r(3) pre by (simp add: seek_outcome_def take_add)
  moreover have "length (take n (drop k xs)) = n" using n by simp
  ultimately have at: "cursor_at D M (k + n) c'"
    using r(3) pre n c by (simp add: cursor_at_def c'_def xs_def seek_outcome_def add.commute)
  have "cursor_end M c' = Some (end_at D M (k + n) xs)"
    using cursor_end_at [OF at] by (simp add: c'_def xs_def)
  then have "seek_internal M c cmp bias A g =
      Some (cmp (if bias = Left then end_at D M (k + n) xs else c_position c') = Equal, c', g')"
    using r(1) fwd by (auto simp: seek_internal_def c'_def Let_def)
  with at r(2) pre show ?thesis by (auto simp: c'_def)
qed

end

context dimension_laws
begin

text \<open>A seek from the start: defined whenever the target is not before the start.\<close>

lemma seek_ok:
  assumes "cursor_at D M k c" "cmp (dzero M) \<noteq> Less"
    and "seekable D M (passes cmp bias) (dzero M) (tree_items (c_tree c))"
  defines "xs \<equiv> tree_items (c_tree c)"
  defines "n \<equiv> seek_count D M (passes cmp bias) (dzero M) xs"
  shows "\<exists>c'. seek M c cmp bias =
      Some (cmp (if bias = Left then end_at D M n xs else c_position c') = Equal, c') \<and>
      c_tree c' = c_tree c \<and> did_seek c' \<and> cursor_at D M n c'"
  using unit_seek.seek_internal_ok [OF cursor_at_reset [OF assms(1)], where cmp = cmp and bias = bias] assms
  by (auto simp: seek_def cursor_reset_def)

lemma seek_forward_ok:
  assumes "cursor_at D M k c" "cmp (c_position c) \<noteq> Less"
    and "seekable D M (passes cmp bias) (c_position c) (drop k (tree_items (c_tree c)))"
  defines "xs \<equiv> tree_items (c_tree c)"
  defines "n \<equiv> seek_count D M (passes cmp bias) (c_position c) (drop k xs)"
  shows "\<exists>c'. seek_forward M c cmp bias =
      Some (cmp (if bias = Left then end_at D M (k + n) xs else c_position c') = Equal, c') \<and>
      c_tree c' = c_tree c \<and> did_seek c' \<and> cursor_at D M (k + n) c'"
  using unit_seek.seek_internal_ok [OF assms(1,2) TrueI assms(3)] assms
  by (auto simp: seek_forward_def)

lemma slice_ok:
  assumes "cursor_at D M k c" "cmp (c_position c) \<noteq> Less"
    and "seekable D M (passes cmp bias) (c_position c) (drop k (tree_items (c_tree c)))"
  defines "xs \<equiv> tree_items (c_tree c)"
  defines "n \<equiv> seek_count D M (passes cmp bias) (c_position c) (drop k xs)"
  shows "\<exists>t c'. slice D M c cmp bias = Some (t, c') \<and> wf_tree D t \<and> tree_items t = take n (drop k xs) \<and>
      c_tree c' = c_tree c \<and> did_seek c' \<and> cursor_at D M (k + n) c'"
  using slice_seek.seek_internal_ok [OF assms(1,2) slice_inv_init assms(3)] assms
  by (fastforce simp: slice_def slice_inv_def)

lemma seekable_end: "seekable D M (passes end_target bias) d xs"
  by (simp add: seekable_def passes_def end_target_def)

lemma seek_count_end: "seek_count D M (passes end_target bias) d xs = length xs"
proof -
  have "passed_prefix D M (passes end_target bias) d xs = xs"
    by (induction xs arbitrary: d) (auto simp: passes_def end_target_def Let_def)
  then show ?thesis by (simp add: seek_count_def)
qed

lemma suffix_ok:
  assumes "cursor_at D M k c"
  shows "\<exists>t c'. suffix D M c = Some (t, c') \<and> wf_tree D t \<and> tree_items t = drop k (tree_items (c_tree c)) \<and>
      c_tree c' = c_tree c \<and> did_seek c' \<and> cursor_at D M (length (tree_items (c_tree c))) c'"
proof -
  have "k \<le> length (tree_items (c_tree c))" using assms by (simp add: cursor_at_def)
  then show ?thesis
    using slice_ok [OF assms _ seekable_end, of Right] by (simp add: suffix_def seek_count_end) (simp add: end_target_def)
qed

end

text \<open>The summary of what a seek passes, measured in another dimension.\<close>

locale two_dimensions = dimension_laws D M + out: dimension_laws D N
  for D :: "('a, 's) item_impl" and M :: "('s, 'd) dim_impl" and N :: "('s, 'o) dim_impl"

sublocale two_dimensions \<subseteq> summary_seek: seeking D M "summary_aggregate N"
  "\<lambda>g xs. g = pos_after D N (dzero N) xs" ..

context two_dimensions
begin

lemma cursor_summary_ok:
  assumes "cursor_at D M k c" "cmp (c_position c) \<noteq> Less"
    and "seekable D M (passes cmp bias) (c_position c) (drop k (tree_items (c_tree c)))"
  defines "xs \<equiv> tree_items (c_tree c)"
  defines "n \<equiv> seek_count D M (passes cmp bias) (c_position c) (drop k xs)"
  shows "\<exists>c'. cursor_summary M N c cmp bias = Some (pos_after D N (dzero N) (take n (drop k xs)), c') \<and>
      c_tree c' = c_tree c \<and> did_seek c' \<and> cursor_at D M (k + n) c'"
  using summary_seek.seek_internal_ok [OF assms(1,2) _ assms(3), of "dzero N" "[]"] assms
  by (auto simp: cursor_summary_def)

end

end
