(* ===== verification/Cursor_Search.thy ===== *)
theory Cursor_Search
  imports Cursor_Ops
begin

text \<open>
  Stepping and filtering: \<^verbatim>\<open>Cursor::next\<close>, \<^verbatim>\<open>FilterCursor\<close> and their iterators visit exactly the items
  that pass the filter, in order, whatever subtrees the search skips, provided the filter never
  rejects the summary of a run that holds an item it accepts.
\<close>

section \<open>The filter cursor\<close>

text \<open>\<^verbatim>\<open>FilterCursor\<close>: the cursor is the state, the filter an argument.\<close>

definition filter_next :: "('s, 'd) dim_impl \<Rightarrow> ('s \<Rightarrow> bool) \<Rightarrow> ('a, 's, 'd) cursor \<Rightarrow> ('a, 's, 'd) cursor option" where
  "filter_next M f c = search_forward M f c"

definition filter_iter_next ::
  "('s, 'd) dim_impl \<Rightarrow> ('s \<Rightarrow> bool) \<Rightarrow> ('a, 's, 'd) cursor \<Rightarrow> ('a option \<times> ('a, 's, 'd) cursor) option" where
  "filter_iter_next M f c = do {
     c1 \<leftarrow> (if did_seek c then Some c else filter_next M f c);
     x \<leftarrow> cursor_item c1;
     (case x of None \<Rightarrow> Some (None, c1)
      | Some x \<Rightarrow> do { c2 \<leftarrow> search_forward M f c1; Some (Some x, c2) }) }"

text \<open>The items an iterator yields in at most \<open>n\<close> calls, stopping at the first \<^verbatim>\<open>None\<close>.\<close>

fun filter_collect ::
  "('s, 'd) dim_impl \<Rightarrow> ('s \<Rightarrow> bool) \<Rightarrow> nat \<Rightarrow> ('a, 's, 'd) cursor \<Rightarrow> 'a list option" where
  "filter_collect M f 0 c = Some []"
| "filter_collect M f (Suc n) c = do {
     (x, c') \<leftarrow> filter_iter_next M f c;
     (case x of None \<Rightarrow> Some [] | Some x \<Rightarrow> do { xs \<leftarrow> filter_collect M f n c'; Some (x # xs) }) }"

section \<open>The search loop\<close>

lemma skip_rejected_eq:
  "skip_rejected M f ss i pos epos =
     (i + length (takeWhile (\<lambda>s. \<not> f s) ss), foldl (dadd M) pos (takeWhile (\<lambda>s. \<not> f s) ss),
      foldl (dadd M) epos (takeWhile (\<lambda>s. \<not> f s) ss))"
  by (induction M f ss i pos epos rule: skip_rejected.induct) auto

lemma takeWhile_map_take:
  "takeWhile P (map g xs) = map g (take (length (takeWhile (\<lambda>x. P (g x)) xs)) xs)"
  by (induction xs) auto

lemma pos_after_foldl: "pos_after D M d xs = foldl (dadd M) d (map (summarize D) xs)"
  by (simp add: pos_after_def foldl_map)

locale filtering = dimension_laws D M
  for D :: "('a, 's) item_impl" and M :: "('s, 'd) dim_impl" +
  fixes f :: "'s \<Rightarrow> bool"
  assumes filter_covers: "x \<in> set xs \<Longrightarrow> f (summarize D x) \<Longrightarrow> f (smry xs)"
begin

abbreviation rejected :: "'a \<Rightarrow> bool" where
  "rejected x \<equiv> \<not> f (summarize D x)"

lemma rejected_node: "wf_node D n t \<Longrightarrow> \<not> f (summary t) \<Longrightarrow> x \<in> set (tree_items t) \<Longrightarrow> rejected x"
  using filter_covers wf_node_summary by metis

lemma foldl_nodes:
  "list_all (wf_node D n) ts \<Longrightarrow>
   foldl (dadd M) pos (map summary ts) = pos_after D M pos (concat (map tree_items ts))"
proof (induction ts arbitrary: pos)
  case (Cons t ts)
  then show ?case using pos_after_node [of n t] by simp
qed simp

definition search_outcome :: "'d \<Rightarrow> 'a list \<Rightarrow> ('a, 's, 'd) stack_entry list \<Rightarrow> 'd \<Rightarrow> bool" where
  "search_outcome pos xs es' pos' \<longleftrightarrow>
     pos' = pos_after D M pos (takeWhile rejected xs) \<and> wf_stack D False es' \<and> at_item es' \<and>
     stack_items False es' = dropWhile rejected xs"

lemma search_outcome_append:
  assumes "search_outcome (pos_after D M pos xs) ys es' pos'" "\<forall>x\<in>set xs. rejected x"
  shows "search_outcome pos (xs @ ys) es' pos'"
  using assms by (simp add: search_outcome_def)

lemma search_forward_loop_ok:
  assumes "wf_stack D (\<not> descend) es" "descend \<or> \<not> top_is_leaf es"
  shows "\<exists>es' pos'. search_forward_loop M f descend es pos = Some (es', pos') \<and>
           search_outcome pos (stack_items (\<not> descend) es) es' pos'"
  using assms
proof (induction "2 * stack_weight (\<not> descend) es + (if descend then 0 else 1)"
    arbitrary: descend es pos rule: less_induct)
  case less
  show ?case
  proof (cases es)
    case Nil
    then show ?thesis by (simp add: search_outcome_def at_item_def)
  next
    case (Cons e es0)
    have pop: "\<exists>es' pos''. search_forward_loop M f False es0 pos' = Some (es', pos'') \<and>
        search_outcome pos' (below_items es0) es' pos''" for pos'
      using less.hyps [of False es0 pos'] less.prems(1) Cons
      by (auto simp: stack_items_True stack_weight_True wf_stack_True wf_below_top)
    show ?thesis
    proof (cases "e_tree e")
      case (Internal h s css cts)
      define i where "i = (if descend then e_index e else e_index e + 1)"
      define ts where "ts = drop i cts"
      define k where "k = length (takeWhile (\<lambda>t. \<not> f (summary t)) ts)"
      have node: "wf_node D h (Internal h s css cts)"
        using less.prems(1) Cons Internal by (intro unit_seek.wf_tree_internal) simp
      then have css: "css = map summary cts" and kids: "list_all (wf_node D (h - 1)) ts"
        by (auto simp: ts_def list_all_iff dest: in_set_dropD)
      have i: "i \<le> length cts" using less.prems(1) Cons Internal css by (auto simp: i_def split: if_splits)
      have pre: "list_all (wf_node D (h - 1)) (take k ts)" using kids list_all_take_drop by blast
      have skipped: "takeWhile (\<lambda>s. \<not> f s) (drop i css) = map summary (take k ts)"
        by (simp add: css drop_map ts_def k_def takeWhile_map_take)
      have k: "k \<le> length ts" by (simp add: k_def length_takeWhile_le)
      let ?pre = "concat (map tree_items (take k ts))" and ?post = "concat (map tree_items (drop k ts)) @ below_items es0"
      let ?pos = "pos_after D M pos ?pre"
      have rej: "\<forall>x\<in>set ?pre. rejected x"
      proof -
        have "\<not> f (summary t)" if "t \<in> set (take k ts)" for t
          using that set_takeWhileD [of t "\<lambda>t. \<not> f (summary t)" ts]
          by (simp add: k_def flip: takeWhile_eq_take)
        then show ?thesis using pre rejected_node by (fastforce simp: list_all_iff)
      qed
      have split: "stack_items (\<not> descend) es = ?pre @ ?post"
        using Cons Internal concat_take_drop [of tree_items k ts] by (simp add: ts_def i_def)
      let ?j = "i + k"
      let ?epos = "foldl (dadd M) (if descend then e_position e else pos) (map summary (take k ts))"
      have "skip_rejected M f (drop i css) i pos (if descend then e_position e else pos) = (?j, ?pos, ?epos)"
        using k by (simp add: skip_rejected_eq skipped foldl_nodes [OF pre])
      then have step: "search_forward_loop M f descend es pos =
          (if ?j < length cts then search_forward_loop M f True
             (\<lparr>e_tree = cts ! ?j, e_index = 0, e_position = ?pos\<rparr> # e\<lparr>e_index := ?j, e_position := ?epos\<rparr> # es0) ?pos
           else search_forward_loop M f False es0 ?pos)"
        using Cons Internal by (simp add: Let_def flip: i_def)
      have "\<exists>es' pos''. search_forward_loop M f descend es pos = Some (es', pos'') \<and>
          search_outcome ?pos ?post es' pos''"
      proof (cases "?j < length cts")
        case False
        then have "drop k ts = []" by (simp add: ts_def)
        with False step pop [of ?pos] show ?thesis by simp
      next
        case True
        let ?es = "\<lparr>e_tree = cts ! ?j, e_index = 0, e_position = ?pos\<rparr> # e\<lparr>e_index := ?j, e_position := ?epos\<rparr> # es0"
        have t: "wf_node D (h - 1) (cts ! ?j)" using node True by (simp add: list_all_length)
        have "drop k ts = cts ! ?j # drop (?j + 1) cts"
          using Cons_nth_drop_Suc [OF True] by (simp add: ts_def add.commute)
        then have its: "stack_items False ?es = ?post" using Internal by simp
        have "wf_stack D False ?es"
          using t True less.prems(1) Cons Internal node css by (auto simp: wf_treeI)
        moreover have "2 * stack_weight False ?es <
            2 * stack_weight (\<not> descend) es + (if descend then 0 else 1)"
          using stack_weight_descend [OF Internal True, of ?pos ?epos es0] Cons i_def
          by (auto simp: double_less_Suc simp del: stack_weight.simps split: if_splits)
        ultimately show ?thesis
          using less.hyps [of True ?es ?pos] its step True by (simp del: stack_weight.simps stack_items.simps)
      qed
      then show ?thesis using split search_outcome_append [OF _ rej] by auto
    next
      case (Leaf s its iss)
      then have desc: "descend" using less.prems(2) Cons by (auto simp: top_is_leaf_def)
      have leaf: "iss = map (summarize D) its" "e_index e \<le> length its"
        using less.prems(1) Cons Leaf desc by (auto dest!: unit_seek.wf_tree_leaf)
      let ?its = "drop (e_index e) its"
      let ?run = "takeWhile rejected ?its"
      have sk: "takeWhile (\<lambda>s. \<not> f s) (drop (e_index e) iss) = map (summarize D) ?run"
        by (simp add: leaf drop_map takeWhile_map comp_def)
      have items: "stack_items (\<not> descend) es = ?its @ below_items es0" using Cons Leaf desc by simp
      let ?epos = "pos_after D M (e_position e) ?run"
      have "skip_rejected M f (drop (e_index e) iss) (e_index e) pos (e_position e) =
          (e_index e + length ?run, pos_after D M pos ?run, ?epos)"
        by (simp add: skip_rejected_eq sk pos_after_foldl)
      then have step: "search_forward_loop M f descend es pos =
          (if e_index e + length ?run < length its
           then Some (e\<lparr>e_index := e_index e + length ?run, e_position := ?epos\<rparr> # es0, pos_after D M pos ?run)
           else search_forward_loop M f False es0 (pos_after D M pos ?run))"
        using Cons Leaf desc leaf(1) by (simp add: Let_def)
      show ?thesis
      proof (cases "e_index e + length ?run < length its")
        case True
        then have "length ?run \<noteq> length ?its" by simp
        then have "?run \<noteq> ?its" by metis
        then have tw: "takeWhile rejected (?its @ below_items es0) = ?run"
          "dropWhile rejected (?its @ below_items es0) = dropWhile rejected ?its @ below_items es0"
          by (auto simp: takeWhile_append dropWhile_append takeWhile_eq_all_conv)
        have "dropWhile rejected ?its = drop (e_index e + length ?run) its"
          by (simp add: dropWhile_eq_drop add.commute)
        with True step items tw show ?thesis
          using less.prems(1) Cons Leaf desc leaf by (simp add: search_outcome_def at_item_def)
      next
        case False
        then have "length ?run = length ?its"
          using leaf(2) length_takeWhile_le [of rejected ?its] by simp
        then have "?run = ?its" by (metis takeWhile_eq_take take_all order_refl)
        with False step items pop [of "pos_after D M pos ?its"] show ?thesis
          using search_outcome_append [of pos ?its "below_items es0"] by (auto simp: takeWhile_eq_all_conv)
      qed
    qed
  qed
qed

text \<open>Leaving the current item of a leaf is entering the leaf one item further.\<close>

lemma search_forward_loop_leave:
  assumes "e_tree e = Leaf s its (map (summarize D) its)" "e_index e < length its"
  shows "search_forward_loop M f False (e # es) pos =
    search_forward_loop M f True
      (e\<lparr>e_index := e_index e + 1, e_position := dadd M (e_position e) (summarize D (its ! e_index e))\<rparr> # es)
      (dadd M pos (summarize D (its ! e_index e)))"
  using assms by (simp add: Let_def split: prod.split)

definition accept_from :: "nat \<Rightarrow> 'a list \<Rightarrow> nat" where
  "accept_from j xs = j + length (takeWhile rejected (drop j xs))"

lemma accept_from_le: "j \<le> length xs \<Longrightarrow> accept_from j xs \<le> length xs"
  using length_takeWhile_le [of rejected "drop j xs"] by (simp add: accept_from_def)

lemma search_outcome_at:
  assumes "search_outcome (pos_after D M (dzero M) (take j xs)) (drop j xs) es' pos'" "j \<le> length xs"
    and c: "c_tree c' = t" "tree_items t = xs" "wf_tree D t" "c_stack c' = es'" "c_position c' = pos'" "did_seek c'"
      "at_end c' = (es' = [])"
  shows "cursor_at D M (accept_from j xs) c'"
proof -
  let ?tw = "takeWhile rejected (drop j xs)"
  have "?tw = take (length ?tw) (drop j xs)" by (rule takeWhile_eq_take)
  then have tw: "take j xs @ ?tw = take (accept_from j xs) xs"
    by (metis accept_from_def take_add)
  have "pos' = pos_after D M (dzero M) (take j xs @ ?tw)"
    using assms(1) by (simp add: search_outcome_def)
  then have "pos' = pos_after D M (dzero M) (take (accept_from j xs) xs)" by (simp only: tw)
  moreover have "drop (accept_from j xs) xs = dropWhile rejected (drop j xs)"
    by (simp add: accept_from_def dropWhile_eq_drop add.commute)
  ultimately show ?thesis
    using assms(1) c accept_from_le [OF assms(2)] by (simp add: cursor_at_def search_outcome_def)
qed

text \<open>The search goes to the first accepted item at or after the next index, or to the end.\<close>

lemma search_forward_ok:
  assumes c: "cursor_at D M k c"
  defines "xs \<equiv> tree_items (c_tree c)"
  defines "j \<equiv> (if did_seek c then min (k + 1) (length xs) else 0)"
  shows "\<exists>c'. search_forward M f c = Some c' \<and> c_tree c' = c_tree c \<and> did_seek c' \<and>
           cursor_at D M (accept_from j xs) c'"
proof -
  have wf: "wf_tree D (c_tree c)" "k \<le> length xs"
    "c_position c = pos_after D M (dzero M) (take k xs)"
    using c by (auto simp: cursor_at_def xs_def)
  consider (start) "\<not> did_seek c" "\<not> is_empty (c_tree c)" "c_stack c = []" "\<not> at_end c" "k = 0"
    | (stop) "c_stack c = []" "at_end c" "k = length xs"
    | (move) e es where "did_seek c" "c_stack c = e # es" "\<not> at_end c" "wf_stack D False (e # es)"
        "at_item (e # es)" "stack_items False (e # es) = drop k xs"
  proof (cases "did_seek c")
    case True
    then show ?thesis using c that by (cases "c_stack c") (auto simp: cursor_at_def xs_def)
  next
    case False
    then show ?thesis using c that is_empty_iff [OF wf(1)] by (auto simp: cursor_at_def xs_def)
  qed
  then show ?thesis
  proof cases
    case start
    let ?e = "\<lparr>e_tree = c_tree c, e_index = 0, e_position = dzero M\<rparr>"
    obtain es' pos' where r: "search_forward_loop M f True [?e] (c_position c) = Some (es', pos')"
      "search_outcome (c_position c) (stack_items False [?e]) es' pos'"
      using search_forward_loop_ok [of True "[?e]" "c_position c"] wf by auto
    let ?c = "c\<lparr>c_stack := es', c_position := pos', did_seek := True, at_end := (es' = [])\<rparr>"
    have "search_forward M f c = Some ?c" using start r(1) by (auto simp: search_forward_def)
    moreover have "cursor_at D M (accept_from j xs) ?c"
      using r(2) wf start by (intro search_outcome_at) (auto simp: xs_def j_def)
    ultimately show ?thesis by simp
  next
    case stop
    then show ?thesis
      using c by (auto simp: search_forward_def cursor_at_def j_def accept_from_def xs_def at_item_def)
  next
    case move
    obtain s its where e: "e_tree e = Leaf s its (map (summarize D) its)" "e_index e < length its"
      using move(4,5) by (auto elim: at_item_top)
    let ?x = "its ! e_index e"
    let ?e = "e\<lparr>e_index := e_index e + 1, e_position := dadd M (e_position e) (summarize D ?x)\<rparr>"
    have "drop k xs = ?x # (drop (e_index e + 1) its @ below_items es)"
      using move(6) Cons_nth_drop_Suc [OF e(2), symmetric] e(1) by simp
    note k = drop_eq_Cons_nth [OF this]
    then have j: "j = k + 1" and its: "stack_items False (?e # es) = drop j xs"
      using e move(1) by (auto simp: j_def)
    have "wf_stack D False (?e # es)" using move(4) e by simp
    then obtain es' pos' where r:
      "search_forward_loop M f True (?e # es) (dadd M (c_position c) (summarize D ?x)) = Some (es', pos')"
      "search_outcome (dadd M (c_position c) (summarize D ?x)) (drop j xs) es' pos'"
      using search_forward_loop_ok [of True "?e # es" "dadd M (c_position c) (summarize D ?x)"] its by auto
    let ?c = "c\<lparr>c_stack := es', c_position := pos', at_end := (es' = [])\<rparr>"
    have "search_forward M f c = Some ?c"
      using move r(1) by (auto simp: search_forward_def search_forward_loop_leave [OF e] simp del: search_forward_loop.simps)
    moreover have "dadd M (c_position c) (summarize D ?x) = pos_after D M (dzero M) (take j xs)"
      using k wf(3) j by (simp add: take_Suc_conv_app_nth)
    then have "cursor_at D M (accept_from j xs) ?c"
      using r(2) wf move(1) k j by (intro search_outcome_at) (auto simp: xs_def)
    ultimately show ?thesis using move(1) by simp
  qed
qed

lemma filter_drop_accept:
  "filter (\<lambda>x. f (summarize D x)) (drop (accept_from j xs) xs) = filter (\<lambda>x. f (summarize D x)) (drop j xs)"
proof -
  have "filter (\<lambda>x. f (summarize D x)) ys = filter (\<lambda>x. f (summarize D x)) (dropWhile rejected ys)" for ys
    by (induction ys) auto
  then show ?thesis
    by (metis accept_from_def drop_drop dropWhile_eq_drop add.commute)
qed

lemma accept_from_accepts:
  "accept_from j xs < length xs \<Longrightarrow> \<not> rejected (xs ! accept_from j xs)"
  using nth_length_takeWhile [of rejected "drop j xs"] by (simp add: accept_from_def)

lemma filter_collect_from:
  assumes "cursor_at D M (accept_from j (tree_items (c_tree c))) c" "did_seek c"
  shows "filter_collect M f n c = Some (take n (filter (\<lambda>x. f (summarize D x)) (drop j (tree_items (c_tree c)))))"
  using assms
proof (induction n arbitrary: c j)
  case (Suc n)
  let ?xs = "tree_items (c_tree c)" and ?p = "\<lambda>x. f (summarize D x)"
  let ?k = "accept_from j ?xs"
  show ?case
  proof (cases "?k < length ?xs")
    case True
    obtain c' where c': "search_forward M f c = Some c'" "c_tree c' = c_tree c" "did_seek c'"
      "cursor_at D M (accept_from (?k + 1) ?xs) c'"
      using search_forward_ok [OF Suc.prems(1)] Suc.prems(2) True by (auto simp: min_def)
    have "filter ?p (drop j ?xs) = filter ?p (drop ?k ?xs)" by (simp add: filter_drop_accept)
    also have "\<dots> = ?xs ! ?k # filter ?p (drop (?k + 1) ?xs)"
      using accept_from_accepts [OF True] Cons_nth_drop_Suc [OF True, symmetric] by simp
    finally show ?thesis
      using cursor_item_at(1) [OF Suc.prems] True c' Suc.prems(2) Suc.IH [of "?k + 1" c']
      by (simp add: filter_iter_next_def)
  next
    case False
    then have "filter ?p (drop j ?xs) = []" using filter_drop_accept [of j ?xs] by simp
    then show ?thesis
      using cursor_item_at(1) [OF Suc.prems] False Suc.prems(2) by (simp add: filter_iter_next_def)
  qed
qed simp

text \<open>Iterating a fresh filter cursor yields the accepted items, in order.\<close>

lemma filter_collect_ok:
  assumes "wf_tree D t"
  shows "filter_collect M f n (cursor_new M t) = Some (take n (filter (\<lambda>x. f (summarize D x)) (tree_items t)))"
proof (cases n)
  case (Suc m)
  obtain c where c: "search_forward M f (cursor_new M t) = Some c" "c_tree c = t" "did_seek c"
    "cursor_at D M (accept_from 0 (tree_items t)) c"
    using search_forward_ok [OF cursor_at_new [OF assms]] by (auto simp: cursor_new_def)
  then have "filter_collect M f n (cursor_new M t) = filter_collect M f n c"
    using Suc by (simp add: filter_iter_next_def filter_next_def cursor_new_def)
  then show ?thesis using filter_collect_from [of 0 c n] c by simp
qed simp

end

sublocale dimension_laws \<subseteq> every: filtering D M "\<lambda>_. True"
  by unfold_locales simp

context dimension_laws
begin

lemma every_accept_from: "every.accept_from j xs = j"
  by (simp add: every.accept_from_def takeWhile_eq_Nil_iff)

lemma cursor_next_ok:
  assumes "cursor_at D M k c"
  defines "xs \<equiv> tree_items (c_tree c)"
  shows "\<exists>c'. cursor_next M c = Some c' \<and> c_tree c' = c_tree c \<and> did_seek c' \<and>
           cursor_at D M (if did_seek c then min (k + 1) (length xs) else 0) c'"
  using every.search_forward_ok [OF assms(1)] unfolding every_accept_from cursor_next_def xs_def .

lemma cursor_iter_next_eq: "cursor_iter_next M c = filter_iter_next M (\<lambda>_. True) c"
  unfolding cursor_iter_next_def filter_iter_next_def filter_next_def cursor_next_def ..

text \<open>One call of the cursor's iterator: the current item, and the cursor one further.\<close>

lemma cursor_iter_next_ok:
  assumes "cursor_at D M k c" "did_seek c"
  defines "xs \<equiv> tree_items (c_tree c)"
  shows "k < length xs \<Longrightarrow> \<exists>c'. cursor_iter_next M c = Some (Some (xs ! k), c') \<and> c_tree c' = c_tree c \<and> did_seek c' \<and>
           cursor_at D M (k + 1) c'"
    and "\<not> k < length xs \<Longrightarrow> cursor_iter_next M c = Some (None, c)"
  using cursor_item_at(1) [OF assms(1,2)] cursor_next_ok [OF assms(1)] assms(2)
  by (auto simp: cursor_iter_next_def xs_def min_def)

end

end
