(* ===== verification/Sum_Find.thy ===== *)
theory Sum_Find
  imports Cursor_Search
begin

text \<open>
  The direct lookups of \<^verbatim>\<open>sum_tree.rs\<close>: \<^verbatim>\<open>find\<close>, \<^verbatim>\<open>find_exact\<close> and \<^verbatim>\<open>find_with_prev\<close>, which descend from the
  root without a cursor. They return the same item and positions as a cursor that seeks to the target.
\<close>

section \<open>Definitions\<close>

definition target_in_child :: "('d \<Rightarrow> ordering) \<Rightarrow> bias \<Rightarrow> 'd \<Rightarrow> bool" where
  "target_in_child cmp bias d \<longleftrightarrow> cmp d = Less \<or> cmp d = Equal \<and> bias = Left"

definition entry_found :: "bool \<Rightarrow> ('d \<Rightarrow> ordering) \<Rightarrow> bias \<Rightarrow> 'd \<Rightarrow> bool" where
  "entry_found exact cmp bias d \<longleftrightarrow> (if exact then cmp d = Equal else target_in_child cmp bias d)"

text \<open>
  The loops over the children of an internal node and over the items of a leaf: the child to enter, or
  the item found with its end, and the position before it.
\<close>

fun find_child ::
  "('s, 'd) dim_impl \<Rightarrow> ('d \<Rightarrow> bool) \<Rightarrow> 'd \<Rightarrow> (('a, 's) sum_tree \<times> 's) list \<Rightarrow> ('a, 's) sum_tree option \<times> 'd" where
  "find_child M inside pos [] = (None, pos)"
| "find_child M inside pos ((t, s) # rest) =
     (let child_end = dadd M pos s in
      if inside child_end then (Some t, pos) else find_child M inside child_end rest)"

fun find_item ::
  "('s, 'd) dim_impl \<Rightarrow> ('d \<Rightarrow> bool) \<Rightarrow> 'd \<Rightarrow> ('a \<times> 's) list \<Rightarrow> ('a \<times> 'd) option \<times> 'd" where
  "find_item M found pos [] = (None, pos)"
| "find_item M found pos ((x, s) # rest) =
     (let child_end = dadd M pos s in
      if found child_end then (Some (x, child_end), pos) else find_item M found child_end rest)"

lemma find_child_mem: "find_child M inside pos ts = (Some t, pos') \<Longrightarrow> t \<in> fst ` set ts"
  by (induction M inside pos ts rule: find_child.induct) (auto simp: Let_def split: if_splits)

text \<open>\<^verbatim>\<open>find_iterate\<close> returns the item found with its end, and the position it stopped at.\<close>

function (sequential) find_iterate ::
  "('s, 'd) dim_impl \<Rightarrow> bool \<Rightarrow> ('d \<Rightarrow> ordering) \<Rightarrow> bias \<Rightarrow> 'd \<Rightarrow> ('a, 's) sum_tree \<Rightarrow> ('a \<times> 'd) option \<times> 'd" where
  "find_iterate M exact cmp bias pos (Internal h s css cts) =
     (case find_child M (target_in_child cmp bias) pos (zip cts css) of
        (Some child, pos') \<Rightarrow> find_iterate M exact cmp bias pos' child
      | (None, pos') \<Rightarrow> (None, pos'))"
| "find_iterate M exact cmp bias pos (Leaf s its iss) =
     find_item M (entry_found exact cmp bias) pos (zip its iss)"
  by pat_completeness auto
termination
  by (relation "measure (\<lambda>(M, exact, cmp, bias, pos, t). size t)")
    (auto dest!: sym [THEN find_child_mem] set_zip_leftD simp: less_Suc_eq_le intro: le_trans [OF size_list_estimation'] trans_le_add1)

definition find_with :: "('s, 'd) dim_impl \<Rightarrow> bool \<Rightarrow> ('a, 's) sum_tree \<Rightarrow> ('d \<Rightarrow> ordering) \<Rightarrow> bias \<Rightarrow> 'd \<times> 'd \<times> 'a option" where
  "find_with M exact t cmp bias =
     (let tree_end = dadd M (dzero M) (summary t) in
      if passes cmp bias tree_end then (tree_end, tree_end, None)
      else case find_iterate M exact cmp bias (dzero M) t of
             (Some (x, end), pos) \<Rightarrow> (pos, end, Some x)
           | (None, pos) \<Rightarrow> (pos, pos, None))"

definition find_exact :: "('s, 'd) dim_impl \<Rightarrow> ('a, 's) sum_tree \<Rightarrow> ('d \<Rightarrow> ordering) \<Rightarrow> bias \<Rightarrow> 'd \<times> 'd \<times> 'a option" where
  "find_exact M t cmp bias = find_with M True t cmp bias"

definition st_find :: "('s, 'd) dim_impl \<Rightarrow> ('a, 's) sum_tree \<Rightarrow> ('d \<Rightarrow> ordering) \<Rightarrow> bias \<Rightarrow> 'd \<times> 'd \<times> 'a option" where
  "st_find M t cmp bias = find_with M False t cmp bias"

text \<open>\<^verbatim>\<open>find_with_prev\<close> also tracks the last item passed; \<^verbatim>\<open>last\<close> of a passed child may panic.\<close>

fun find_child_prev ::
  "('s, 'd) dim_impl \<Rightarrow> ('d \<Rightarrow> bool) \<Rightarrow> 'a option \<Rightarrow> 'd \<Rightarrow> (('a, 's) sum_tree \<times> 's) list \<Rightarrow>
   (('a, 's) sum_tree option \<times> 'a option \<times> 'd) option" where
  "find_child_prev M inside prev pos [] = Some (None, prev, pos)"
| "find_child_prev M inside prev pos ((t, s) # rest) =
     (let child_end = dadd M pos s in
      if inside child_end then Some (Some t, prev, pos)
      else do { prev' \<leftarrow> last_item t; find_child_prev M inside prev' child_end rest })"

fun find_item_prev ::
  "('s, 'd) dim_impl \<Rightarrow> ('d \<Rightarrow> bool) \<Rightarrow> 'a option \<Rightarrow> 'd \<Rightarrow> ('a \<times> 's) list \<Rightarrow>
   ('a option \<times> 'a \<times> 'd) option \<times> 'd" where
  "find_item_prev M found prev pos [] = (None, pos)"
| "find_item_prev M found prev pos ((x, s) # rest) =
     (let child_end = dadd M pos s in
      if found child_end then (Some (prev, x, child_end), pos)
      else find_item_prev M found (Some x) child_end rest)"

lemma find_child_prev_mem:
  "find_child_prev M inside prev pos ts = Some (Some t, r) \<Longrightarrow> t \<in> fst ` set ts"
  by (induction M inside prev pos ts rule: find_child_prev.induct)
    (auto simp: Let_def split: if_splits bind_splits)

function (sequential) find_with_prev_iterate ::
  "('s, 'd) dim_impl \<Rightarrow> ('d \<Rightarrow> ordering) \<Rightarrow> bias \<Rightarrow> 'a option \<Rightarrow> 'd \<Rightarrow> ('a, 's) sum_tree \<Rightarrow>
   (('a option \<times> 'a \<times> 'd) option \<times> 'd) option" where
  "find_with_prev_iterate M cmp bias prev pos (Internal h s css cts) =
     (case find_child_prev M (target_in_child cmp bias) prev pos (zip cts css) of
        None \<Rightarrow> None
      | Some (Some child, prev', pos') \<Rightarrow> find_with_prev_iterate M cmp bias prev' pos' child
      | Some (None, prev', pos') \<Rightarrow> Some (None, pos'))"
| "find_with_prev_iterate M cmp bias prev pos (Leaf s its iss) =
     Some (find_item_prev M (entry_found False cmp bias) prev pos (zip its iss))"
  by pat_completeness auto
termination
  by (relation "measure (\<lambda>(M, cmp, bias, prev, pos, t). size t)")
    (auto dest!: find_child_prev_mem set_zip_leftD simp: less_Suc_eq_le intro: le_trans [OF size_list_estimation'] trans_le_add1)

definition find_with_prev ::
  "('s, 'd) dim_impl \<Rightarrow> ('a, 's) sum_tree \<Rightarrow> ('d \<Rightarrow> ordering) \<Rightarrow> bias \<Rightarrow>
   ('d \<times> 'd \<times> ('a option \<times> 'a) option) option" where
  "find_with_prev M t cmp bias =
     (let tree_end = dadd M (dzero M) (summary t) in
      if passes cmp bias tree_end then Some (tree_end, tree_end, None)
      else do {
        r \<leftarrow> find_with_prev_iterate M cmp bias None (dzero M) t;
        Some (case r of (Some (prev, x, end), pos) \<Rightarrow> (pos, end, Some (prev, x))
              | (None, pos) \<Rightarrow> (pos, pos, None)) })"

section \<open>The descent reaches the leaf of the target\<close>

lemma target_in_child_iff: "target_in_child cmp bias d \<longleftrightarrow> \<not> passes cmp bias d"
  by (cases "cmp d"; cases bias) (auto simp: target_in_child_def passes_def)

lemma target_in_child_eq: "target_in_child cmp bias = (\<lambda>d. \<not> passes cmp bias d)"
  by (rule ext) (rule target_in_child_iff)

lemma passed_prefix_end: "passed_prefix D M pass d xs = xs \<Longrightarrow> xs \<noteq> [] \<Longrightarrow> pass (pos_after D M d xs)"
proof (induction xs arbitrary: d)
  case (Cons x xs)
  then show ?case by (cases "xs = []") (auto simp: Let_def split: if_splits)
qed simp

definition last_of :: "'a option \<Rightarrow> 'a list \<Rightarrow> 'a option" where
  "last_of prev xs = (if xs = [] then prev else Some (last xs))"

lemma last_of_append [simp]: "last_of prev (xs @ ys) = last_of (last_of prev xs) ys"
  by (simp add: last_of_def)

context dimension_laws
begin

lemma find_child_ok:
  assumes "list_all (wf_node D n) ts" "ts \<noteq> []" "seekable D M pass pos (concat (map tree_items ts))"
    and "\<not> pass (pos_after D M pos (concat (map tree_items ts)))"
  shows "\<exists>pre t post. ts = pre @ t # post \<and>
     (let xs = concat (map tree_items pre) in
      find_child M (\<lambda>d. \<not> pass d) pos (zip ts (map summary ts)) = (Some t, pos_after D M pos xs) \<and>
      find_child_prev M (\<lambda>d. \<not> pass d) prev pos (zip ts (map summary ts)) =
        Some (Some t, last_of prev xs, pos_after D M pos xs) \<and>
      \<not> pass (pos_after D M pos (xs @ tree_items t)) \<and>
      passed_prefix D M pass pos (concat (map tree_items ts)) =
        xs @ passed_prefix D M pass (pos_after D M pos xs) (tree_items t))"
  using assms
proof (induction ts arbitrary: pos prev)
  case (Cons t ts)
  let ?stop = "dadd M pos (summary t)"
  have t: "wf_node D n t" and ts: "list_all (wf_node D n) ts" using Cons.prems(1) by simp_all
  have e: "?stop = pos_after D M pos (tree_items t)" using t by (rule pos_after_node)
  have sk: "seekable D M pass pos (tree_items t)" "seekable D M pass ?stop (concat (map tree_items ts))"
    using Cons.prems(3) seekable_prefix seekable_suffix e by (force, force)
  have l: "last_item t = Some (last_of prev (tree_items t))"
    using last_item_ok [OF wf_treeI [OF t]] wf_node_items [OF t] by (simp add: last_of_def)
  show ?case
  proof (cases "pass ?stop")
    case False
    have "passed_prefix D M pass pos (tree_items t) \<noteq> tree_items t"
      using passed_prefix_end wf_node_items [OF t] False e by metis
    then have "passed_prefix D M pass pos (tree_items t @ zs) = passed_prefix D M pass pos (tree_items t)" for zs
      by (rule passed_prefix_stop)
    with False e show ?thesis
      by (intro exI [of _ "[]"] exI [of _ t] exI [of _ ts]) (simp add: last_of_def)
  next
    case True
    then have ne: "ts \<noteq> []" using Cons.prems(4) e by auto
    have np: "\<not> pass (pos_after D M ?stop (concat (map tree_items ts)))" using Cons.prems(4) e by simp
    obtain pre u post where IH: "ts = pre @ u # post"
      "find_child M (\<lambda>d. \<not> pass d) ?stop (zip ts (map summary ts)) =
         (Some u, pos_after D M ?stop (concat (map tree_items pre)))"
      "find_child_prev M (\<lambda>d. \<not> pass d) (last_of prev (tree_items t)) ?stop (zip ts (map summary ts)) =
         Some (Some u, last_of (last_of prev (tree_items t)) (concat (map tree_items pre)),
               pos_after D M ?stop (concat (map tree_items pre)))"
      "\<not> pass (pos_after D M ?stop (concat (map tree_items pre) @ tree_items u))"
      "passed_prefix D M pass ?stop (concat (map tree_items ts)) = concat (map tree_items pre) @
         passed_prefix D M pass (pos_after D M ?stop (concat (map tree_items pre))) (tree_items u)"
      using Cons.IH [OF ts ne sk(2) np, of "last_of prev (tree_items t)"] unfolding Let_def by blast
    have "passed_prefix D M pass pos (tree_items t @ ys) = tree_items t @ passed_prefix D M pass ?stop ys" for ys
      using passed_prefix_all [OF sk(1)] True e by simp
    with IH True e l show ?thesis
      by (intro exI [of _ "t # pre"] exI [of _ u] exI [of _ post]) (simp add: Let_def)
  qed
qed simp

lemma find_descend:
  assumes "wf_node D n t" "seekable D M (passes cmp bias) pos (tree_items t)"
    and "\<not> passes cmp bias (pos_after D M pos (tree_items t))"
  shows "\<exists>pre its post. tree_items t = pre @ its @ post \<and>
     \<not> passes cmp bias (pos_after D M pos (pre @ its)) \<and>
     passed_prefix D M (passes cmp bias) pos (tree_items t) =
       pre @ passed_prefix D M (passes cmp bias) (pos_after D M pos pre) its \<and> its \<noteq> [] \<and>
     find_iterate M exact cmp bias pos t =
       find_item M (entry_found exact cmp bias) (pos_after D M pos pre) (zip its (map (summarize D) its)) \<and>
     find_with_prev_iterate M cmp bias prev pos t =
       Some (find_item_prev M (entry_found False cmp bias) (last_of prev pre) (pos_after D M pos pre)
         (zip its (map (summarize D) its)))"
  using assms
proof (induction t arbitrary: n pos prev)
  case (Internal h s css cts)
  let ?pass = "passes cmp bias"
  have cts: "list_all (wf_node D (h - 1)) cts" "cts \<noteq> []" "css = map summary cts"
    using Internal.prems(1) by simp_all
  obtain pre t post where t: "cts = pre @ t # post"
    and f: "find_child M (\<lambda>d. \<not> ?pass d) pos (zip cts (map summary cts)) =
       (Some t, pos_after D M pos (concat (map tree_items pre)))"
      "find_child_prev M (\<lambda>d. \<not> ?pass d) prev pos (zip cts (map summary cts)) =
         Some (Some t, last_of prev (concat (map tree_items pre)), pos_after D M pos (concat (map tree_items pre)))"
    and p: "\<not> ?pass (pos_after D M pos (concat (map tree_items pre) @ tree_items t))"
      "passed_prefix D M ?pass pos (concat (map tree_items cts)) = concat (map tree_items pre) @
         passed_prefix D M ?pass (pos_after D M pos (concat (map tree_items pre))) (tree_items t)"
    using find_child_ok [OF cts(1,2), of ?pass pos prev] Internal.prems(2,3)
    unfolding Let_def tree_items.simps by blast
  let ?xs = "concat (map tree_items pre)"
  have "seekable D M ?pass pos (?xs @ tree_items t @ concat (map tree_items post))"
    using Internal.prems(2) t by simp
  then have "seekable D M ?pass (pos_after D M pos ?xs) (tree_items t)"
    by (blast dest: seekable_suffix seekable_prefix)
  moreover have "wf_node D (h - 1) t" "t \<in> set cts" using cts(1) t by simp_all
  ultimately obtain pre' its post' where IH: "tree_items t = pre' @ its @ post'"
     "\<not> ?pass (pos_after D M (pos_after D M pos ?xs) (pre' @ its))"
     "passed_prefix D M ?pass (pos_after D M pos ?xs) (tree_items t) =
       pre' @ passed_prefix D M ?pass (pos_after D M (pos_after D M pos ?xs) pre') its" "its \<noteq> []"
     "find_iterate M exact cmp bias (pos_after D M pos ?xs) t =
       find_item M (entry_found exact cmp bias) (pos_after D M (pos_after D M pos ?xs) pre')
         (zip its (map (summarize D) its))"
     "find_with_prev_iterate M cmp bias (last_of prev ?xs) (pos_after D M pos ?xs) t =
       Some (find_item_prev M (entry_found False cmp bias) (last_of (last_of prev ?xs) pre')
         (pos_after D M (pos_after D M pos ?xs) pre') (zip its (map (summarize D) its)))"
    using Internal.IH [of t "h - 1" "pos_after D M pos ?xs" "last_of prev ?xs"] p(1) by auto
  then show ?case
    using t f p(2) cts(3)
    by (intro exI [of _ "?xs @ pre'"] exI [of _ its] exI [of _ "post' @ concat (map tree_items post)"])
      (simp add: target_in_child_eq)
next
  case (Leaf s its iss)
  then show ?case
    by (intro exI [of _ "[]"] exI [of _ its]) (simp add: last_of_def)
qed

section \<open>What the lookups return\<close>

lemma find_item_ok:
  fixes pass pos its
  defines "n \<equiv> seek_count D M pass pos its"
  shows "find_item M (\<lambda>d. \<not> pass d) pos (zip its (map (summarize D) its)) =
    (if n < length its then Some (its ! n, pos_after D M pos (take (n + 1) its)) else None,
     pos_after D M pos (take n its))"
  unfolding n_def seek_count_def
  by (induction its arbitrary: pos) (auto simp: Let_def)

lemma find_item_prev_ok:
  fixes pass prev pos its
  defines "n \<equiv> seek_count D M pass pos its"
  shows "find_item_prev M (\<lambda>d. \<not> pass d) prev pos (zip its (map (summarize D) its)) =
    (if n < length its then Some (last_of prev (take n its), its ! n, pos_after D M pos (take (n + 1) its)) else None,
     pos_after D M pos (take n its))"
  unfolding n_def seek_count_def
  by (induction its arbitrary: prev pos) (auto simp: Let_def last_of_def)

lemma find_item_none:
  "(\<And>j. \<not> found (pos_after D M pos (take (Suc j) its))) \<Longrightarrow>
   fst (find_item M found pos (zip its (map (summarize D) its))) = None"
proof (induction its arbitrary: pos)
  case (Cons x its)
  have "\<not> found (dadd M pos (summarize D x))" using Cons.prems [of 0] by simp
  moreover have "\<not> found (pos_after D M (dadd M pos (summarize D x)) (take (Suc j) its))" for j
    using Cons.prems [of "Suc j"] by simp
  ultimately show ?case using Cons.IH by (simp add: Let_def)
qed simp

lemma find_item_exact_ok:
  fixes cmp pos its
  assumes "seekable D M (passes cmp Right) pos its"
  defines "n \<equiv> seek_count D M (passes cmp Left) pos its"
  shows "fst (find_item M (\<lambda>d. cmp d = Equal) pos (zip its (map (summarize D) its))) =
    (if n < length its \<and> cmp (pos_after D M pos (take (n + 1) its)) = Equal
     then Some (its ! n, pos_after D M pos (take (n + 1) its)) else None)"
  using assms(1) unfolding n_def seek_count_def
proof (induction its arbitrary: pos)
  case (Cons x its)
  let ?d = "dadd M pos (summarize D x)"
  show ?case
  proof (cases "cmp ?d")
    case Less
    have "\<not> passes cmp Right (pos_after D M ?d (take j its))" for j
      using Cons.prems [unfolded seekable_def, rule_format, of 1 "Suc (min j (length its))"] Less
      by (cases "j \<le> length its") (auto simp: passes_def)
    then have "cmp (pos_after D M ?d (take j its)) \<noteq> Equal" for j by (auto simp: passes_def)
    then have "fst (find_item M (\<lambda>d. cmp d = Equal) ?d (zip its (map (summarize D) its))) = None"
      by (rule find_item_none)
    with Less show ?thesis by (simp add: Let_def passes_def)
  next
    case Greater
    then have "passes cmp Left ?d" by (simp add: passes_def)
    with Greater show ?thesis using Cons.IH [OF seekable_Cons [OF Cons.prems]] by (simp add: Let_def)
  qed (simp add: Let_def passes_def)
qed simp

lemma entry_found_eq:
  "entry_found False cmp bias = (\<lambda>d. \<not> passes cmp bias d)"
  "entry_found True cmp bias = (\<lambda>d. cmp d = Equal)"
  by (auto simp: entry_found_def target_in_child_iff)

text \<open>
  For a tree with items, all three lookups stop at item \<open>n\<close>, the first whose end the target does not
  exceed; on the empty tree they return no item.
\<close>

lemma seek_count_all_iff:
  assumes "seekable D M pass pos xs" "xs \<noteq> []"
  shows "seek_count D M pass pos xs = length xs \<longleftrightarrow> pass (pos_after D M pos xs)"
proof
  assume "seek_count D M pass pos xs = length xs"
  then have "passed_prefix D M pass pos xs = xs"
    by (metis seek_count_def passed_prefix_take take_all order_refl)
  then show "pass (pos_after D M pos xs)" using assms(2) by (rule passed_prefix_end)
next
  assume "pass (pos_after D M pos xs)"
  then show "seek_count D M pass pos xs = length xs"
    using passed_prefix_all [OF assms(1), of "[]"] by (simp add: seek_count_def)
qed

lemma seek_count_le: "seek_count D M pass pos xs \<le> length xs"
  by (simp add: seek_count_def length_passed_prefix)

lemma seek_count_descend:
  assumes "tree_items t = pre @ its @ post" "\<not> pass (pos_after D M pos (pre @ its))" "its \<noteq> []"
    and "passed_prefix D M pass pos (tree_items t) = pre @ passed_prefix D M pass (pos_after D M pos pre) its"
  shows "seek_count D M pass pos (tree_items t) = length pre + seek_count D M pass (pos_after D M pos pre) its"
    and "seek_count D M pass (pos_after D M pos pre) its < length its"
proof -
  show "seek_count D M pass pos (tree_items t) = length pre + seek_count D M pass (pos_after D M pos pre) its"
    using assms(4) by (simp add: seek_count_def)
  have "passed_prefix D M pass (pos_after D M pos pre) its \<noteq> its"
    using passed_prefix_end [of D M pass "pos_after D M pos pre" its] assms(2,3) by auto
  then show "seek_count D M pass (pos_after D M pos pre) its < length its"
    by (metis seek_count_def passed_prefix_take seek_count_le take_all le_neq_implies_less order_refl)
qed

lemma find_ok:
  assumes "wf_tree D t" "seekable D M (passes cmp bias) (dzero M) (tree_items t)" "tree_items t \<noteq> []"
  defines "n \<equiv> seek_count D M (passes cmp bias) (dzero M) (tree_items t)"
  shows "st_find M t cmp bias =
      (pos_after D M (dzero M) (take n (tree_items t)), end_at D M n (tree_items t),
       if n < length (tree_items t) then Some (tree_items t ! n) else None)"
    and "find_with_prev M t cmp bias =
      Some (pos_after D M (dzero M) (take n (tree_items t)), end_at D M n (tree_items t),
        if n < length (tree_items t) then Some (last_of None (take n (tree_items t)), tree_items t ! n) else None)"
proof -
  let ?pass = "passes cmp bias" and ?xs = "tree_items t"
  have node: "wf_node D (height t) t" using assms(1,3) by (auto elim: wf_treeE)
  have e: "dadd M (dzero M) (summary t) = pos_after D M (dzero M) ?xs" using node by (rule pos_after_node)
  have "st_find M t cmp bias = (pos_after D M (dzero M) (take n ?xs), end_at D M n ?xs,
       if n < length ?xs then Some (?xs ! n) else None) \<and>
     find_with_prev M t cmp bias = Some (pos_after D M (dzero M) (take n ?xs), end_at D M n ?xs,
       if n < length ?xs then Some (last_of None (take n ?xs), ?xs ! n) else None)"
  proof (cases "?pass (pos_after D M (dzero M) ?xs)")
    case True
    then have "n = length ?xs" using seek_count_all_iff [OF assms(2,3)] n_def by simp
    with True e show ?thesis by (simp add: st_find_def find_with_def find_with_prev_def end_at_def Let_def)
  next
    case False
    obtain pre its post where d: "?xs = pre @ its @ post" "\<not> ?pass (pos_after D M (dzero M) (pre @ its))"
      "passed_prefix D M ?pass (dzero M) ?xs = pre @ passed_prefix D M ?pass (pos_after D M (dzero M) pre) its"
      "its \<noteq> []"
      "find_iterate M False cmp bias (dzero M) t =
        find_item M (entry_found False cmp bias) (pos_after D M (dzero M) pre) (zip its (map (summarize D) its))"
      "find_with_prev_iterate M cmp bias None (dzero M) t =
        Some (find_item_prev M (entry_found False cmp bias) (last_of None pre) (pos_after D M (dzero M) pre)
          (zip its (map (summarize D) its)))"
      using find_descend [OF node assms(2) False] by metis
    note n = seek_count_descend [OF d(1,2,4,3), folded n_def]
    show ?thesis using False e d(5,6) n d(1)
      by (simp add: st_find_def find_with_def find_with_prev_def entry_found_eq find_item_ok find_item_prev_ok
          end_at_def nth_append Let_def)
  qed
  then show "st_find M t cmp bias = (pos_after D M (dzero M) (take n ?xs), end_at D M n ?xs,
       if n < length ?xs then Some (?xs ! n) else None)"
    "find_with_prev M t cmp bias = Some (pos_after D M (dzero M) (take n ?xs), end_at D M n ?xs,
       if n < length ?xs then Some (last_of None (take n ?xs), ?xs ! n) else None)" by auto
qed

lemma find_exact_ok:
  assumes "wf_tree D t" "\<And>bias. seekable D M (passes cmp bias) (dzero M) (tree_items t)"
  defines "n \<equiv> seek_count D M (passes cmp Left) (dzero M) (tree_items t)"
  shows "snd (snd (find_exact M t cmp Left)) =
      (if n < length (tree_items t) \<and> cmp (end_at D M n (tree_items t)) = Equal then Some (tree_items t ! n) else None)"
proof (cases "tree_items t = []")
  case True
  then show ?thesis using assms(1)
    by (auto elim: wf_treeE simp: find_exact_def find_with_def st_new_def Let_def)
next
  case False
  let ?pass = "passes cmp Left" and ?xs = "tree_items t"
  have node: "wf_node D (height t) t" using assms(1) False by (auto elim: wf_treeE)
  have e: "dadd M (dzero M) (summary t) = pos_after D M (dzero M) ?xs" using node by (rule pos_after_node)
  show ?thesis
  proof (cases "?pass (pos_after D M (dzero M) ?xs)")
    case True
    then have "n = length ?xs" using seek_count_all_iff [OF assms(2) False] n_def by simp
    with True e show ?thesis by (simp add: find_exact_def find_with_def Let_def)
  next
    case F: False
    obtain pre its post where d: "?xs = pre @ its @ post" "\<not> ?pass (pos_after D M (dzero M) (pre @ its))"
      "passed_prefix D M ?pass (dzero M) ?xs = pre @ passed_prefix D M ?pass (pos_after D M (dzero M) pre) its"
      "its \<noteq> []"
      "find_iterate M True cmp Left (dzero M) t =
        find_item M (entry_found True cmp Left) (pos_after D M (dzero M) pre) (zip its (map (summarize D) its))"
      using find_descend [OF node assms(2) F] by metis
    note n = seek_count_descend [OF d(1,2,4,3), folded n_def]
    have "seekable D M (passes cmp Right) (dzero M) (pre @ its @ post)" using assms(2) d(1) by metis
    then have "seekable D M (passes cmp Right) (pos_after D M (dzero M) pre) its"
      by (blast dest: seekable_suffix seekable_prefix)
    note ex = find_item_exact_ok [OF this]
    have r: "find_exact M t cmp Left = (case find_iterate M True cmp Left (dzero M) t of
        (Some (x, end), pos) \<Rightarrow> (pos, end, Some x) | (None, pos) \<Rightarrow> (pos, pos, None))"
      using F e by (simp add: find_exact_def find_with_def Let_def)
    show ?thesis
      unfolding r d(5) entry_found_eq using ex n d(1)
      by (auto simp: end_at_def nth_append split: prod.split option.split if_splits)
  qed
qed

end

end
