(* ===== verification/Keyed_Tree.thy ===== *)
theory Keyed_Tree
  imports Sum_Find
begin

text \<open>
  Trees of keyed items, the \<^verbatim>\<open>impl<T: KeyedItem> SumTree<T>\<close> of \<^verbatim>\<open>sum_tree.rs\<close>: insertion, removal, batch
  edits and lookup by key. On a tree whose items are strictly sorted by key they keep it so, and act on
  the finite map from keys to items as the operations of a dictionary.
\<close>

section \<open>Operations\<close>

record ('a, 's, 'k) keyed_impl =
  kitem :: "('a, 's) item_impl"
  kdim :: "('s, 'k) dim_impl"
  ikey :: "'a \<Rightarrow> 'k"

datatype ('a, 'k) edit = Insert 'a | Remove 'k

fun edit_key :: "('a, 's, 'k) keyed_impl \<Rightarrow> ('a, 'k) edit \<Rightarrow> 'k" where
  "edit_key K (Insert x) = ikey K x"
| "edit_key K (Remove k) = k"

text \<open>The item under the cursor, when it has the key: it is taken and the cursor steps over it.\<close>

definition take_key ::
  "('a, 's, 'k::linorder) keyed_impl \<Rightarrow> 'k \<Rightarrow> 'a option \<Rightarrow> ('a, 's, 'k) cursor \<Rightarrow>
   ('a option \<times> ('a, 's, 'k) cursor) option" where
  "take_key K k item c = (case item of
     Some x \<Rightarrow> if ikey K x = k then do { c' \<leftarrow> cursor_next (kdim K) c; Some (Some x, c') } else Some (None, c)
   | None \<Rightarrow> Some (None, c))"

definition insert_or_replace ::
  "('a, 's, 'k::linorder) keyed_impl \<Rightarrow> ('a, 's) sum_tree \<Rightarrow> 'a \<Rightarrow> ('a option \<times> ('a, 's) sum_tree) option" where
  "insert_or_replace K self x = do {
     (new_tree, c) \<leftarrow> slice (kitem K) (kdim K) (cursor_new (kdim K) self) (ord_cmp (ikey K x)) Left;
     item \<leftarrow> cursor_item c;
     (replaced, c) \<leftarrow> take_key K (ikey K x) item c;
     new_tree \<leftarrow> push (kitem K) new_tree x;
     (rest, _) \<leftarrow> suffix (kitem K) (kdim K) c;
     new_tree \<leftarrow> append_tree (kitem K) new_tree rest;
     Some (replaced, new_tree) }"

definition remove ::
  "('a, 's, 'k::linorder) keyed_impl \<Rightarrow> ('a, 's) sum_tree \<Rightarrow> 'k \<Rightarrow> ('a option \<times> ('a, 's) sum_tree) option" where
  "remove K self k = do {
     (new_tree, c) \<leftarrow> slice (kitem K) (kdim K) (cursor_new (kdim K) self) (ord_cmp k) Left;
     item \<leftarrow> cursor_item c;
     (removed, c) \<leftarrow> take_key K k item c;
     (rest, _) \<leftarrow> suffix (kitem K) (kdim K) c;
     new_tree \<leftarrow> append_tree (kitem K) new_tree rest;
     Some (removed, new_tree) }"

record ('a, 's, 'k) edit_state =
  es_cursor :: "('a, 's, 'k) cursor"
  es_tree :: "('a, 's) sum_tree"
  es_buffered :: "'a list"
  es_removed :: "'a list"

definition edit_step ::
  "('a, 's, 'k::linorder) keyed_impl \<Rightarrow> ('a, 'k) edit \<Rightarrow> ('a, 's, 'k) edit_state \<Rightarrow> ('a, 's, 'k) edit_state option" where
  "edit_step K e st = do {
     let new_key = edit_key K e;
     old_item \<leftarrow> cursor_item (es_cursor st);
     (st, old_item) \<leftarrow>
       (if (case old_item of Some x \<Rightarrow> ikey K x < new_key | None \<Rightarrow> False) then do {
          new_tree \<leftarrow> extend_tree (kitem K) (es_tree st) (es_buffered st);
          (part, c) \<leftarrow> slice (kitem K) (kdim K) (es_cursor st) (ord_cmp new_key) Left;
          new_tree \<leftarrow> append_tree (kitem K) new_tree part;
          old_item \<leftarrow> cursor_item c;
          Some (st\<lparr>es_cursor := c, es_tree := new_tree, es_buffered := []\<rparr>, old_item)
        } else Some (st, old_item));
     (removed, c) \<leftarrow> take_key K new_key old_item (es_cursor st);
     Some (st\<lparr>es_cursor := c,
              es_buffered := es_buffered st @ (case e of Insert x \<Rightarrow> [x] | Remove _ \<Rightarrow> []),
              es_removed := es_removed st @ (case removed of Some x \<Rightarrow> [x] | None \<Rightarrow> [])\<rparr>) }"

fun edit_steps ::
  "('a, 's, 'k::linorder) keyed_impl \<Rightarrow> ('a, 'k) edit list \<Rightarrow> ('a, 's, 'k) edit_state \<Rightarrow> ('a, 's, 'k) edit_state option" where
  "edit_steps K [] st = Some st"
| "edit_steps K (e # es) st = do { st' \<leftarrow> edit_step K e st; edit_steps K es st' }"

text \<open>
  \<^verbatim>\<open>edit\<close>: the source sorts with an unstable sort. For edits with distinct keys there is one sorted
  order; for equal keys the stable order stands for whichever the sort picks.
\<close>

definition edit_tree ::
  "('a, 's, 'k::linorder) keyed_impl \<Rightarrow> ('a, 's) sum_tree \<Rightarrow> ('a, 'k) edit list \<Rightarrow>
   ('a list \<times> ('a, 's) sum_tree) option" where
  "edit_tree K self edits =
     (if edits = [] then Some ([], self)
      else do {
        (_, c) \<leftarrow> seek (kdim K) (cursor_new (kdim K) self) (ord_cmp (dzero (kdim K))) Left;
        st \<leftarrow> edit_steps K (sort_key (edit_key K) edits)
                \<lparr>es_cursor = c, es_tree = st_new (kitem K), es_buffered = [], es_removed = []\<rparr>;
        new_tree \<leftarrow> extend_tree (kitem K) (es_tree st) (es_buffered st);
        (rest, _) \<leftarrow> suffix (kitem K) (kdim K) (es_cursor st);
        new_tree \<leftarrow> append_tree (kitem K) new_tree rest;
        Some (es_removed st, new_tree) })"

definition keyed_get :: "('a, 's, 'k::linorder) keyed_impl \<Rightarrow> ('a, 's) sum_tree \<Rightarrow> 'k \<Rightarrow> 'a option" where
  "keyed_get K self k = (case find_exact (kdim K) self (ord_cmp k) Left of (_, _, item) \<Rightarrow> item)"

section \<open>Sorted item sequences\<close>

definition sorted_keys :: "('a \<Rightarrow> 'k::linorder) \<Rightarrow> 'a list \<Rightarrow> bool" where
  "sorted_keys key xs \<longleftrightarrow> sorted_wrt (\<lambda>x y. key x < key y) xs"

definition key_lookup :: "('a \<Rightarrow> 'k) \<Rightarrow> 'a list \<Rightarrow> 'k \<rightharpoonup> 'a" where
  "key_lookup key xs k = List.find (\<lambda>x. key x = k) xs"

definition key_insert :: "('a \<Rightarrow> 'k::linorder) \<Rightarrow> 'a list \<Rightarrow> 'a \<Rightarrow> 'a list" where
  "key_insert key xs x = takeWhile (\<lambda>y. key y < key x) xs @ x # dropWhile (\<lambda>y. key y \<le> key x) xs"

definition key_remove :: "('a \<Rightarrow> 'k::linorder) \<Rightarrow> 'a list \<Rightarrow> 'k \<Rightarrow> 'a list" where
  "key_remove key xs k = takeWhile (\<lambda>y. key y < k) xs @ dropWhile (\<lambda>y. key y \<le> k) xs"

lemma sorted_keys_simps [simp]:
  "sorted_keys key []"
  "sorted_keys key (x # xs) \<longleftrightarrow> (\<forall>y\<in>set xs. key x < key y) \<and> sorted_keys key xs"
  "sorted_keys key (xs @ ys) \<longleftrightarrow> sorted_keys key xs \<and> sorted_keys key ys \<and> (\<forall>x\<in>set xs. \<forall>y\<in>set ys. key x < key y)"
  by (auto simp: sorted_keys_def sorted_wrt_append)

lemma sorted_keys_take: "sorted_keys key xs \<Longrightarrow> sorted_keys key (take n xs)"
  by (simp add: sorted_keys_def sorted_wrt_take)

lemma sorted_keys_drop: "sorted_keys key xs \<Longrightarrow> sorted_keys key (drop n xs)"
  by (simp add: sorted_keys_def sorted_wrt_drop)

lemma distinct_sorted_keys: "sorted_keys key xs \<Longrightarrow> distinct (map key xs)"
  by (induction xs) auto

lemma key_lookup_simps [simp]:
  "key_lookup key [] k = None"
  "key_lookup key (x # xs) k = (if key x = k then Some x else key_lookup key xs k)"
  by (simp_all add: key_lookup_def)

lemma key_lookup_append: "key_lookup key (xs @ ys) k = (case key_lookup key xs k of None \<Rightarrow> key_lookup key ys k | Some x \<Rightarrow> Some x)"
  by (induction xs) auto

lemma key_lookup_None_iff: "key_lookup key xs k = None \<longleftrightarrow> k \<notin> key ` set xs"
  by (induction xs) auto

lemma key_lookup_SomeD: "key_lookup key xs k = Some x \<Longrightarrow> x \<in> set xs \<and> key x = k"
  by (induction xs) (auto split: if_splits)

text \<open>A sorted sequence splits at a key: what is below, the item with the key if any, what is above.\<close>

lemma sorted_keys_split:
  assumes "sorted_keys key xs"
  shows "xs = takeWhile (\<lambda>y. key y < k) xs @
           (case key_lookup key xs k of None \<Rightarrow> [] | Some x \<Rightarrow> [x]) @ dropWhile (\<lambda>y. key y \<le> k) xs"
  using assms
proof (induction xs)
  case (Cons x xs)
  consider "key x < k" | "key x = k" | "k < key x" by fastforce
  then show ?case
  proof cases
    case 1
    then show ?thesis using Cons by auto
  next
    case 2
    then have "dropWhile (\<lambda>y. key y \<le> k) xs = xs"
      using Cons.prems by (cases xs) auto
    with 2 show ?thesis by simp
  next
    case 3
    then have "key_lookup key xs k = None" using Cons.prems by (fastforce simp: key_lookup_None_iff)
    with 3 show ?thesis by auto
  qed
qed simp

lemma dropWhile_gt:
  assumes "sorted_keys key xs" "y \<in> set (dropWhile (\<lambda>y. key y \<le> k) xs)"
  shows "k < key y"
  using assms by (induction xs) (fastforce split: if_splits)+

lemma takeWhile_lt: "y \<in> set (takeWhile (\<lambda>y. key y < k) xs) \<Longrightarrow> key y < k"
  by (auto dest: set_takeWhileD)

lemma sorted_keys_parts:
  assumes "sorted_keys key xs"
  shows "sorted_keys key (takeWhile (\<lambda>y. key y < k) xs)" "sorted_keys key (dropWhile (\<lambda>y. key y \<le> k) xs)"
  using assms by (metis sorted_keys_take takeWhile_eq_take, metis sorted_keys_drop dropWhile_eq_drop)

lemma sorted_key_insert: "sorted_keys key xs \<Longrightarrow> sorted_keys key (key_insert key xs x)"
  using takeWhile_lt [of _ key "key x" xs] dropWhile_gt [of key xs _ "key x"] sorted_keys_parts [of key xs "key x"]
  by (fastforce simp: key_insert_def)

lemma sorted_key_remove: "sorted_keys key xs \<Longrightarrow> sorted_keys key (key_remove key xs k)"
  using takeWhile_lt [of _ key k xs] dropWhile_gt [of key xs _ k] sorted_keys_parts [of key xs k]
  by (fastforce simp: key_remove_def)

lemma key_lookup_parts:
  assumes "sorted_keys key xs"
  shows "key_lookup key (takeWhile (\<lambda>y. key y < k) xs) j = (if j < k then key_lookup key xs j else None)"
    and "key_lookup key (dropWhile (\<lambda>y. key y \<le> k) xs) j = (if k < j then key_lookup key xs j else None)"
  using assms by (induction xs) (auto simp: key_lookup_None_iff eq_commute [of None] not_le dest: takeWhile_lt)

lemma key_lookup_insert: "sorted_keys key xs \<Longrightarrow> key_lookup key (key_insert key xs x) = (key_lookup key xs)(key x \<mapsto> x)"
  by (rule ext) (auto simp: key_insert_def key_lookup_append key_lookup_parts split: option.split)

lemma key_lookup_remove: "sorted_keys key xs \<Longrightarrow> key_lookup key (key_remove key xs k) = (key_lookup key xs)(k := None)"
  by (rule ext) (auto simp: key_remove_def key_lookup_append key_lookup_parts split: option.split)

lemma dropWhile_le_lt: "dropWhile (\<lambda>y. key y \<le> k) (dropWhile (\<lambda>y. key y < k) xs) = dropWhile (\<lambda>y. key y \<le> (k::'k::linorder)) xs"
  by (induction xs) auto

lemma key_lookup_dropWhile: "key_lookup key (dropWhile (\<lambda>y. key y < k) xs) k = key_lookup key xs (k::'k::linorder)"
  by (induction xs) auto

lemma dropWhile_ge:
  assumes "sorted_keys key xs" "y \<in> set (dropWhile (\<lambda>y. key y < k) xs)"
  shows "k \<le> key y"
  using assms by (induction xs) (fastforce split: if_splits)+

text \<open>Applying a batch of edits, in key order, to a sorted sequence: the removed items and the result.\<close>

fun edit_list :: "('a, 's, 'k::linorder) keyed_impl \<Rightarrow> 'a list \<Rightarrow> ('a, 'k) edit list \<Rightarrow> 'a list \<times> 'a list" where
  "edit_list K xs [] = ([], xs)"
| "edit_list K xs (e # es) =
     (let k = edit_key K e;
          (removed, out) = edit_list K (dropWhile (\<lambda>y. ikey K y \<le> k) xs) es in
      ((case key_lookup (ikey K) xs k of Some x \<Rightarrow> [x] | None \<Rightarrow> []) @ removed,
       takeWhile (\<lambda>y. ikey K y < k) xs @ (case e of Insert x \<Rightarrow> [x] | Remove _ \<Rightarrow> []) @ out))"

definition edit_effect :: "('a, 's, 'k) keyed_impl \<Rightarrow> ('a, 'k) edit list \<Rightarrow> ('k \<rightharpoonup> 'a) \<Rightarrow> 'k \<rightharpoonup> 'a" where
  "edit_effect K es m k = (case key_lookup (edit_key K) es k of
     None \<Rightarrow> m k | Some (Insert x) \<Rightarrow> Some x | Some (Remove _) \<Rightarrow> None)"

lemma image_bound:
  "f ` A \<subseteq> f ` B \<union> g ` C \<Longrightarrow> \<forall>y\<in>B. (k::'k::linorder) < f y \<Longrightarrow> \<forall>e\<in>C. k < g e \<Longrightarrow> \<forall>y\<in>A. k < f y"
  by (auto dest!: subsetD [of "f ` A" _ "f _"])

lemma edit_list_ok:
  assumes "sorted_keys (ikey K) xs" "sorted_keys (edit_key K) es"
  shows "sorted_keys (ikey K) (snd (edit_list K xs es)) \<and>
    ikey K ` set (snd (edit_list K xs es)) \<subseteq> ikey K ` set xs \<union> edit_key K ` set es \<and>
    key_lookup (ikey K) (snd (edit_list K xs es)) = edit_effect K es (key_lookup (ikey K) xs) \<and>
    fst (edit_list K xs es) = concat (map (\<lambda>e. case key_lookup (ikey K) xs (edit_key K e) of Some x \<Rightarrow> [x] | None \<Rightarrow> []) es)"
  using assms
proof (induction es arbitrary: xs)
  case Nil
  then show ?case by (auto simp: edit_effect_def)
next
  case (Cons e es)
  let ?key = "ikey K"
  define k where "k = edit_key K e"
  define lo where "lo = takeWhile (\<lambda>y. ?key y < k) xs"
  define hi where "hi = dropWhile (\<lambda>y. ?key y \<le> k) xs"
  define ins where "ins = (case e of Insert x \<Rightarrow> [x] | Remove _ \<Rightarrow> [])"
  obtain removed out where r: "edit_list K hi es = (removed, out)" by fastforce
  have below: "\<forall>y\<in>set lo. ?key y < k" by (auto simp: lo_def dest: takeWhile_lt)
  have above: "\<forall>y\<in>set hi. k < ?key y" using dropWhile_gt [OF Cons.prems(1)] by (auto simp: hi_def)
  have sub: "set lo \<subseteq> set xs" "set hi \<subseteq> set xs" by (auto simp: lo_def hi_def dest: set_takeWhileD set_dropWhileD)
  have es: "\<forall>e'\<in>set es. k < edit_key K e'" "sorted_keys (edit_key K) es" using Cons.prems(2) by (simp_all add: k_def)
  have ins: "ins = [] \<or> (\<exists>x. ins = [x] \<and> ?key x = k)" by (cases e) (auto simp: ins_def k_def)
  note parts = sorted_keys_parts [OF Cons.prems(1), of k, folded lo_def hi_def]
    and lookups = key_lookup_parts [OF Cons.prems(1), where k = k, folded lo_def hi_def]
  have IH: "sorted_keys ?key out" "?key ` set out \<subseteq> ?key ` set hi \<union> edit_key K ` set es"
    "key_lookup ?key out = edit_effect K es (key_lookup ?key hi)"
    "removed = concat (map (\<lambda>e. case key_lookup ?key hi (edit_key K e) of Some x \<Rightarrow> [x] | None \<Rightarrow> []) es)"
    using Cons.IH [OF parts(2) es(2)] r by simp_all
  have out: "\<forall>y\<in>set out. k < ?key y" using IH(2) above es(1) by (rule image_bound)
  have "sorted_keys ?key (lo @ ins @ out)"
    using parts(1) IH(1) below out ins by (auto intro: less_trans)
  moreover have "?key ` set (lo @ ins @ out) \<subseteq> ?key ` set xs \<union> edit_key K ` set (e # es)"
    using sub IH(2) image_mono [OF sub(2), of ?key] ins by (auto 0 4 simp: k_def)
  moreover have "key_lookup ?key (lo @ ins @ out) j = edit_effect K (e # es) (key_lookup ?key xs) j" for j
  proof -
    have "key_lookup (edit_key K) es k = None" using es(1) by (auto simp: key_lookup_None_iff)
    moreover have "j < k \<Longrightarrow> key_lookup (edit_key K) es j = None" using es(1) by (fastforce simp: key_lookup_None_iff)
    ultimately show ?thesis
      by (cases e; cases j k rule: linorder_cases)
        (auto simp: key_lookup_append lookups IH(3) edit_effect_def ins_def k_def split: option.split edit.split)
  qed
  moreover have "key_lookup ?key hi (edit_key K e') = key_lookup ?key xs (edit_key K e')" if "e' \<in> set es" for e'
    using es(1) that by (simp add: lookups)
  then have "removed = concat (map (\<lambda>e. case key_lookup ?key xs (edit_key K e) of Some x \<Rightarrow> [x] | None \<Rightarrow> []) es)"
    using IH(4) by (simp cong: map_cong)
  ultimately show ?case using r by (simp add: Let_def lo_def hi_def ins_def k_def fun_eq_iff)
qed

lemma key_lookup_distinct:
  "distinct (map key xs) \<Longrightarrow> key_lookup key xs k = Some x \<longleftrightarrow> x \<in> set xs \<and> key x = k"
  by (induction xs) (auto simp: key_lookup_None_iff)

lemma key_lookup_perm:
  assumes "distinct (map key xs)" "distinct (map key ys)" "set xs = set ys"
  shows "key_lookup key xs = key_lookup key ys"
proof
  fix k
  have "key_lookup key xs k = Some x \<longleftrightarrow> key_lookup key ys k = Some x" for x
    using assms by (simp add: key_lookup_distinct)
  then show "key_lookup key xs k = key_lookup key ys k" by (metis option.exhaust)
qed

lemma sorted_keys_sort_key:
  assumes "distinct (map key xs)"
  shows "sorted_keys key (sort_key key xs)"
proof -
  have "distinct (map key (sort_key key xs))" using assms by (simp add: distinct_map)
  moreover have "sorted (map key (sort_key key xs))" by simp
  ultimately have "sorted_wrt (<) (map key (sort_key key xs))" using strict_sorted_iff by blast
  then show ?thesis by (simp add: sorted_keys_def sorted_wrt_map)
qed

section \<open>Seeking by key\<close>

text \<open>
  The laws of a key: its zero is the least key, and adding the summary of an item to a key that is not
  above the item's gives the item's key. Both a replacing and a maximising \<^verbatim>\<open>add_summary\<close> satisfy them.
\<close>

locale keyed_laws = dimension_laws "kitem K" "kdim K"
  for K :: "('a, 's, 'k::linorder) keyed_impl" +
  assumes key_zero: "dzero (kdim K) \<le> k"
    and key_step: "d \<le> ikey K x \<Longrightarrow> dadd (kdim K) d (summarize (kitem K) x) = ikey K x"
begin

abbreviation D where "D \<equiv> kitem K"
abbreviation M where "M \<equiv> kdim K"
abbreviation key where "key \<equiv> ikey K"
abbreviation start_key where "start_key \<equiv> dzero (kdim K)"

definition below :: "bias \<Rightarrow> 'k \<Rightarrow> 'a \<Rightarrow> bool" where
  "below bias k x \<longleftrightarrow> (if bias = Left then key x < k else key x \<le> k)"

lemma pos_after_keys:
  "sorted_keys key xs \<Longrightarrow> \<forall>x\<in>set xs. d \<le> key x \<Longrightarrow>
   pos_after D M d xs = (if xs = [] then d else key (last xs))"
proof (induction xs arbitrary: d)
  case (Cons x xs)
  then have "\<forall>y\<in>set xs. key x \<le> key y" by (auto intro: less_imp_le)
  then have "pos_after D M (key x) xs = (if xs = [] then key x else key (last xs))"
    using Cons.IH [of "key x"] Cons.prems(1) by simp
  with Cons.prems show ?case by (auto simp: key_step)
qed simp

lemma passes_key: "passes (ord_cmp k) bias (key x) \<longleftrightarrow> below bias k x"
  by (cases bias) (auto simp: passes_def below_def)

text \<open>Any condition on positions that is downward closed on keys can be seeked on a sorted tree.\<close>

lemma passed_prefix_pass:
  "sorted_keys key xs \<Longrightarrow> \<forall>x\<in>set xs. d \<le> key x \<Longrightarrow>
   passed_prefix D M pass d xs = takeWhile (\<lambda>x. pass (key x)) xs"
proof (induction xs arbitrary: d)
  case (Cons x xs)
  then have "\<forall>y\<in>set xs. key x \<le> key y" by (auto intro: less_imp_le)
  then have "passed_prefix D M pass (key x) xs = takeWhile (\<lambda>x. pass (key x)) xs"
    using Cons.IH [of "key x"] Cons.prems(1) by simp
  with Cons.prems show ?case by (simp add: Let_def key_step)
qed simp

lemma seekable_pass:
  assumes "sorted_keys key xs" "\<forall>x\<in>set xs. d \<le> key x"
    and "\<And>x y. key x < key y \<Longrightarrow> pass (key y) \<Longrightarrow> pass (key x)"
  shows "seekable D M pass d xs"
  unfolding seekable_def
proof (intro allI impI, elim conjE)
  fix i j
  assume ij: "0 < i" "i \<le> j" "j \<le> length xs" "pass (pos_after D M d (take j xs))"
  have at: "pos_after D M d (take n xs) = key (xs ! (n - 1))" if "0 < n" "n \<le> length xs" for n
  proof -
    have "\<forall>x\<in>set (take n xs). d \<le> key x" using assms(2) by (auto dest: in_set_takeD)
    then have "pos_after D M d (take n xs) = key (last (take n xs))"
      using that pos_after_keys [OF sorted_keys_take [OF assms(1)]] by auto
    moreover have "take n xs \<noteq> []" using that by auto
    ultimately show ?thesis using that by (simp add: last_conv_nth)
  qed
  have "i = j \<or> key (xs ! (i - 1)) < key (xs ! (j - 1))"
    using assms(1) ij by (cases "i = j") (auto simp: sorted_keys_def sorted_wrt_iff_nth_less)
  with ij at [of i] at [of j] assms(3) show "pass (pos_after D M d (take i xs))" by auto
qed

lemma passed_prefix_keys:
  "sorted_keys key xs \<Longrightarrow> \<forall>x\<in>set xs. d \<le> key x \<Longrightarrow>
   passed_prefix D M (passes (ord_cmp k) bias) d xs = takeWhile (below bias k) xs"
  using passed_prefix_pass [of xs d "passes (ord_cmp k) bias"] by (simp add: passes_key cong: takeWhile_cong)

lemma seekable_keys:
  assumes "sorted_keys key xs" "\<forall>x\<in>set xs. d \<le> key x"
  shows "seekable D M (passes (ord_cmp k) bias) d xs"
  using assms by (rule seekable_pass) (auto simp: passes_key below_def split: if_splits)

lemma seekable_drop:
  assumes "sorted_keys key xs"
  shows "seekable D M (passes (ord_cmp k) bias) (pos_after D M start_key (take n xs)) (drop n xs)"
  using seekable_suffix [of D M _ start_key "take n xs" "drop n xs"] seekable_keys [OF assms, of start_key]
  by (simp add: key_zero)

lemma below_pos:
  assumes "sorted_keys key xs"
  shows "\<forall>x\<in>set (drop n xs). pos_after D M start_key (take n xs) \<le> key x"
  using pos_after_keys [OF sorted_keys_take [OF assms], of n start_key] assms key_zero
    sorted_keys_simps(3) [of key "take n xs" "drop n xs"]
  by (auto intro: less_imp_le)

lemma seek_count_drop:
  assumes "sorted_keys key xs"
  shows "seek_count D M (passes (ord_cmp k) bias) (pos_after D M start_key (take n xs)) (drop n xs) =
    length (takeWhile (below bias k) (drop n xs))"
  using passed_prefix_keys [OF sorted_keys_drop [OF assms] below_pos [OF assms]] by (simp add: seek_count_def)

lemma slice_key:
  assumes "cursor_at D M n c" "sorted_keys key (tree_items (c_tree c))" "c_position c \<le> k"
  defines "ys \<equiv> drop n (tree_items (c_tree c))"
  shows "\<exists>t c'. slice D M c (ord_cmp k) bias = Some (t, c') \<and> wf_tree D t \<and>
    tree_items t = takeWhile (below bias k) ys \<and> c_tree c' = c_tree c \<and> did_seek c' \<and>
    cursor_at D M (n + length (takeWhile (below bias k) ys)) c'"
proof -
  have pos: "c_position c = pos_after D M start_key (take n (tree_items (c_tree c)))"
    using assms(1) by (simp add: cursor_at_def)
  have n: "seek_count D M (passes (ord_cmp k) bias) (c_position c) ys = length (takeWhile (below bias k) ys)"
    using seek_count_drop [OF assms(2)] by (simp add: pos ys_def)
  have "take (length (takeWhile (below bias k) ys)) ys = takeWhile (below bias k) ys"
    by (simp flip: takeWhile_eq_take)
  moreover obtain t c' where "slice D M c (ord_cmp k) bias = Some (t, c')" "wf_tree D t"
    "tree_items t = take (seek_count D M (passes (ord_cmp k) bias) (c_position c) ys) ys"
    "c_tree c' = c_tree c" "did_seek c'"
    "cursor_at D M (n + seek_count D M (passes (ord_cmp k) bias) (c_position c) ys) c'"
    using slice_ok [OF assms(1), of "ord_cmp k" bias] assms(3) seekable_drop [OF assms(2)]
    unfolding ys_def pos by (metis ord_cmp_simps(1) not_le)
  ultimately show ?thesis unfolding n by auto
qed

section \<open>The operations\<close>

text \<open>A tree with strictly sorted keys, and the map it stands for.\<close>

definition keyed_ok :: "('a, 's) sum_tree \<Rightarrow> bool" where
  "keyed_ok t \<longleftrightarrow> wf_tree D t \<and> sorted_keys key (tree_items t)"

definition entries :: "('a, 's) sum_tree \<Rightarrow> 'k \<rightharpoonup> 'a" where
  "entries t = key_lookup key (tree_items t)"

lemma take_key_ok:
  assumes "cursor_at D M n c" "did_seek c" "sorted_keys key (tree_items (c_tree c))"
    and ge: "\<forall>y\<in>set (drop n (tree_items (c_tree c))). k \<le> key y" and item: "cursor_item c = Some item"
  defines "ys \<equiv> drop n (tree_items (c_tree c))"
  shows "\<exists>c' n'. take_key K k item c = Some (key_lookup key ys k, c') \<and> c_tree c' = c_tree c \<and> did_seek c' \<and>
    cursor_at D M n' c' \<and> drop n' (tree_items (c_tree c)) = dropWhile (\<lambda>y. key y \<le> k) ys"
proof (cases ys)
  case Nil
  then have "item = None" using cursor_item_at(1) [OF assms(1,2)] item ys_def by simp
  with Nil assms(1,2) show ?thesis by (auto simp: take_key_def ys_def)
next
  case (Cons y ys')
  note y = drop_eq_Cons_nth [OF Cons [unfolded ys_def]]
  then have it: "item = Some y" using cursor_item_at(1) [OF assms(1,2)] item by simp
  have srt: "sorted_keys key (y # ys')" using sorted_keys_drop [OF assms(3), of n] Cons by (simp add: ys_def)
  show ?thesis
  proof (cases "key y = k")
    case True
    have "dropWhile (\<lambda>y. key y \<le> k) ys' = ys'" using srt True by (cases ys') auto
    with True it Cons y show ?thesis
      using cursor_next_ok [OF assms(1)] assms(2) by (auto simp: take_key_def min_def)
  next
    case False
    then have "k < key y" using ge Cons by (auto simp: ys_def)
    moreover have "key_lookup key ys' k = None" using srt calculation by (fastforce simp: key_lookup_None_iff)
    ultimately show ?thesis using it Cons False assms(1,2)
      by (auto simp: take_key_def not_le ys_def intro!: exI [of _ n])
  qed
qed

text \<open>Slicing up to a key and stepping over the item that has it: the first half of every update.\<close>

lemma slice_and_take:
  assumes c: "cursor_at D M n c" and srt: "sorted_keys key (tree_items (c_tree c))" and "c_position c \<le> k"
  defines "ys \<equiv> drop n (tree_items (c_tree c))"
  shows "\<exists>t c' item c'' n'. slice D M c (ord_cmp k) Left = Some (t, c') \<and> cursor_item c' = Some item \<and>
    take_key K k item c' = Some (key_lookup key ys k, c'') \<and> did_seek c'' \<and> c_tree c'' = c_tree c \<and>
    wf_tree D t \<and> tree_items t = takeWhile (\<lambda>y. key y < k) ys \<and>
    cursor_at D M n' c'' \<and> drop n' (tree_items (c_tree c)) = dropWhile (\<lambda>y. key y \<le> k) ys"
proof -
  have bl: "below Left k = (\<lambda>y. key y < k)" by (rule ext) (simp add: below_def)
  obtain t c' where t: "slice D M c (ord_cmp k) Left = Some (t, c')" "wf_tree D t"
    "tree_items t = takeWhile (\<lambda>y. key y < k) ys" "c_tree c' = c_tree c" "did_seek c'"
    "cursor_at D M (n + length (takeWhile (\<lambda>y. key y < k) ys)) c'"
    using slice_key [OF c srt assms(3), of Left] unfolding bl ys_def by blast
  have "drop (n + length (takeWhile (\<lambda>y. key y < k) ys)) (tree_items (c_tree c)) = dropWhile (\<lambda>y. key y < k) ys"
    by (simp add: dropWhile_eq_drop ys_def add.commute)
  moreover have "\<forall>y\<in>set (dropWhile (\<lambda>y. key y < k) ys). k \<le> key y"
    using dropWhile_ge [OF sorted_keys_drop [OF srt]] by (auto simp: ys_def)
  moreover obtain item where item: "cursor_item c' = Some item"
    using cursor_item_at(1) [OF t(6,5)] by blast
  ultimately show ?thesis
    using take_key_ok [OF t(6,5), of k item] t srt by (simp add: dropWhile_le_lt key_lookup_dropWhile) blast
qed

lemma insert_or_replace_ok:
  assumes "keyed_ok t"
  shows "\<exists>t'. insert_or_replace K t x = Some (entries t (key x), t') \<and> keyed_ok t' \<and>
    tree_items t' = key_insert key (tree_items t) x \<and> entries t' = (entries t)(key x \<mapsto> x)"
proof -
  have t: "wf_tree D t" "sorted_keys key (tree_items t)" using assms by (auto simp: keyed_ok_def)
  obtain lo c' item c'' n' where s: "slice D M (cursor_new M t) (ord_cmp (key x)) Left = Some (lo, c')"
    "cursor_item c' = Some item" "take_key K (key x) item c' = Some (key_lookup key (tree_items t) (key x), c'')"
    "did_seek c''" "c_tree c'' = t" "wf_tree D lo" "tree_items lo = takeWhile (\<lambda>y. key y < key x) (tree_items t)"
    "cursor_at D M n' c''" "drop n' (tree_items t) = dropWhile (\<lambda>y. key y \<le> key x) (tree_items t)"
    using slice_and_take [OF cursor_at_new [OF t(1)], of "key x"] t(2) by (auto simp: cursor_new_def key_zero)
  obtain lo' where lo': "push D lo x = Some lo'" "wf_tree D lo'" "tree_items lo' = tree_items lo @ [x]"
    using push_ok [OF s(6)] by blast
  obtain hi c3 where hi: "suffix D M c'' = Some (hi, c3)" "wf_tree D hi" "tree_items hi = drop n' (tree_items t)"
    using suffix_ok [OF s(8)] s(5) by auto
  obtain t' where t': "append_tree D lo' hi = Some t'" "wf_tree D t'" "tree_items t' = tree_items lo' @ tree_items hi"
    using append_tree_ok [OF lo'(2) hi(2)] by blast
  have items: "tree_items t' = key_insert key (tree_items t) x"
    using t'(3) lo'(3) hi(3) s(7,9) by (simp add: key_insert_def)
  have "insert_or_replace K t x = Some (entries t (key x), t')"
    using s(1-3) lo'(1) hi(1) t'(1) by (simp add: insert_or_replace_def entries_def)
  then show ?thesis
    using t'(2) items sorted_key_insert [OF t(2)] key_lookup_insert [OF t(2)] by (simp add: keyed_ok_def entries_def)
qed

lemma remove_ok:
  assumes "keyed_ok t"
  shows "\<exists>t'. remove K t k = Some (entries t k, t') \<and> keyed_ok t' \<and>
    tree_items t' = key_remove key (tree_items t) k \<and> entries t' = (entries t)(k := None)"
proof -
  have t: "wf_tree D t" "sorted_keys key (tree_items t)" using assms by (auto simp: keyed_ok_def)
  obtain lo c' item c'' n' where s: "slice D M (cursor_new M t) (ord_cmp k) Left = Some (lo, c')"
    "cursor_item c' = Some item" "take_key K k item c' = Some (key_lookup key (tree_items t) k, c'')"
    "did_seek c''" "c_tree c'' = t" "wf_tree D lo" "tree_items lo = takeWhile (\<lambda>y. key y < k) (tree_items t)"
    "cursor_at D M n' c''" "drop n' (tree_items t) = dropWhile (\<lambda>y. key y \<le> k) (tree_items t)"
    using slice_and_take [OF cursor_at_new [OF t(1)], of k] t(2) by (auto simp: cursor_new_def key_zero)
  obtain hi c3 where hi: "suffix D M c'' = Some (hi, c3)" "wf_tree D hi" "tree_items hi = drop n' (tree_items t)"
    using suffix_ok [OF s(8)] s(5) by auto
  obtain t' where t': "append_tree D lo hi = Some t'" "wf_tree D t'" "tree_items t' = tree_items lo @ tree_items hi"
    using append_tree_ok [OF s(6) hi(2)] by blast
  have items: "tree_items t' = key_remove key (tree_items t) k"
    using t'(3) hi(3) s(7,9) by (simp add: key_remove_def)
  have "remove K t k = Some (entries t k, t')"
    using s(1-3) hi(1) t'(1) by (simp add: remove_def entries_def)
  then show ?thesis
    using t'(2) items sorted_key_remove [OF t(2)] key_lookup_remove [OF t(2)] by (simp add: keyed_ok_def entries_def)
qed

text \<open>The item a seek to a key stops at, and the end of that item.\<close>

lemma end_at_key:
  assumes "sorted_keys key xs" "n < length xs"
  shows "end_at D M n xs = key (xs ! n)"
  using pos_after_keys [OF sorted_keys_take [OF assms(1)], of "n + 1" start_key] assms(2) key_zero
  by (simp add: end_at_def take_Suc_conv_app_nth)

lemma seek_count_key:
  "sorted_keys key xs \<Longrightarrow> seek_count D M (passes (ord_cmp k) bias) start_key xs = length (takeWhile (below bias k) xs)"
  using seek_count_drop [of xs k bias 0] by simp

lemma nth_takeWhile_below:
  fixes k :: 'k
  assumes "sorted_keys key xs"
  defines "n \<equiv> length (takeWhile (below Left k) xs)"
  shows "key_lookup key xs k = (if n < length xs \<and> key (xs ! n) = k then Some (xs ! n) else None)"
  using assms(1) unfolding n_def
proof (induction xs)
  case (Cons x xs)
  consider "key x < k" | "key x = k" | "k < key x" by fastforce
  then show ?case
  proof cases
    case 1
    then have "below Left k x" by (simp add: below_def)
    with 1 Cons show ?thesis by auto
  next
    case 2
    then show ?thesis by (simp add: below_def)
  next
    case 3
    then have "key_lookup key xs k = None" using Cons.prems by (fastforce simp: key_lookup_None_iff)
    with 3 show ?thesis by (auto simp: below_def)
  qed
qed simp

lemma keyed_get_ok:
  assumes "keyed_ok t"
  shows "keyed_get K t k = entries t k"
proof -
  have t: "wf_tree D t" "sorted_keys key (tree_items t)" using assms by (auto simp: keyed_ok_def)
  have "seekable D M (passes (ord_cmp k) bias) start_key (tree_items t)" for bias
    using seekable_keys [OF t(2)] key_zero by blast
  from find_exact_ok [OF t(1) this] show ?thesis
    using nth_takeWhile_below [OF t(2), of k] end_at_key [OF t(2)]
    by (auto simp: keyed_get_def entries_def seek_count_key [OF t(2)] split: prod.split)
qed

text \<open>One edit: everything below its key has been emitted, and the item with its key taken.\<close>

definition edit_inv :: "'a list \<Rightarrow> nat \<Rightarrow> ('a, 's, 'k) edit_state \<Rightarrow> bool" where
  "edit_inv xs n st \<longleftrightarrow> cursor_at D M n (es_cursor st) \<and> did_seek (es_cursor st) \<and>
     tree_items (c_tree (es_cursor st)) = xs \<and> sorted_keys key xs \<and> wf_tree D (es_tree st)"

lemma edit_step_ok:
  fixes e :: "('a, 'k) edit"
  assumes inv: "edit_inv xs n st"
  defines "ys \<equiv> drop n xs" and "k \<equiv> edit_key K e"
  shows "\<exists>st' n'. edit_step K e st = Some st' \<and> edit_inv xs n' st' \<and>
    drop n' xs = dropWhile (\<lambda>y. key y \<le> k) ys \<and>
    tree_items (es_tree st') @ es_buffered st' = tree_items (es_tree st) @ es_buffered st @
      takeWhile (\<lambda>y. key y < k) ys @ (case e of Insert x \<Rightarrow> [x] | Remove _ \<Rightarrow> []) \<and>
    es_removed st' = es_removed st @ (case key_lookup key ys k of Some x \<Rightarrow> [x] | None \<Rightarrow> [])"
proof -
  let ?c = "es_cursor st"
  have c: "cursor_at D M n ?c" "did_seek ?c" "tree_items (c_tree ?c) = xs" "sorted_keys key xs" "wf_tree D (es_tree st)"
    using inv by (auto simp: edit_inv_def)
  have srt: "sorted_keys key ys" using c(4) by (simp add: ys_def sorted_keys_drop)
  have item: "cursor_item ?c = Some (if n < length xs then Some (xs ! n) else None)"
    using cursor_item_at(1) [OF c(1,2)] c(3) by simp
  show ?thesis
  proof (cases "n < length xs \<and> key (xs ! n) < k")
    case True
    then have "xs ! n \<in> set (drop n xs)" by (metis Cons_nth_drop_Suc list.set_intros(1))
    then have "c_position ?c \<le> k"
      using below_pos [OF c(4), of n] c(1,3) True by (fastforce simp: cursor_at_def)
    then obtain part c' old c'' n' where s: "slice D M ?c (ord_cmp k) Left = Some (part, c')"
      "cursor_item c' = Some old" "take_key K k old c' = Some (key_lookup key ys k, c'')"
      "did_seek c''" "c_tree c'' = c_tree ?c" "wf_tree D part" "tree_items part = takeWhile (\<lambda>y. key y < k) ys"
      "cursor_at D M n' c''" "drop n' xs = dropWhile (\<lambda>y. key y \<le> k) ys"
      using slice_and_take [OF c(1)] c(3,4) unfolding ys_def by blast
    obtain nt where nt: "extend_tree D (es_tree st) (es_buffered st) = Some nt" "wf_tree D nt"
      "tree_items nt = tree_items (es_tree st) @ es_buffered st"
      using extend_ok [OF c(5)] by blast
    obtain nt' where nt': "append_tree D nt part = Some nt'" "wf_tree D nt'"
      "tree_items nt' = tree_items nt @ tree_items part"
      using append_tree_ok [OF nt(2) s(6)] by blast
    have "edit_step K e st = Some (st\<lparr>es_cursor := c'', es_tree := nt',
        es_buffered := (case e of Insert x \<Rightarrow> [x] | Remove _ \<Rightarrow> []),
        es_removed := es_removed st @ (case key_lookup key ys k of Some x \<Rightarrow> [x] | None \<Rightarrow> [])\<rparr>)"
      using item True s(1-3) nt(1) nt'(1) by (simp add: edit_step_def Let_def flip: k_def)
    then show ?thesis using s c nt(3) nt'(2,3) by (auto simp: edit_inv_def)
  next
    case False
    then have none: "takeWhile (\<lambda>y. key y < k) ys = []"
      by (cases ys) (auto dest!: drop_eq_Cons_nth simp: ys_def)
    then have "dropWhile (\<lambda>y. key y < k) ys = ys" by (metis takeWhile_dropWhile_id append_Nil)
    then have "\<forall>y\<in>set ys. k \<le> key y" using dropWhile_ge [OF srt] by metis
    then obtain c' n' where s: "take_key K k (if n < length xs then Some (xs ! n) else None) ?c =
        Some (key_lookup key ys k, c')" "c_tree c' = c_tree ?c" "did_seek c'" "cursor_at D M n' c'"
        "drop n' xs = dropWhile (\<lambda>y. key y \<le> k) ys"
      using take_key_ok [OF c(1,2) _ _ item] c(3,4) unfolding ys_def by blast
    have "edit_step K e st = Some (st\<lparr>es_cursor := c',
        es_buffered := es_buffered st @ (case e of Insert x \<Rightarrow> [x] | Remove _ \<Rightarrow> []),
        es_removed := es_removed st @ (case key_lookup key ys k of Some x \<Rightarrow> [x] | None \<Rightarrow> [])\<rparr>)"
      using item False s(1) by (auto simp: edit_step_def Let_def simp flip: k_def)
    then show ?thesis using s c none by (auto simp: edit_inv_def)
  qed
qed

lemma edit_steps_ok:
  assumes "edit_inv xs n st"
  shows "\<exists>st' n'. edit_steps K es st = Some st' \<and> edit_inv xs n' st' \<and>
    tree_items (es_tree st') @ es_buffered st' @ drop n' xs =
      tree_items (es_tree st) @ es_buffered st @ snd (edit_list K (drop n xs) es) \<and>
    es_removed st' = es_removed st @ fst (edit_list K (drop n xs) es)"
  using assms
proof (induction es arbitrary: n st)
  case (Cons e es)
  obtain st1 n1 where 1: "edit_step K e st = Some st1" "edit_inv xs n1 st1"
    "drop n1 xs = dropWhile (\<lambda>y. key y \<le> edit_key K e) (drop n xs)"
    "tree_items (es_tree st1) @ es_buffered st1 = tree_items (es_tree st) @ es_buffered st @
      takeWhile (\<lambda>y. key y < edit_key K e) (drop n xs) @ (case e of Insert x \<Rightarrow> [x] | Remove _ \<Rightarrow> [])"
    "es_removed st1 = es_removed st @
      (case key_lookup key (drop n xs) (edit_key K e) of Some x \<Rightarrow> [x] | None \<Rightarrow> [])"
    using edit_step_ok [OF Cons.prems, of e] by blast
  obtain st' n' where 2: "edit_steps K es st1 = Some st'" "edit_inv xs n' st'"
    "tree_items (es_tree st') @ es_buffered st' @ drop n' xs =
      tree_items (es_tree st1) @ es_buffered st1 @ snd (edit_list K (drop n1 xs) es)"
    "es_removed st' = es_removed st1 @ fst (edit_list K (drop n1 xs) es)"
    using Cons.IH [OF 1(2)] by blast
  have "tree_items (es_tree st1) @ es_buffered st1 @ zs = tree_items (es_tree st) @ es_buffered st @
      takeWhile (\<lambda>y. key y < edit_key K e) (drop n xs) @ (case e of Insert x \<Rightarrow> [x] | Remove _ \<Rightarrow> []) @ zs" for zs
    using 1(4) by (metis append.assoc)
  with 1 2 show ?case
    by (intro exI [of _ st'] exI [of _ n']) (auto simp: Let_def split: prod.split)
qed auto

lemma edit_tree_ok:
  assumes "keyed_ok t" "distinct (map (edit_key K) es)"
  shows "\<exists>t'. edit_tree K t es = Some
      (concat (map (\<lambda>e. case entries t (edit_key K e) of Some x \<Rightarrow> [x] | None \<Rightarrow> []) (sort_key (edit_key K) es)), t') \<and>
    keyed_ok t' \<and> entries t' = edit_effect K es (entries t)"
proof (cases "es = []")
  case True
  with assms show ?thesis by (auto simp: edit_tree_def edit_effect_def)
next
  case False
  have t: "wf_tree D t" "sorted_keys key (tree_items t)" using assms by (auto simp: keyed_ok_def)
  let ?es = "sort_key (edit_key K) es"
  have "seekable D M (passes (ord_cmp start_key) Left) start_key (tree_items t)"
    using seekable_keys [OF t(2)] key_zero by blast
  moreover have "takeWhile (below Left start_key) (tree_items t) = []"
    using key_zero by (auto simp: takeWhile_eq_Nil_iff below_def not_less)
  ultimately obtain b c where c: "seek M (cursor_new M t) (ord_cmp start_key) Left = Some (b, c)"
    "c_tree c = t" "did_seek c" "cursor_at D M 0 c"
    using seek_ok [OF cursor_at_new [OF t(1)], of "ord_cmp start_key" Left] seek_count_key [OF t(2)] by auto
  let ?st = "\<lparr>es_cursor = c, es_tree = st_new D, es_buffered = [], es_removed = []\<rparr>"
  have "edit_inv (tree_items t) 0 ?st" using c t by (simp add: edit_inv_def)
  then obtain st n where st: "edit_steps K ?es ?st = Some st" "edit_inv (tree_items t) n st"
    "tree_items (es_tree st) @ es_buffered st @ drop n (tree_items t) = snd (edit_list K (tree_items t) ?es)"
    "es_removed st = fst (edit_list K (tree_items t) ?es)"
    using edit_steps_ok by fastforce
  obtain nt where nt: "extend_tree D (es_tree st) (es_buffered st) = Some nt" "wf_tree D nt"
    "tree_items nt = tree_items (es_tree st) @ es_buffered st"
    using extend_ok st(2) by (metis edit_inv_def)
  obtain hi c3 where hi: "suffix D M (es_cursor st) = Some (hi, c3)" "wf_tree D hi" "tree_items hi = drop n (tree_items t)"
    using suffix_ok st(2) by (metis edit_inv_def)
  obtain t' where t': "append_tree D nt hi = Some t'" "wf_tree D t'" "tree_items t' = tree_items nt @ tree_items hi"
    using append_tree_ok [OF nt(2) hi(2)] by blast
  have run: "edit_tree K t es = Some (es_removed st, t')"
    using False c(1) st(1) nt(1) hi(1) t'(1) by (simp add: edit_tree_def)
  have items: "tree_items t' = snd (edit_list K (tree_items t) ?es)" using t'(3) nt(3) hi(3) st(3) by simp
  have "key_lookup (edit_key K) ?es = key_lookup (edit_key K) es"
    using assms(2) by (intro key_lookup_perm) (auto simp: distinct_map)
  then have "edit_effect K ?es m = edit_effect K es m" for m by (simp add: edit_effect_def fun_eq_iff)
  then show ?thesis
    using edit_list_ok [OF t(2) sorted_keys_sort_key [OF assms(2)]] run items st(4) t'(2)
    by (simp add: keyed_ok_def entries_def)
qed

text \<open>
  After slicing up to a key, comparing the key with the end of the current item tells whether that item
  has the key: the test of \<^verbatim>\<open>TreeMap::remove\<close> and \<^verbatim>\<open>TreeMap::update\<close>.
\<close>

lemma slice_end_iff:
  assumes "keyed_ok t" "k \<noteq> start_key" "slice D M (cursor_new M t) (ord_cmp k) Left = Some (lo, c)"
  shows "\<exists>d item. cursor_end M c = Some d \<and> cursor_item c = Some item \<and>
    (k = d \<longleftrightarrow> (case item of Some x \<Rightarrow> key x = k | None \<Rightarrow> False))"
proof -
  let ?xs = "tree_items t"
  have t: "wf_tree D t" "sorted_keys key ?xs" using assms(1) by (auto simp: keyed_ok_def)
  let ?n = "length (takeWhile (below Left k) ?xs)"
  have c: "cursor_at D M ?n c" "did_seek c" "c_tree c = t"
    using slice_key [OF cursor_at_new [OF t(1)], of k Left] t(2) assms(3) by (auto simp: cursor_new_def key_zero)
  have "end_at D M ?n ?xs \<noteq> k" if all: "?n = length ?xs"
  proof -
    have "?xs = takeWhile (below Left k) ?xs" using all by (metis takeWhile_eq_take take_all order_refl)
    then have "?xs = [] \<or> key (last ?xs) < k"
      by (metis last_in_set set_takeWhileD below_def)
    then show ?thesis
      using pos_after_keys [OF t(2), of start_key] all assms(2) key_zero by (auto simp: end_at_def)
  qed
  moreover have "?n \<le> length ?xs" by (rule length_takeWhile_le)
  ultimately show ?thesis
    using cursor_end_at [OF c(1,2)] cursor_item_at(1) [OF c(1,2)] c(3) end_at_key [OF t(2), of ?n]
    by (cases "?n < length ?xs") auto
qed

lemma find_key:
  assumes "keyed_ok t"
  shows "entries t k = (case st_find M t (ord_cmp k) Left of
     (_, _, Some x) \<Rightarrow> (if key x = k then Some x else None) | (_, _, None) \<Rightarrow> None)"
proof (cases "tree_items t = []")
  case True
  then show ?thesis using assms
    by (auto elim!: wf_treeE simp: keyed_ok_def entries_def st_find_def find_with_def st_new_def Let_def)
next
  case False
  have t: "wf_tree D t" "sorted_keys key (tree_items t)" using assms by (auto simp: keyed_ok_def)
  have "seekable D M (passes (ord_cmp k) Left) start_key (tree_items t)"
    using seekable_keys [OF t(2)] key_zero by blast
  from find_ok(1) [OF t(1) this False] show ?thesis
    using nth_takeWhile_below [OF t(2), of k] by (auto simp: entries_def seek_count_key [OF t(2)])
qed

end

end
