(* ===== verification/Sum_Iter.thy ===== *)
theory Sum_Iter
  imports Cursor_Search
begin

text \<open>
  Reading a whole tree: the iterator \<^verbatim>\<open>Iter\<close> of \<^verbatim>\<open>cursor.rs\<close>, which walks with a stack of its own and no
  positions, and \<^verbatim>\<open>SumTree::items\<close>, which drives a cursor until it has no item.
\<close>

section \<open>The plain iterator\<close>

function (sequential) iter_loop ::
  "bool \<Rightarrow> ('a, 's, unit) stack_entry list \<Rightarrow> 'a option \<times> ('a, 's, unit) stack_entry list" where
  "iter_loop descend [] = (None, [])"
| "iter_loop descend (e # es) =
     (let i = (if descend then e_index e else e_index e + 1) in
      case e_tree e of
        Internal h s css cts \<Rightarrow>
          (if i < length cts
           then iter_loop True (\<lparr>e_tree = cts ! i, e_index = 0, e_position = ()\<rparr> # e\<lparr>e_index := i, e_position := ()\<rparr> # es)
           else iter_loop False es)
      | Leaf s its iss \<Rightarrow>
          (if i < length its then (Some (its ! i), e\<lparr>e_index := i, e_position := ()\<rparr> # es) else iter_loop False es))"
  by pat_completeness auto
termination
proof (relation "measure (\<lambda>(descend, es). 2 * stack_weight (\<not> descend) es + (if descend then 0 else 1))", goal_cases)
  case (2 descend e es i h s css cts)
  then show ?case
    using stack_weight_descend [of e h s css cts i "()" "()" es]
    by (auto simp: double_less_Suc simp del: stack_weight.simps split: if_splits)
qed (auto simp: stack_weight_True)

text \<open>\<^verbatim>\<open>Iter::next\<close>: with an empty stack it starts at the root again.\<close>

definition iter_next ::
  "('a, 's) sum_tree \<Rightarrow> ('a, 's, unit) stack_entry list \<Rightarrow> 'a option \<times> ('a, 's, unit) stack_entry list" where
  "iter_next t es =
     (if es = [] then iter_loop True [\<lparr>e_tree = t, e_index = 0, e_position = ()\<rparr>] else iter_loop False es)"

definition iter_last :: "('a, 's) sum_tree \<Rightarrow> 'a option option" where
  "iter_last t = last_item t"

definition iter_size_hint :: "('a, 's) sum_tree \<Rightarrow> ('a, 's, unit) stack_entry list \<Rightarrow> nat option" where
  "iter_size_hint t es = (case es of
     [] \<Rightarrow> Some (length (child_summaries t))
   | e # _ \<Rightarrow> (if e_index e \<le> length (child_summaries (e_tree e))
               then Some (length (child_summaries (e_tree e)) - e_index e) else None))"

text \<open>Calling \<^verbatim>\<open>next\<close> up to \<open>n\<close> times, until it returns \<^verbatim>\<open>None\<close>.\<close>

fun iter_collect :: "('a, 's) sum_tree \<Rightarrow> nat \<Rightarrow> ('a, 's, unit) stack_entry list \<Rightarrow> 'a list" where
  "iter_collect t 0 es = []"
| "iter_collect t (Suc n) es =
     (case iter_next t es of (None, _) \<Rightarrow> [] | (Some x, es') \<Rightarrow> x # iter_collect t n es')"

text \<open>One step yields the first of the remaining items and leaves the iterator at it.\<close>

definition iter_outcome ::
  "('a, 's) item_impl \<Rightarrow> 'a list \<Rightarrow> 'a option \<times> ('a, 's, unit) stack_entry list \<Rightarrow> bool" where
  "iter_outcome D xs r \<longleftrightarrow> (case xs of
     [] \<Rightarrow> r = (None, [])
   | x # _ \<Rightarrow> \<exists>es'. r = (Some x, es') \<and> wf_stack D False es' \<and> at_item es' \<and> stack_items False es' = xs)"

lemma iter_loop_ok:
  assumes "wf_stack D (\<not> descend) es"
  shows "iter_outcome D (stack_items (\<not> descend) es) (iter_loop descend es)"
  using assms
proof (induction descend es rule: iter_loop.induct)
  case (2 descend e es)
  define i where "i = (if descend then e_index e else e_index e + 1)"
  have below: "wf_below D es" using 2(4) by simp
  show ?case
  proof (cases "e_tree e")
    case (Internal h s css cts)
    have node: "wf_node D h (Internal h s css cts)"
      using 2(4) Internal by (auto simp: wf_tree_def st_new_def)
    show ?thesis
    proof (cases "i < length cts")
      case True
      let ?es = "\<lparr>e_tree = cts ! i, e_index = 0, e_position = ()\<rparr> # e\<lparr>e_index := i, e_position := ()\<rparr> # es"
      have child: "wf_node D (h - 1) (cts ! i)" using node True by (simp add: list_all_length)
      then have "wf_stack D False ?es" using node Internal below True by (auto simp: wf_treeI)
      moreover have "stack_items False ?es = stack_items (\<not> descend) (e # es)"
        using Cons_nth_drop_Suc [OF True, symmetric] Internal by (cases "cts ! i") (auto simp: i_def)
      moreover have "iter_loop descend (e # es) = iter_loop True ?es"
        using True Internal by (simp add: Let_def flip: i_def)
      ultimately show ?thesis using 2(1) [OF i_def Internal True] by (simp del: stack_items.simps wf_stack.simps iter_loop.simps)
    next
      case False
      then have "iter_loop descend (e # es) = iter_loop False es"
        using Internal by (simp add: Let_def flip: i_def)
      then show ?thesis
        using 2(2) [OF i_def Internal False] wf_stack_True [OF below] Internal False
        by (auto simp: stack_items_True i_def simp del: iter_loop.simps)
    qed
  next
    case (Leaf s its iss)
    have leaf: "iss = map (summarize D) its" using 2(4) Leaf by (auto simp: wf_tree_def st_new_def)
    show ?thesis
    proof (cases "i < length its")
      case True
      let ?e = "e\<lparr>e_index := i, e_position := ()\<rparr>"
      have "stack_items (\<not> descend) (e # es) = its ! i # (drop (i + 1) its @ below_items es)"
        using Leaf Cons_nth_drop_Suc [OF True, symmetric] by (cases descend) (simp_all add: i_def)
      moreover have "iter_loop descend (e # es) = (Some (its ! i), ?e # es)"
        using True Leaf by (simp add: Let_def flip: i_def)
      ultimately show ?thesis
        using 2(4) Leaf leaf True Cons_nth_drop_Suc [OF True, symmetric] by (simp add: at_item_def iter_outcome_def)
    next
      case False
      then have "iter_loop descend (e # es) = iter_loop False es"
        using Leaf by (simp add: Let_def flip: i_def)
      then show ?thesis
        using 2(3) [OF i_def Leaf False] wf_stack_True [OF below] Leaf False
        by (auto simp: stack_items_True i_def simp del: iter_loop.simps)
    qed
  qed
qed (simp add: iter_outcome_def)

lemma iter_collect_from:
  assumes "wf_stack D False es" "at_item es" "stack_items False es = x # xs"
  shows "iter_collect t n es = take n xs"
  using assms
proof (induction n arbitrary: es x xs)
  case (Suc n)
  obtain e es0 where es: "es = e # es0" using Suc.prems(3) by (cases es) auto
  then obtain s its where e: "e_tree e = Leaf s its (map (summarize D) its)" "e_index e < length its"
    using Suc.prems(1,2) by (auto elim: at_item_top)
  have xs: "stack_items True es = xs" using Suc.prems(3) es e Cons_nth_drop_Suc [OF e(2), symmetric] by simp
  have "wf_stack D True es" using Suc.prems(1) es e by simp
  then have "iter_outcome D xs (iter_next t es)"
    using iter_loop_ok [of D False es] xs es
    by (simp add: iter_next_def del: iter_loop.simps stack_items.simps wf_stack.simps)
  then show ?case using Suc.IH by (cases xs) (auto simp: iter_outcome_def)
qed simp

text \<open>A fresh iterator yields the items in order; so does the loop of \<^verbatim>\<open>SumTree::items\<close>.\<close>

lemma iter_collect_ok:
  assumes "wf_tree D t"
  shows "iter_collect t n [] = take n (tree_items t)"
proof (cases n)
  case (Suc m)
  let ?e = "\<lparr>e_tree = t, e_index = 0, e_position = ()\<rparr>"
  have "stack_items False [?e] = tree_items t" by (cases t) auto
  then have "iter_outcome D (tree_items t) (iter_next t [])"
    using iter_loop_ok [of D True "[?e]"] assms
    by (simp add: iter_next_def del: iter_loop.simps stack_items.simps)
  then show ?thesis using iter_collect_from [of D _ _ _ t m] Suc by (cases "tree_items t") (auto simp: iter_outcome_def)
qed simp

section \<open>Collecting the items with a cursor\<close>

partial_function (option) items_loop ::
  "('s, 'd) dim_impl \<Rightarrow> ('a, 's, 'd) cursor \<Rightarrow> 'a list \<Rightarrow> 'a list option" where
  "items_loop M c acc = do {
     item \<leftarrow> cursor_item c;
     (case item of
        None \<Rightarrow> Some acc
      | Some x \<Rightarrow> do { c' \<leftarrow> cursor_next M c; items_loop M c' (acc @ [x]) }) }"

definition unit_dim :: "('s, unit) dim_impl" where
  "unit_dim = \<lparr>dzero = (), dadd = \<lambda>_ _. ()\<rparr>"

definition items :: "('a, 's) sum_tree \<Rightarrow> 'a list option" where
  "items t = do { c \<leftarrow> cursor_next unit_dim (cursor_new unit_dim t); items_loop unit_dim c [] }"

sublocale summary_laws \<subseteq> units: dimension_laws D unit_dim
  by unfold_locales simp

context dimension_laws
begin

lemma items_loop_ok:
  assumes "cursor_at D M k c" "did_seek c"
  shows "items_loop M c acc = Some (acc @ drop k (tree_items (c_tree c)))"
  using assms
proof (induction "length (tree_items (c_tree c)) - k" arbitrary: k c acc rule: less_induct)
  case less
  let ?xs = "tree_items (c_tree c)"
  show ?case
  proof (cases "k < length ?xs")
    case True
    obtain c' where c': "cursor_next M c = Some c'" "c_tree c' = c_tree c" "did_seek c'" "cursor_at D M (k + 1) c'"
      using cursor_next_ok [OF less.prems(1)] less.prems(2) True by (auto simp: min_def)
    have "items_loop M c' (acc @ [?xs ! k]) = Some ((acc @ [?xs ! k]) @ drop (k + 1) ?xs)"
      using less.hyps [of c' "k + 1"] c' True by simp
    then show ?thesis
      using True c'(1) cursor_item_at(1) [OF less.prems] Cons_nth_drop_Suc [OF True, symmetric]
      by (subst items_loop.simps) simp
  next
    case False
    then show ?thesis using cursor_item_at(1) [OF less.prems] by (subst items_loop.simps) simp
  qed
qed

end

context summary_laws
begin

lemma items_ok: "wf_tree D t \<Longrightarrow> items t = Some (tree_items t)"
  using units.cursor_next_ok [OF cursor_at_new] units.items_loop_ok
  by (fastforce simp: items_def cursor_new_def)

end

end
