(* ===== verification/Cursor_Back.thy ===== *)
theory Cursor_Back
  imports Cursor_Search
begin

text \<open>
  Moving a cursor backward, \<^verbatim>\<open>Cursor::search_backward\<close>, \<^verbatim>\<open>prev\<close>, \<^verbatim>\<open>prev_item\<close> and \<^verbatim>\<open>next_item\<close> of
  \<^verbatim>\<open>crates/sum_tree/src/cursor.rs\<close>. The search starts from the positions that the entries below the top of the stack have
  kept. Its loop is a function with a termination proof; \<open>None\<close> is a panic.
\<close>

section \<open>Searching backward\<close>

text \<open>The weight bounds the steps left: the children before the index, and for a top that is entered also the one at it.\<close>

fun back_tree_weight :: "('a, 's) sum_tree \<Rightarrow> nat" where
  "back_tree_weight (Leaf _ _ iss) = 2 + length iss"
| "back_tree_weight (Internal _ _ css cts) = 2 + length css + sum_list (map back_tree_weight cts)"

fun prior_weight :: "('a, 's) sum_tree \<Rightarrow> nat \<Rightarrow> nat" where
  "prior_weight (Leaf _ _ _) i = i"
| "prior_weight (Internal _ _ _ cts) i = i + sum_list (map back_tree_weight (take i cts))"

definition back_weight :: "bool \<Rightarrow> ('a, 's, 'd) stack_entry list \<Rightarrow> nat" where
  "back_weight descending es = sum_list (map (\<lambda>e. 1 + prior_weight (e_tree e) (e_index e)) es) +
     (if descending then (case es of [] \<Rightarrow> 0 | e # _ \<Rightarrow> prior_weight (e_tree e) (e_index e + 1) - prior_weight (e_tree e) (e_index e)) else 0)"

lemma prior_weight_Suc: "prior_weight t i < prior_weight t (Suc i)"
proof (cases t)
  case (Internal h s css cts)
  then show ?thesis by (cases "i < length cts") (simp_all add: take_Suc_conv_app_nth)
qed simp

lemma prior_weight_child:
  "i < length cts \<Longrightarrow> prior_weight (Internal h s css cts) (Suc i) = Suc (prior_weight (Internal h s css cts) i + back_tree_weight (cts ! i))"
  by (simp add: take_Suc_conv_app_nth)

lemma prior_weight_all: "prior_weight t (length (child_summaries t)) + 2 \<le> back_tree_weight t"
proof (cases t)
  case (Internal h s css cts)
  have "sum_list (map back_tree_weight cts) =
      sum_list (map back_tree_weight (take (length css) cts)) + sum_list (map back_tree_weight (drop (length css) cts))"
    by (metis append_take_drop_id map_append sum_list_append)
  then show ?thesis using Internal by simp
qed simp

definition base_position :: "('s, 'd) dim_impl \<Rightarrow> ('a, 's, 'd) stack_entry list \<Rightarrow> 'd" where
  "base_position M es = (case es of [] \<Rightarrow> dzero M | e # _ \<Rightarrow> e_position e)"

function (sequential) search_backward_loop ::
  "('s, 'd) dim_impl \<Rightarrow> ('s \<Rightarrow> bool) \<Rightarrow> bool \<Rightarrow> ('a, 's, 'd) stack_entry list \<Rightarrow> 'd \<Rightarrow>
   (('a, 's, 'd) stack_entry list \<times> 'd) option" where
  "search_backward_loop M f descending [] pos = Some ([], pos)"
| "search_backward_loop M f descending (e # es) pos =
     (if \<not> descending \<and> e_index e = 0 then search_backward_loop M f False es (base_position M es)
      else let i = (if descending then e_index e else e_index e - 1);
               ss = child_summaries (e_tree e);
               pos' = foldl (dadd M) (base_position M es) (take i ss);
               e' = e\<lparr>e_index := i, e_position := pos'\<rparr> in
        if length ss \<le> i then None
        else if \<not> f (ss ! i) then search_backward_loop M f False (e' # es) pos'
        else (case e_tree e of
            Leaf _ _ _ \<Rightarrow> Some (e' # es, pos')
          | Internal h s css cts \<Rightarrow>
              (if i < length cts \<and> child_summaries (cts ! i) \<noteq> []
               then search_backward_loop M f True
                 (\<lparr>e_tree = cts ! i, e_index = length (child_summaries (cts ! i)) - 1, e_position = dzero M\<rparr> # e' # es) pos'
               else None)))"
  by pat_completeness auto
termination
proof (relation "measure (\<lambda>(M, f, descending, es, pos). back_weight descending es)", goal_cases)
  case (3 M f descending e es pos i ss pos' e')
  have "prior_weight (e_tree e) i < prior_weight (e_tree e) (Suc i)" by (rule prior_weight_Suc)
  with 3 show ?case by (auto simp: back_weight_def)
next
  case (4 M f descending e es pos i ss pos' e' h s css cts)
  let ?t = "cts ! i"
  have "prior_weight (e_tree e) (Suc i) = Suc (prior_weight (e_tree e) i + back_tree_weight ?t)"
    using 4 prior_weight_child [of i cts h s css] by simp
  moreover have "prior_weight ?t (length (child_summaries ?t)) + 2 \<le> back_tree_weight ?t" by (rule prior_weight_all)
  moreover have "prior_weight ?t (length (child_summaries ?t) - 1) < prior_weight ?t (length (child_summaries ?t))"
    using prior_weight_Suc [of ?t "length (child_summaries ?t) - 1"] 4 by simp
  ultimately show ?case using 4 by (auto simp: back_weight_def)
qed (auto simp: back_weight_def)

definition search_backward ::
  "('s, 'd) dim_impl \<Rightarrow> ('s \<Rightarrow> bool) \<Rightarrow> ('a, 's, 'd) cursor \<Rightarrow> ('a, 's, 'd) cursor option" where
  "search_backward M f c =
     (let c = (if did_seek c then c else c\<lparr>did_seek := True, at_end := True\<rparr>);
          t = c_tree c;
          c = (if at_end c
               then c\<lparr>c_position := dzero M, at_end := is_empty t,
                      c_stack := (if is_empty t then c_stack c
                        else \<lparr>e_tree = t, e_index = length (child_summaries t), e_position = dadd M (dzero M) (summary t)\<rparr> # c_stack c)\<rparr>
               else c)
      in do {
        (stack, pos) \<leftarrow> search_backward_loop M f False (c_stack c) (c_position c);
        Some (c\<lparr>c_stack := stack, c_position := pos\<rparr>) })"

definition cursor_prev :: "('s, 'd) dim_impl \<Rightarrow> ('a, 's, 'd) cursor \<Rightarrow> ('a, 's, 'd) cursor option" where
  "cursor_prev M c = search_backward M (\<lambda>_. True) c"

definition filter_prev :: "('s, 'd) dim_impl \<Rightarrow> ('s \<Rightarrow> bool) \<Rightarrow> ('a, 's, 'd) cursor \<Rightarrow> ('a, 's, 'd) cursor option" where
  "filter_prev M f c = search_backward M f c"

section \<open>The neighbouring items\<close>

text \<open>The leaf after and before the current one, from the entries below the top; \<open>Some None\<close> when there is none.\<close>

fun next_leaf :: "('a, 's, 'd) stack_entry list \<Rightarrow> ('a, 's) sum_tree option option" where
  "next_leaf [] = Some None"
| "next_leaf (e # es) = (case e_tree e of
     Leaf _ _ _ \<Rightarrow> None
   | Internal _ _ _ cts \<Rightarrow>
       (if cts = [] then None
        else if e_index e < length cts - 1 then map_option Some (leftmost_leaf (cts ! (e_index e + 1)))
        else next_leaf es))"

fun prev_leaf :: "('a, 's, 'd) stack_entry list \<Rightarrow> ('a, 's) sum_tree option option" where
  "prev_leaf [] = Some None"
| "prev_leaf (e # es) =
     (if e_index e = 0 then prev_leaf es
      else case e_tree e of
        Leaf _ _ _ \<Rightarrow> None
      | Internal _ _ _ cts \<Rightarrow>
          (if e_index e - 1 < length cts then map_option Some (rightmost_leaf (cts ! (e_index e - 1))) else None))"

definition next_item :: "('a, 's, 'd) cursor \<Rightarrow> 'a option option" where
  "next_item c =
     (if \<not> did_seek c then None
      else case c_stack c of
        [] \<Rightarrow> if at_end c then Some None else first (c_tree c)
      | e # es \<Rightarrow> do {
          its \<leftarrow> node_items (e_tree e);
          if its = [] then None
          else if e_index e = length its - 1 then do {
            leaf \<leftarrow> next_leaf es;
            (case leaf of
               None \<Rightarrow> Some None
             | Some t \<Rightarrow> do { ys \<leftarrow> node_items t; if ys = [] then None else Some (Some (hd ys)) }) }
          else if e_index e + 1 < length its then Some (Some (its ! (e_index e + 1))) else None })"

definition prev_item :: "('a, 's, 'd) cursor \<Rightarrow> 'a option option" where
  "prev_item c =
     (if \<not> did_seek c then None
      else case c_stack c of
        [] \<Rightarrow> if at_end c then last_item (c_tree c) else Some None
      | e # es \<Rightarrow>
          (if e_index e = 0 then do {
             leaf \<leftarrow> prev_leaf es;
             (case leaf of
                None \<Rightarrow> Some None
              | Some t \<Rightarrow> do { ys \<leftarrow> node_items t; if ys = [] then None else Some (Some (last ys)) })
           } else do {
             its \<leftarrow> node_items (e_tree e);
             if e_index e - 1 < length its then Some (Some (its ! (e_index e - 1))) else None }))"

end
