(* ===== verification/Cursor_Chain.thy ===== *)
theory Cursor_Chain
  imports Cursor_Back
begin

text \<open>
  Moving a cursor back is correct. A stack is chained when every entry is the child of the one below at its index and the
  entries below the top have kept the position of that child. Seeking and searching forward keep a chained stack, and
  searching backward over one goes to the last accepted item before the cursor, or, when there is none, to a state before
  the first item from which the next step forward starts over.
\<close>

section \<open>Chained stacks\<close>

fun prior_items :: "('a, 's) sum_tree \<Rightarrow> nat \<Rightarrow> 'a list" where
  "prior_items (Internal h s css cts) i = concat (map tree_items (take i cts))"
| "prior_items (Leaf s its iss) i = take i its"

lemma prior_kids_items: "prior_items t i @ kids_items t i = tree_items t"
  by (cases t) (simp_all flip: concat_append map_append)

text \<open>The items before the ones that the top of the stack points at.\<close>

fun front :: "('a, 's, 'd) stack_entry list \<Rightarrow> 'a list" where
  "front [] = []"
| "front (e # es) = front es @ prior_items (e_tree e) (e_index e)"

definition child_of :: "('a, 's, 'd) stack_entry \<Rightarrow> ('a, 's) sum_tree \<Rightarrow> bool" where
  "child_of e t \<longleftrightarrow> (case e_tree e of Internal h s css cts \<Rightarrow> e_index e < length cts \<and> cts ! e_index e = t | Leaf s its iss \<Rightarrow> False)"

lemma child_ofE:
  assumes "child_of e t"
  obtains h s css cts where "e_tree e = Internal h s css cts" "e_index e < length cts" "t = cts ! e_index e"
  using assms by (auto simp: child_of_def split: sum_tree.splits)

lemma prior_items_child: "child_of e t \<Longrightarrow> prior_items (e_tree e) (Suc (e_index e)) = prior_items (e_tree e) (e_index e) @ tree_items t"
  by (erule child_ofE) (simp add: take_Suc_conv_app_nth)

fun chained :: "('a, 's) item_impl \<Rightarrow> ('s, 'd) dim_impl \<Rightarrow> ('a, 's) sum_tree \<Rightarrow> ('a, 's, 'd) stack_entry list \<Rightarrow> bool" where
  "chained D M t [] \<longleftrightarrow> True"
| "chained D M t [e] \<longleftrightarrow> e_tree e = t"
| "chained D M t (e # e' # es) \<longleftrightarrow> chained D M t (e' # es) \<and> child_of e' (e_tree e) \<and>
     e_position e' = pos_after D M (dzero M) (front (e' # es))"

lemma chained_top: "chained D M t (e # es) \<Longrightarrow> e_tree e' = e_tree e \<Longrightarrow> chained D M t (e' # es)"
  by (cases es) auto

lemma chained_pop: "chained D M t (e # es) \<Longrightarrow> chained D M t es"
  by (cases es) auto

lemma chained_base: "chained D M t (e # es) \<Longrightarrow> base_position M es = pos_after D M (dzero M) (front es)"
  by (cases es) (auto simp: base_position_def)

lemma chained_items: "chained D M t (e # es) \<Longrightarrow> front es @ tree_items (e_tree e) @ below_items es = tree_items t"
proof (induction es arbitrary: e)
  case (Cons e' es)
  then have e': "chained D M t (e' # es)" "child_of e' (e_tree e)" by auto
  have "tree_items (e_tree e') = prior_items (e_tree e') (e_index e') @ tree_items (e_tree e) @ kids_items (e_tree e') (Suc (e_index e'))"
    using prior_kids_items [of "e_tree e'" "Suc (e_index e')"] prior_items_child [OF e'(2)] by simp
  then show ?case using Cons.IH [OF e'(1)] by simp
qed simp

lemma chained_front:
  assumes "chained D M t es" "stack_items False es = drop k (tree_items t)" "k \<le> length (tree_items t)" "es \<noteq> []"
  shows "front es = take k (tree_items t)"
proof -
  obtain e es0 where es: "es = e # es0" using assms(4) by (cases es) auto
  have "front es @ stack_items False es = tree_items t"
    using chained_items [of D M t e es0] prior_kids_items [of "e_tree e" "e_index e"] assms(1) es
    by (metis append_assoc front.simps(2) stack_items.simps(2))
  then have "front es @ drop k (tree_items t) = take k (tree_items t) @ drop k (tree_items t)" using assms(2) by simp
  then show ?thesis by (metis append_same_eq)
qed

section \<open>Moving forward keeps the chain\<close>

lemma advance_children_steps:
  "advance_children M pass A (zip ts ss) i pos pos g = Some (r, j, pos', epos', g') \<Longrightarrow> length ss = length ts \<Longrightarrow>
   epos' = pos' \<and> i \<le> j \<and> j \<le> i + length ts \<and> pos' = foldl (dadd M) pos (take (j - i) ss) \<and>
   (case r of None \<Rightarrow> j = i + length ts | Some t \<Rightarrow> j < i + length ts \<and> t = ts ! (j - i))"
proof (induction ts arbitrary: ss i pos g)
  case (Cons t ts)
  obtain s ss' where ss: "ss = s # ss'" using Cons.prems(2) by (cases ss) auto
  show ?case
  proof (cases "pass (dadd M pos s)")
    case True
    then obtain g1 where "advance_children M pass A (zip ts ss') (Suc i) (dadd M pos s) (dadd M pos s) g1 = Some (r, j, pos', epos', g')"
      using Cons.prems(1) by (auto simp: ss Let_def split: bind_splits)
    from Cons.IH [OF this] Cons.prems(2) show ?thesis
      by (auto simp: ss Suc_diff_Suc Suc_le_eq nth_Cons' take_Cons' split: option.splits)
  qed (use Cons.prems in \<open>auto simp: ss Let_def\<close>)
qed auto

lemma advance_items_steps:
  "advance_items M pass A (zip its ss) i pos g = Some (stopped, j, pos', g') \<Longrightarrow> length ss = length its \<Longrightarrow>
   i \<le> j \<and> pos' = foldl (dadd M) pos (take (j - i) ss) \<and> (\<not> stopped \<longrightarrow> j = i + length its)"
proof (induction its arbitrary: ss i pos g)
  case (Cons x its)
  obtain s ss' where ss: "ss = s # ss'" using Cons.prems(2) by (cases ss) auto
  show ?case
  proof (cases "pass (dadd M pos s)")
    case True
    then obtain g1 where "advance_items M pass A (zip its ss') (Suc i) (dadd M pos s) g1 = Some (stopped, j, pos', g')"
      using Cons.prems(1) by (auto simp: ss Let_def split: bind_splits)
    from Cons.IH [OF this] Cons.prems(2) show ?thesis by (auto simp: ss Suc_diff_Suc Suc_le_eq take_Cons')
  qed (use Cons.prems in \<open>auto simp: ss Let_def\<close>)
qed auto

context dimension_laws
begin

definition forward_ok :: "bool \<Rightarrow> ('a, 's) sum_tree \<Rightarrow> ('a, 's, 'd) stack_entry list \<Rightarrow> 'd \<Rightarrow> bool" where
  "forward_ok ascending t es pos \<longleftrightarrow> chained D M t es \<and> wf_stack D ascending es \<and> (ascending \<longrightarrow> \<not> top_is_leaf es) \<and>
     (case es of [] \<Rightarrow> True
      | e # es0 \<Rightarrow> pos = pos_after D M (dzero M) (front es0 @ prior_items (e_tree e) (if ascending then Suc (e_index e) else e_index e)) \<and>
          (ascending \<or> is_leaf (e_tree e) \<or> e_position e = pos))"

lemma forward_pop:
  assumes "forward_ok ascending t (e # es) pos" "pos' = pos_after D M (dzero M) (front es @ tree_items (e_tree e))"
  shows "forward_ok True t es pos'"
proof (cases es)
  case (Cons e' es')
  then have "chained D M t (e' # es')" "child_of e' (e_tree e)" "wf_below D es" using assms(1) by (auto simp: forward_ok_def)
  then show ?thesis using assms(2) wf_below_top wf_stack_True prior_items_child [of e' "e_tree e"]
    by (fastforce simp: forward_ok_def Cons)
qed (simp add: forward_ok_def top_is_leaf_def)

lemma forward_push:
  assumes "forward_ok ascending t (e # es) pos" "e_tree e = Internal h s css cts" "j < length cts"
    "pos' = pos_after D M (dzero M) (front es @ prior_items (e_tree e) j)"
  shows "forward_ok False t (\<lparr>e_tree = cts ! j, e_index = 0, e_position = pos'\<rparr> # e\<lparr>e_index := j, e_position := pos'\<rparr> # es) pos'"
proof -
  have node: "wf_node D h (Internal h s css cts)" and below: "wf_below D es"
    using assms(1,2) unit_seek.wf_tree_internal by (auto simp: forward_ok_def)
  have "wf_tree D (cts ! j)" using node assms(3) by (auto simp: list_all_length intro: wf_treeI)
  moreover have "chained D M t (e\<lparr>e_index := j, e_position := pos'\<rparr> # es)"
    using assms(1) chained_top [of D M t e es] by (simp add: forward_ok_def)
  moreover have "prior_items (cts ! j) 0 = []" by (cases "cts ! j") auto
  ultimately show ?thesis using assms(2-4) node below by (simp add: forward_ok_def child_of_def)
qed

lemma prior_items_more:
  assumes "wf_tree D (Internal h s css cts)" "i \<le> j"
  shows "foldl (dadd M) (pos_after D M d (ys @ prior_items (Internal h s css cts) i)) (take (j - i) (drop i css)) =
    pos_after D M d (ys @ prior_items (Internal h s css cts) j)"
proof -
  have css: "css = map summary cts" "list_all (wf_node D (h - 1)) cts"
    using unit_seek.wf_tree_internal [OF assms(1)] by auto
  then have "list_all (wf_node D (h - 1)) (take (j - i) (drop i cts))"
    by (auto simp: list_all_iff dest!: in_set_takeD in_set_dropD)
  moreover have "take j cts = take i cts @ take (j - i) (drop i cts)" using assms(2) by (metis le_add_diff_inverse take_add)
  ultimately show ?thesis using every.foldl_nodes by (simp add: css(1) drop_map take_map)
qed

lemma leaf_items_more:
  assumes "wf_tree D (Leaf s its iss)" "i \<le> j"
  shows "foldl (dadd M) (pos_after D M d (ys @ prior_items (Leaf s its iss) i)) (take (j - i) (drop i iss)) =
    pos_after D M d (ys @ prior_items (Leaf s its iss) j)"
proof -
  have "take j its = take i its @ take (j - i) (drop i its)" using assms(2) by (metis le_add_diff_inverse take_add)
  then show ?thesis
    using unit_seek.wf_tree_leaf [OF assms(1)] by (simp add: drop_map take_map pos_after_foldl)
qed

lemma prior_items_all:
  "wf_tree D t \<Longrightarrow> length (child_summaries t) \<le> i \<Longrightarrow> prior_items t i = tree_items t"
  by (cases t) (auto dest!: unit_seek.wf_tree_internal unit_seek.wf_tree_leaf)

text \<open>One step of the loops, by the kind of the top.\<close>

lemma seek_loop_internal:
  assumes "e_tree e = Internal h s css cts" "length css = length cts" "i = (if ascending then Suc (e_index e) else e_index e)"
    "i \<le> length cts" "(if ascending then pos else e_position e) = pos"
  shows "seek_loop M pass A ascending (e # es) pos g = (case advance_children M pass A (zip (drop i cts) (drop i css)) i pos pos g of
      None \<Rightarrow> None
    | Some (None, j, pos', epos', g') \<Rightarrow> seek_loop M pass A True es pos' g'
    | Some (Some child, j, pos', epos', g') \<Rightarrow>
        seek_loop M pass A False (\<lparr>e_tree = child, e_index = 0, e_position = pos'\<rparr> # e\<lparr>e_index := j, e_position := epos'\<rparr> # es) pos' g')"
  using assms by (cases ascending; subst seek_loop.simps) (simp_all add: Let_def del: seek_loop.simps)

lemma seek_loop_leaf:
  assumes "e_tree e = Leaf s its iss" "seek_loop M pass A ascending (e # es) pos g = Some (es', pos', g')"
  obtains j where "es' = e\<lparr>e_index := j\<rparr> # es"
    | stopped j p g1 g2 where "advance_items M pass A (zip (drop (e_index e) its) (drop (e_index e) iss)) (e_index e) pos (begin_leaf A g) = Some (stopped, j, p, g1)"
      "\<not> stopped" "seek_loop M pass A True es p g2 = Some (es', pos', g')"
  using assms by (subst (asm) seek_loop.simps) (auto simp del: seek_loop.simps split: if_splits option.splits)

lemma seek_loop_chained:
  "seek_loop M pass A ascending es pos g = Some (es', pos', g') \<Longrightarrow> forward_ok ascending t es pos \<Longrightarrow> chained D M t es'"
proof (induction "2 * stack_weight ascending es + (if ascending then 1 else 0)" arbitrary: ascending es pos g rule: less_induct)
  case less
  show ?case
  proof (cases es)
    case (Cons e es0)
    note ok = less.prems(2) [unfolded Cons]
    define i where "i = (if ascending then Suc (e_index e) else e_index e)"
    have pos: "pos = pos_after D M (dzero M) (front es0 @ prior_items (e_tree e) i)" and tree: "wf_tree D (e_tree e)"
      and index: "i \<le> length (child_summaries (e_tree e))"
      using ok by (auto simp: forward_ok_def i_def)
    have pop: "chained D M t es'" if "seek_loop M pass A True es0 p g1 = Some (es', pos', g')"
      "p = pos_after D M (dzero M) (front es0 @ tree_items (e_tree e))" for p g1
      using less.hyps [OF _ that(1) forward_pop [OF ok that(2)]] stack_weight_pop [of es0 ascending e] Cons by simp
    show ?thesis
    proof (cases "e_tree e")
      case (Internal h s css cts)
      have css: "length css = length cts" using tree Internal by (auto dest!: unit_seek.wf_tree_internal)
      have epos: "(if ascending then pos else e_position e) = pos" using ok Internal by (auto simp: forward_ok_def)
      note step = seek_loop_internal [OF Internal css i_def _ epos, of pass A es0 g]
      obtain r j p ep g1 where adv: "advance_children M pass A (zip (drop i cts) (drop i css)) i pos pos g = Some (r, j, p, ep, g1)"
        using less.prems(1) step index css Internal Cons by (auto simp del: seek_loop.simps split: option.splits)
      from advance_children_steps [OF adv] css have steps: "ep = p" "i \<le> j" "p = foldl (dadd M) pos (take (j - i) (drop i css))"
        "case r of None \<Rightarrow> j = i + length (drop i cts) | Some u \<Rightarrow> j < i + length (drop i cts) \<and> u = drop i cts ! (j - i)"
        by auto
      have p: "p = pos_after D M (dzero M) (front es0 @ prior_items (e_tree e) j)"
        using prior_items_more [of h s css cts i j] tree steps(2,3) pos Internal by simp
      show ?thesis
      proof (cases r)
        case None
        then have "prior_items (e_tree e) j = tree_items (e_tree e)" using prior_items_all [OF tree] steps(4) index Internal css by simp
        then show ?thesis using pop [of p g1] p less.prems(1) step adv None index Internal css Cons by (simp del: seek_loop.simps)
      next
        case (Some u)
        then have u: "u = cts ! j" "j < length cts" using steps(2,4) by auto
        have "2 * stack_weight False (\<lparr>e_tree = cts ! j, e_index = 0, e_position = p\<rparr> # e\<lparr>e_index := j, e_position := ep\<rparr> # es0) <
            2 * stack_weight ascending es + (if ascending then 1 else 0)"
          using stack_weight_descend [OF Internal u(2), of p ep es0] steps(2) Cons i_def
          by (auto simp: double_less_Suc simp del: stack_weight.simps split: if_splits)
        then show ?thesis
          using less.hyps [of False "\<lparr>e_tree = cts ! j, e_index = 0, e_position = p\<rparr> # e\<lparr>e_index := j, e_position := ep\<rparr> # es0" p g1]
            forward_push [OF ok Internal u(2) p] less.prems(1) step adv Some index Internal css Cons u(1) steps(1)
          by (simp del: seek_loop.simps stack_weight.simps)
      qed
    next
      case (Leaf s its iss)
      have asc: "\<not> ascending" using ok Leaf by (auto simp: forward_ok_def top_is_leaf_def)
      have iss: "length iss = length its" using tree Leaf by (auto dest!: unit_seek.wf_tree_leaf)
      from Leaf less.prems(1) [unfolded Cons] show ?thesis
      proof (cases rule: seek_loop_leaf)
        case (1 j)
        then show ?thesis using ok chained_top by (fastforce simp: forward_ok_def)
      next
        case (2 stopped j p g1 g2)
        have j: "i \<le> j" "p = foldl (dadd M) pos (take (j - i) (drop i iss))" "j = i + length (drop i its)"
          using advance_items_steps [OF 2(1)] 2(2) iss asc by (auto simp: i_def)
        then have "p = pos_after D M (dzero M) (front es0 @ prior_items (e_tree e) j)"
          using leaf_items_more [of s its iss i j] tree pos Leaf by simp
        moreover have "prior_items (e_tree e) j = tree_items (e_tree e)" using prior_items_all [OF tree] j(3) index Leaf iss by simp
        ultimately show ?thesis using pop [OF 2(3)] by simp
      qed
    qed
  qed (use less.prems in simp)
qed

lemma search_forward_internal:
  fixes f :: "'s \<Rightarrow> bool" and pos :: 'd
  assumes "e_tree e = Internal h s css cts" "i = (if descend then e_index e else Suc (e_index e))"
    "(if descend then e_position e else pos) = pos"
  defines "j \<equiv> i + length (takeWhile (\<lambda>s. \<not> f s) (drop i css))"
  defines "p \<equiv> foldl (dadd M) pos (take (j - i) (drop i css))"
  shows "search_forward_loop M f descend (e # es) pos =
    (if j < length cts
     then search_forward_loop M f True (\<lparr>e_tree = cts ! j, e_index = 0, e_position = p\<rparr> # e\<lparr>e_index := j, e_position := p\<rparr> # es) p
     else search_forward_loop M f False es p)"
proof -
  have "foldl (dadd M) pos (takeWhile (\<lambda>s. \<not> f s) (drop i css)) = p" unfolding p_def j_def by (simp flip: takeWhile_eq_take)
  then have "skip_rejected M f (drop i css) i pos pos = (j, p, p)" by (simp add: skip_rejected_eq j_def)
  then show ?thesis using assms(1-3)
    by (cases descend; subst search_forward_loop.simps) (simp_all add: Let_def del: search_forward_loop.simps)
qed

lemma search_forward_leaf:
  fixes f :: "'s \<Rightarrow> bool" and pos :: 'd
  assumes "e_tree e = Leaf s its iss" "i = e_index e"
  defines "j \<equiv> i + length (takeWhile (\<lambda>s. \<not> f s) (drop i iss))"
  defines "p \<equiv> foldl (dadd M) pos (take (j - i) (drop i iss))"
  shows "\<exists>q. search_forward_loop M f True (e # es) pos =
    (if j < length iss then Some (e\<lparr>e_index := j, e_position := q\<rparr> # es, p) else search_forward_loop M f False es p)"
proof -
  have "foldl (dadd M) pos (takeWhile (\<lambda>s. \<not> f s) (drop i iss)) = p" unfolding p_def j_def by (simp flip: takeWhile_eq_take)
  then obtain q where "skip_rejected M f (drop i iss) i pos (e_position e) = (j, p, q)" by (simp add: skip_rejected_eq j_def)
  then show ?thesis using assms(1,2)
    by (subst search_forward_loop.simps) (auto simp: Let_def simp del: search_forward_loop.simps)
qed

lemma search_forward_loop_chained:
  "search_forward_loop M f descend es pos = Some (es', pos') \<Longrightarrow> forward_ok (\<not> descend) t es pos \<Longrightarrow> chained D M t es'"
proof (induction "2 * stack_weight (\<not> descend) es + (if descend then 0 else 1)" arbitrary: descend es pos rule: less_induct)
  case less
  show ?case
  proof (cases es)
    case (Cons e es0)
    note ok = less.prems(2) [unfolded Cons]
    define i where "i = (if descend then e_index e else Suc (e_index e))"
    have pos: "pos = pos_after D M (dzero M) (front es0 @ prior_items (e_tree e) i)" and tree: "wf_tree D (e_tree e)"
      and index: "i \<le> length (child_summaries (e_tree e))"
      using ok by (auto simp: forward_ok_def i_def)
    have pop: "chained D M t es'" if "search_forward_loop M f False es0 p = Some (es', pos')"
      "p = pos_after D M (dzero M) (front es0 @ tree_items (e_tree e))" for p
      using less.hyps [OF _ that(1)] forward_pop [OF ok that(2)] stack_weight_pop [of es0 "\<not> descend" e] Cons by simp
    show ?thesis
    proof (cases "e_tree e")
      case (Internal h s css cts)
      define j where "j = i + length (takeWhile (\<lambda>s. \<not> f s) (drop i css))"
      define p where "p = foldl (dadd M) pos (take (j - i) (drop i css))"
      have css: "length css = length cts" using tree Internal by (auto dest!: unit_seek.wf_tree_internal)
      have epos: "(if descend then e_position e else pos) = pos" using ok Internal by (auto simp: forward_ok_def)
      note step = search_forward_internal [OF Internal i_def epos, of f es0, folded j_def, folded p_def]
      have ij: "i \<le> j" by (simp add: j_def)
      have p: "p = pos_after D M (dzero M) (front es0 @ prior_items (e_tree e) j)"
        using prior_items_more [of h s css cts i j] tree ij pos Internal by (simp add: p_def)
      show ?thesis
      proof (cases "j < length cts")
        case False
        then have "prior_items (e_tree e) j = tree_items (e_tree e)" using prior_items_all [OF tree] Internal css by simp
        then show ?thesis using pop [of p] p less.prems(1) step False Cons by (simp del: search_forward_loop.simps)
      next
        case True
        have "2 * stack_weight False (\<lparr>e_tree = cts ! j, e_index = 0, e_position = p\<rparr> # e\<lparr>e_index := j, e_position := p\<rparr> # es0) <
            2 * stack_weight (\<not> descend) es + (if descend then 0 else 1)"
          using stack_weight_descend [OF Internal True, of p p es0] ij Cons i_def
          by (auto simp: double_less_Suc simp del: stack_weight.simps split: if_splits)
        then show ?thesis
          using less.hyps [of True "\<lparr>e_tree = cts ! j, e_index = 0, e_position = p\<rparr> # e\<lparr>e_index := j, e_position := p\<rparr> # es0" p]
            forward_push [OF ok Internal True p] less.prems(1) step True Cons
          by (simp del: search_forward_loop.simps stack_weight.simps)
      qed
    next
      case (Leaf s its iss)
      have desc: "descend" using ok Leaf by (auto simp: forward_ok_def top_is_leaf_def)
      define j where "j = i + length (takeWhile (\<lambda>s. \<not> f s) (drop i iss))"
      define p where "p = foldl (dadd M) pos (take (j - i) (drop i iss))"
      have "i = e_index e" using desc by (simp add: i_def)
      then obtain q where step: "search_forward_loop M f True (e # es0) pos =
          (if j < length iss then Some (e\<lparr>e_index := j, e_position := q\<rparr> # es0, p) else search_forward_loop M f False es0 p)"
        using search_forward_leaf [OF Leaf, where i = i and f = f and pos = pos and es = es0, folded j_def, folded p_def] by blast
      show ?thesis
      proof (cases "j < length iss")
        case True
        then show ?thesis
          using less.prems(1) step Cons desc ok chained_top [of D M t e es0] by (auto simp: forward_ok_def simp del: search_forward_loop.simps)
      next
        case False
        have "p = pos_after D M (dzero M) (front es0 @ prior_items (e_tree e) j)"
          using leaf_items_more [of s its iss i j] tree pos Leaf by (simp add: p_def j_def)
        moreover have "prior_items (e_tree e) j = tree_items (e_tree e)" using prior_items_all [OF tree] False Leaf by simp
        ultimately show ?thesis using pop [of p] less.prems(1) step False Cons desc by (simp del: search_forward_loop.simps)
      qed
    qed
  qed (use less.prems in simp)
qed

text \<open>The cursors: those that know their way back.\<close>

definition chain_at :: "nat \<Rightarrow> ('a, 's, 'd) cursor \<Rightarrow> bool" where
  "chain_at k c \<longleftrightarrow> cursor_at D M k c \<and> chained D M (c_tree c) (c_stack c)"

lemma chain_at_new: "wf_tree D t \<Longrightarrow> chain_at 0 (cursor_new M t)"
  by (simp add: chain_at_def cursor_at_new) (simp add: cursor_new_def)

lemma chain_at_forward:
  assumes "chain_at k c" "did_seek c"
  shows "forward_ok False (c_tree c) (c_stack c) (c_position c)"
proof (cases "c_stack c")
  case (Cons e es)
  have c: "wf_stack D False (e # es)" "at_item (e # es)" "stack_items False (c_stack c) = drop k (tree_items (c_tree c))"
    "k \<le> length (tree_items (c_tree c))" "chained D M (c_tree c) (e # es)"
    "c_position c = pos_after D M (dzero M) (take k (tree_items (c_tree c)))"
    using assms Cons by (auto simp: chain_at_def cursor_at_def)
  have "c_position c = pos_after D M (dzero M) (front (e # es))" using chained_front [OF c(5)] c(3,4,6) Cons by simp
  then show ?thesis using c(1,2,5) Cons by (simp add: forward_ok_def at_item_def)
qed (simp add: forward_ok_def)

lemma forward_start: "wf_tree D t \<Longrightarrow> forward_ok False t [\<lparr>e_tree = t, e_index = 0, e_position = dzero M\<rparr>] (dzero M)"
  by (cases t) (simp_all add: forward_ok_def)

lemma seek_internal_chained:
  assumes "chain_at k c" "seek_internal M c cmp bias A g = Some (found, c', g')"
  shows "chained D M (c_tree c) (c_stack c')"
proof -
  let ?es = "if did_seek c then c_stack c else \<lparr>e_tree = c_tree c, e_index = 0, e_position = dzero M\<rparr> # c_stack c"
  have ok: "forward_ok False (c_tree c) ?es (c_position c)"
    using assms(1) chain_at_forward [OF assms(1)] forward_start [of "c_tree c"] by (auto simp: chain_at_def cursor_at_def)
  obtain pos' g1 where run: "seek_loop M (passes cmp bias) A False ?es (c_position c) g = Some (c_stack c', pos', g1)"
    using assms(2) by (auto simp: seek_internal_def Let_def split: if_splits bind_splits)
  show ?thesis by (rule seek_loop_chained [OF run ok])
qed

lemma seek_chained: "chain_at k c \<Longrightarrow> seek M c cmp bias = Some (found, c') \<Longrightarrow> chained D M (c_tree c) (c_stack c')"
  using seek_internal_chained [of 0 "cursor_reset M c" cmp bias unit_aggregate "()"]
  by (auto simp: seek_def chain_at_def cursor_at_reset cursor_reset_def split: bind_splits intro: cursor_at_reset [unfolded cursor_reset_def])

text \<open>A cursor that has been moved back before the first item.\<close>

definition before_start :: "('a, 's, 'd) cursor \<Rightarrow> bool" where
  "before_start c \<longleftrightarrow> wf_tree D (c_tree c) \<and> tree_items (c_tree c) \<noteq> [] \<and> did_seek c \<and> \<not> at_end c \<and> c_stack c = [] \<and> c_position c = dzero M"

text \<open>The position of the entry at the index, from the position kept below.\<close>

lemma back_position:
  assumes "chained D M t (e # es)" "wf_tree D (e_tree e)"
  shows "foldl (dadd M) (base_position M es) (take i (child_summaries (e_tree e))) = pos_after D M (dzero M) (front es @ prior_items (e_tree e) i)"
  using chained_base [OF assms(1)] assms(2) prior_items_more [of _ _ _ _ 0 i "dzero M" "front es"] leaf_items_more [of _ _ _ 0 i "dzero M" "front es"]
  by (cases "e_tree e") simp_all

end

section \<open>Searching backward\<close>

text \<open>The items the search has before it; entering a node it still has the child at the index.\<close>

fun items_back :: "bool \<Rightarrow> ('a, 's, 'd) stack_entry list \<Rightarrow> 'a list" where
  "items_back descending [] = []"
| "items_back descending (e # es) = front es @ prior_items (e_tree e) (if descending then Suc (e_index e) else e_index e)"

lemma items_back_False: "items_back False es = front es"
  by (cases es) auto

lemma prior_items_0 [simp]: "prior_items t 0 = []"
  by (cases t) auto

text \<open>The items that \<open>n\<close> steps back come to; \<open>None\<close> where there is none.\<close>

fun back_visits :: "('s, 'd) dim_impl \<Rightarrow> ('s \<Rightarrow> bool) \<Rightarrow> nat \<Rightarrow> ('a, 's, 'd) cursor \<Rightarrow> 'a option list option" where
  "back_visits M f 0 c = Some []"
| "back_visits M f (Suc n) c = do {
     c \<leftarrow> search_backward M f c;
     x \<leftarrow> cursor_item c;
     xs \<leftarrow> back_visits M f n c;
     Some (x # xs) }"

context filtering
begin

definition last_accepted :: "'a list \<Rightarrow> nat" where
  "last_accepted xs = length (dropWhile rejected (rev xs))"

lemma last_accepted_le: "last_accepted xs \<le> length xs"
  using length_dropWhile_le [of rejected "rev xs"] by (simp add: last_accepted_def)

definition back_outcome :: "('a, 's) sum_tree \<Rightarrow> 'a list \<Rightarrow> ('a, 's, 'd) stack_entry list \<Rightarrow> 'd \<Rightarrow> bool" where
  "back_outcome t xs es' pos' \<longleftrightarrow> pos' = pos_after D M (dzero M) (front es') \<and>
     (if last_accepted xs = 0 then es' = []
      else es' \<noteq> [] \<and> chained D M t es' \<and> wf_stack D False es' \<and> at_item es' \<and> front es' = take (last_accepted xs - 1) xs)"

lemma back_outcome_append:
  assumes "back_outcome t xs es' pos'" "\<forall>x\<in>set ys. rejected x"
  shows "back_outcome t (xs @ ys) es' pos'"
proof -
  have "dropWhile rejected (rev (xs @ ys)) = dropWhile rejected (rev xs)" using assms(2) by (simp add: dropWhile_append)
  then have "last_accepted (xs @ ys) = last_accepted xs" by (simp add: last_accepted_def)
  moreover have "last_accepted xs \<le> length xs" by (rule last_accepted_le)
  ultimately show ?thesis using assms(1) by (simp add: back_outcome_def)
qed

lemma back_outcome_at:
  assumes "chained D M t (e # es)" "wf_stack D False (e # es)" "at_item (e # es)" "\<not> rejected x"
  shows "back_outcome t (front (e # es) @ [x]) (e # es) (pos_after D M (dzero M) (front (e # es)))"
proof -
  have "last_accepted (front (e # es) @ [x]) = Suc (length (front (e # es)))" using assms(4) by (simp add: last_accepted_def)
  then show ?thesis using assms(1-3) by (simp add: back_outcome_def)
qed

lemma search_backward_loop_ok:
  assumes "N = M" "F = f" "chained D M t es" "wf_stack D descending es" "es = [] \<Longrightarrow> pos = dzero M"
  shows "\<exists>es' pos'. search_backward_loop N F descending es pos = Some (es', pos') \<and> back_outcome t (items_back descending es) es' pos'"
  using assms
proof (induction N F descending es pos rule: search_backward_loop.induct)
  case (1 N F descending pos)
  then show ?case by (simp add: back_outcome_def last_accepted_def)
next
  case (2 N F descending e es pos)
  have tree: "wf_tree D (e_tree e)" and below: "wf_below D es" using "2.prems"(4) by auto
  show ?case
  proof (cases "\<not> descending \<and> e_index e = 0")
    case True
    have "wf_stack D False es" using below by (cases es) (auto intro: wf_treeI)
    moreover have "es = [] \<Longrightarrow> base_position N es = dzero M" using "2.prems"(1) by (simp add: base_position_def)
    ultimately show ?thesis
      using "2.IH"(1) [OF True "2.prems"(1,2) chained_pop [OF "2.prems"(3)]] True by (simp add: items_back_False)
  next
    case False
    define i where "i = (if descending then e_index e else e_index e - 1)"
    define ss where "ss = child_summaries (e_tree e)"
    define p where "p = foldl (dadd N) (base_position N es) (take i ss)"
    define e' where "e' = e\<lparr>e_index := i, e_position := p\<rparr>"
    have i: "i < length ss" "items_back descending (e # es) = front es @ prior_items (e_tree e) (Suc i)"
      using "2.prems"(4) False by (auto simp: i_def ss_def)
    have p: "p = pos_after D M (dzero M) (front (e' # es))"
      using back_position [OF "2.prems"(3) tree] "2.prems"(1) by (simp add: p_def ss_def e'_def)
    have e': "chained D M t (e' # es)" "wf_stack D False (e' # es)"
      using chained_top [OF "2.prems"(3)] tree below i(1) by (auto simp: e'_def ss_def)
    have step: "search_backward_loop N F descending (e # es) pos =
      (if \<not> F (ss ! i) then search_backward_loop N F False (e' # es) p
        else (case e_tree e of
            Leaf _ _ _ \<Rightarrow> Some (e' # es, p)
          | Internal h s css cts \<Rightarrow>
              (if i < length cts \<and> child_summaries (cts ! i) \<noteq> []
               then search_backward_loop N F True
                 (\<lparr>e_tree = cts ! i, e_index = length (child_summaries (cts ! i)) - 1, e_position = dzero N\<rparr> # e' # es) p
               else None)))"
      unfolding search_backward_loop.simps(2) [of N F descending e es pos] Let_def i_def [symmetric] ss_def [symmetric] p_def [symmetric] e'_def [symmetric]
      using False i(1) by (auto simp del: search_backward_loop.simps)
    note IH = "2.IH"(2,3) [OF False i_def ss_def p_def e'_def]
    have reject: "\<exists>es' pos'. search_backward_loop N F descending (e # es) pos = Some (es', pos') \<and> back_outcome t (items_back descending (e # es)) es' pos'"
      if "\<not> f (ss ! i)" "prior_items (e_tree e) (Suc i) = prior_items (e_tree e) i @ ys" "\<forall>x\<in>set ys. rejected x" for ys
    proof -
      have "\<exists>es' pos'. search_backward_loop N F False (e' # es) p = Some (es', pos') \<and> back_outcome t (items_back False (e' # es)) es' pos'"
        using IH(1) i(1) that(1) "2.prems"(1,2) e' by simp
      then obtain es' pos' where r: "search_backward_loop N F False (e' # es) p = Some (es', pos')"
        "back_outcome t (front es @ prior_items (e_tree e) i) es' pos'" by (auto simp: e'_def)
      then show ?thesis using back_outcome_append [OF r(2) that(3)] step that(1,2) "2.prems"(2) i(2) by (simp del: search_backward_loop.simps items_back.simps)
    qed
    show ?thesis
    proof (cases "e_tree e")
      case (Internal h s css cts)
      have node: "css = map summary cts" "list_all (wf_node D (h - 1)) cts" using tree Internal by (auto dest!: unit_seek.wf_tree_internal)
      let ?u = "cts ! i"
      have u: "i < length cts" "wf_node D (h - 1) ?u" "ss ! i = summary ?u" using i(1) node Internal by (auto simp: ss_def list_all_length)
      have part: "prior_items (e_tree e) (Suc i) = prior_items (e_tree e) i @ tree_items ?u" using Internal u(1) by (simp add: take_Suc_conv_app_nth)
      show ?thesis
      proof (cases "f (ss ! i)")
        case False
        then show ?thesis using reject [OF _ part] rejected_node [OF u(2)] u(3) by auto
      next
        case True
        let ?n = "length (child_summaries ?u)"
        have ne: "child_summaries ?u \<noteq> []" using u(2) by (cases ?u) auto
        have "child_of e' ?u" "e_position e' = p" using Internal u(1) by (simp_all add: child_of_def e'_def)
        then have ch: "chained D M t (\<lparr>e_tree = ?u, e_index = ?n - 1, e_position = dzero N\<rparr> # e' # es)" using e'(1) p by simp
        have "wf_node D (height (e_tree e')) (e_tree e')" "\<not> is_leaf (e_tree e')" "i < length (child_summaries (e_tree e'))"
          using unit_seek.wf_tree_internal tree Internal i(1) by (auto simp: e'_def ss_def)
        then have "wf_stack D True (\<lparr>e_tree = ?u, e_index = ?n - 1, e_position = dzero N\<rparr> # e' # es)"
          using below ne wf_treeI [OF u(2)] by (simp add: e'_def)
        then have "\<exists>es' pos'. search_backward_loop N F True (\<lparr>e_tree = ?u, e_index = ?n - 1, e_position = dzero N\<rparr> # e' # es) p = Some (es', pos') \<and>
            back_outcome t (items_back True (\<lparr>e_tree = ?u, e_index = ?n - 1, e_position = dzero N\<rparr> # e' # es)) es' pos'"
          using IH(2) [OF _ _ Internal _ "2.prems"(1,2) ch] i(1) True u(1) ne "2.prems"(2) by (simp del: items_back.simps wf_stack.simps)
        moreover have "items_back True (\<lparr>e_tree = ?u, e_index = ?n - 1, e_position = dzero N\<rparr> # e' # es) = items_back descending (e # es)"
          using prior_items_all [OF wf_treeI [OF u(2)], of ?n] i(2) part ne by (simp add: e'_def)
        ultimately show ?thesis using step True Internal u(1) ne "2.prems"(2) by (simp del: search_backward_loop.simps items_back.simps)
      qed
    next
      case (Leaf s its iss)
      have iss: "iss = map (summarize D) its" using tree Leaf by (auto dest!: unit_seek.wf_tree_leaf)
      then have it: "i < length its" "ss ! i = summarize D (its ! i)" using i(1) Leaf by (auto simp: ss_def)
      have part: "prior_items (e_tree e) (Suc i) = prior_items (e_tree e) i @ [its ! i]" using Leaf it(1) by (simp add: take_Suc_conv_app_nth)
      show ?thesis
      proof (cases "f (ss ! i)")
        case False
        then show ?thesis using reject [OF _ part] it(2) by simp
      next
        case True
        have "at_item (e' # es)" using it(1) Leaf by (simp add: at_item_def e'_def)
        moreover have "items_back descending (e # es) = front (e' # es) @ [its ! i]" using i(2) part by (simp add: e'_def)
        ultimately show ?thesis using back_outcome_at [OF e'] True it(2) step Leaf "2.prems"(2) p by (simp del: search_backward_loop.simps items_back.simps front.simps)
      qed
    qed
  qed
qed

lemma back_outcome_chain:
  assumes "back_outcome t xs es pos" "xs = take m (tree_items t)" "last_accepted xs \<noteq> 0"
    "c_tree c = t" "c_stack c = es" "c_position c = pos" "did_seek c" "\<not> at_end c" "wf_tree D t"
  shows "chain_at (last_accepted xs - 1) c"
proof -
  let ?n = "last_accepted xs - 1" and ?ys = "tree_items t"
  have o: "pos = pos_after D M (dzero M) (front es)" "es \<noteq> []" "chained D M t es" "wf_stack D False es" "at_item es" "front es = take ?n xs"
    using assms(1,3) by (auto simp: back_outcome_def)
  have n: "last_accepted xs \<le> length xs" by (rule last_accepted_le)
  moreover have "length xs \<le> m" "length xs \<le> length ?ys" using assms(2) by auto
  ultimately have f: "front es = take ?n ?ys" "?n \<le> length ?ys" using o(6) assms(2) by (auto simp: min_absorb1)
  obtain e es0 where es: "es = e # es0" using o(2) by (cases es) auto
  have "front es @ stack_items False es = ?ys"
    using chained_items [of D M t e es0] prior_kids_items [of "e_tree e" "e_index e"] o(3) es
    by (metis append_assoc front.simps(2) stack_items.simps(2))
  then have "take ?n ?ys @ stack_items False es = take ?n ?ys @ drop ?n ?ys" using f(1) by simp
  then have "stack_items False es = drop ?n ?ys" by (simp only: same_append_eq)
  then show ?thesis using o f assms(4-9) by (simp add: chain_at_def cursor_at_def)
qed

lemma search_backward_from_end:
  assumes "did_seek c \<longrightarrow> at_end c" "c_stack c = []"
  defines "e \<equiv> \<lparr>e_tree = c_tree c, e_index = length (child_summaries (c_tree c)), e_position = dadd M (dzero M) (summary (c_tree c))\<rparr>"
  shows "search_backward M f c = do {
     (stack, pos) \<leftarrow> search_backward_loop M f False (if is_empty (c_tree c) then [] else [e]) (dzero M);
     Some (c\<lparr>did_seek := True, at_end := is_empty (c_tree c), c_stack := stack, c_position := pos\<rparr>) }"
  using assms(1,2) unfolding search_backward_def e_def Let_def
  by (cases c) (auto simp del: search_backward_loop.simps)

text \<open>The search goes to the last accepted item before the cursor, from the end if the cursor is fresh.\<close>

lemma search_backward_ok:
  assumes c: "chain_at k c"
  defines "xs \<equiv> tree_items (c_tree c)"
  defines "n \<equiv> last_accepted (take (if did_seek c then k else length xs) xs)"
  shows "\<exists>c'. search_backward M f c = Some c' \<and> c_tree c' = c_tree c \<and> did_seek c' \<and>
    (if 0 < n then chain_at (n - 1) c' else if xs = [] then chain_at 0 c' else before_start c')"
proof -
  let ?t = "c_tree c"
  have t: "wf_tree D ?t" "is_empty ?t \<longleftrightarrow> xs = []" using c is_empty_iff by (auto simp: chain_at_def cursor_at_def xs_def)
  let ?e = "\<lparr>e_tree = ?t, e_index = length (child_summaries ?t), e_position = dadd M (dzero M) (summary ?t)\<rparr>"
  consider (nil) "xs = []" "c_stack c = []" "n = 0" "did_seek c \<longrightarrow> at_end c"
    | (last) "xs \<noteq> []" "c_stack c = []" "n = last_accepted xs" "did_seek c \<longrightarrow> at_end c"
    | (inside) "did_seek c" "\<not> at_end c" "c_stack c \<noteq> []" "chained D M ?t (c_stack c)" "wf_stack D False (c_stack c)"
        "front (c_stack c) = take k xs" "n = last_accepted (take k xs)" "xs \<noteq> []"
  proof (cases "c_stack c = []")
    case True
    then have "did_seek c \<longrightarrow> k = length xs \<and> at_end c" using c by (auto simp: chain_at_def cursor_at_def xs_def)
    then have "n = last_accepted xs" "did_seek c \<longrightarrow> at_end c" by (auto simp: n_def)
    then show ?thesis using that True by (cases "xs = []") (auto simp: last_accepted_def)
  next
    case False
    then have s: "did_seek c" "\<not> at_end c" "chained D M ?t (c_stack c)" "wf_stack D False (c_stack c)" "at_item (c_stack c)"
      "stack_items False (c_stack c) = drop k xs" "k \<le> length xs"
      using c by (auto simp: chain_at_def cursor_at_def xs_def split: if_splits)
    then have "xs \<noteq> []" using False at_item_empty by fastforce
    then show ?thesis using that(3) s False chained_front [OF s(3)] by (simp add: xs_def n_def)
  qed
  then show ?thesis
  proof cases
    case nil
    then have "chain_at 0 (c\<lparr>did_seek := True, at_end := True, c_position := dzero M\<rparr>)"
      using t by (simp add: chain_at_def cursor_at_def at_item_def xs_def)
    moreover have "search_backward M f c = Some (c\<lparr>did_seek := True, at_end := True, c_position := dzero M\<rparr>)"
      using search_backward_from_end [OF nil(4,2)] nil(1,2) t(2) by (cases c) simp
    ultimately show ?thesis using nil by simp
  next
    case last
    obtain es pos where r: "search_backward_loop M f False [?e] (dzero M) = Some (es, pos)" "back_outcome ?t xs es pos"
      using search_backward_loop_ok [OF refl refl, of ?t "[?e]" False "dzero M"] t prior_items_all [OF t(1)] by (auto simp: xs_def)
    let ?c = "c\<lparr>did_seek := True, at_end := False, c_stack := es, c_position := pos\<rparr>"
    have "search_backward M f c = Some ?c"
      using search_backward_from_end [OF last(4,2)] last(1) t(2) r(1) by (simp del: search_backward_loop.simps)
    moreover have "if 0 < n then chain_at (n - 1) ?c else before_start ?c"
      using back_outcome_chain [OF r(2), of "length xs" ?c] r(2) last t(1) by (auto simp: xs_def before_start_def back_outcome_def)
    ultimately show ?thesis using last(1) by auto
  next
    case inside
    obtain es pos where r: "search_backward_loop M f False (c_stack c) (c_position c) = Some (es, pos)" "back_outcome ?t (take k xs) es pos"
      using search_backward_loop_ok [OF refl refl inside(4,5), of "c_position c"] inside(3,6) by (auto simp: items_back_False)
    let ?c = "c\<lparr>c_stack := es, c_position := pos\<rparr>"
    have "search_backward M f c = Some ?c"
      using inside(1,2) r(1) by (simp add: search_backward_def Let_def del: search_backward_loop.simps)
    moreover have "if 0 < n then chain_at (n - 1) ?c else before_start ?c"
      using back_outcome_chain [OF r(2), of k ?c] r(2) inside t(1) by (auto simp: xs_def before_start_def back_outcome_def)
    ultimately show ?thesis using inside(1,8) by auto
  qed
qed

text \<open>Going back again and again visits the accepted items in reverse.\<close>

lemma filter_last_accepted:
  "filter (\<lambda>x. f (summarize D x)) xs =
    (if last_accepted xs = 0 then []
     else filter (\<lambda>x. f (summarize D x)) (take (last_accepted xs - 1) xs) @ [xs ! (last_accepted xs - 1)])"
proof (induction xs rule: rev_induct)
  case (snoc x xs)
  show ?case
  proof (cases "rejected x")
    case True
    then have "last_accepted (xs @ [x]) = last_accepted xs" by (simp add: last_accepted_def)
    moreover have "last_accepted xs \<le> length xs" by (rule last_accepted_le)
    ultimately show ?thesis using snoc True by (auto simp: nth_append)
  qed (simp add: last_accepted_def)
qed (simp add: last_accepted_def)

lemma search_backward_before: "before_start c \<Longrightarrow> search_backward M f c = Some c"
  by (simp add: before_start_def search_backward_def)

lemma cursor_item_before: "before_start c \<Longrightarrow> cursor_item c = Some None"
  by (simp add: before_start_def cursor_item_def)

lemma back_visits_before: "before_start c \<Longrightarrow> back_visits M f n c = Some (replicate n None)"
  by (induction n) (simp_all add: search_backward_before cursor_item_before)

lemma back_visits_ok:
  assumes "chain_at k c"
  shows "back_visits M f n c =
    (let R = rev (filter (\<lambda>x. f (summarize D x)) (take (if did_seek c then k else length (tree_items (c_tree c))) (tree_items (c_tree c))))
     in Some (map Some (take n R) @ replicate (n - length R) None))"
  using assms
proof (induction n arbitrary: k c)
  case (Suc n)
  let ?xs = "tree_items (c_tree c)"
  define ys where "ys = take (if did_seek c then k else length ?xs) ?xs"
  obtain c' where c': "search_backward M f c = Some c'" "c_tree c' = c_tree c" "did_seek c'"
    "if 0 < last_accepted ys then chain_at (last_accepted ys - 1) c' else if ?xs = [] then chain_at 0 c' else before_start c'"
    using search_backward_ok [OF Suc.prems] unfolding ys_def by blast
  show ?case
  proof (cases "last_accepted ys = 0")
    case True
    then have "cursor_item c' = Some None"
      using c'(2-4) cursor_item_at(1) [of D M 0 c'] cursor_item_before [of c'] by (auto simp: chain_at_def split: if_splits)
    moreover have "filter (\<lambda>x. f (summarize D x)) ys = []" using filter_last_accepted [of ys] True by simp
    moreover have "back_visits M f n c' = Some (replicate n None)"
      using c'(2-4) True Suc.IH [of 0 c'] back_visits_before [of c'] by (simp split: if_splits)
    ultimately show ?thesis using c'(1) by (simp add: ys_def)
  next
    case False
    let ?i = "last_accepted ys - 1"
    have i: "?i < length ys" using False last_accepted_le [of ys] by linarith
    then have ys: "take ?i ys = take ?i ?xs" "ys ! ?i = ?xs ! ?i" "?i < length ?xs" by (auto simp: ys_def)
    have at: "chain_at ?i c'" using c'(4) False by simp
    then have "cursor_item c' = Some (Some (?xs ! ?i))" using cursor_item_at(1) [of D M ?i c'] c'(2,3) ys(3) by (simp add: chain_at_def)
    moreover have "filter (\<lambda>x. f (summarize D x)) ys = filter (\<lambda>x. f (summarize D x)) (take ?i ?xs) @ [?xs ! ?i]"
      using filter_last_accepted [of ys] False ys by simp
    ultimately show ?thesis using c'(1) Suc.IH [OF at] c'(2,3) by (simp add: ys_def Let_def)
  qed
qed simp

text \<open>Searching forward keeps the way back; from before the first item it starts over.\<close>

lemma search_forward_chain:
  assumes c: "chain_at k c"
  defines "xs \<equiv> tree_items (c_tree c)"
  shows "\<exists>c'. search_forward M f c = Some c' \<and> c_tree c' = c_tree c \<and> did_seek c' \<and>
    chain_at (accept_from (if did_seek c then min (k + 1) (length xs) else 0) xs) c'"
proof -
  obtain c' where c': "search_forward M f c = Some c'" "c_tree c' = c_tree c" "did_seek c'"
    "cursor_at D M (accept_from (if did_seek c then min (k + 1) (length xs) else 0) xs) c'"
    using search_forward_ok c unfolding chain_at_def xs_def by blast
  let ?e = "\<lparr>e_tree = c_tree c, e_index = 0, e_position = dzero M\<rparr>"
  have wf: "wf_tree D (c_tree c)" using c by (simp add: chain_at_def cursor_at_def)
  have "chained D M (c_tree c) (c_stack c')"
  proof (cases "c_stack c")
    case Nil
    then consider "at_end c" | "\<not> at_end c" "c_position c = dzero M"
      using c by (cases "did_seek c") (auto simp: chain_at_def cursor_at_def)
    then show ?thesis
      using c'(1) Nil search_forward_loop_chained [OF _ , of f True "[?e]" "dzero M" "c_stack c'" _ "c_tree c"] forward_start [OF wf]
      by cases (auto simp: search_forward_def simp del: search_forward_loop.simps(2) split: bind_splits)
  next
    case (Cons e es)
    then have s: "did_seek c" "wf_stack D False (e # es)" "at_item (e # es)" using c by (auto simp: chain_at_def cursor_at_def split: if_splits)
    obtain s its where e: "e_tree e = Leaf s its (map (summarize D) its)" "e_index e < length its" using s(2,3) by (auto elim: at_item_top)
    let ?x = "summarize D (its ! e_index e)"
    let ?e' = "e\<lparr>e_index := e_index e + 1, e_position := dadd M (e_position e) ?x\<rparr>"
    have "forward_ok False (c_tree c) (?e' # es) (dadd M (c_position c) ?x)"
      using chain_at_forward [OF c s(1)] Cons e chained_top [of D M "c_tree c" e es ?e'] by (auto simp: forward_ok_def take_Suc_conv_app_nth)
    moreover obtain pos' where "search_forward_loop M f True (?e' # es) (dadd M (c_position c) ?x) = Some (c_stack c', pos')"
      using c'(1) Cons search_forward_loop_leave [OF e, of es "c_position c"] by (auto simp: search_forward_def simp del: search_forward_loop.simps split: bind_splits)
    ultimately show ?thesis using search_forward_loop_chained [of f True] by (simp del: search_forward_loop.simps)
  qed
  then show ?thesis using c' by (auto simp: chain_at_def)
qed

lemma search_forward_before:
  assumes "before_start c"
  shows "\<exists>c'. search_forward M f c = Some c' \<and> c_tree c' = c_tree c \<and> did_seek c' \<and> chain_at (accept_from 0 (tree_items (c_tree c))) c'"
proof -
  have c: "wf_tree D (c_tree c)" "tree_items (c_tree c) \<noteq> []" "\<not> at_end c" "c_stack c = []" "c_position c = dzero M"
    using assms by (auto simp: before_start_def)
  then have "chain_at 0 (c\<lparr>did_seek := False\<rparr>)" using is_empty_iff [OF c(1)] by (simp add: chain_at_def cursor_at_def)
  moreover have "search_forward M f (c\<lparr>did_seek := False\<rparr>) = search_forward M f c" using c(4) by (simp add: search_forward_def Let_def cong: if_cong del: search_forward_loop.simps)
  ultimately show ?thesis using search_forward_chain [of 0 "c\<lparr>did_seek := False\<rparr>"] by simp
qed

end

section \<open>Stepping back and the neighbouring items\<close>

context dimension_laws
begin

lemma cursor_prev_ok:
  assumes "chain_at k c"
  defines "xs \<equiv> tree_items (c_tree c)"
  defines "m \<equiv> (if did_seek c then k else length xs)"
  shows "\<exists>c'. cursor_prev M c = Some c' \<and> c_tree c' = c_tree c \<and> did_seek c' \<and>
    (if 0 < m then chain_at (m - 1) c' else if xs = [] then chain_at 0 c' else before_start c')"
proof -
  have len: "every.last_accepted ys = length ys" for ys by (cases "rev ys") (auto simp: every.last_accepted_def)
  have "m \<le> length xs" using assms(1) by (simp add: m_def xs_def chain_at_def cursor_at_def)
  then have "every.last_accepted (take m xs) = m" by (simp only: len) simp
  then show ?thesis using every.search_backward_ok [OF assms(1), folded xs_def, folded m_def] by (simp only: cursor_prev_def)
qed

lemma next_leaf_ok:
  "wf_below D es \<Longrightarrow> (below_items es = [] \<and> next_leaf es = Some None) \<or>
     (\<exists>s its iss. next_leaf es = Some (Some (Leaf s its iss)) \<and> its \<noteq> [] \<and> (\<exists>post. below_items es = its @ post))"
proof (induction es)
  case (Cons e es)
  obtain h s css cts where e: "e_tree e = Internal h s css cts" using Cons.prems by (cases "e_tree e") auto
  have node: "css = map summary cts" "list_all (wf_node D (h - 1)) cts" "e_index e < length cts" using Cons.prems e by auto
  show ?case
  proof (cases "Suc (e_index e) < length cts")
    case True
    then obtain s' its iss post where "leftmost_leaf (cts ! Suc (e_index e)) = Some (Leaf s' its iss)" "its \<noteq> []" "tree_items (cts ! Suc (e_index e)) = its @ post"
      using leftmost_leaf_ok node(2) by (metis list_all_length)
    moreover have "drop (Suc (e_index e)) cts = cts ! Suc (e_index e) # drop (Suc (Suc (e_index e))) cts" using True by (simp add: Cons_nth_drop_Suc)
    ultimately show ?thesis using True e by auto
  next
    case False
    then have "Suc (e_index e) = length cts" using node(3) by simp
    then show ?thesis using Cons e by auto
  qed
qed simp

lemma prev_leaf_ok:
  "wf_below D es \<Longrightarrow> (front es = [] \<and> prev_leaf es = Some None) \<or>
     (\<exists>s its iss. prev_leaf es = Some (Some (Leaf s its iss)) \<and> its \<noteq> [] \<and> (\<exists>pre. front es = pre @ its))"
proof (induction es)
  case (Cons e es)
  obtain h s css cts where e: "e_tree e = Internal h s css cts" using Cons.prems by (cases "e_tree e") auto
  have node: "css = map summary cts" "list_all (wf_node D (h - 1)) cts" "e_index e < length cts" using Cons.prems e by auto
  show ?case
  proof (cases "e_index e")
    case 0
    then show ?thesis using Cons e by auto
  next
    case (Suc i)
    then obtain s' its iss pre where "rightmost_leaf (cts ! i) = Some (Leaf s' its iss)" "its \<noteq> []" "tree_items (cts ! i) = pre @ its"
      using rightmost_leaf_ok node(2,3) by (metis Suc_lessD list_all_length)
    then show ?thesis using Suc e node(3) by (auto simp: take_Suc_conv_app_nth)
  qed
qed simp

lemma next_item_ok:
  assumes "cursor_at D M k c" "did_seek c"
  defines "xs \<equiv> tree_items (c_tree c)"
  shows "next_item c = Some (if Suc k < length xs then Some (xs ! Suc k) else None)"
proof -
  have c: "wf_stack D False (c_stack c)" "at_item (c_stack c)" "stack_items False (c_stack c) = drop k xs" "at_end c = (c_stack c = [])" "k \<le> length xs"
    using assms(1,2) by (auto simp: cursor_at_def xs_def)
  show ?thesis
  proof (cases "c_stack c")
    case (Cons e es)
    obtain s its where e: "e_tree e = Leaf s its (map (summarize D) its)" "e_index e < length its" using c(1,2) Cons by (auto elim: at_item_top)
    have "drop k xs = its ! e_index e # (drop (Suc (e_index e)) its @ below_items es)"
      using c(3) Cons e Cons_nth_drop_Suc [OF e(2), symmetric] by simp
    from drop_eq_Cons_nth [OF this] have rest: "drop (Suc k) xs = drop (Suc (e_index e)) its @ below_items es" by simp
    have below: "wf_below D es" using c(1) Cons by simp
    have "next_item c = Some (if drop (Suc k) xs = [] then None else Some (hd (drop (Suc k) xs)))"
    proof (cases "Suc (e_index e) < length its")
      case True
      then show ?thesis using rest e Cons assms(2) by (auto simp: next_item_def hd_append hd_drop_conv_nth)
    next
      case False
      then have "Suc (e_index e) = length its" using e(2) by simp
      then show ?thesis using next_leaf_ok [OF below] rest e Cons assms(2) by (auto simp: next_item_def)
    qed
    then show ?thesis by (auto simp: hd_drop_conv_nth)
  qed (use c assms(2) in \<open>auto simp: next_item_def\<close>)
qed

lemma prev_item_ok:
  assumes "chain_at k c" "did_seek c"
  defines "xs \<equiv> tree_items (c_tree c)"
  shows "prev_item c = Some (if 0 < k then Some (xs ! (k - 1)) else None)"
proof -
  have c: "wf_tree D (c_tree c)" "wf_stack D False (c_stack c)" "at_item (c_stack c)" "stack_items False (c_stack c) = drop k xs"
    "at_end c = (c_stack c = [])" "k \<le> length xs" "chained D M (c_tree c) (c_stack c)"
    using assms(1,2) by (auto simp: chain_at_def cursor_at_def xs_def)
  have "prev_item c = Some (if take k xs = [] then None else Some (last (take k xs)))"
  proof (cases "c_stack c")
    case Nil
    then show ?thesis using c assms(2) last_item_ok [OF c(1)] by (auto simp: prev_item_def xs_def)
  next
    case (Cons e es)
    obtain s its where e: "e_tree e = Leaf s its (map (summarize D) its)" "e_index e < length its" using c(2,3) Cons by (auto elim: at_item_top)
    have fr: "take k xs = front es @ take (e_index e) its" using chained_front [OF c(7)] c(4,6) Cons e by (simp add: xs_def)
    have below: "wf_below D es" using c(2) Cons by simp
    show ?thesis
    proof (cases "e_index e")
      case 0
      then show ?thesis using prev_leaf_ok [OF below] fr Cons assms(2) by (auto simp: prev_item_def)
    next
      case (Suc i)
      then show ?thesis using fr Cons e assms(2) by (simp add: prev_item_def take_Suc_conv_app_nth)
    qed
  qed
  moreover have "last (take k xs) = xs ! (k - 1)" if "0 < k" using that c(6) by (cases k) (auto simp: take_Suc_conv_app_nth)
  ultimately show ?thesis using c(6) by auto
qed

lemma next_item_before: "before_start c \<Longrightarrow> next_item c = Some (Some (hd (tree_items (c_tree c))))"
  using first_ok by (auto simp: before_start_def next_item_def)

end

end
