(* ===== verification/Tree_Map.thy ===== *)
theory Tree_Map
  imports Keyed_Tree Sum_Iter Cursor_Chain "HOL-Library.Option_ord"
begin

text \<open>
  \<^verbatim>\<open>TreeMap\<close> and \<^verbatim>\<open>TreeSet\<close> of \<^verbatim>\<open>crates/sum_tree/src/tree_map.rs\<close>: an ordered map kept in a sum tree whose
  summary is the key of the last entry. The operations are those of a finite map; the locale
  \<open>dictionary\<close> states that contract and is interpreted on them.
\<close>

section \<open>Entries and keys\<close>

record ('k, 'v) map_entry =
  me_key :: 'k
  me_value :: 'v

text \<open>\<^verbatim>\<open>MapKey\<close> and \<^verbatim>\<open>MapKeyRef\<close> are optional keys, \<open>None\<close> first; adding a summary replaces.\<close>

definition map_item :: "(('k, 'v) map_entry, 'k option) item_impl" where
  "map_item = \<lparr>szero = None, sadd = \<lambda>_ s. s, summarize = \<lambda>e. Some (me_key e)\<rparr>"

definition map_dim :: "('k option, 'k option) dim_impl" where
  "map_dim = \<lparr>dzero = None, dadd = \<lambda>_ s. s\<rparr>"

definition map_keyed :: "(('k, 'v) map_entry, 'k option, 'k option) keyed_impl" where
  "map_keyed = \<lparr>kitem = map_item, kdim = map_dim, ikey = \<lambda>e. Some (me_key e)\<rparr>"

type_synonym ('k, 'v) tree_map = "(('k, 'v) map_entry, 'k option) sum_tree"

definition map_target :: "'k::linorder \<Rightarrow> 'k option \<Rightarrow> ordering" where
  "map_target k loc = ord_cmp (Some k) loc"

text \<open>\<^verbatim>\<open>MapSeekTargetAdaptor\<close>: a comparison on keys, greater than the start of the map.\<close>

definition adapt_target :: "('k \<Rightarrow> ordering) \<Rightarrow> 'k option \<Rightarrow> ordering" where
  "adapt_target cmp loc = (case loc of Some k \<Rightarrow> cmp k | None \<Rightarrow> Greater)"

definition entry :: "'k \<times> 'v \<Rightarrow> ('k, 'v) map_entry" where
  "entry kv = \<lparr>me_key = fst kv, me_value = snd kv\<rparr>"

definition kv_of :: "('k, 'v) map_entry \<Rightarrow> 'k \<times> 'v" where
  "kv_of e = (me_key e, me_value e)"

section \<open>TreeMap\<close>

definition tm_default :: "('k, 'v) tree_map" where
  "tm_default = st_new map_item"

definition tm_from_ordered_entries :: "('k \<times> 'v) list \<Rightarrow> ('k, 'v) tree_map" where
  "tm_from_ordered_entries kvs = from_iter map_item (map entry kvs)"

definition tm_is_empty :: "('k, 'v) tree_map \<Rightarrow> bool" where
  "tm_is_empty m = is_empty m"

definition tm_get :: "('k::linorder, 'v) tree_map \<Rightarrow> 'k \<Rightarrow> 'v option" where
  "tm_get m k = (case st_find map_dim m (map_target k) Left of
     (_, _, Some e) \<Rightarrow> (if Some k = ikey map_keyed e then Some (me_value e) else None)
   | (_, _, None) \<Rightarrow> None)"

definition tm_contains_key :: "('k::linorder, 'v) tree_map \<Rightarrow> 'k \<Rightarrow> bool" where
  "tm_contains_key m k \<longleftrightarrow> tm_get m k \<noteq> None"

definition tm_insert :: "('k::linorder, 'v) tree_map \<Rightarrow> 'k \<Rightarrow> 'v \<Rightarrow> ('k, 'v) tree_map option" where
  "tm_insert m k v = do { (_, m') \<leftarrow> insert_or_replace map_keyed m (entry (k, v)); Some m' }"

definition tm_insert_or_replace ::
  "('k::linorder, 'v) tree_map \<Rightarrow> 'k \<Rightarrow> 'v \<Rightarrow> ('v option \<times> ('k, 'v) tree_map) option" where
  "tm_insert_or_replace m k v = do {
     (replaced, m') \<leftarrow> insert_or_replace map_keyed m (entry (k, v));
     Some (map_option me_value replaced, m') }"

definition tm_extend :: "('k::linorder, 'v) tree_map \<Rightarrow> ('k \<times> 'v) list \<Rightarrow> ('k, 'v) tree_map option" where
  "tm_extend m kvs = do { (_, m') \<leftarrow> edit_tree map_keyed m (map (\<lambda>kv. Insert (entry kv)) kvs); Some m' }"

definition tm_clear :: "('k, 'v) tree_map \<Rightarrow> ('k, 'v) tree_map" where
  "tm_clear m = tm_default"

definition tm_remove :: "('k::linorder, 'v) tree_map \<Rightarrow> 'k \<Rightarrow> ('v option \<times> ('k, 'v) tree_map) option" where
  "tm_remove m k = do {
     (new_tree, c) \<leftarrow> slice map_item map_dim (cursor_new map_dim m) (map_target k) Left;
     end \<leftarrow> cursor_end map_dim c;
     (removed, c) \<leftarrow>
       (if map_target k end = Equal then do {
          item \<leftarrow> cursor_item c;
          e \<leftarrow> item;
          c \<leftarrow> cursor_next map_dim c;
          Some (Some (me_value e), c)
        } else Some (None, c));
     (rest, _) \<leftarrow> suffix map_item map_dim c;
     new_tree \<leftarrow> append_tree map_item new_tree rest;
     Some (removed, new_tree) }"

definition tm_remove_range ::
  "('k, 'v) tree_map \<Rightarrow> ('k \<Rightarrow> ordering) \<Rightarrow> ('k \<Rightarrow> ordering) \<Rightarrow> ('k, 'v) tree_map option" where
  "tm_remove_range m start end = do {
     (new_tree, c) \<leftarrow> slice map_item map_dim (cursor_new map_dim m) (adapt_target start) Left;
     (_, c) \<leftarrow> seek map_dim c (adapt_target end) Left;
     (rest, _) \<leftarrow> suffix map_item map_dim c;
     append_tree map_item new_tree rest }"

text \<open>The first \<open>n\<close> pairs of the iterator that \<^verbatim>\<open>iter_from\<close> returns.\<close>

definition tm_iter_from :: "nat \<Rightarrow> ('k::linorder, 'v) tree_map \<Rightarrow> 'k \<Rightarrow> ('k \<times> 'v) list option" where
  "tm_iter_from n m from = do {
     (_, c) \<leftarrow> seek map_dim (cursor_new map_dim m) (map_target from) Left;
     es \<leftarrow> filter_collect map_dim (\<lambda>_. True) n c;
     Some (map kv_of es) }"

text \<open>\<^verbatim>\<open>closest\<close>: the entry with the greatest key that is not after the given one.\<close>

definition tm_closest :: "('k::linorder, 'v) tree_map \<Rightarrow> 'k \<Rightarrow> ('k \<times> 'v) option option" where
  "tm_closest m k = do {
     (_, c) \<leftarrow> seek map_dim (cursor_new map_dim m) (map_target k) Right;
     c \<leftarrow> cursor_prev map_dim c;
     item \<leftarrow> cursor_item c;
     Some (map_option kv_of item) }"

text \<open>\<^verbatim>\<open>update\<close>: the closure returns a result and the new value.\<close>

definition tm_update ::
  "('k::linorder, 'v) tree_map \<Rightarrow> 'k \<Rightarrow> ('v \<Rightarrow> 'r \<times> 'v) \<Rightarrow> ('r option \<times> ('k, 'v) tree_map) option" where
  "tm_update m k f = do {
     (new_tree, c) \<leftarrow> slice map_item map_dim (cursor_new map_dim m) (map_target k) Left;
     end \<leftarrow> cursor_end map_dim c;
     (result, new_tree, c) \<leftarrow>
       (if map_target k end = Equal then do {
          item \<leftarrow> cursor_item c;
          updated \<leftarrow> item;
          let (r, v) = f (me_value updated);
          new_tree \<leftarrow> push map_item new_tree (updated\<lparr>me_value := v\<rparr>);
          c \<leftarrow> cursor_next map_dim c;
          Some (Some r, new_tree, c)
        } else Some (None, new_tree, c));
     (rest, _) \<leftarrow> suffix map_item map_dim c;
     new_tree \<leftarrow> append_tree map_item new_tree rest;
     Some (result, new_tree) }"

partial_function (option) retain_loop ::
  "('k \<Rightarrow> 'v \<Rightarrow> bool) \<Rightarrow> (('k, 'v) map_entry, 'k option, 'k option) cursor \<Rightarrow> ('k, 'v) tree_map \<Rightarrow> ('k, 'v) tree_map option" where
  "retain_loop p c new_map = do {
     item \<leftarrow> cursor_item c;
     (case item of
        None \<Rightarrow> Some new_map
      | Some e \<Rightarrow> do {
          new_map \<leftarrow> (if p (me_key e) (me_value e) then push map_item new_map e else Some new_map);
          c \<leftarrow> cursor_next map_dim c;
          retain_loop p c new_map }) }"

definition tm_retain :: "('k, 'v) tree_map \<Rightarrow> ('k \<Rightarrow> 'v \<Rightarrow> bool) \<Rightarrow> ('k, 'v) tree_map option" where
  "tm_retain m p = do {
     c \<leftarrow> cursor_next map_dim (cursor_new map_dim m);
     retain_loop p c (st_new map_item) }"

definition tm_iter :: "nat \<Rightarrow> ('k, 'v) tree_map \<Rightarrow> ('k \<times> 'v) list" where
  "tm_iter n m = map kv_of (iter_collect m n [])"

definition tm_values :: "nat \<Rightarrow> ('k, 'v) tree_map \<Rightarrow> 'v list" where
  "tm_values n m = map me_value (iter_collect m n [])"

definition tm_first :: "('k, 'v) tree_map \<Rightarrow> ('k \<times> 'v) option option" where
  "tm_first m = map_option (map_option kv_of) (first m)"

definition tm_last :: "('k, 'v) tree_map \<Rightarrow> ('k \<times> 'v) option option" where
  "tm_last m = map_option (map_option kv_of) (last_item m)"

definition tm_insert_tree :: "('k::linorder, 'v) tree_map \<Rightarrow> ('k, 'v) tree_map \<Rightarrow> ('k, 'v) tree_map option" where
  "tm_insert_tree m other = do {
     (_, m') \<leftarrow> edit_tree map_keyed m (map (\<lambda>kv. Insert (entry kv)) (tm_iter (length (tree_items other) + 1) other));
     Some m' }"

section \<open>TreeSet\<close>

type_synonym 'k tree_set = "('k, unit) tree_map"

definition ts_default :: "'k tree_set" where
  "ts_default = tm_default"

definition ts_from_ordered_entries :: "'k list \<Rightarrow> 'k tree_set" where
  "ts_from_ordered_entries ks = tm_from_ordered_entries (map (\<lambda>k. (k, ())) ks)"

definition ts_is_empty :: "'k tree_set \<Rightarrow> bool" where
  "ts_is_empty s = tm_is_empty s"

definition ts_insert :: "'k::linorder tree_set \<Rightarrow> 'k \<Rightarrow> 'k tree_set option" where
  "ts_insert s k = tm_insert s k ()"

definition ts_remove :: "'k::linorder tree_set \<Rightarrow> 'k \<Rightarrow> (bool \<times> 'k tree_set) option" where
  "ts_remove s k = do { (v, s') \<leftarrow> tm_remove s k; Some (v \<noteq> None, s') }"

definition ts_extend :: "'k::linorder tree_set \<Rightarrow> 'k list \<Rightarrow> 'k tree_set option" where
  "ts_extend s ks = tm_extend s (map (\<lambda>k. (k, ())) ks)"

definition ts_contains :: "'k::linorder tree_set \<Rightarrow> 'k \<Rightarrow> bool" where
  "ts_contains s k \<longleftrightarrow> tm_get s k \<noteq> None"

definition ts_iter :: "nat \<Rightarrow> 'k tree_set \<Rightarrow> 'k list" where
  "ts_iter n s = map fst (tm_iter n s)"

definition ts_iter_from :: "nat \<Rightarrow> 'k::linorder tree_set \<Rightarrow> 'k \<Rightarrow> 'k list option" where
  "ts_iter_from n s k = map_option (map fst) (tm_iter_from n s k)"

section \<open>The laws\<close>

lemma map_keyed_simps [simp]:
  "kitem map_keyed = map_item" "kdim map_keyed = map_dim" "ikey map_keyed e = Some (me_key e)"
  by (simp_all add: map_keyed_def)

lemma entry_simps [simp]:
  "me_key (entry kv) = fst kv" "me_value (entry kv) = snd kv" "kv_of (entry kv) = kv" "entry (kv_of e) = e"
  by (simp_all add: entry_def kv_of_def)

lemma entry_update: "e\<lparr>me_value := v\<rparr> = entry (me_key e, v)"
  by (simp add: entry_def)

interpretation map_laws: keyed_laws "map_keyed :: (('k::linorder, 'v) map_entry, 'k option, 'k option) keyed_impl"
  rewrites "kitem map_keyed = map_item" and "kdim map_keyed = map_dim"
    and "ikey map_keyed = (\<lambda>e. Some (me_key e))" and "dzero map_dim = None"
  by unfold_locales (auto simp: map_item_def map_dim_def less_eq_option_def fun_eq_iff split: option.split)

text \<open>A well-formed map, and the finite map it stands for.\<close>

definition tm_ok :: "('k::linorder, 'v) tree_map \<Rightarrow> bool" where
  "tm_ok m \<longleftrightarrow> wf_tree map_item m \<and> sorted_keys me_key (tree_items m)"

definition tm_map :: "('k::linorder, 'v) tree_map \<Rightarrow> 'k \<rightharpoonup> 'v" where
  "tm_map m k = map_option me_value (key_lookup me_key (tree_items m) k)"

lemma sorted_keys_Some [simp]: "sorted_keys (\<lambda>e. Some (key e)) xs \<longleftrightarrow> sorted_keys key xs"
  by (simp add: sorted_keys_def)

lemma key_lookup_Some [simp]: "key_lookup (\<lambda>e. Some (key e)) xs (Some k) = key_lookup key xs k"
  by (simp add: key_lookup_def)

lemma tm_ok_keyed: "map_laws.keyed_ok m \<longleftrightarrow> tm_ok m"
  by (simp add: map_laws.keyed_ok_def tm_ok_def)

lemma entries_tm: "map_laws.entries m (Some k) = key_lookup me_key (tree_items m) k"
  by (simp add: map_laws.entries_def)

lemma map_target_eq: "map_target k = ord_cmp (Some k)"
  by (rule ext) (simp add: map_target_def)

lemma tm_default_ok: "tm_ok tm_default \<and> tm_map tm_default = Map.empty"
  by (simp add: tm_ok_def tm_map_def tm_default_def fun_eq_iff)

lemma tm_get_eq: "tm_ok m \<Longrightarrow> tm_get m k = tm_map m k"
  using map_laws.find_key [of m "Some k"]
  by (auto simp: tm_ok_keyed entries_tm tm_get_def tm_map_def map_target_eq split: prod.splits option.splits if_splits)

lemma tm_insert_or_replace_ok:
  assumes "tm_ok m"
  shows "\<exists>m'. tm_insert_or_replace m k v = Some (tm_map m k, m') \<and> tm_insert m k v = Some m' \<and>
    tm_ok m' \<and> tm_map m' = (tm_map m)(k \<mapsto> v)"
proof -
  let ?e = "entry (k, v) :: ('a, 'b) map_entry"
  obtain m' where m': "insert_or_replace map_keyed m ?e = Some (map_laws.entries m (Some k), m')"
    "map_laws.keyed_ok m'" "map_laws.entries m' = (map_laws.entries m)(Some k \<mapsto> ?e)"
    using map_laws.insert_or_replace_ok [of m ?e] assms by (auto simp: tm_ok_keyed)
  have "tm_map m' j = ((tm_map m)(k \<mapsto> v)) j" for j
    using fun_cong [OF m'(3), of "Some j"] by (simp add: tm_map_def entries_tm)
  then show ?thesis using m'(1,2)
    by (auto simp: tm_insert_or_replace_def tm_insert_def tm_ok_keyed entries_tm tm_map_def fun_eq_iff)
qed

text \<open>The removal and the update of the map are those of the keyed tree.\<close>

lemma tm_remove_eq:
  assumes "tm_ok m"
  shows "tm_remove m k = do { (r, m') \<leftarrow> remove map_keyed m (Some k); Some (map_option me_value r, m') }"
proof -
  have ok: "map_laws.keyed_ok m" using assms by (simp add: tm_ok_keyed)
  obtain lo c where s: "slice map_item map_dim (cursor_new map_dim m) (ord_cmp (Some k)) Left = Some (lo, c)"
    using map_laws.remove_ok [OF ok, of "Some k"] by (auto simp: remove_def split: bind_splits)
  obtain d item where d: "cursor_end map_dim c = Some d" "cursor_item c = Some item"
    "Some k = d \<longleftrightarrow> (case item of Some x \<Rightarrow> Some (me_key x) = Some k | None \<Rightarrow> False)"
    using map_laws.slice_end_iff [OF ok _ s] by auto
  show ?thesis
    using s d by (auto simp: tm_remove_def remove_def map_target_eq take_key_def split: option.splits bind_splits)
qed

lemma tm_remove_ok:
  assumes "tm_ok m"
  shows "\<exists>m'. tm_remove m k = Some (tm_map m k, m') \<and> tm_ok m' \<and> tm_map m' = (tm_map m)(k := None)"
proof -
  obtain m' where m': "remove map_keyed m (Some k) = Some (map_laws.entries m (Some k), m')"
    "map_laws.keyed_ok m'" "map_laws.entries m' = (map_laws.entries m)(Some k := None)"
    using map_laws.remove_ok [of m "Some k"] assms by (auto simp: tm_ok_keyed)
  have "tm_map m' j = ((tm_map m)(k := None)) j" for j
    using fun_cong [OF m'(3), of "Some j"] by (simp add: tm_map_def entries_tm)
  then show ?thesis using m'(1,2) tm_remove_eq [OF assms]
    by (auto simp: tm_ok_keyed entries_tm tm_map_def fun_eq_iff)
qed

lemma tm_update_ok:
  assumes "tm_ok m"
  shows "\<exists>m'. tm_update m k f = Some (map_option (\<lambda>v. fst (f v)) (tm_map m k), m') \<and> tm_ok m' \<and>
    tm_map m' = (tm_map m)(k := map_option (\<lambda>v. snd (f v)) (tm_map m k))"
proof -
  have ok: "map_laws.keyed_ok m" using assms by (simp add: tm_ok_keyed)
  let ?v = "case tm_map m k of Some v \<Rightarrow> v"
  let ?e = "entry (k, snd (f ?v)) :: ('a, 'b) map_entry"
  obtain m1 where ins: "insert_or_replace map_keyed m ?e = Some (map_laws.entries m (Some k), m1)"
    "map_laws.keyed_ok m1" "map_laws.entries m1 = (map_laws.entries m)(Some k \<mapsto> ?e)"
    using map_laws.insert_or_replace_ok [OF ok, of ?e] by auto
  obtain m2 where rem: "remove map_keyed m (Some k) = Some (map_laws.entries m (Some k), m2)"
    "map_laws.keyed_ok m2" "map_laws.entries m2 = (map_laws.entries m)(Some k := None)"
    using map_laws.remove_ok [OF ok, of "Some k"] by auto
  obtain lo c where s: "slice map_item map_dim (cursor_new map_dim m) (ord_cmp (Some k)) Left = Some (lo, c)"
    using rem(1) by (auto simp: remove_def split: bind_splits)
  obtain d item where d: "cursor_end map_dim c = Some d" "cursor_item c = Some item"
    "Some k = d \<longleftrightarrow> (case item of Some x \<Rightarrow> Some (me_key x) = Some k | None \<Rightarrow> False)"
    using map_laws.slice_end_iff [OF ok _ s] by auto
  show ?thesis
  proof (cases "tm_map m k")
    case None
    then have "map_laws.entries m (Some k) = None" by (simp add: tm_map_def entries_tm)
    with rem(1) s d have "d \<noteq> Some k"
      by (auto simp: remove_def take_key_def split: option.splits bind_splits)
    with None rem s d \<open>map_laws.entries m (Some k) = None\<close>
    have "tm_update m k f = Some (None, m2)"
      by (auto simp: tm_update_def remove_def take_key_def map_target_eq split: option.splits bind_splits if_splits)
    moreover have "tm_map m2 j = tm_map m j" for j
      using fun_cong [OF rem(3), of "Some j"] None by (auto simp: tm_map_def entries_tm)
    ultimately show ?thesis using rem(2) None by (auto simp: tm_ok_keyed fun_eq_iff)
  next
    case (Some v)
    then obtain e where e: "map_laws.entries m (Some k) = Some e" "me_key e = k" "me_value e = v"
      by (auto simp: tm_map_def entries_tm dest: key_lookup_SomeD)
    with ins(1) s d have item: "item = Some e" "d = Some k"
      by (auto simp: insert_or_replace_def take_key_def split: option.splits bind_splits if_splits)
    with ins(1) s d item e Some have "tm_update m k f = Some (Some (fst (f v)), m1)"
      by (auto simp: tm_update_def insert_or_replace_def take_key_def map_target_eq entry_update
          split: option.splits bind_splits if_splits prod.splits)
    moreover have "tm_map m1 j = ((tm_map m)(k \<mapsto> snd (f v))) j" for j
      using fun_cong [OF ins(3), of "Some j"] Some by (auto simp: tm_map_def entries_tm)
    ultimately show ?thesis using ins(2) Some by (auto simp: tm_ok_keyed fun_eq_iff)
  qed
qed

section \<open>Batches\<close>

lemma key_lookup_inserts:
  "key_lookup (edit_key map_keyed) (map (\<lambda>kv. Insert (entry kv)) kvs) (Some k) =
     map_option (\<lambda>v. Insert (entry (k, v))) (map_of kvs k)"
  by (induction kvs) (auto simp: entry_def)

text \<open>Inserting a batch with distinct keys overrides the map by the batch.\<close>

lemma edit_inserts:
  assumes "tm_ok m" "distinct (map fst kvs)"
  shows "\<exists>rs m'. edit_tree map_keyed m (map (\<lambda>kv. Insert (entry kv)) kvs) = Some (rs, m') \<and>
    tm_ok m' \<and> tm_map m' = tm_map m ++ map_of kvs"
proof -
  let ?es = "map (\<lambda>kv. Insert (entry kv)) kvs :: (('a, 'b) map_entry, 'a option) edit list"
  have "map (edit_key map_keyed) ?es = map Some (map fst kvs)" by simp
  then have "distinct (map (edit_key map_keyed) ?es)" using assms(2) by (simp add: distinct_map del: map_map)
  then obtain rs m' where m': "edit_tree map_keyed m ?es = Some (rs, m')" "map_laws.keyed_ok m'"
    "map_laws.entries m' = edit_effect map_keyed ?es (map_laws.entries m)"
    using map_laws.edit_tree_ok [of m ?es] assms(1) tm_ok_keyed by blast
  have "tm_map m' k = (tm_map m ++ map_of kvs) k" for k
    using fun_cong [OF m'(3), of "Some k"]
    by (auto simp: tm_map_def entries_tm edit_effect_def key_lookup_inserts map_add_def split: option.split)
  then show ?thesis using m'(1,2) by (auto simp: tm_ok_keyed fun_eq_iff)
qed

lemma tm_extend_ok:
  "tm_ok m \<Longrightarrow> distinct (map fst kvs) \<Longrightarrow>
   \<exists>m'. tm_extend m kvs = Some m' \<and> tm_ok m' \<and> tm_map m' = tm_map m ++ map_of kvs"
  using edit_inserts [of m kvs] by (auto simp: tm_extend_def)

lemma tm_iter_ok: "tm_ok m \<Longrightarrow> tm_iter n m = take n (map kv_of (tree_items m))"
  using iter_collect_ok [of map_item m n] by (simp add: tm_iter_def tm_ok_def take_map)

lemma map_of_kv: "map_of (map kv_of es) k = map_option me_value (key_lookup me_key es k)"
  by (induction es) (auto simp: kv_of_def)

lemma tm_insert_tree_ok:
  assumes "tm_ok m" "tm_ok other"
  shows "\<exists>m'. tm_insert_tree m other = Some m' \<and> tm_ok m' \<and> tm_map m' = tm_map m ++ tm_map other"
proof -
  let ?kvs = "tm_iter (length (tree_items other) + 1) other"
  have kvs: "?kvs = map kv_of (tree_items other)" using tm_iter_ok [OF assms(2)] by simp
  have "map fst ?kvs = map me_key (tree_items other)" unfolding kvs by (simp add: kv_of_def)
  then have "distinct (map fst ?kvs)"
    using assms(2) distinct_sorted_keys [of me_key "tree_items other"] by (simp only: tm_ok_def)
  moreover have "map_of ?kvs = tm_map other" unfolding kvs by (rule ext) (simp add: map_of_kv tm_map_def)
  ultimately show ?thesis using edit_inserts [OF assms(1), of ?kvs] by (auto simp: tm_insert_tree_def)
qed

lemma tm_from_ordered_entries_ok:
  assumes "sorted_keys fst kvs"
  shows "tm_ok (tm_from_ordered_entries kvs) \<and> tm_map (tm_from_ordered_entries kvs) = map_of kvs"
proof -
  have "sorted_keys me_key (map entry kvs)" using assms by (simp add: sorted_keys_def sorted_wrt_map)
  moreover have "map kv_of (map entry kvs) = kvs" by (simp add: comp_def)
  ultimately show ?thesis
    using map_laws.from_iter_ok [of "map entry kvs"] map_of_kv [of "map entry kvs"]
    by (simp add: tm_from_ordered_entries_def tm_ok_def tm_map_def fun_eq_iff)
qed

section \<open>Filtering and ranges\<close>

lemma retain_loop_ok:
  fixes c :: "(('k::linorder, 'v) map_entry, 'k option, 'k option) cursor"
  assumes "cursor_at map_item map_dim k c" "did_seek c" "wf_tree map_item new_map"
  shows "\<exists>m'. retain_loop p c new_map = Some m' \<and> wf_tree map_item m' \<and>
    tree_items m' = tree_items new_map @ filter (\<lambda>e. p (me_key e) (me_value e)) (drop k (tree_items (c_tree c)))"
  using assms
proof (induction "length (tree_items (c_tree c)) - k" arbitrary: k c new_map rule: less_induct)
  case less
  let ?xs = "tree_items (c_tree c)"
  show ?case
  proof (cases "k < length ?xs")
    case True
    let ?e = "?xs ! k"
    obtain c' where c': "cursor_next map_dim c = Some c'" "c_tree c' = c_tree c" "did_seek c'"
        "cursor_at map_item map_dim (k + 1) c'"
      using map_laws.cursor_next_ok [OF less.prems(1)] less.prems(2) True by (auto simp: min_def)
    obtain m1 where m1: "(if p (me_key ?e) (me_value ?e) then push map_item new_map ?e else Some new_map) = Some m1"
      "wf_tree map_item m1" "tree_items m1 = tree_items new_map @ (if p (me_key ?e) (me_value ?e) then [?e] else [])"
      using map_laws.push_ok [OF less.prems(3), of ?e] less.prems(3)
      by (cases "p (me_key ?e) (me_value ?e)") auto
    obtain m' where "retain_loop p c' m1 = Some m'" "wf_tree map_item m'"
      "tree_items m' = tree_items m1 @ filter (\<lambda>e. p (me_key e) (me_value e)) (drop (k + 1) ?xs)"
      using less.hyps [of c' "k + 1" m1] c' m1(2) diff_less_mono2 [of k "k + 1" "length ?xs"] True by auto
    then show ?thesis
      using True c'(1) m1 cursor_item_at(1) [OF less.prems(1,2)] Cons_nth_drop_Suc [OF True, symmetric]
      by (subst retain_loop.simps) (simp split: if_splits)
  next
    case False
    then show ?thesis using cursor_item_at(1) [OF less.prems(1,2)] less.prems(3) by (subst retain_loop.simps) simp
  qed
qed

lemma tm_retain_ok:
  assumes "tm_ok m"
  shows "\<exists>m'. tm_retain m p = Some m' \<and> tm_ok m' \<and>
    tree_items m' = filter (\<lambda>e. p (me_key e) (me_value e)) (tree_items m)"
proof -
  have m: "wf_tree map_item m" "sorted_keys me_key (tree_items m)" using assms by (auto simp: tm_ok_def)
  obtain c where c: "cursor_next map_dim (cursor_new map_dim m) = Some c" "c_tree c = m" "did_seek c"
      "cursor_at map_item map_dim 0 c"
    using map_laws.cursor_next_ok [OF cursor_at_new [OF m(1)]] by (auto simp: cursor_new_def)
  have "sorted_keys me_key (filter P (tree_items m))" for P
    using m(2) by (simp add: sorted_keys_def sorted_wrt_filter)
  then show ?thesis
    using retain_loop_ok [OF c(4,3), of "st_new map_item" p] c(1,2) by (auto simp: tm_retain_def tm_ok_def)
qed

lemma tm_iter_from_ok:
  assumes "tm_ok m"
  shows "tm_iter_from n m k = Some (take n (map kv_of (dropWhile (\<lambda>e. me_key e < k) (tree_items m))))"
proof -
  let ?xs = "tree_items m"
  have m: "wf_tree map_item m" "sorted_keys me_key ?xs" using assms by (auto simp: tm_ok_def)
  have bl: "map_laws.below Left (Some k) = (\<lambda>e. me_key e < k)" by (rule ext) (simp add: map_laws.below_def)
  have "seekable map_item map_dim (passes (ord_cmp (Some k)) Left) None ?xs"
    using map_laws.seekable_keys [of ?xs None] m(2) by simp
  then obtain b c where c: "seek map_dim (cursor_new map_dim m) (map_target k) Left = Some (b, c)"
    "c_tree c = m" "did_seek c" "cursor_at map_item map_dim (length (takeWhile (\<lambda>e. me_key e < k) ?xs)) c"
    using map_laws.seek_ok [OF cursor_at_new [OF m(1)], of "ord_cmp (Some k)" Left]
      map_laws.seek_count_key [of ?xs "Some k" Left] m(2) by (auto simp: map_target_eq bl)
  have "filter_collect map_dim (\<lambda>_. True) n c = Some (take n (drop (length (takeWhile (\<lambda>e. me_key e < k) ?xs)) ?xs))"
    using map_laws.every.filter_collect_from [of "length (takeWhile (\<lambda>e. me_key e < k) ?xs)" c n] c(2-4)
    by (simp add: map_laws.every_accept_from)
  then show ?thesis using c(1) by (simp add: tm_iter_from_def take_map dropWhile_eq_drop)
qed

lemma sorted_below:
  assumes "sorted_keys me_key xs"
  shows "takeWhile (\<lambda>e. me_key e \<le> k) xs = filter (\<lambda>e. me_key e \<le> k) xs"
  using assms
proof (induction xs)
  case (Cons x xs)
  then have "\<forall>y\<in>set xs. me_key x < me_key y" by (simp add: sorted_keys_def)
  then have "\<not> me_key x \<le> k \<Longrightarrow> filter (\<lambda>e. me_key e \<le> k) xs = []" by (auto simp: filter_empty_conv not_le dest: less_trans)
  with Cons show ?case by (simp add: sorted_keys_def)
qed simp

lemma tm_closest_ok:
  fixes m :: "('k::linorder, 'v) tree_map" and k :: 'k
  assumes "tm_ok m"
  defines "es \<equiv> filter (\<lambda>e. me_key e \<le> k) (tree_items m)"
  shows "tm_closest m k = Some (if es = [] then None else Some (kv_of (last es)))"
proof -
  let ?xs = "tree_items m"
  let ?n = "length (takeWhile (\<lambda>e. me_key e \<le> k) ?xs)"
  have m: "wf_tree map_item m" "sorted_keys me_key ?xs" using assms by (auto simp: tm_ok_def)
  have br: "map_laws.below Right (Some k) = (\<lambda>e. me_key e \<le> k)" by (rule ext) (simp add: map_laws.below_def)
  have "seekable map_item map_dim (passes (ord_cmp (Some k)) Right) None ?xs"
    using map_laws.seekable_keys [of ?xs None] m(2) by simp
  then obtain b c where c: "seek map_dim (cursor_new map_dim m) (map_target k) Right = Some (b, c)"
    "c_tree c = m" "did_seek c" "cursor_at map_item map_dim ?n c"
    using map_laws.seek_ok [OF cursor_at_new [OF m(1)], of "ord_cmp (Some k)" Right]
      map_laws.seek_count_key [of ?xs "Some k" Right] m(2) by (auto simp: map_target_eq br)
  have "map_laws.chain_at ?n c"
    using map_laws.seek_chained [OF map_laws.chain_at_new [OF m(1)] c(1)] c(2,4) by (simp add: map_laws.chain_at_def)
  from map_laws.cursor_prev_ok [OF this, unfolded c(2) if_P [OF c(3)]] obtain c' where c': "cursor_prev map_dim c = Some c'" "c_tree c' = m" "did_seek c'"
    "if 0 < ?n then map_laws.chain_at (?n - 1) c' else if ?xs = [] then map_laws.chain_at 0 c' else map_laws.before_start c'"
    by blast
  have es: "es = takeWhile (\<lambda>e. me_key e \<le> k) ?xs" by (simp add: es_def sorted_below [OF m(2)])
  show ?thesis
  proof (cases "?n = 0")
    case True
    then have "cursor_item c' = Some None"
      using c'(3,4) cursor_item_at(1) [of map_item map_dim 0 c'] c'(2)
      by (auto simp: map_laws.chain_at_def map_laws.before_start_def cursor_item_def split: if_splits)
    then show ?thesis using True c(1) c'(1) es by (simp add: tm_closest_def)
  next
    case False
    then have n: "?n - 1 < length ?xs" using length_takeWhile_le [of "\<lambda>e. me_key e \<le> k" ?xs] by linarith
    then have "cursor_item c' = Some (Some (?xs ! (?n - 1)))"
      using False c'(2-4) cursor_item_at(1) [of map_item map_dim "?n - 1" c'] by (simp add: map_laws.chain_at_def)
    moreover have "last es = ?xs ! (?n - 1)"
      using False es by (simp add: last_conv_nth takeWhile_nth)
    ultimately show ?thesis using False c(1) c'(1) es by (simp add: tm_closest_def)
  qed
qed

text \<open>A range bound: a comparison that, once it is not above a key, is not above any later key.\<close>

definition range_bound :: "('k::linorder \<Rightarrow> ordering) \<Rightarrow> bool" where
  "range_bound cmp \<longleftrightarrow> (\<forall>j k. j < k \<longrightarrow> cmp k = Greater \<longrightarrow> cmp j = Greater)"

definition before :: "('k \<Rightarrow> ordering) \<Rightarrow> ('k, 'v) map_entry \<Rightarrow> bool" where
  "before cmp e \<longleftrightarrow> cmp (me_key e) = Greater"

lemma range_bound_ord_cmp: "range_bound (ord_cmp k)"
  by (auto simp: range_bound_def intro: less_trans)

lemma passes_adapt: "passes (adapt_target cmp) Left (Some (me_key e)) \<longleftrightarrow> before cmp e"
  by (simp add: passes_def adapt_target_def before_def)

lemma seek_adapt:
  assumes "sorted_keys me_key xs" "range_bound cmp"
  shows "seekable map_item map_dim (passes (adapt_target cmp) Left) None xs"
    and "seek_count map_item map_dim (passes (adapt_target cmp) Left) None xs = length (takeWhile (before cmp) xs)"
  using map_laws.seekable_pass [of xs None "passes (adapt_target cmp) Left"] assms
    map_laws.passed_prefix_pass [of xs None "passes (adapt_target cmp) Left"]
  by (auto simp: range_bound_def passes_adapt before_def seek_count_def cong: takeWhile_cong)

lemma tm_remove_range_items:
  assumes "tm_ok m" "range_bound start" "range_bound end"
  shows "\<exists>m'. tm_remove_range m start end = Some m' \<and> wf_tree map_item m' \<and>
    tree_items m' = takeWhile (before start) (tree_items m) @ dropWhile (before end) (tree_items m)"
proof -
  let ?xs = "tree_items m" and ?c = "cursor_new map_dim m :: (('a, 'b) map_entry, 'a option, 'a option) cursor"
  have m: "wf_tree map_item m" "sorted_keys me_key ?xs" using assms(1) by (auto simp: tm_ok_def)
  have c: "cursor_at map_item map_dim 0 ?c" "c_position ?c = None" "c_tree ?c = m"
    using cursor_at_new [OF m(1), of map_dim] by (simp_all add: cursor_new_def map_dim_def)
  obtain lo c1 where lo: "slice map_item map_dim ?c (adapt_target start) Left = Some (lo, c1)" "wf_tree map_item lo"
    "tree_items lo = takeWhile (before start) ?xs" "c_tree c1 = m"
    "cursor_at map_item map_dim (length (takeWhile (before start) ?xs)) c1"
    using map_laws.slice_ok [OF c(1), of "adapt_target start" Left] seek_adapt [OF m(2) assms(2)] c(2,3)
    by (auto simp: adapt_target_def simp flip: takeWhile_eq_take)
  obtain b c2 where c2: "seek map_dim c1 (adapt_target end) Left = Some (b, c2)" "c_tree c2 = m"
    "cursor_at map_item map_dim (length (takeWhile (before end) ?xs)) c2"
    using map_laws.seek_ok [OF lo(5), of "adapt_target end" Left] seek_adapt [OF m(2) assms(3)] lo(4)
    by (auto simp: adapt_target_def)
  obtain hi c3 where hi: "suffix map_item map_dim c2 = Some (hi, c3)" "wf_tree map_item hi"
    "tree_items hi = dropWhile (before end) ?xs"
    using map_laws.suffix_ok [OF c2(3)] c2(2) by (auto simp: dropWhile_eq_drop)
  show ?thesis
    using map_laws.append_tree_ok [OF lo(2) hi(2)] lo(1,3) c2(1) hi(1,3) by (auto simp: tm_remove_range_def)
qed

lemma range_split:
  assumes "sorted_keys me_key xs" "range_bound start" "range_bound end" "\<And>k. start k = Greater \<Longrightarrow> end k = Greater"
  shows "takeWhile (before start) xs @ dropWhile (before end) xs = filter (\<lambda>e. before start e \<or> \<not> before end e) xs"
  using assms(1)
proof (induction xs)
  case (Cons x xs)
  have down: "before cmp x" if "range_bound cmp" "y \<in> set xs" "before cmp y" for cmp y
    using that Cons.prems by (auto simp: range_bound_def before_def)
  show ?case
  proof (cases "before end x")
    case True
    then show ?thesis
    proof (cases "before start x")
      case False
      then have "takeWhile (before start) xs = []" using down [OF assms(2)] by (cases xs) auto
      with True False Cons show ?thesis by simp
    qed (use Cons in simp)
  next
    case False
    then have "\<not> before start x" using assms(4) by (auto simp: before_def)
    moreover have "filter (\<lambda>e. before start e \<or> \<not> before end e) xs = xs"
      using down [OF assms(3)] False by (auto simp: filter_id_conv)
    ultimately show ?thesis using False by simp
  qed
qed simp

lemma tm_remove_range_ok:
  assumes "tm_ok m" "range_bound start" "range_bound end" "\<And>k. start k = Greater \<Longrightarrow> end k = Greater"
  shows "\<exists>m'. tm_remove_range m start end = Some m' \<and> tm_ok m' \<and>
    tree_items m' = filter (\<lambda>e. before start e \<or> \<not> before end e) (tree_items m)"
proof -
  have "sorted_keys me_key (tree_items m)" using assms(1) by (simp add: tm_ok_def)
  with tm_remove_range_items [OF assms(1-3)] show ?thesis
    by (auto simp: range_split [OF _ assms(2-4)] tm_ok_def sorted_keys_def sorted_wrt_filter)
qed

section \<open>The contract of a dictionary\<close>

datatype ('k, 'v) dict_op = Put 'k 'v | Delete 'k

fun dict_effect :: "('k, 'v) dict_op \<Rightarrow> ('k \<rightharpoonup> 'v) \<Rightarrow> 'k \<rightharpoonup> 'v" where
  "dict_effect (Put k v) m = m(k \<mapsto> v)"
| "dict_effect (Delete k) m = m(k := None)"

locale dictionary =
  fixes empty :: 'm and insert :: "'m \<Rightarrow> 'k \<Rightarrow> 'v \<Rightarrow> 'm option"
    and delete :: "'m \<Rightarrow> 'k \<Rightarrow> ('v option \<times> 'm) option" and lookup :: "'m \<Rightarrow> 'k \<Rightarrow> 'v option"
    and inv :: "'m \<Rightarrow> bool"
  assumes empty_ok: "inv empty" "lookup empty k = None"
    and insert_ok: "inv m \<Longrightarrow> \<exists>m'. insert m k v = Some m' \<and> inv m' \<and> lookup m' = (lookup m)(k \<mapsto> v)"
    and delete_ok: "inv m \<Longrightarrow> \<exists>m'. delete m k = Some (lookup m k, m') \<and> inv m' \<and> lookup m' = (lookup m)(k := None)"
begin

fun run :: "'m \<Rightarrow> ('k, 'v) dict_op list \<Rightarrow> 'm option" where
  "run m [] = Some m"
| "run m (Put k v # ops) = (case insert m k v of None \<Rightarrow> None | Some m' \<Rightarrow> run m' ops)"
| "run m (Delete k # ops) = (case delete m k of None \<Rightarrow> None | Some (_, m') \<Rightarrow> run m' ops)"

text \<open>Any sequence of operations succeeds and acts as on finite maps.\<close>

lemma run_ok:
  assumes "inv m"
  shows "\<exists>m'. run m ops = Some m' \<and> inv m' \<and> lookup m' = fold dict_effect ops (lookup m)"
  using assms
proof (induction m ops rule: run.induct)
  case (2 m k v ops)
  then show ?case using insert_ok [OF 2(2), of k v] by auto
next
  case (3 m k ops)
  then show ?case using delete_ok [OF 3(2), of k] by auto
qed simp

lemma run_empty: "\<exists>m'. run empty ops = Some m' \<and> inv m' \<and> lookup m' = fold dict_effect ops Map.empty"
proof -
  have "lookup empty = Map.empty" by (rule ext) (rule empty_ok(2))
  then show ?thesis using run_ok [OF empty_ok(1), of ops] by simp
qed

end

interpretation tm: dictionary tm_default tm_insert tm_remove tm_get
  "tm_ok :: ('k::linorder, 'v) tree_map \<Rightarrow> bool"
proof
  have get: "tm_get m = tm_map m" if "tm_ok m" for m :: "('k, 'v) tree_map"
    using tm_get_eq [OF that] by blast
  fix m :: "('k, 'v) tree_map" and k v
  show "tm_ok (tm_default :: ('k, 'v) tree_map)" by (simp add: tm_default_ok)
  show "tm_get (tm_default :: ('k, 'v) tree_map) k = None" by (simp add: tm_get_eq tm_default_ok)
  assume m: "tm_ok m"
  show "\<exists>m'. tm_insert m k v = Some m' \<and> tm_ok m' \<and> tm_get m' = (tm_get m)(k \<mapsto> v)"
    using tm_insert_or_replace_ok [OF m, of k v] get m by auto
  show "\<exists>m'. tm_remove m k = Some (tm_get m k, m') \<and> tm_ok m' \<and> tm_get m' = (tm_get m)(k := None)"
    using tm_remove_ok [OF m, of k] get m by auto
qed

text \<open>Restricting by a condition on keys, and the removal of a range of keys as an operation on finite maps.\<close>

lemma key_lookup_filter: "key_lookup key (filter (\<lambda>x. P (key x)) xs) k = (if P k then key_lookup key xs k else None)"
  by (induction xs) (auto simp: key_lookup_def)

lemma tm_remove_range_map:
  assumes "tm_ok m" "lo \<le> hi"
  shows "\<exists>m'. tm_remove_range m (ord_cmp lo) (ord_cmp hi) = Some m' \<and> tm_ok m' \<and>
    tm_map m' = tm_map m |` {k. k < lo \<or> hi \<le> k}"
proof -
  obtain m' where m': "tm_remove_range m (ord_cmp lo) (ord_cmp hi) = Some m'" "tm_ok m'"
    "tree_items m' = filter (\<lambda>e. before (ord_cmp lo) e \<or> \<not> before (ord_cmp hi) e) (tree_items m)"
    using tm_remove_range_ok [OF assms(1) range_bound_ord_cmp range_bound_ord_cmp, of lo hi] assms(2)
    by (meson less_le_trans ord_cmp_simps(3))
  have "tm_map m' k = (tm_map m |` {k. k < lo \<or> hi \<le> k}) k" for k
    using key_lookup_filter [of me_key "\<lambda>k. k < lo \<or> hi \<le> k" "tree_items m" k]
    by (cases "k < lo \<or> hi \<le> k") (auto simp: tm_map_def m'(3) before_def restrict_map_def not_less)
  then show ?thesis using m'(1,2) by blast
qed

text \<open>A sequence of insertions and removals on a \<^verbatim>\<open>TreeMap\<close>.\<close>

primrec tm_run :: "('k::linorder, 'v) tree_map \<Rightarrow> ('k, 'v) dict_op list \<Rightarrow> ('k, 'v) tree_map option" where
  "tm_run m [] = Some m"
| "tm_run m (op # ops) =
     (case op of Put k v \<Rightarrow> do { m' \<leftarrow> tm_insert m k v; tm_run m' ops }
      | Delete k \<Rightarrow> do { (_, m') \<leftarrow> tm_remove m k; tm_run m' ops })"

lemma tm_run_eq: "tm_run m ops = tm.run m ops"
  by (induction ops arbitrary: m) (auto split: dict_op.split bind_splits option.split prod.split)

end
