(* ===== verification/Undo_Map.thy ===== *)
theory Undo_Map
  imports Clock Keyed_Tree
begin

text \<open>
  \<^verbatim>\<open>crates/text/src/undo_map.rs\<close>: how often each edit has been undone. Every undo operation carries, for
  each edit it touches, a count; the map keeps all of them in a tree sorted by (edit, undo), and an edit
  is undone when the greatest count recorded for it is odd. The summary of a run of entries is the
  maximum of the keys.
\<close>

section \<open>Keys\<close>

datatype undo_map_key = UndoMapKey (key_edit: lamport) (key_undo: lamport)

text \<open>The derived order: field by field, in the order of the declaration.\<close>

definition undo_map_key_cmp :: "undo_map_key \<Rightarrow> undo_map_key \<Rightarrow> ordering" where
  "undo_map_key_cmp a b = then_with (lamport_cmp (key_edit a) (key_edit b)) (lamport_cmp (key_undo a) (key_undo b))"

lemma undo_map_key_cmp_Equal [simp]: "undo_map_key_cmp a b = Equal \<longleftrightarrow> a = b"
  by (auto simp: undo_map_key_cmp_def lamport_cmp_ord intro: undo_map_key.expand)

lemma undo_map_key_cmp_Less: "undo_map_key_cmp a b = Less \<longleftrightarrow> key_edit a < key_edit b \<or> key_edit a = key_edit b \<and> key_undo a < key_undo b"
  by (auto simp: undo_map_key_cmp_def lamport_cmp_ord)

instantiation undo_map_key :: linorder
begin

definition less_undo_map_key :: "undo_map_key \<Rightarrow> undo_map_key \<Rightarrow> bool" where
  "less_undo_map_key a b \<longleftrightarrow> undo_map_key_cmp a b = Less"

definition less_eq_undo_map_key :: "undo_map_key \<Rightarrow> undo_map_key \<Rightarrow> bool" where
  "less_eq_undo_map_key a b \<longleftrightarrow> undo_map_key_cmp a b \<noteq> Greater"

instance
  by standard (auto simp: less_undo_map_key_def less_eq_undo_map_key_def not_Greater undo_map_key_cmp_Less intro: undo_map_key.expand)

end

lemma less_undo_map_key_iff: "a < b \<longleftrightarrow> key_edit a < key_edit b \<or> key_edit a = key_edit b \<and> key_undo a < key_undo b" for a b :: undo_map_key
  by (simp add: less_undo_map_key_def undo_map_key_cmp_Less)

lemma less_eq_undo_map_key_iff: "a \<le> b \<longleftrightarrow> key_edit a < key_edit b \<or> key_edit a = key_edit b \<and> key_undo a \<le> key_undo b" for a b :: undo_map_key
  by (auto simp: order_le_less less_undo_map_key_iff intro: undo_map_key.expand)

lemma undo_map_key_cmp_ord: "undo_map_key_cmp a b = ord_cmp a b"
  by (rule ord_cmp_unique) (simp_all add: less_undo_map_key_def)

record undo_map_entry =
  um_key :: undo_map_key
  um_count :: u32

definition undo_item :: "(undo_map_entry, undo_map_key) item_impl" where
  "undo_item = \<lparr>szero = UndoMapKey lamport_MIN lamport_MIN, sadd = max, summarize = um_key\<rparr>"

definition undo_dim :: "(undo_map_key, undo_map_key) dim_impl" where
  "undo_dim = \<lparr>dzero = UndoMapKey lamport_MIN lamport_MIN, dadd = max\<rparr>"

definition undo_keyed :: "(undo_map_entry, undo_map_key, undo_map_key) keyed_impl" where
  "undo_keyed = \<lparr>kitem = undo_item, kdim = undo_dim, ikey = um_key\<rparr>"

type_synonym undo_map = "(undo_map_entry, undo_map_key) sum_tree"

section \<open>Operations\<close>

text \<open>
  \<^verbatim>\<open>UndoOperation\<close>. Its \<^verbatim>\<open>counts\<close> is a hash map: a list of pairs with distinct edits, in an unspecified order.
\<close>

record undo_operation =
  undo_timestamp :: lamport
  undo_version :: global
  undo_counts :: "(lamport \<times> u32) list"

definition um_default :: undo_map where
  "um_default = st_new undo_item"

definition undo_entry :: "lamport \<Rightarrow> lamport \<times> u32 \<Rightarrow> undo_map_entry" where
  "undo_entry undo_id ec = \<lparr>um_key = UndoMapKey (fst ec) undo_id, um_count = snd ec\<rparr>"

definition um_insert :: "undo_map \<Rightarrow> undo_operation \<Rightarrow> undo_map option" where
  "um_insert m undo = do {
     (_, m') \<leftarrow> edit_tree undo_keyed m
       (map (\<lambda>ec. Insert (undo_entry (undo_timestamp undo) ec)) (undo_counts undo));
     Some m' }"

text \<open>The loop over the entries of one edit; \<open>seen\<close> selects the undos that count.\<close>

partial_function (option) undo_count_loop ::
  "(undo_map_entry \<Rightarrow> bool) \<Rightarrow> lamport \<Rightarrow> (undo_map_entry, undo_map_key, undo_map_key) cursor \<Rightarrow> u32 \<Rightarrow> u32 option" where
  "undo_count_loop seen edit_id c undo_count = do {
     (item, c') \<leftarrow> cursor_iter_next undo_dim c;
     (case item of
        None \<Rightarrow> Some undo_count
      | Some e \<Rightarrow>
          if key_edit (um_key e) \<noteq> edit_id then Some undo_count
          else undo_count_loop seen edit_id c' (if seen e then max undo_count (um_count e) else undo_count)) }"

declare undo_count_loop.simps [code]

definition seek_edit :: "undo_map \<Rightarrow> lamport \<Rightarrow> (undo_map_entry, undo_map_key, undo_map_key) cursor option" where
  "seek_edit m edit_id = do {
     (_, c) \<leftarrow> seek undo_dim (cursor_new undo_dim m) (ord_cmp (UndoMapKey edit_id lamport_MIN)) Left;
     Some c }"

definition undo_count :: "undo_map \<Rightarrow> lamport \<Rightarrow> u32 option" where
  "undo_count m edit_id = do { c \<leftarrow> seek_edit m edit_id; undo_count_loop (\<lambda>_. True) edit_id c 0 }"

definition is_undone :: "undo_map \<Rightarrow> lamport \<Rightarrow> bool option" where
  "is_undone m edit_id = do { n \<leftarrow> undo_count m edit_id; Some (n mod 2 = 1) }"

definition was_undone :: "undo_map \<Rightarrow> lamport \<Rightarrow> global \<Rightarrow> bool option" where
  "was_undone m edit_id version = do {
     c \<leftarrow> seek_edit m edit_id;
     n \<leftarrow> undo_count_loop (\<lambda>e. global_observed version (key_undo (um_key e))) edit_id c 0;
     Some (n mod 2 = 1) }"

section \<open>The laws\<close>

lemma lamport_MIN_least [simp]: "lamport_MIN \<le> t"
  by (auto simp: less_eq_lamport_iff lamport_MIN_def less_eq_replica_id_def word_neq_0_conv)

lemma undo_key_least [simp]: "UndoMapKey lamport_MIN lamport_MIN \<le> k"
  by (simp add: less_eq_undo_map_key_iff) (metis lamport_MIN_least order_le_less)

lemma undo_keyed_simps [simp]: "kitem undo_keyed = undo_item" "kdim undo_keyed = undo_dim" "ikey undo_keyed = um_key"
  by (simp_all add: undo_keyed_def)

interpretation undo_laws: keyed_laws undo_keyed
  rewrites "kitem undo_keyed = undo_item" and "kdim undo_keyed = undo_dim" and "ikey undo_keyed = um_key"
    and "dzero undo_dim = UndoMapKey lamport_MIN lamport_MIN"
  by unfold_locales (simp_all add: undo_item_def undo_dim_def max.assoc max_absorb2)

lemma less_edit_key: "k < UndoMapKey e lamport_MIN \<longleftrightarrow> key_edit k < e"
  using lamport_MIN_least [of "key_undo k"] by (auto simp: less_undo_map_key_iff not_less simp del: lamport_MIN_least)

text \<open>
  The summary of a run of entries is their greatest key, so a filter that admits all keys from some key on admits the summary of
  whatever contains an admitted entry.
\<close>

lemma undo_smry_single: "undo_laws.smry [x] = um_key x"
  unfolding undo_laws.smry_def by (simp add: undo_item_def ssum_def max_absorb2)

lemma undo_smry_ge: "x \<in> set xs \<Longrightarrow> um_key x \<le> undo_laws.smry xs"
proof (induction xs rule: rev_induct)
  case (snoc y xs)
  have "sadd undo_item a b = max a b" for a b by (simp add: undo_item_def)
  then show ?case using snoc by (auto simp: undo_laws.smry_append undo_smry_single le_max_iff_disj)
qed simp

interpretation undo_from: filtering undo_item undo_dim "\<lambda>key. start \<le> key" for start
proof unfold_locales
  fix x xs
  assume "x \<in> set xs" "start \<le> summarize undo_item x"
  then show "start \<le> undo_laws.smry xs" using undo_smry_ge [of x xs] by (simp add: undo_item_def)
qed

text \<open>A well-formed undo map, and the count it records for an edit and an undo.\<close>

definition um_ok :: "undo_map \<Rightarrow> bool" where
  "um_ok m \<longleftrightarrow> wf_tree undo_item m \<and> sorted_keys um_key (tree_items m)"

definition um_map :: "undo_map \<Rightarrow> lamport \<times> lamport \<rightharpoonup> u32" where
  "um_map m eu = map_option um_count (key_lookup um_key (tree_items m) (UndoMapKey (fst eu) (snd eu)))"

lemma um_ok_keyed: "undo_laws.keyed_ok m \<longleftrightarrow> um_ok m"
  by (simp add: undo_laws.keyed_ok_def um_ok_def)

lemma um_default_ok: "um_ok um_default \<and> um_map um_default = Map.empty"
  by (simp add: um_ok_def um_map_def um_default_def fun_eq_iff)

lemma key_lookup_undo:
  "key_lookup (edit_key undo_keyed) (map (\<lambda>ec. Insert (undo_entry u ec)) ecs) (UndoMapKey e u') =
     (if u' = u then map_option (\<lambda>n. Insert (undo_entry u (e, n))) (map_of ecs e) else None)"
  by (induction ecs) (auto simp: undo_entry_def)

lemma um_insert_ok:
  assumes "um_ok m" "distinct (map fst (undo_counts undo))"
  shows "\<exists>m'. um_insert m undo = Some m' \<and> um_ok m' \<and>
    um_map m' = (\<lambda>(e, u). case map_of (undo_counts undo) e of
       Some n \<Rightarrow> if u = undo_timestamp undo then Some n else um_map m (e, u) | None \<Rightarrow> um_map m (e, u))"
proof -
  let ?es = "map (\<lambda>ec. Insert (undo_entry (undo_timestamp undo) ec)) (undo_counts undo) :: (undo_map_entry, undo_map_key) edit list"
  have "map (edit_key undo_keyed) ?es = map (\<lambda>e. UndoMapKey e (undo_timestamp undo)) (map fst (undo_counts undo))"
    by (simp add: undo_entry_def)
  then have "distinct (map (edit_key undo_keyed) ?es)" using assms(2) by (simp add: distinct_map inj_on_def del: map_map)
  then obtain rs m' where m': "edit_tree undo_keyed m ?es = Some (rs, m')" "undo_laws.keyed_ok m'"
    "undo_laws.entries m' = edit_effect undo_keyed ?es (undo_laws.entries m)"
    using undo_laws.edit_tree_ok [of m ?es] assms(1) um_ok_keyed by blast
  have "um_map m' (e, u) = (case map_of (undo_counts undo) e of
       Some n \<Rightarrow> if u = undo_timestamp undo then Some n else um_map m (e, u) | None \<Rightarrow> um_map m (e, u))" for e u
    using fun_cong [OF m'(3), of "UndoMapKey e u"]
    by (auto simp: um_map_def undo_laws.entries_def edit_effect_def key_lookup_undo split: option.split)
      (simp_all add: undo_entry_def)
  then show ?thesis using m'(1,2) by (auto simp: um_insert_def um_ok_keyed fun_eq_iff)
qed

section \<open>Counting\<close>

definition entries_of :: "undo_map \<Rightarrow> lamport \<Rightarrow> undo_map_entry list" where
  "entries_of m e = filter (\<lambda>x. key_edit (um_key x) = e) (tree_items m)"

lemma entries_of_range:
  assumes "sorted_keys um_key xs"
  shows "takeWhile (\<lambda>x. key_edit (um_key x) = e) (dropWhile (\<lambda>x. key_edit (um_key x) < e) xs) =
    filter (\<lambda>x. key_edit (um_key x) = e) xs"
  using assms
proof (induction xs)
  case (Cons x xs)
  have later: "key_edit (um_key x) \<le> key_edit (um_key y)" if "y \<in> set xs" for y
    using Cons.prems that by (auto simp: less_undo_map_key_iff)
  show ?case
  proof (cases "key_edit (um_key x) < e")
    case True
    then show ?thesis using Cons by auto
  next
    case False
    then have "\<forall>y\<in>set xs. e \<le> key_edit (um_key y)" using later by (auto intro: order_trans simp: not_less)
    then have "dropWhile (\<lambda>x. key_edit (um_key x) < e) xs = xs"
      by (cases xs) (auto simp: not_less)
    then have IH: "takeWhile (\<lambda>x. key_edit (um_key x) = e) xs = filter (\<lambda>x. key_edit (um_key x) = e) xs"
      using Cons by auto
    show ?thesis
    proof (cases "key_edit (um_key x) = e")
      case True
      with False IH show ?thesis by simp
    next
      case F: False
      have "\<forall>y\<in>set xs. key_edit (um_key y) \<noteq> e" using F False later by fastforce
      with F False show ?thesis by (simp add: filter_False)
    qed
  qed
qed simp

lemma undo_count_loop_ok:
  assumes "cursor_at undo_item undo_dim k c" "did_seek c"
  shows "undo_count_loop seen e c acc =
    Some (fold (\<lambda>x n. if seen x then max n (um_count x) else n)
      (takeWhile (\<lambda>x. key_edit (um_key x) = e) (drop k (tree_items (c_tree c)))) acc)"
  using assms
proof (induction "length (tree_items (c_tree c)) - k" arbitrary: k c acc rule: less_induct)
  case less
  let ?xs = "tree_items (c_tree c)"
  show ?case
  proof (cases "k < length ?xs")
    case True
    obtain c' where c': "cursor_iter_next undo_dim c = Some (Some (?xs ! k), c')" "c_tree c' = c_tree c" "did_seek c'"
        "cursor_at undo_item undo_dim (k + 1) c'"
      using undo_laws.cursor_iter_next_ok(1) [OF less.prems True] by blast
    have "undo_count_loop seen e c' acc' = Some (fold (\<lambda>x n. if seen x then max n (um_count x) else n)
        (takeWhile (\<lambda>x. key_edit (um_key x) = e) (drop (k + 1) ?xs)) acc')" for acc'
      using less.hyps [of c' "k + 1" acc'] c' diff_less_mono2 [of k "k + 1" "length ?xs"] True by simp
    then show ?thesis
      using c'(1) Cons_nth_drop_Suc [OF True, symmetric] by (subst undo_count_loop.simps) simp
  next
    case False
    then show ?thesis using undo_laws.cursor_iter_next_ok(2) [OF less.prems False] by (subst undo_count_loop.simps) simp
  qed
qed

lemma seek_edit_ok:
  assumes "um_ok m"
  shows "\<exists>c. seek_edit m e = Some c \<and> c_tree c = m \<and> did_seek c \<and>
    cursor_at undo_item undo_dim (length (takeWhile (\<lambda>x. key_edit (um_key x) < e) (tree_items m))) c"
proof -
  let ?k = "UndoMapKey e lamport_MIN" and ?xs = "tree_items m"
  have m: "wf_tree undo_item m" "sorted_keys um_key ?xs" using assms by (auto simp: um_ok_def)
  have bl: "undo_laws.below Left ?k = (\<lambda>x. key_edit (um_key x) < e)"
    by (rule ext) (simp add: undo_laws.below_def less_edit_key)
  have "seekable undo_item undo_dim (passes (ord_cmp ?k) Left) (UndoMapKey lamport_MIN lamport_MIN) ?xs"
    using undo_laws.seekable_keys [OF m(2)] by simp
  then show ?thesis
    using undo_laws.seek_ok [OF cursor_at_new [OF m(1)], of "ord_cmp ?k" Left]
      undo_laws.seek_count_key [OF m(2), of ?k Left] by (auto simp: seek_edit_def bl not_less)
qed

lemma undo_counts_ok:
  assumes "um_ok m"
  shows "\<exists>c. seek_edit m e = Some c \<and> undo_count_loop seen e c 0 =
    Some (fold max (map um_count (filter seen (entries_of m e))) 0)"
proof -
  have srt: "sorted_keys um_key (tree_items m)" using assms by (simp add: um_ok_def)
  obtain c where c: "seek_edit m e = Some c" "c_tree c = m" "did_seek c"
      "cursor_at undo_item undo_dim (length (takeWhile (\<lambda>x. key_edit (um_key x) < e) (tree_items m))) c"
    using seek_edit_ok [OF assms] by blast
  have "fold (\<lambda>x n. if seen x then max n (um_count x) else n) xs a = fold max (map um_count (filter seen xs)) a" for xs a
    by (induction xs arbitrary: a) (auto simp: max.commute)
  then show ?thesis
    using undo_count_loop_ok [OF c(4,3), of seen e 0] c(1,2) entries_of_range [OF srt, of e]
    by (simp add: entries_of_def dropWhile_eq_drop)
qed

lemma fold_max_Max: "fold max xs (a :: 'n::linorder) = Max (Set.insert a (set xs))"
proof (induction xs arbitrary: a)
  case (Cons x xs)
  have "Max (Set.insert a (Set.insert x (set xs))) = max a (Max (Set.insert x (set xs)))" by (rule Max_insert) auto
  moreover have "Max (Set.insert (max x a) (set xs)) = max a (Max (Set.insert x (set xs)))"
    by (cases "set xs = {}") (auto simp: Max_insert max.assoc max.commute max.left_commute)
  ultimately show ?case using Cons.IH [of "max x a"] by (simp add: insert_commute)
qed simp

lemma entries_of_counts:
  assumes "um_ok m"
  shows "um_count ` set (filter (\<lambda>x. seen (key_undo (um_key x))) (entries_of m e)) =
    {n. \<exists>u. um_map m (e, u) = Some n \<and> seen u}"
proof -
  have "distinct (map um_key (tree_items m))"
    using assms by (simp add: um_ok_def distinct_sorted_keys)
  note lookup = key_lookup_distinct [OF this]
  show ?thesis
  proof (intro set_eqI iffI)
    fix n assume "n \<in> um_count ` set (filter (\<lambda>x. seen (key_undo (um_key x))) (entries_of m e))"
    then obtain x where "x \<in> set (tree_items m)" "key_edit (um_key x) = e" "seen (key_undo (um_key x))" "um_count x = n"
      by (auto simp: entries_of_def)
    then show "n \<in> {n. \<exists>u. um_map m (e, u) = Some n \<and> seen u}"
      by (intro CollectI exI [of _ "key_undo (um_key x)"]) (auto simp: um_map_def lookup)
  next
    fix n assume "n \<in> {n. \<exists>u. um_map m (e, u) = Some n \<and> seen u}"
    then show "n \<in> um_count ` set (filter (\<lambda>x. seen (key_undo (um_key x))) (entries_of m e))"
      by (auto simp: um_map_def entries_of_def lookup image_iff)
  qed
qed

text \<open>The count of an edit is the greatest count that an undo recorded for it, zero if none did.\<close>

lemma undo_count_ok:
  assumes "um_ok m"
  shows "undo_count m e = Some (Max (Set.insert 0 {n. \<exists>u. um_map m (e, u) = Some n}))"
  using undo_counts_ok [OF assms, of e "\<lambda>_. True"] entries_of_counts [OF assms, of "\<lambda>_. True" e]
  by (auto simp: undo_count_def fold_max_Max)

lemma was_undone_ok:
  assumes "um_ok m"
  shows "was_undone m e version =
    Some (Max (Set.insert 0 {n. \<exists>u. um_map m (e, u) = Some n \<and> global_observed version u}) mod 2 = 1)"
  using undo_counts_ok [OF assms, of e "\<lambda>x. global_observed version (key_undo (um_key x))"]
    entries_of_counts [OF assms, of "global_observed version" e]
  by (auto simp: was_undone_def fold_max_Max)

section \<open>The order of undo operations\<close>

primrec um_insert_all :: "undo_map \<Rightarrow> undo_operation list \<Rightarrow> undo_map option" where
  "um_insert_all m [] = Some m"
| "um_insert_all m (undo # undos) = do { m' \<leftarrow> um_insert m undo; um_insert_all m' undos }"

definition undo_effect :: "undo_operation list \<Rightarrow> (lamport \<times> lamport \<rightharpoonup> u32) \<Rightarrow> lamport \<times> lamport \<rightharpoonup> u32" where
  "undo_effect undos f = (\<lambda>(e, u). case List.find (\<lambda>undo. undo_timestamp undo = u) undos of
     None \<Rightarrow> f (e, u)
   | Some undo \<Rightarrow> (case map_of (undo_counts undo) e of None \<Rightarrow> f (e, u) | Some n \<Rightarrow> Some n))"

lemma um_insert_all_ok:
  assumes "um_ok m" "\<forall>undo\<in>set undos. distinct (map fst (undo_counts undo))" "distinct (map undo_timestamp undos)"
  shows "\<exists>m'. um_insert_all m undos = Some m' \<and> um_ok m' \<and> um_map m' = undo_effect undos (um_map m)"
  using assms
proof (induction undos arbitrary: m)
  case (Cons undo undos)
  obtain m1 where m1: "um_insert m undo = Some m1" "um_ok m1"
    "um_map m1 = (\<lambda>(e, u). case map_of (undo_counts undo) e of
       Some n \<Rightarrow> if u = undo_timestamp undo then Some n else um_map m (e, u) | None \<Rightarrow> um_map m (e, u))"
    using um_insert_ok [of m undo] Cons.prems by auto
  obtain m2 where m2: "um_insert_all m1 undos = Some m2" "um_ok m2" "um_map m2 = undo_effect undos (um_map m1)"
    using Cons.IH [OF m1(2)] Cons.prems by auto
  have none: "List.find (\<lambda>o'. undo_timestamp o' = undo_timestamp undo) undos = None"
    using Cons.prems(3) by (auto simp: find_None_iff image_iff)
  have "um_map m2 = undo_effect (undo # undos) (um_map m)"
    using none by (auto simp: m2(3) m1(3) undo_effect_def fun_eq_iff split: option.splits)
  then show ?case using m1(1) m2 by auto
qed (simp add: undo_effect_def)

lemma find_permuted:
  assumes "distinct (map f xs)" "set xs = set ys" "distinct (map f ys)"
  shows "List.find (\<lambda>x. f x = k) xs = List.find (\<lambda>x. f x = k) ys"
proof (cases "List.find (\<lambda>x. f x = k) xs")
  case None
  then show ?thesis using assms(2) by (metis find_None_iff)
next
  case (Some x)
  then have x: "x \<in> set ys" "f x = k" using assms(2) by (auto simp: find_Some_iff)
  then obtain y where y: "List.find (\<lambda>x. f x = k) ys = Some y"
    by (cases "List.find (\<lambda>x. f x = k) ys") (auto simp: find_None_iff)
  then have "y \<in> set ys" "f y = k" by (auto simp: find_Some_iff)
  then have "y = x" using x assms(3) by (auto simp: distinct_map inj_on_def)
  then show ?thesis using Some y by simp
qed

text \<open>Undo operations with different timestamps have the same effect in any order.\<close>

lemma um_insert_any_order:
  assumes "um_ok m" "\<forall>undo\<in>set undos. distinct (map fst (undo_counts undo))" "distinct (map undo_timestamp undos)"
    and "set undos' = set undos" "distinct (map undo_timestamp undos')"
  shows "\<exists>a b. um_insert_all m undos = Some a \<and> um_insert_all m undos' = Some b \<and> um_map a = um_map b \<and>
    (\<forall>e. undo_count a e = undo_count b e) \<and> (\<forall>e v. was_undone a e v = was_undone b e v)"
proof -
  obtain a where a: "um_insert_all m undos = Some a" "um_ok a" "um_map a = undo_effect undos (um_map m)"
    using um_insert_all_ok [OF assms(1-3)] by blast
  obtain b where b: "um_insert_all m undos' = Some b" "um_ok b" "um_map b = undo_effect undos' (um_map m)"
    using um_insert_all_ok [OF assms(1) assms(2) [folded assms(4)] assms(5)] by blast
  have "undo_effect undos' = undo_effect undos"
    using find_permuted [OF assms(5,4,3)] by (simp add: undo_effect_def fun_eq_iff)
  then have same: "um_map a = um_map b" using a b by simp
  have "undo_count a e = undo_count b e" for e
    unfolding undo_count_ok [OF a(2)] undo_count_ok [OF b(2)] same ..
  moreover have "was_undone a e v = was_undone b e v" for e v
    unfolding was_undone_ok [OF a(2)] was_undone_ok [OF b(2)] same ..
  ultimately show ?thesis using a(1) b(1) same by blast
qed

end
