(* ===== verification/Patch.thy ===== *)
theory Patch
  imports Prelude "HOL-Library.Monad_Syntax"
begin

text \<open>
  \<^verbatim>\<open>Patch\<close> of \<^verbatim>\<open>crates/text/src/patch.rs\<close> and \<^verbatim>\<open>Edit\<close> of \<^verbatim>\<open>text.rs\<close>, at the offset type \<^verbatim>\<open>usize\<close>: a sorted list of
  edits, each replacing a range of old offsets by a range of new offsets, and their composition.

  Offsets are natural numbers. Every subtraction of the source is \<open>usize_sub\<close>, which is \<open>None\<close> where the
  machine subtraction would underflow (a panic with overflow checks, a wrapped value without); the
  theorems show that it never does for well-formed patches. Sums of offsets are bounded by buffer
  lengths and are not truncated.

  The meaning of a patch is the partial function \<open>keep\<close> from the old offsets that survive to their new
  offsets. Composition of patches is composition of these functions.
\<close>

section \<open>Edits\<close>

text \<open>The ranges \<^verbatim>\<open>old\<close> and \<^verbatim>\<open>new\<close> of an \<^verbatim>\<open>Edit\<close>, by their ends.\<close>

record text_edit =
  eo_start :: nat
  eo_end :: nat
  en_start :: nat
  en_end :: nat

type_synonym patch = "text_edit list"

definition usize_sub :: "nat \<Rightarrow> nat \<Rightarrow> nat option" where
  "usize_sub a b = (if b \<le> a then Some (a - b) else None)"

definition edit_is_empty :: "text_edit \<Rightarrow> bool" where
  "edit_is_empty e \<longleftrightarrow> eo_start e = eo_end e \<and> en_start e = en_end e"

definition old_len :: "text_edit \<Rightarrow> nat option" where
  "old_len e = usize_sub (eo_end e) (eo_start e)"

definition new_len :: "text_edit \<Rightarrow> nat option" where
  "new_len e = usize_sub (en_end e) (en_start e)"

section \<open>Building patches\<close>

definition patch_empty :: patch where
  "patch_empty = []"

text \<open>The ordering that \<^verbatim>\<open>Patch::new\<close> asserts in debug builds.\<close>

fun debug_ordered :: "patch \<Rightarrow> bool" where
  "debug_ordered (a # b # p) \<longleftrightarrow> eo_end a < eo_start b \<and> en_end a < en_start b \<and> debug_ordered (b # p)"
| "debug_ordered _ \<longleftrightarrow> True"

definition patch_new :: "patch \<Rightarrow> patch option" where
  "patch_new edits = (if debug_ordered edits then Some edits else None)"

definition patch_invert :: "patch \<Rightarrow> patch" where
  "patch_invert p = map (\<lambda>e. \<lparr>eo_start = en_start e, eo_end = en_end e, en_start = eo_start e, en_end = eo_end e\<rparr>) p"

definition patch_clear :: "patch \<Rightarrow> patch" where
  "patch_clear p = []"

definition patch_is_empty :: "patch \<Rightarrow> bool" where
  "patch_is_empty p \<longleftrightarrow> p = []"

definition push_maybe_empty :: "patch \<Rightarrow> text_edit \<Rightarrow> patch" where
  "push_maybe_empty p e =
     (if p = [] then [e]
      else if eo_start e \<le> eo_end (last p)
        then butlast p @ [(last p)\<lparr>eo_end := eo_end e, en_end := en_end e\<rparr>]
        else p @ [e])"

definition patch_push :: "patch \<Rightarrow> text_edit \<Rightarrow> patch" where
  "patch_push p e = (if edit_is_empty e then p else push_maybe_empty p e)"

text \<open>\<^verbatim>\<open>retain_mut\<close>: the closure returns whether to keep the edit and the edit it leaves behind.\<close>

definition patch_retain_mut :: "(text_edit \<Rightarrow> bool \<times> text_edit) \<Rightarrow> patch \<Rightarrow> patch" where
  "patch_retain_mut f p = map snd (filter fst (map f p))"

section \<open>Composition\<close>

record compose_state =
  c_out :: patch
  c_old :: nat
  c_new :: nat

text \<open>The two catch-up branches: push the old edit alone, or the new edit alone.\<close>

definition push_old :: "text_edit \<Rightarrow> compose_state \<Rightarrow> compose_state option" where
  "push_old a st = do {
     catchup \<leftarrow> usize_sub (eo_start a) (c_old st);
     let old_start = c_old st + catchup;
     let new_start = c_new st + catchup;
     ol \<leftarrow> old_len a;
     nl \<leftarrow> new_len a;
     let old_end = old_start + ol;
     let new_end = new_start + nl;
     Some \<lparr>c_out = patch_push (c_out st)
             \<lparr>eo_start = old_start, eo_end = old_end, en_start = new_start, en_end = new_end\<rparr>,
           c_old = old_end, c_new = new_end\<rparr> }"

definition push_new :: "text_edit \<Rightarrow> compose_state \<Rightarrow> compose_state option" where
  "push_new b st = do {
     catchup \<leftarrow> usize_sub (en_start b) (c_new st);
     let old_start = c_old st + catchup;
     let new_start = c_new st + catchup;
     ol \<leftarrow> old_len b;
     nl \<leftarrow> new_len b;
     let old_end = old_start + ol;
     let new_end = new_start + nl;
     Some \<lparr>c_out = patch_push (c_out st)
             \<lparr>eo_start = old_start, eo_end = old_end, en_start = new_start, en_end = new_end\<rparr>,
           c_old = old_end, c_new = new_end\<rparr> }"

text \<open>Intersecting edits: first advance whichever starts earlier to the start of the other.\<close>

definition align_edits ::
  "text_edit \<Rightarrow> text_edit \<Rightarrow> compose_state \<Rightarrow> (text_edit \<times> text_edit \<times> compose_state) option" where
  "align_edits a b st =
     (if en_start a < eo_start b then do {
        catchup \<leftarrow> usize_sub (eo_start a) (c_old st);
        let old_start = c_old st + catchup;
        let new_start = c_new st + catchup;
        overshoot \<leftarrow> usize_sub (eo_start b) (en_start a);
        let old_end = min (old_start + overshoot) (eo_end a);
        let new_end = new_start + overshoot;
        Some (a\<lparr>eo_start := old_end, en_start := en_start a + overshoot\<rparr>, b,
              \<lparr>c_out = patch_push (c_out st)
                 \<lparr>eo_start = old_start, eo_end = old_end, en_start = new_start, en_end = new_end\<rparr>,
               c_old = old_end, c_new = new_end\<rparr>)
      } else do {
        catchup \<leftarrow> usize_sub (en_start b) (c_new st);
        let old_start = c_old st + catchup;
        let new_start = c_new st + catchup;
        overshoot \<leftarrow> usize_sub (en_start a) (eo_start b);
        let old_end = old_start + overshoot;
        let new_end = min (new_start + overshoot) (en_end b);
        Some (a, b\<lparr>eo_start := eo_start b + overshoot, en_start := new_end\<rparr>,
              \<lparr>c_out = patch_push (c_out st)
                 \<lparr>eo_start = old_start, eo_end = old_end, en_start = new_start, en_end = new_end\<rparr>,
               c_old = old_end, c_new = new_end\<rparr>)
      })"

text \<open>Then consume the one that ends first: the new edit, or the old one.\<close>

definition consume_new :: "text_edit \<Rightarrow> text_edit \<Rightarrow> compose_state \<Rightarrow> (text_edit \<times> compose_state) option" where
  "consume_new a b st = do {
     ol \<leftarrow> old_len a;
     bl \<leftarrow> old_len b;
     nl \<leftarrow> new_len b;
     let old_end = c_old st + min ol bl;
     let new_end = c_new st + nl;
     Some (a\<lparr>eo_start := old_end, en_start := eo_end b\<rparr>,
           \<lparr>c_out = patch_push (c_out st)
              \<lparr>eo_start = c_old st, eo_end = old_end, en_start = c_new st, en_end = new_end\<rparr>,
            c_old = old_end, c_new = new_end\<rparr>) }"

definition consume_old :: "text_edit \<Rightarrow> text_edit \<Rightarrow> compose_state \<Rightarrow> (text_edit \<times> compose_state) option" where
  "consume_old a b st = do {
     ol \<leftarrow> old_len a;
     al \<leftarrow> new_len a;
     nl \<leftarrow> new_len b;
     let old_end = c_old st + ol;
     let new_end = c_new st + min al nl;
     Some (b\<lparr>eo_start := en_end a, en_start := new_end\<rparr>,
           \<lparr>c_out = patch_push (c_out st)
              \<lparr>eo_start = c_old st, eo_end = old_end, en_start = c_new st, en_end = new_end\<rparr>,
            c_old = old_end, c_new = new_end\<rparr>) }"

function (sequential) compose_loop :: "patch \<Rightarrow> patch \<Rightarrow> compose_state \<Rightarrow> patch option" where
  "compose_loop [] [] st = Some (c_out st)"
| "compose_loop (a # olds) [] st = do { st' \<leftarrow> push_old a st; compose_loop olds [] st' }"
| "compose_loop [] (b # news) st = do { st' \<leftarrow> push_new b st; compose_loop [] news st' }"
| "compose_loop (a # olds) (b # news) st =
     (if en_end a < eo_start b then do { st' \<leftarrow> push_old a st; compose_loop olds (b # news) st' }
      else if eo_end b < en_start a then do { st' \<leftarrow> push_new b st; compose_loop (a # olds) news st' }
      else do {
        (a', b', st') \<leftarrow> align_edits a b st;
        if eo_end b' < en_end a' then do {
          (a'', st'') \<leftarrow> consume_new a' b' st';
          compose_loop (a'' # olds) news st''
        } else do {
          (b'', st'') \<leftarrow> consume_old a' b' st';
          compose_loop olds (b'' # news) st''
        } })"
  by pat_completeness auto
termination
  by (relation "measure (\<lambda>(olds, news, st). length olds + length news)") auto

definition patch_compose :: "patch \<Rightarrow> patch \<Rightarrow> patch option" where
  "patch_compose self new_edits = compose_loop self new_edits \<lparr>c_out = [], c_old = 0, c_new = 0\<rparr>"

section \<open>Translating positions\<close>

text \<open>
  \<^verbatim>\<open>slice::binary_search_by\<close> on the old starts. On a patch with increasing old starts there is one
  answer: the index of the edit that starts at the position, or the index to insert it at.
\<close>

definition search_start :: "patch \<Rightarrow> nat \<Rightarrow> nat + nat" where
  "search_start p old =
     (let n = length (takeWhile (\<lambda>e. eo_start e < old) p) in
      if n < length p \<and> eo_start (p ! n) = old then Inr n else Inl n)"

definition old_to_new :: "patch \<Rightarrow> nat \<Rightarrow> nat option" where
  "old_to_new p old =
     (case (case search_start p old of Inr ix \<Rightarrow> Some ix | Inl ix \<Rightarrow> if ix = 0 then None else Some (ix - 1)) of
        None \<Rightarrow> Some old
      | Some ix \<Rightarrow>
          if ix < length p then
            (let edit = p ! ix in
             if eo_end edit \<le> old
             then do { d \<leftarrow> usize_sub old (eo_end edit); Some (en_end edit + d) }
             else Some (en_start edit))
          else Some old)"

definition edit_for_old_position :: "patch \<Rightarrow> nat \<Rightarrow> text_edit option" where
  "edit_for_old_position p old =
     (let here = \<lparr>eo_start = old, eo_end = old, en_start = old, en_end = old\<rparr> in
      case (case search_start p old of Inr ix \<Rightarrow> Some ix | Inl ix \<Rightarrow> if ix = 0 then None else Some (ix - 1)) of
        None \<Rightarrow> Some here
      | Some ix \<Rightarrow>
          if ix < length p then
            (let edit = p ! ix in
             if eo_end edit < old then do {
               d \<leftarrow> usize_sub old (eo_end edit);
               let translated = en_end edit + d;
               Some \<lparr>eo_start = old, eo_end = old, en_start = translated, en_end = translated\<rparr>
             } else Some edit)
          else Some here)"

end
