(* ===== verification/Patch_Correct.thy ===== *)
theory Patch_Correct
  imports Patch
begin

text \<open>
  The meaning of patches: \<open>keep\<close>, and what the operations of \<open>Patch\<close> do to it. Composition never
  underflows on well-formed patches, keeps them canonical (the order that \<^verbatim>\<open>Patch::new\<close> asserts, no empty
  edit), and an offset survives the composed patch exactly when it survives both.
\<close>

section \<open>Meaning\<close>

text \<open>\<open>keep x y p\<close>: where the offsets from \<open>x\<close> on go, when \<open>x\<close> itself corresponds to \<open>y\<close>.\<close>

fun keep :: "nat \<Rightarrow> nat \<Rightarrow> patch \<Rightarrow> nat \<rightharpoonup> nat" where
  "keep x y [] i = (if i < x then None else Some (y + (i - x)))"
| "keep x y (e # p) i =
     (if i < x then None else if i < eo_start e then Some (y + (i - x)) else keep (eo_end e) (en_end e) p i)"

definition edit_fits :: "nat \<Rightarrow> nat \<Rightarrow> text_edit \<Rightarrow> bool" where
  "edit_fits x y e \<longleftrightarrow> x \<le> eo_start e \<and> y \<le> en_start e \<and> eo_start e + y = en_start e + x \<and>
     eo_start e \<le> eo_end e \<and> en_start e \<le> en_end e"

fun wf_patch :: "nat \<Rightarrow> nat \<Rightarrow> patch \<Rightarrow> bool" where
  "wf_patch x y [] \<longleftrightarrow> True"
| "wf_patch x y (e # p) \<longleftrightarrow> edit_fits x y e \<and> wf_patch (eo_end e) (en_end e) p"

text \<open>\<open>ends x y p x' y'\<close>: well formed, and its edits end before \<open>x'\<close> and \<open>y'\<close>, which correspond.\<close>

fun ends :: "nat \<Rightarrow> nat \<Rightarrow> patch \<Rightarrow> nat \<Rightarrow> nat \<Rightarrow> bool" where
  "ends x y [] x' y' \<longleftrightarrow> x \<le> x' \<and> y \<le> y' \<and> x' + y = y' + x"
| "ends x y (e # p) x' y' \<longleftrightarrow> edit_fits x y e \<and> ends (eo_end e) (en_end e) p x' y'"

lemma ends_wf: "ends x y p x' y' \<Longrightarrow> wf_patch x y p"
  by (induction x y p x' y' rule: ends.induct) auto

lemma edit_fitsD: "edit_fits x y e \<Longrightarrow> x \<le> eo_end e \<and> y \<le> en_end e"
  by (simp add: edit_fits_def)

lemma ends_le: "ends x y p x' y' \<Longrightarrow> x \<le> x' \<and> y \<le> y'"
proof (induction x y p x' y' rule: ends.induct)
  case (2 x y e p x' y')
  then have "x \<le> eo_end e \<and> y \<le> en_end e" by (intro edit_fitsD) simp
  moreover have "eo_end e \<le> x' \<and> en_end e \<le> y'" using 2 by simp
  ultimately show ?case by simp
qed simp

lemma ends_gap: "ends x y p x' y' \<Longrightarrow> ends x y p (x' + g) (y' + g)"
  by (induction x y p x' y' rule: ends.induct) auto

lemma keep_gap: "ends x y p x' y' \<Longrightarrow> x' \<le> i \<Longrightarrow> keep x y p i = Some (y' + (i - x'))"
proof (induction x y p x' y' rule: ends.induct)
  case (2 x y e p x' y')
  then show ?case using ends_le [of "eo_end e" "en_end e" p x' y'] by (auto simp: edit_fits_def)
qed auto

lemma keep_bounds: "wf_patch x y p \<Longrightarrow> keep x y p i = Some j \<Longrightarrow> x \<le> i \<and> y \<le> j"
proof (induction x y p i rule: keep.induct)
  case (2 x y e p i)
  then show ?case by (force simp: edit_fits_def split: if_splits)
qed (auto split: if_splits)

lemma keep_below: "i < x \<Longrightarrow> keep x y p i = None"
  by (cases p) auto

section \<open>Canonical patches\<close>

definition canonical_patch :: "patch \<Rightarrow> bool" where
  "canonical_patch p \<longleftrightarrow> debug_ordered p \<and> (\<forall>e\<in>set p. \<not> edit_is_empty e)"

lemma push_maybe_empty_Cons2: "push_maybe_empty (a # b # p) e = a # push_maybe_empty (b # p) e"
  by (simp add: push_maybe_empty_def)

text \<open>Pushing an edit that starts \<open>g\<close> after the end of what the patch covers.\<close>

lemma push_ends:
  fixes g ol nl
  assumes "ends x y p x' y'"
  defines "e \<equiv> \<lparr>eo_start = x' + g, eo_end = x' + g + ol, en_start = y' + g, en_end = y' + g + nl\<rparr>"
  shows "ends x y (push_maybe_empty p e) (x' + g + ol) (y' + g + nl) \<and>
    (\<forall>i < x' + g + ol. keep x y (push_maybe_empty p e) i = (if i < x' + g then keep x y p i else None))"
  using assms(1) unfolding e_def
proof (induction x y p x' y' rule: ends.induct)
  case (1 x y x' y')
  then show ?case by (auto simp: push_maybe_empty_def edit_fits_def)
next
  case (2 x y a p x' y')
  show ?case
  proof (cases p)
    case Nil
    then show ?thesis using 2(2) by (auto simp: push_maybe_empty_def edit_fits_def)
  next
    case (Cons b q)
    then show ?thesis
      using 2 ends_le [of "eo_end a" "en_end a" p x' y']
      by (auto simp: push_maybe_empty_Cons2 edit_fits_def)
  qed
qed

lemma debug_ordered_push:
  assumes "ends x y p x' y'" "debug_ordered p"
  shows "debug_ordered (push_maybe_empty p \<lparr>eo_start = x' + g, eo_end = u, en_start = y' + g, en_end = v\<rparr>)"
  using assms
proof (induction x y p x' y' rule: ends.induct)
  case (2 x y a p x' y')
  show ?case
  proof (cases p)
    case Nil
    then show ?thesis using 2(2) by (auto simp: push_maybe_empty_def)
  next
    case (Cons b q)
    let ?e = "\<lparr>eo_start = x' + g, eo_end = u, en_start = y' + g, en_end = v\<rparr>"
    have "debug_ordered (push_maybe_empty (b # q) ?e)" using 2 Cons by auto
    moreover have "eo_start (hd (push_maybe_empty (b # q) ?e)) = eo_start b \<and>
        en_start (hd (push_maybe_empty (b # q) ?e)) = en_start b \<and> push_maybe_empty (b # q) ?e \<noteq> []"
      by (cases q) (auto simp: push_maybe_empty_def)
    ultimately show ?thesis using 2(3) Cons
      by (cases "push_maybe_empty (b # q) ?e") (auto simp: push_maybe_empty_Cons2)
  qed
qed (simp add: push_maybe_empty_def)

lemma nonempty_push:
  assumes "ends x y p x' y'" "\<forall>e\<in>set p. \<not> edit_is_empty e"
    and "\<not> edit_is_empty \<lparr>eo_start = x' + g, eo_end = x' + g + ol, en_start = y' + g, en_end = y' + g + nl\<rparr>"
  shows "\<forall>e\<in>set (push_maybe_empty p \<lparr>eo_start = x' + g, eo_end = x' + g + ol, en_start = y' + g, en_end = y' + g + nl\<rparr>).
    \<not> edit_is_empty e"
  using assms
proof (induction x y p x' y' rule: ends.induct)
  case (2 x y a p x' y')
  show ?case
  proof (cases p)
    case Nil
    then show ?thesis using 2(2-4) by (auto simp: push_maybe_empty_def edit_is_empty_def edit_fits_def)
  next
    case (Cons b q)
    then show ?thesis using 2 by (auto simp: push_maybe_empty_Cons2)
  qed
qed (simp add: push_maybe_empty_def)

text \<open>The invariant of the composed part, and what a push does to it.\<close>

definition composed :: "compose_state \<Rightarrow> bool" where
  "composed st \<longleftrightarrow> ends 0 0 (c_out st) (c_old st) (c_new st) \<and> canonical_patch (c_out st)"

definition pushed :: "compose_state \<Rightarrow> nat \<Rightarrow> nat \<Rightarrow> nat \<Rightarrow> compose_state" where
  "pushed st g ol nl = \<lparr>c_out = patch_push (c_out st)
      \<lparr>eo_start = c_old st + g, eo_end = c_old st + g + ol, en_start = c_new st + g, en_end = c_new st + g + nl\<rparr>,
    c_old = c_old st + g + ol, c_new = c_new st + g + nl\<rparr>"

lemma pushed_sel [simp]: "c_old (pushed st g ol nl) = c_old st + g + ol" "c_new (pushed st g ol nl) = c_new st + g + nl"
  by (simp_all add: pushed_def)

lemma composed_pushed:
  assumes "composed st"
  shows "composed (pushed st g ol nl)"
    and "i < c_old st + g + ol \<Longrightarrow> keep 0 0 (c_out (pushed st g ol nl)) i =
      (if i < c_old st then keep 0 0 (c_out st) i
       else if i < c_old st + g then Some (c_new st + (i - c_old st)) else None)"
proof -
  let ?e = "\<lparr>eo_start = c_old st + g, eo_end = c_old st + g + ol, en_start = c_new st + g, en_end = c_new st + g + nl\<rparr>"
  have st: "ends 0 0 (c_out st) (c_old st) (c_new st)" "canonical_patch (c_out st)"
    using assms by (auto simp: composed_def)
  note push = push_ends [OF st(1), of g ol nl]
  show "composed (pushed st g ol nl)"
  proof (cases "edit_is_empty ?e")
    case True
    then show ?thesis using st ends_gap [OF st(1), of g] by (simp add: composed_def pushed_def patch_push_def edit_is_empty_def)
  next
    case False
    then show ?thesis
      using st push debug_ordered_push [OF st(1)] nonempty_push [OF st(1)]
      by (auto simp: composed_def pushed_def patch_push_def canonical_patch_def)
  qed
  assume i: "i < c_old st + g + ol"
  show "keep 0 0 (c_out (pushed st g ol nl)) i =
      (if i < c_old st then keep 0 0 (c_out st) i
       else if i < c_old st + g then Some (c_new st + (i - c_old st)) else None)"
  proof (cases "edit_is_empty ?e")
    case True
    then show ?thesis using i keep_gap [OF st(1), of i] by (auto simp: pushed_def patch_push_def edit_is_empty_def)
  next
    case False
    then show ?thesis using i push keep_gap [OF st(1), of i] by (auto simp: pushed_def patch_push_def)
  qed
qed

section \<open>Composition\<close>

text \<open>
  The loop invariant: the remaining old edits map the old offsets to middle offsets from \<open>m\<close> on, the
  remaining new edits map those to new offsets. \<open>rest\<close> is the meaning of the composed patch if the loop
  went on from here; every step leaves it unchanged.
\<close>

definition ready :: "patch \<Rightarrow> patch \<Rightarrow> nat \<Rightarrow> compose_state \<Rightarrow> bool" where
  "ready olds news m st \<longleftrightarrow> composed st \<and> wf_patch (c_old st) m olds \<and> wf_patch m (c_new st) news"

definition rest :: "patch \<Rightarrow> patch \<Rightarrow> nat \<Rightarrow> compose_state \<Rightarrow> nat \<rightharpoonup> nat" where
  "rest olds news m st i = (if i < c_old st then keep 0 0 (c_out st) i
     else Option.bind (keep (c_old st) m olds i) (keep m (c_new st) news))"

lemma keep_shift:
  assumes "wf_patch x y p" "p = [] \<or> x + d \<le> eo_start (hd p)"
  shows "wf_patch (x + d) (y + d) p"
    and "x + d \<le> i \<Longrightarrow> keep (x + d) (y + d) p i = keep x y p i"
    and "x \<le> i \<Longrightarrow> i < x + d \<Longrightarrow> keep x y p i = Some (y + (i - x))"
  using assms by (cases p; auto simp: edit_fits_def)+

lemma usize_sub_le [simp]: "b \<le> a \<Longrightarrow> usize_sub a b = Some (a - b)"
  by (simp add: usize_sub_def)

lemma edit_fits_offset: "edit_fits x y e \<Longrightarrow> eo_start e = x + (en_start e - y)"
  by (auto simp: edit_fits_def)

lemma step_old:
  assumes r: "ready (a # olds) news m st" and gap: "news = [] \<or> en_end a \<le> eo_start (hd news)"
  shows "\<exists>st'. push_old a st = Some st' \<and> ready olds news (en_end a) st' \<and>
    rest olds news (en_end a) st' = rest (a # olds) news m st"
proof -
  have a: "edit_fits (c_old st) m a" "wf_patch (eo_end a) (en_end a) olds" "composed st" "wf_patch m (c_new st) news"
    using r by (auto simp: ready_def)
  obtain g ol nl where g: "eo_start a = c_old st + g" "eo_end a = c_old st + g + ol"
    "en_start a = m + g" "en_end a = m + g + nl"
    using a(1) by (auto simp: edit_fits_def le_iff_add)
  let ?st = "pushed st g ol nl"
  have "push_old a st = Some ?st" by (simp add: push_old_def old_len_def new_len_def g pushed_def Let_def)
  moreover have shift: "wf_patch (en_end a) (c_new st + (g + nl)) news"
    "en_end a \<le> j \<Longrightarrow> keep (en_end a) (c_new st + (g + nl)) news j = keep m (c_new st) news j"
    "m \<le> j \<Longrightarrow> j < en_end a \<Longrightarrow> keep m (c_new st) news j = Some (c_new st + (j - m))" for j
    using keep_shift [OF a(4), of "g + nl"] gap by (auto simp: g add.assoc)
  then have "ready olds news (en_end a) ?st"
    using composed_pushed(1) [OF a(3), of g ol nl] a(2) by (simp add: ready_def g add.assoc)
  moreover have "rest olds news (en_end a) ?st i = rest (a # olds) news m st i" for i
  proof (cases "i < eo_end a")
    case True
    then show ?thesis
      using composed_pushed(2) [OF a(3), of i g ol nl] shift(3) [of "m + (i - c_old st)"] keep_below [of i "eo_end a"]
      by (auto simp: rest_def g)
  next
    case False
    then have "Option.bind (keep (eo_end a) (en_end a) olds i) (keep (en_end a) (c_new st + (g + nl)) news) =
        Option.bind (keep (eo_end a) (en_end a) olds i) (keep m (c_new st) news)"
      using keep_bounds [OF a(2)] shift(2) by (cases "keep (eo_end a) (en_end a) olds i") auto
    with False show ?thesis by (simp add: rest_def g add.assoc)
  qed
  ultimately show ?thesis by blast
qed

lemma step_new:
  assumes r: "ready olds (b # news) m st" and gap: "olds = [] \<or> eo_end b \<le> en_start (hd olds)"
  shows "\<exists>st'. push_new b st = Some st' \<and> ready olds news (eo_end b) st' \<and>
    rest olds news (eo_end b) st' = rest olds (b # news) m st"
proof -
  have b: "edit_fits m (c_new st) b" "wf_patch (eo_end b) (en_end b) news" "composed st" "wf_patch (c_old st) m olds"
    using r by (auto simp: ready_def)
  obtain g ol nl where g: "eo_start b = m + g" "eo_end b = m + g + ol"
    "en_start b = c_new st + g" "en_end b = c_new st + g + nl"
    using b(1) by (auto simp: edit_fits_def le_iff_add)
  let ?st = "pushed st g ol nl"
  have "push_new b st = Some ?st" by (simp add: push_new_def old_len_def new_len_def g pushed_def Let_def)
  moreover have "olds = [] \<or> c_old st + (g + ol) \<le> eo_start (hd olds)"
    using gap b(4) edit_fits_offset [of "c_old st" m "hd olds"] by (cases olds) (auto simp: g)
  note shift = keep_shift [OF b(4) this]
  have "ready olds news (eo_end b) ?st"
    using composed_pushed(1) [OF b(3), of g ol nl] b(2) shift(1) by (simp add: ready_def g add.assoc)
  moreover have "rest olds news (eo_end b) ?st i = rest olds (b # news) m st i" for i
  proof (cases "i < c_old st + (g + ol)")
    case True
    then show ?thesis
      using composed_pushed(2) [OF b(3), of i g ol nl] shift(3) [of i] keep_below [of "m + (i - c_old st)" "eo_end b"]
      by (auto simp: rest_def g)
  next
    case False
    have "Option.bind (keep (c_old st + (g + ol)) (m + (g + ol)) olds i) (keep (eo_end b) (en_end b) news) =
        Option.bind (keep (c_old st + (g + ol)) (m + (g + ol)) olds i) (keep m (c_new st) (b # news))"
      using keep_bounds [OF shift(1), of i]
      by (cases "keep (c_old st + (g + ol)) (m + (g + ol)) olds i") (auto simp: g)
    with False shift(2) [of i] show ?thesis by (simp add: rest_def g add.assoc)
  qed
  ultimately show ?thesis by blast
qed

definition aligned :: "text_edit \<Rightarrow> text_edit \<Rightarrow> nat \<Rightarrow> compose_state \<Rightarrow> bool" where
  "aligned a b m st \<longleftrightarrow> eo_start a = c_old st \<and> en_start a = m \<and> eo_start b = m \<and> en_start b = c_new st"

lemma rest_eqI:
  assumes "composed st" "st' = pushed st g ol nl"
    and "\<And>i. c_old st \<le> i \<Longrightarrow> i < c_old st + g \<Longrightarrow>
      Option.bind (keep (c_old st) m olds i) (keep m (c_new st) news) = Some (c_new st + (i - c_old st))"
    and "\<And>i. c_old st + g \<le> i \<Longrightarrow> i < c_old st + g + ol \<Longrightarrow>
      Option.bind (keep (c_old st) m olds i) (keep m (c_new st) news) = None"
    and "\<And>i. c_old st + g + ol \<le> i \<Longrightarrow>
      Option.bind (keep (c_old st + g + ol) m' olds' i) (keep m' (c_new st + g + nl) news') =
      Option.bind (keep (c_old st) m olds i) (keep m (c_new st) news)"
  shows "rest olds' news' m' st' = rest olds news m st"
proof
  fix i
  show "rest olds' news' m' st' i = rest olds news m st i"
    using composed_pushed(2) [OF assms(1), of i g ol nl] assms(3-5) [of i] by (auto simp: rest_def assms(2))
qed

lemma bind_cong_keep:
  assumes "\<And>j. f i = Some j \<Longrightarrow> g j = h j"
  shows "Option.bind (f i) g = Option.bind (f i) h"
  using assms by (cases "f i") auto

lemma step_align:
  assumes r: "ready (a # olds) (b # news) m st" and meet: "eo_start b \<le> en_end a" "en_start a \<le> eo_end b"
  shows "\<exists>a' b' st' m'. align_edits a b st = Some (a', b', st') \<and> ready (a' # olds) (b' # news) m' st' \<and>
    aligned a' b' m' st' \<and> rest (a' # olds) (b' # news) m' st' = rest (a # olds) (b # news) m st"
proof -
  have ab: "edit_fits (c_old st) m a" "edit_fits m (c_new st) b" "composed st"
    "wf_patch (eo_end a) (en_end a) olds" "wf_patch (eo_end b) (en_end b) news"
    using r by (auto simp: ready_def)
  obtain g la na where a: "eo_start a = c_old st + g" "eo_end a = c_old st + g + la"
    "en_start a = m + g" "en_end a = m + g + na"
    using ab(1) by (auto simp: edit_fits_def le_iff_add)
  obtain h lb nb where b: "eo_start b = m + h" "eo_end b = m + h + lb"
    "en_start b = c_new st + h" "en_end b = c_new st + h + nb"
    using ab(2) by (auto simp: edit_fits_def le_iff_add)
  show ?thesis
  proof (cases "en_start a < eo_start b")
    case True
    then obtain ov where ov: "h = g + ov" by (auto simp: a b less_iff_Suc_add)
    let ?a = "a\<lparr>eo_start := c_old st + g + min ov la, en_start := m + g + ov\<rparr>"
    let ?st = "pushed st g (min ov la) ov"
    have "align_edits a b st = Some (?a, b, ?st)"
      using True by (simp add: align_edits_def a b ov pushed_def Let_def add.assoc min_def)
    moreover have "ready (?a # olds) (b # news) (m + h) ?st"
      using composed_pushed(1) [OF ab(3), of g "min ov la" ov] ab(4,5) meet
      by (auto simp: ready_def edit_fits_def a b ov)
    moreover have "rest (?a # olds) (b # news) (m + h) ?st = rest (a # olds) (b # news) m st"
    proof (rule rest_eqI [OF ab(3) refl])
      fix i assume i: "c_old st + g + min ov la \<le> i"
      show "Option.bind (keep (c_old st + g + min ov la) (m + h) (?a # olds) i) (keep (m + h) (c_new st + g + ov) (b # news)) =
        Option.bind (keep (c_old st) m (a # olds) i) (keep m (c_new st) (b # news))"
        using i meet keep_bounds [OF ab(4), of i]
        by (cases "keep (eo_end a) (en_end a) olds i") (auto simp: a b ov)
    qed (auto simp: a b ov keep_below)
    ultimately show ?thesis
      by (intro exI [of _ ?a] exI [of _ b] exI [of _ ?st] exI [of _ "m + h"]) (auto simp: aligned_def a b ov)
  next
    case False
    then obtain ov where ov: "g = h + ov" by (auto simp: a b le_iff_add not_less)
    let ?b = "b\<lparr>eo_start := m + h + ov, en_start := c_new st + h + min ov nb\<rparr>"
    let ?st = "pushed st h ov (min ov nb)"
    have "align_edits a b st = Some (a, ?b, ?st)"
      using False by (simp add: align_edits_def a b ov pushed_def Let_def add.assoc min_def)
    moreover have "ready (a # olds) (?b # news) (m + g) ?st"
      using composed_pushed(1) [OF ab(3), of h ov "min ov nb"] ab(4,5) meet
      by (auto simp: ready_def edit_fits_def a b ov)
    moreover have "rest (a # olds) (?b # news) (m + g) ?st = rest (a # olds) (b # news) m st"
    proof (rule rest_eqI [OF ab(3) refl])
      fix i assume i: "c_old st + h + ov \<le> i"
      show "Option.bind (keep (c_old st + h + ov) (m + g) (a # olds) i) (keep (m + g) (c_new st + h + min ov nb) (?b # news)) =
        Option.bind (keep (c_old st) m (a # olds) i) (keep m (c_new st) (b # news))"
        using i meet keep_bounds [OF ab(4), of i]
        by (cases "keep (eo_end a) (en_end a) olds i") (auto simp: a b ov)
    next
      fix i assume "c_old st + h \<le> i" "i < c_old st + h + ov"
      then show "Option.bind (keep (c_old st) m (a # olds) i) (keep m (c_new st) (b # news)) = None"
        using meet keep_below [of "m + (i - c_old st)" "eo_end b"] by (auto simp: a b ov)
    qed (auto simp: a b ov)
    ultimately show ?thesis
      by (intro exI [of _ a] exI [of _ ?b] exI [of _ ?st] exI [of _ "m + g"]) (auto simp: aligned_def a b ov)
  qed
qed

lemma step_consume_new:
  assumes r: "ready (a # olds) (b # news) m st" and al: "aligned a b m st" and lt: "eo_end b < en_end a"
  shows "\<exists>a' st'. consume_new a b st = Some (a', st') \<and> ready (a' # olds) news (eo_end b) st' \<and>
    rest (a' # olds) news (eo_end b) st' = rest (a # olds) (b # news) m st"
proof -
  have ab: "edit_fits (c_old st) m a" "edit_fits m (c_new st) b" "composed st"
    "wf_patch (eo_end a) (en_end a) olds" "wf_patch (eo_end b) (en_end b) news"
    using r by (auto simp: ready_def)
  obtain la na where a: "eo_start a = c_old st" "eo_end a = c_old st + la" "en_start a = m" "en_end a = m + na"
    using ab(1) al by (auto simp: edit_fits_def aligned_def le_iff_add)
  obtain lb nb where b: "eo_start b = m" "eo_end b = m + lb" "en_start b = c_new st" "en_end b = c_new st + nb"
    using ab(2) al by (auto simp: edit_fits_def aligned_def le_iff_add)
  let ?a = "a\<lparr>eo_start := c_old st + min la lb, en_start := eo_end b\<rparr>"
  let ?st = "pushed st 0 (min la lb) nb"
  have "consume_new a b st = Some (?a, ?st)"
    by (simp add: consume_new_def old_len_def new_len_def a b pushed_def Let_def)
  moreover have "ready (?a # olds) news (eo_end b) ?st"
    using composed_pushed(1) [OF ab(3), of 0 "min la lb" nb] ab(4,5) lt by (auto simp: ready_def edit_fits_def a b)
  moreover have "rest (?a # olds) news (eo_end b) ?st = rest (a # olds) (b # news) m st"
  proof (rule rest_eqI [OF ab(3) refl])
    fix i assume i: "c_old st + 0 + min la lb \<le> i"
    show "Option.bind (keep (c_old st + 0 + min la lb) (eo_end b) (?a # olds) i) (keep (eo_end b) (c_new st + 0 + nb) news) =
      Option.bind (keep (c_old st) m (a # olds) i) (keep m (c_new st) (b # news))"
      using i lt keep_bounds [OF ab(4), of i] by (cases "keep (eo_end a) (en_end a) olds i") (auto simp: a b)
  qed (auto simp: a b keep_below)
  ultimately show ?thesis by blast
qed

lemma step_consume_old:
  assumes r: "ready (a # olds) (b # news) m st" and al: "aligned a b m st" and le: "en_end a \<le> eo_end b"
  shows "\<exists>b' st'. consume_old a b st = Some (b', st') \<and> ready olds (b' # news) (en_end a) st' \<and>
    rest olds (b' # news) (en_end a) st' = rest (a # olds) (b # news) m st"
proof -
  have ab: "edit_fits (c_old st) m a" "edit_fits m (c_new st) b" "composed st"
    "wf_patch (eo_end a) (en_end a) olds" "wf_patch (eo_end b) (en_end b) news"
    using r by (auto simp: ready_def)
  obtain la na where a: "eo_start a = c_old st" "eo_end a = c_old st + la" "en_start a = m" "en_end a = m + na"
    using ab(1) al by (auto simp: edit_fits_def aligned_def le_iff_add)
  obtain lb nb where b: "eo_start b = m" "eo_end b = m + lb" "en_start b = c_new st" "en_end b = c_new st + nb"
    using ab(2) al by (auto simp: edit_fits_def aligned_def le_iff_add)
  let ?b = "b\<lparr>eo_start := en_end a, en_start := c_new st + min na nb\<rparr>"
  let ?st = "pushed st 0 la (min na nb)"
  have "consume_old a b st = Some (?b, ?st)"
    by (simp add: consume_old_def old_len_def new_len_def a b pushed_def Let_def)
  moreover have "ready olds (?b # news) (en_end a) ?st"
    using composed_pushed(1) [OF ab(3), of 0 la "min na nb"] ab(4,5) le by (auto simp: ready_def edit_fits_def a b)
  moreover have "rest olds (?b # news) (en_end a) ?st = rest (a # olds) (b # news) m st"
  proof (rule rest_eqI [OF ab(3) refl])
    fix i assume i: "c_old st + 0 + la \<le> i"
    show "Option.bind (keep (c_old st + 0 + la) (en_end a) olds i) (keep (en_end a) (c_new st + 0 + min na nb) (?b # news)) =
      Option.bind (keep (c_old st) m (a # olds) i) (keep m (c_new st) (b # news))"
      using i le keep_bounds [OF ab(4), of i] by (cases "keep (eo_end a) (en_end a) olds i") (auto simp: a b)
  qed (auto simp: a b keep_below)
  ultimately show ?thesis by blast
qed

lemma compose_loop_ok:
  assumes "ready olds news m st"
  shows "\<exists>out. compose_loop olds news st = Some out \<and> wf_patch 0 0 out \<and> canonical_patch out \<and>
    keep 0 0 out = rest olds news m st"
  using assms
proof (induction olds news st arbitrary: m rule: compose_loop.induct)
  case (1 st)
  then have st: "ends 0 0 (c_out st) (c_old st) (c_new st)" "canonical_patch (c_out st)"
    by (auto simp: ready_def composed_def)
  then show ?case using keep_gap [OF st(1)] ends_wf [OF st(1)] by (auto simp: rest_def fun_eq_iff)
next
  case (2 a olds st)
  then show ?case using step_old [OF 2(2)] by fastforce
next
  case (3 b news st)
  then show ?case using step_new [OF 3(2)] by fastforce
next
  case (4 a olds b news st)
  consider (old) "en_end a < eo_start b" | (new) "\<not> en_end a < eo_start b" "eo_end b < en_start a"
    | (both) "\<not> en_end a < eo_start b" "\<not> eo_end b < en_start a" by blast
  then show ?case
  proof cases
    case old
    then show ?thesis using step_old [OF 4(5)] 4(1) [OF old] by fastforce
  next
    case new
    then show ?thesis using step_new [OF 4(5)] 4(2) [OF new] by fastforce
  next
    case both
    obtain a' b' st' m' where al: "align_edits a b st = Some (a', b', st')" "ready (a' # olds) (b' # news) m' st'"
      "aligned a' b' m' st'" "rest (a' # olds) (b' # news) m' st' = rest (a # olds) (b # news) m st"
      using step_align [OF 4(5)] both by (auto simp: not_less)
    show ?thesis
    proof (cases "eo_end b' < en_end a'")
      case True
      obtain a'' st'' where c: "consume_new a' b' st' = Some (a'', st'')" "ready (a'' # olds) news (eo_end b') st''"
        "rest (a'' # olds) news (eo_end b') st'' = rest (a' # olds) (b' # news) m' st'"
        using step_consume_new [OF al(2,3) True] by blast
      from 4(3) [OF both al(1) refl refl True c(1) refl c(2)] show ?thesis
        using both al(1,4) True c(1,3) by simp
    next
      case False
      obtain b'' st'' where c: "consume_old a' b' st' = Some (b'', st'')" "ready olds (b'' # news) (en_end a') st''"
        "rest olds (b'' # news) (en_end a') st'' = rest (a' # olds) (b' # news) m' st'"
        using step_consume_old [OF al(2,3)] False by (auto simp: not_less)
      from 4(4) [OF both al(1) refl refl False c(1) refl c(2)] show ?thesis
        using both al(1,4) False c(1,3) by simp
    qed
  qed
qed

lemma patch_compose_ok:
  assumes "wf_patch 0 0 p" "wf_patch 0 0 q"
  shows "\<exists>r. patch_compose p q = Some r \<and> wf_patch 0 0 r \<and> canonical_patch r \<and>
    (\<forall>i. keep 0 0 r i = Option.bind (keep 0 0 p i) (keep 0 0 q))"
proof -
  have "ready p q 0 \<lparr>c_out = [], c_old = 0, c_new = 0\<rparr>"
    using assms by (simp add: ready_def composed_def canonical_patch_def)
  from compose_loop_ok [OF this] show ?thesis by (auto simp: patch_compose_def rest_def)
qed

section \<open>Inversion\<close>

lemma wf_patch_invert: "wf_patch y x (patch_invert p) \<longleftrightarrow> wf_patch x y p"
  by (induction x y p rule: wf_patch.induct) (auto simp: patch_invert_def edit_fits_def)

lemma patch_invert_invert: "patch_invert (patch_invert p) = p"
  by (induction p) (auto simp: patch_invert_def)

lemma keep_invert:
  assumes "wf_patch x y p" "keep x y p i = Some j"
  shows "keep y x (patch_invert p) j = Some i"
  using assms
proof (induction x y p i rule: keep.induct)
  case (2 x y e p i)
  show ?case
  proof (cases "i < eo_start e")
    case True
    then show ?thesis using 2(2,3) by (auto simp: patch_invert_def edit_fits_def split: if_splits)
  next
    case False
    then have "keep (eo_end e) (en_end e) p i = Some j" "wf_patch (eo_end e) (en_end e) p"
      using 2(2,3) by (auto split: if_splits)
    moreover have "en_end e \<le> j" using keep_bounds calculation by blast
    ultimately show ?thesis
      using 2 False by (auto simp: patch_invert_def edit_fits_def split: if_splits)
  qed
qed (auto simp: patch_invert_def split: if_splits)

lemma keep_invert_iff:
  "wf_patch x y p \<Longrightarrow> keep y x (patch_invert p) j = Some i \<longleftrightarrow> keep x y p i = Some j"
  using keep_invert [of x y p i j] keep_invert [of y x "patch_invert p" j i]
  by (auto simp: wf_patch_invert patch_invert_invert)

section \<open>Positions\<close>

text \<open>Where an old offset goes: with the text around it, or to the start of the edit that replaces it.\<close>

fun translate :: "nat \<Rightarrow> nat \<Rightarrow> patch \<Rightarrow> nat \<Rightarrow> nat" where
  "translate x y [] i = y + (i - x)"
| "translate x y (e # p) i =
     (if i < eo_start e then y + (i - x) else if i < eo_end e then en_start e else translate (eo_end e) (en_end e) p i)"

lemma translate_keep: "keep x y p i = Some j \<Longrightarrow> translate x y p i = j"
proof (induction x y p i rule: keep.induct)
  case (2 x y e p i)
  then show ?case using keep_below [of i "eo_end e"] by (auto split: if_splits)
qed (auto split: if_splits)

lemma translate_bounds: "wf_patch x y p \<Longrightarrow> y \<le> translate x y p i"
proof (induction x y p i rule: translate.induct)
  case (2 x y e p i)
  then show ?case by (cases "i < eo_start e"; cases "i < eo_end e") (auto simp: edit_fits_def)
qed simp

lemma translate_mono:
  assumes "wf_patch x y p" "x \<le> i" "i \<le> k"
  shows "translate x y p i \<le> translate x y p k"
  using assms
proof (induction x y p i rule: translate.induct)
  case (2 x y e p i)
  have e: "edit_fits x y e" "wf_patch (eo_end e) (en_end e) p" using 2(2) by auto
  have "en_end e \<le> translate (eo_end e) (en_end e) p k" using translate_bounds [OF e(2)] .
  then show ?case using 2 e by (auto simp: edit_fits_def)
qed simp

definition last_edit :: "patch \<Rightarrow> nat \<Rightarrow> text_edit option" where
  "last_edit p i = (let q = takeWhile (\<lambda>e. eo_start e \<le> i) p in if q = [] then None else Some (last q))"

lemma debug_ordered_tl: "debug_ordered (e # p) \<Longrightarrow> debug_ordered p"
  by (cases p) auto

lemma starts_after:
  "wf_patch x y p \<Longrightarrow> debug_ordered p \<Longrightarrow> p = e # q \<Longrightarrow> a \<in> set q \<Longrightarrow> eo_end e < eo_start a"
proof (induction p arbitrary: x y e q)
  case (Cons b p)
  then obtain c r where q: "q = c # r" by (cases q) auto
  have c: "eo_end b < eo_start c" "eo_start c \<le> eo_end c" using Cons.prems(1-3) q by (auto simp: edit_fits_def)
  show ?case
  proof (cases "a = c")
    case False
    then have "a \<in> set r" using Cons.prems(3,4) q by auto
    then have "eo_end c < eo_start a" using Cons.IH [of "eo_end b" "en_end b" c r] Cons.prems(1-3) q by auto
    with c Cons.prems(3) show ?thesis by simp
  qed (use c Cons.prems in simp)
qed simp

lemma count_starts:
  fixes i :: nat
  assumes "wf_patch x y p" "debug_ordered p"
  defines "n \<equiv> length (takeWhile (\<lambda>e. eo_start e < i) p)"
  shows "length (takeWhile (\<lambda>e. eo_start e \<le> i) p) = (if n < length p \<and> eo_start (p ! n) = i then n + 1 else n)"
  using assms(1,2) unfolding n_def
proof (induction p arbitrary: x y)
  case (Cons e p)
  have e: "edit_fits x y e" "wf_patch (eo_end e) (en_end e) p" "debug_ordered p"
    using Cons.prems debug_ordered_tl by auto
  have "takeWhile (\<lambda>e. eo_start e \<le> i) p = []" if "eo_start e = i"
  proof (cases p)
    case (Cons b q)
    then have "eo_end e < eo_start b"
      using starts_after [of x y "e # p" e p b] \<open>wf_patch x y (e # p)\<close> \<open>debug_ordered (e # p)\<close> by auto
    then show ?thesis using e(1) that Cons by (simp add: edit_fits_def)
  qed simp
  with Cons.IH [OF e(2,3)] show ?case by auto
qed simp

lemma search_start_last:
  assumes "wf_patch x y p" "debug_ordered p"
  shows "(case search_start p i of Inr ix \<Rightarrow> Some ix | Inl ix \<Rightarrow> if ix = 0 then None else Some (ix - 1)) =
    (let n = length (takeWhile (\<lambda>e. eo_start e \<le> i) p) in if n = 0 then None else Some (n - 1))"
  unfolding count_starts [OF assms] by (auto simp: search_start_def Let_def)

lemma last_takeWhile_nth: "xs \<noteq> [] \<Longrightarrow> takeWhile P xs \<noteq> [] \<Longrightarrow> last (takeWhile P xs) = xs ! (length (takeWhile P xs) - 1)"
  by (metis last_conv_nth length_greater_0_conv diff_less takeWhile_nth zero_less_one)

text \<open>Both lookups look at the last edit that starts at or before the position.\<close>

lemma lookup_last_edit:
  assumes "wf_patch x y p" "debug_ordered p"
  shows "old_to_new p i = Some (case last_edit p i of None \<Rightarrow> i
      | Some e \<Rightarrow> if eo_end e \<le> i then en_end e + (i - eo_end e) else en_start e)"
    and "edit_for_old_position p i = Some (case last_edit p i of
        None \<Rightarrow> \<lparr>eo_start = i, eo_end = i, en_start = i, en_end = i\<rparr>
      | Some e \<Rightarrow> if eo_end e < i
          then \<lparr>eo_start = i, eo_end = i, en_start = en_end e + (i - eo_end e), en_end = en_end e + (i - eo_end e)\<rparr>
          else e)"
proof -
  let ?q = "takeWhile (\<lambda>e. eo_start e \<le> i) p"
  have len: "length ?q \<le> length p" by (rule length_takeWhile_le)
  have nth: "last ?q = p ! (length ?q - 1) \<and> length ?q - 1 < length p" if "?q \<noteq> []"
    using that last_takeWhile_nth [of p "\<lambda>e. eo_start e \<le> i"] len by (cases p) (auto simp: le_eq_less_or_eq)
  show "old_to_new p i = Some (case last_edit p i of None \<Rightarrow> i
      | Some e \<Rightarrow> if eo_end e \<le> i then en_end e + (i - eo_end e) else en_start e)"
    unfolding old_to_new_def search_start_last [OF assms] using nth by (auto simp: last_edit_def Let_def)
  show "edit_for_old_position p i = Some (case last_edit p i of
        None \<Rightarrow> \<lparr>eo_start = i, eo_end = i, en_start = i, en_end = i\<rparr>
      | Some e \<Rightarrow> if eo_end e < i
          then \<lparr>eo_start = i, eo_end = i, en_start = en_end e + (i - eo_end e), en_end = en_end e + (i - eo_end e)\<rparr>
          else e)"
    unfolding edit_for_old_position_def search_start_last [OF assms] using nth by (auto simp: last_edit_def Let_def)
qed

lemma translate_last_edit:
  assumes "wf_patch x y p" "debug_ordered p" "x \<le> i"
  shows "translate x y p i = (case last_edit p i of None \<Rightarrow> y + (i - x)
      | Some e \<Rightarrow> if eo_end e \<le> i then en_end e + (i - eo_end e) else en_start e)"
  using assms
proof (induction x y p i rule: translate.induct)
  case (2 x y e p i)
  have e: "edit_fits x y e" "wf_patch (eo_end e) (en_end e) p" "debug_ordered p"
    using 2(2,3) debug_ordered_tl by auto
  consider "i < eo_start e" | "eo_start e \<le> i" "i < eo_end e" | "eo_end e \<le> i" by (meson not_le)
  then show ?case
  proof cases
    case 1
    then show ?thesis by (simp add: last_edit_def)
  next
    case 2: 2
    have "takeWhile (\<lambda>e. eo_start e \<le> i) p = []"
      using starts_after [OF \<open>wf_patch x y (e # p)\<close> \<open>debug_ordered (e # p)\<close> refl] 2 by (cases p) force+
    with 2 show ?thesis by (simp add: last_edit_def)
  next
    case 3
    then show ?thesis using 2(1) [OF _ _ e(2,3)] e(1)
      by (auto simp: last_edit_def Let_def edit_fits_def)
  qed
qed (simp add: last_edit_def)

lemma old_to_new_translate:
  "wf_patch 0 0 p \<Longrightarrow> debug_ordered p \<Longrightarrow> old_to_new p i = Some (translate 0 0 p i)"
  using lookup_last_edit(1) [of 0 0 p i] translate_last_edit [of 0 0 p i] by (simp split: option.split)

text \<open>The edit that touches a position, both ends included, or the empty edit at its translation.\<close>

definition touches :: "text_edit \<Rightarrow> nat \<Rightarrow> bool" where
  "touches e i \<longleftrightarrow> eo_start e \<le> i \<and> i \<le> eo_end e"

lemma last_edit_touching:
  assumes "wf_patch x y p" "debug_ordered p" "e \<in> set p" "touches e i"
  shows "last_edit p i = Some e"
  using assms
proof (induction p arbitrary: x y)
  case (Cons a p)
  have a: "edit_fits x y a" "wf_patch (eo_end a) (en_end a) p" "debug_ordered p"
    using Cons.prems debug_ordered_tl by auto
  note after = starts_after [OF Cons.prems(1,2) refl]
  show ?case
  proof (cases "e = a")
    case True
    have "takeWhile (\<lambda>e. eo_start e \<le> i) p = []"
      using after Cons.prems(4) True by (cases p) (force simp: touches_def)+
    with True Cons.prems(4) show ?thesis by (simp add: last_edit_def touches_def)
  next
    case False
    then have "e \<in> set p" using Cons.prems(3) by simp
    moreover have "eo_start a \<le> i"
      using after [OF calculation] a(1) Cons.prems(4) by (auto simp: edit_fits_def touches_def)
    ultimately show ?thesis using Cons.IH [OF a(2,3)] Cons.prems(4) by (auto simp: last_edit_def Let_def split: if_splits)
  qed
qed simp

lemma keep_untouched:
  "x \<le> i \<Longrightarrow> \<forall>e\<in>set p. \<not> touches e i \<Longrightarrow> keep x y p i = Some (translate x y p i)"
  by (induction x y p i rule: translate.induct) (auto simp: touches_def)

lemma last_edit_start: "last_edit p i = Some e \<Longrightarrow> e \<in> set p \<and> eo_start e \<le> i"
  by (auto simp: last_edit_def Let_def split: if_splits dest: set_takeWhileD [OF last_in_set])

lemma edit_for_old_position_ok:
  assumes "wf_patch 0 0 p" "debug_ordered p"
  shows "edit_for_old_position p i =
    (case List.find (\<lambda>e. touches e i) p of
       Some e \<Rightarrow> Some e
     | None \<Rightarrow> map_option (\<lambda>j. \<lparr>eo_start = i, eo_end = i, en_start = j, en_end = j\<rparr>) (keep 0 0 p i))"
proof (cases "List.find (\<lambda>e. touches e i) p")
  case (Some e)
  then have e: "e \<in> set p" "touches e i" by (auto simp: find_Some_iff)
  then show ?thesis
    using Some lookup_last_edit(2) [OF assms, of i] last_edit_touching [OF assms e] by (simp add: touches_def)
next
  case None
  then have no: "\<forall>e\<in>set p. \<not> touches e i" by (simp add: find_None_iff)
  note keep = keep_untouched [of 0 i p 0, OF _ this, simplified]
  show ?thesis
  proof (cases "last_edit p i")
    case None
    then show ?thesis
      using \<open>List.find (\<lambda>e. touches e i) p = None\<close> lookup_last_edit(2) [OF assms, of i] keep
        translate_last_edit [OF assms, of i] by simp
  next
    case (Some e)
    then have "eo_end e < i" using no last_edit_start [OF Some] by (auto simp: touches_def)
    then show ?thesis
      using \<open>List.find (\<lambda>e. touches e i) p = None\<close> lookup_last_edit(2) [OF assms, of i] keep Some
        translate_last_edit [OF assms, of i] by simp
  qed
qed

end
