(* ===== verification/Subscription.thy ===== *)
theory Subscription
  imports Patch_Correct
begin

text \<open>
  \<^verbatim>\<open>crates/text/src/subscription.rs\<close>: a topic publishes edits to its subscribers. The topic holds weak
  references to the subscriptions' cells; a cell is a patch that accumulates the edits published since it
  was last consumed. The store maps the live cells to their patches: dropping a subscription removes its
  cell, and \<^verbatim>\<open>Weak::upgrade\<close> succeeds exactly on the live ones. The mutexes make each operation atomic.
\<close>

type_synonym sub_cell = nat

record topic =
  subscriptions :: "sub_cell list"
  sub_cells :: "sub_cell \<rightharpoonup> patch"
  next_cell :: sub_cell

definition topic_default :: topic where
  "topic_default = \<lparr>subscriptions = [], sub_cells = Map.empty, next_cell = 0\<rparr>"

definition subscribe :: "topic \<Rightarrow> sub_cell \<times> topic" where
  "subscribe t = (next_cell t,
     t\<lparr>subscriptions := subscriptions t @ [next_cell t],
       sub_cells := (sub_cells t)(next_cell t \<mapsto> patch_empty),
       next_cell := next_cell t + 1\<rparr>)"

text \<open>\<^verbatim>\<open>Vec::retain\<close> over the weak references: compose into each live sub_cell, forget the dead ones.\<close>

fun publish_to :: "patch \<Rightarrow> sub_cell list \<Rightarrow> (sub_cell \<rightharpoonup> patch) \<Rightarrow> (sub_cell list \<times> (sub_cell \<rightharpoonup> patch)) option" where
  "publish_to edits [] store = Some ([], store)"
| "publish_to edits (c # cs) store =
     (case store c of
        None \<Rightarrow> publish_to edits cs store
      | Some p \<Rightarrow> do {
          p' \<leftarrow> patch_compose p edits;
          (cs', store') \<leftarrow> publish_to edits cs (store(c \<mapsto> p'));
          Some (c # cs', store') })"

definition publish :: "patch \<Rightarrow> topic \<Rightarrow> topic option" where
  "publish edits t = do {
     (subs, store) \<leftarrow> publish_to edits (subscriptions t) (sub_cells t);
     Some (t\<lparr>subscriptions := subs, sub_cells := store\<rparr>) }"

definition consume :: "sub_cell \<Rightarrow> topic \<Rightarrow> patch option \<times> topic" where
  "consume c t = (case sub_cells t c of
     None \<Rightarrow> (None, t)
   | Some p \<Rightarrow> (Some p, t\<lparr>sub_cells := (sub_cells t)(c \<mapsto> patch_empty)\<rparr>))"

definition drop_subscription :: "sub_cell \<Rightarrow> topic \<Rightarrow> topic" where
  "drop_subscription c t = t\<lparr>sub_cells := (sub_cells t)(c := None)\<rparr>"

section \<open>Invariant\<close>

definition topic_ok :: "topic \<Rightarrow> bool" where
  "topic_ok t \<longleftrightarrow> distinct (subscriptions t) \<and> dom (sub_cells t) \<subseteq> set (subscriptions t) \<and>
     (\<forall>c\<in>set (subscriptions t). c < next_cell t) \<and> (\<forall>c p. sub_cells t c = Some p \<longrightarrow> wf_patch 0 0 p)"

lemma topic_default_ok: "topic_ok topic_default"
  by (simp add: topic_ok_def topic_default_def)

lemma subscribe_ok:
  "topic_ok t \<Longrightarrow> topic_ok (snd (subscribe t)) \<and> sub_cells (snd (subscribe t)) (fst (subscribe t)) = Some []"
  by (auto simp: topic_ok_def subscribe_def patch_empty_def split: if_splits)

lemma consume_ok: "topic_ok t \<Longrightarrow> topic_ok (snd (consume c t))"
  by (auto simp: topic_ok_def consume_def patch_empty_def split: option.splits if_splits)

lemma drop_subscription_ok: "topic_ok t \<Longrightarrow> topic_ok (drop_subscription c t)"
  by (auto simp: topic_ok_def drop_subscription_def split: if_splits)

definition composed_with :: "patch \<Rightarrow> patch \<Rightarrow> patch \<Rightarrow> bool" where
  "composed_with p q r \<longleftrightarrow> wf_patch 0 0 r \<and> (\<forall>i. keep 0 0 r i = Option.bind (keep 0 0 p i) (keep 0 0 q))"

lemma publish_to_ok:
  assumes "wf_patch 0 0 edits" "distinct cs" "\<forall>c p. store c = Some p \<longrightarrow> wf_patch 0 0 p"
  shows "\<exists>cs' store'. publish_to edits cs store = Some (cs', store') \<and> cs' = filter (\<lambda>c. store c \<noteq> None) cs \<and>
    (\<forall>c. c \<notin> set cs \<longrightarrow> store' c = store c) \<and>
    (\<forall>c\<in>set cs. case store c of None \<Rightarrow> store' c = None | Some p \<Rightarrow> \<exists>r. store' c = Some r \<and> composed_with p edits r)"
  using assms(2,3)
proof (induction cs arbitrary: store)
  case (Cons c cs)
  show ?case
  proof (cases "store c")
    case None
    have "distinct cs" "c \<notin> set cs" using Cons.prems(1) by simp_all
    with Cons.IH [OF _ Cons.prems(2)] None show ?thesis by fastforce
  next
    case (Some p)
    then obtain r where r: "patch_compose p edits = Some r" "composed_with p edits r"
      using patch_compose_ok [of p edits] assms(1) Cons.prems(2) by (auto simp: composed_with_def)
    have live: "\<forall>d q. (store(c \<mapsto> r)) d = Some q \<longrightarrow> wf_patch 0 0 q"
      using Cons.prems(2) r(2) by (auto simp: composed_with_def)
    have "distinct cs" using Cons.prems(1) by simp
    from Cons.IH [OF this live] obtain cs' store' where IH: "publish_to edits cs (store(c \<mapsto> r)) = Some (cs', store')"
      "cs' = filter (\<lambda>d. (store(c \<mapsto> r)) d \<noteq> None) cs" "\<forall>d. d \<notin> set cs \<longrightarrow> store' d = (store(c \<mapsto> r)) d"
      "\<forall>d\<in>set cs. case (store(c \<mapsto> r)) d of None \<Rightarrow> store' d = None
         | Some p \<Rightarrow> \<exists>r. store' d = Some r \<and> composed_with p edits r"
      by blast
    have "c \<notin> set cs" using Cons.prems(1) by simp
    then have "cs' = filter (\<lambda>d. store d \<noteq> None) cs" using IH(2) by (auto intro: filter_cong)
    with IH r Some \<open>c \<notin> set cs\<close> show ?thesis by (auto split: if_splits)
  qed
qed simp

text \<open>
  Publishing succeeds, forgets the dropped subscriptions, and composes the edits into every live sub_cell.
\<close>

lemma publish_ok:
  assumes "topic_ok t" "wf_patch 0 0 edits"
  shows "\<exists>t'. publish edits t = Some t' \<and> topic_ok t' \<and> dom (sub_cells t') = dom (sub_cells t) \<and>
    set (subscriptions t') = dom (sub_cells t) \<and>
    (\<forall>c p. sub_cells t c = Some p \<longrightarrow> (\<exists>r. sub_cells t' c = Some r \<and> composed_with p edits r))"
proof -
  have t: "distinct (subscriptions t)" "dom (sub_cells t) \<subseteq> set (subscriptions t)"
    "\<forall>c\<in>set (subscriptions t). c < next_cell t" "\<forall>c p. sub_cells t c = Some p \<longrightarrow> wf_patch 0 0 p"
    using assms(1) by (auto simp: topic_ok_def)
  obtain cs' store' where p: "publish_to edits (subscriptions t) (sub_cells t) = Some (cs', store')"
    "cs' = filter (\<lambda>c. sub_cells t c \<noteq> None) (subscriptions t)"
    "\<forall>c. c \<notin> set (subscriptions t) \<longrightarrow> store' c = sub_cells t c"
    "\<forall>c\<in>set (subscriptions t). case sub_cells t c of None \<Rightarrow> store' c = None
       | Some p \<Rightarrow> \<exists>r. store' c = Some r \<and> composed_with p edits r"
    using publish_to_ok [OF assms(2) t(1,4)] by blast
  have some: "\<exists>r. store' c = Some r \<and> composed_with q edits r" if "sub_cells t c = Some q" for c q
    using p(4) t(2) that by (force split: option.splits)
  have none: "store' c = None" if "sub_cells t c = None" for c
    using p(3,4) that by (cases "c \<in> set (subscriptions t)") (auto split: option.splits)
  have dom: "dom store' = dom (sub_cells t)"
  proof (rule set_eqI)
    fix c
    show "c \<in> dom store' \<longleftrightarrow> c \<in> dom (sub_cells t)" using some [of c] none [of c] by (cases "sub_cells t c") auto
  qed
  have "wf_patch 0 0 q" if "store' c = Some q" for c q
    using some [of c] none [of c] that by (cases "sub_cells t c") (auto simp: composed_with_def)
  with p t dom some show ?thesis by (auto simp: publish_def topic_ok_def)
qed

text \<open>
  A sequence of publications: the patch a subscriber then consumes keeps an offset exactly when every
  published patch keeps it, at the composed position.
\<close>

fun publish_all :: "patch list \<Rightarrow> topic \<Rightarrow> topic option" where
  "publish_all [] t = Some t"
| "publish_all (q # qs) t = do { t' \<leftarrow> publish q t; publish_all qs t' }"

fun keep_all :: "patch list \<Rightarrow> nat \<rightharpoonup> nat" where
  "keep_all [] = Some"
| "keep_all (q # qs) = (\<lambda>i. Option.bind (keep 0 0 q i) (keep_all qs))"

lemma publish_all_ok:
  assumes "topic_ok t" "\<forall>q\<in>set qs. wf_patch 0 0 q"
  shows "\<exists>t'. publish_all qs t = Some t' \<and> topic_ok t' \<and> dom (sub_cells t') = dom (sub_cells t) \<and>
    (qs \<noteq> [] \<longrightarrow> set (subscriptions t') = dom (sub_cells t)) \<and>
    (\<forall>c p. sub_cells t c = Some p \<longrightarrow> (\<exists>r. sub_cells t' c = Some r \<and> (\<forall>i. keep 0 0 r i = Option.bind (keep 0 0 p i) (keep_all qs))))"
  using assms
proof (induction qs arbitrary: t)
  case Nil
  then show ?case by (auto intro!: exI split: Option.bind_splits)
next
  case (Cons q qs)
  obtain t1 where 1: "publish q t = Some t1" "topic_ok t1" "dom (sub_cells t1) = dom (sub_cells t)" "set (subscriptions t1) = dom (sub_cells t)"
    "\<forall>c p. sub_cells t c = Some p \<longrightarrow> (\<exists>r. sub_cells t1 c = Some r \<and> composed_with p q r)"
    using publish_ok [OF Cons.prems(1), of q] Cons.prems(2) by auto
  obtain t' where 2: "publish_all qs t1 = Some t'" "topic_ok t'" "dom (sub_cells t') = dom (sub_cells t1)"
    "qs \<noteq> [] \<longrightarrow> set (subscriptions t') = dom (sub_cells t1)"
    "\<forall>c p. sub_cells t1 c = Some p \<longrightarrow> (\<exists>r. sub_cells t' c = Some r \<and> (\<forall>i. keep 0 0 r i = Option.bind (keep 0 0 p i) (keep_all qs)))"
    using Cons.IH [OF 1(2)] Cons.prems(2) by auto
  have "\<exists>r. sub_cells t' c = Some r \<and> (\<forall>i. keep 0 0 r i = Option.bind (keep 0 0 p i) (keep_all (q # qs)))" if c: "sub_cells t c = Some p" for c p
  proof -
    obtain r1 where "sub_cells t1 c = Some r1" "composed_with p q r1" using 1(5) c by blast
    then show ?thesis using 2(5) by (fastforce simp: composed_with_def)
  qed
  moreover have "set (subscriptions t') = dom (sub_cells t)" using 1(3,4) 2(1,4) by (cases "qs = []") auto
  ultimately show ?case using 1(1,3) 2(1-3) by auto
qed

end
