(* ===== verification/History.thy ===== *)
theory History
  imports Undo_Map Tree_Map
begin

text \<open>
  The undo history of a buffer, \<^verbatim>\<open>History\<close> of \<^verbatim>\<open>crates/text/src/text.rs\<close>: the operations by timestamp, the undo
  and redo stacks of transactions (last element on top, as in the source), the nesting depth of the
  open transaction, and the grouping of recent transactions. Times and durations are natural numbers;
  the difference of two instants saturates at zero, as in the standard library. \<open>None\<close> as the outer option
  of an operation is a failed assertion or an \<^verbatim>\<open>unwrap\<close> of nothing.
\<close>

section \<open>Operations and transactions\<close>

text \<open>\<^verbatim>\<open>Range<FullOffset>\<close> and \<^verbatim>\<open>Arc<str>\<close> of an edit: pairs of offsets and strings.\<close>

record edit_operation =
  edit_timestamp :: lamport
  edit_version :: global
  edit_ranges :: "(nat \<times> nat) list"
  edit_new_text :: "string list"

datatype operation = EditOp edit_operation | UndoOp undo_operation

fun operation_timestamp :: "operation \<Rightarrow> lamport" where
  "operation_timestamp (EditOp e) = edit_timestamp e"
| "operation_timestamp (UndoOp u) = undo_timestamp u"

fun is_edit :: "operation \<Rightarrow> bool" where
  "is_edit (EditOp _) = True"
| "is_edit (UndoOp _) = False"

fun as_edit :: "operation \<Rightarrow> edit_operation option" where
  "as_edit (EditOp e) = Some e"
| "as_edit (UndoOp _) = None"

type_synonym transaction_id = lamport

record transaction =
  tx_id :: transaction_id
  edit_ids :: "lamport list"
  tx_start :: global

definition merge_in :: "transaction \<Rightarrow> transaction \<Rightarrow> transaction" where
  "merge_in self other = self\<lparr>edit_ids := edit_ids self @ edit_ids other\<rparr>"

record history_entry =
  transaction_of :: transaction
  first_edit_at :: nat
  last_edit_at :: nat
  suppress_grouping :: bool

definition transaction_id :: "history_entry \<Rightarrow> transaction_id" where
  "transaction_id e = tx_id (transaction_of e)"

record history =
  base_text :: string
  operations :: "(lamport, operation) tree_map"
  undo_stack :: "history_entry list"
  redo_stack :: "history_entry list"
  transaction_depth :: nat
  group_interval :: nat

definition history_new :: "string \<Rightarrow> history" where
  "history_new text = \<lparr>base_text = text, operations = tm_default, undo_stack = [], redo_stack = [],
     transaction_depth = 0, group_interval = 300\<rparr>"

definition history_push :: "history \<Rightarrow> operation \<Rightarrow> history option" where
  "history_push h op = do {
     ops \<leftarrow> tm_insert (operations h) (operation_timestamp op) op;
     Some (h\<lparr>operations := ops\<rparr>) }"

section \<open>Opening and closing transactions\<close>

definition new_entry :: "transaction \<Rightarrow> nat \<Rightarrow> history_entry" where
  "new_entry tx now = \<lparr>transaction_of = tx, first_edit_at = now, last_edit_at = now, suppress_grouping = False\<rparr>"

text \<open>The clock is passed by reference: it is returned ticked.\<close>

definition start_transaction ::
  "history \<Rightarrow> global \<Rightarrow> nat \<Rightarrow> lamport \<Rightarrow> transaction_id option \<times> lamport \<times> history" where
  "start_transaction h start now clk =
     (let h = h\<lparr>transaction_depth := transaction_depth h + 1\<rparr> in
      if transaction_depth h = 1 then
        (let (tid, clk') = lamport_tick clk in
         (Some tid, clk',
          h\<lparr>undo_stack := undo_stack h @ [new_entry \<lparr>tx_id = tid, edit_ids = [], tx_start = start\<rparr> now]\<rparr>))
      else (None, clk, h))"

definition end_transaction :: "history \<Rightarrow> nat \<Rightarrow> (history_entry option \<times> history) option" where
  "end_transaction h now =
     (if transaction_depth h = 0 then None
      else let h = h\<lparr>transaction_depth := transaction_depth h - 1\<rparr> in
        if transaction_depth h = 0 then
          (if undo_stack h = [] then None
           else if edit_ids (transaction_of (last (undo_stack h))) = []
             then Some (None, h\<lparr>undo_stack := butlast (undo_stack h)\<rparr>)
             else let ent = (last (undo_stack h))\<lparr>last_edit_at := now\<rparr> in
               Some (Some ent, h\<lparr>redo_stack := [], undo_stack := butlast (undo_stack h) @ [ent]\<rparr>))
        else Some (None, h))"

definition push_undo :: "history \<Rightarrow> lamport \<Rightarrow> history option" where
  "push_undo h op_id =
     (if transaction_depth h = 0 then None
      else case tm_get (operations h) op_id of
        Some (EditOp _) \<Rightarrow>
          (if undo_stack h = [] then None
           else let e = last (undo_stack h);
                    tx = transaction_of e in
                Some (h\<lparr>undo_stack := butlast (undo_stack h) @
                   [e\<lparr>transaction_of := tx\<lparr>edit_ids := edit_ids tx @ [op_id]\<rparr>\<rparr>]\<rparr>))
      | _ \<Rightarrow> Some h)"

definition push_transaction :: "history \<Rightarrow> transaction \<Rightarrow> nat \<Rightarrow> history option" where
  "push_transaction h tx now =
     (if transaction_depth h \<noteq> 0 then None else Some (h\<lparr>undo_stack := undo_stack h @ [new_entry tx now]\<rparr>))"

definition push_empty_transaction ::
  "history \<Rightarrow> global \<Rightarrow> nat \<Rightarrow> lamport \<Rightarrow> (transaction_id \<times> lamport \<times> history) option" where
  "push_empty_transaction h start now clk =
     (if transaction_depth h \<noteq> 0 then None
      else let (tid, clk') = lamport_tick clk in
        Some (tid, clk', h\<lparr>undo_stack := undo_stack h @ [new_entry \<lparr>tx_id = tid, edit_ids = [], tx_start = start\<rparr> now]\<rparr>))"

definition finalize_last_transaction :: "history \<Rightarrow> transaction option \<times> history" where
  "finalize_last_transaction h =
     (if undo_stack h = [] then (None, h)
      else let ent = (last (undo_stack h))\<lparr>suppress_grouping := True\<rparr> in
        (Some (transaction_of ent), h\<lparr>undo_stack := butlast (undo_stack h) @ [ent]\<rparr>))"

section \<open>Grouping\<close>

text \<open>\<^verbatim>\<open>group_trailing\<close> merges the last \<open>n\<close> entries into the one before them.\<close>

definition group_trailing :: "history \<Rightarrow> nat \<Rightarrow> (transaction_id option \<times> history) option" where
  "group_trailing h n =
     (if length (undo_stack h) < n then None
      else let new_len = length (undo_stack h) - n;
               kept = take new_len (undo_stack h);
               merged = drop new_len (undo_stack h);
               stack = (if kept = [] then kept
                 else let ent = last kept; tx = transaction_of ent;
                          ent = ent\<lparr>transaction_of :=
                            tx\<lparr>edit_ids := edit_ids tx @ concat (map (\<lambda>e. edit_ids (transaction_of e)) merged)\<rparr>\<rparr>;
                          ent = (if merged = [] then ent else ent\<lparr>last_edit_at := last_edit_at (last merged)\<rparr>)
                      in butlast kept @ [ent])
           in Some (if stack = [] then None else Some (transaction_id (last stack)), h\<lparr>undo_stack := stack\<rparr>))"

text \<open>The loops of \<^verbatim>\<open>group\<close> and \<^verbatim>\<open>group_until\<close> walk the stack from the top; here its reversal.\<close>

fun group_count :: "nat \<Rightarrow> history_entry \<Rightarrow> history_entry list \<Rightarrow> nat" where
  "group_count interval ent [] = 0"
| "group_count interval ent (prev # rest) =
     (if \<not> suppress_grouping prev \<and> first_edit_at ent - last_edit_at prev < interval
      then 1 + group_count interval prev rest else 0)"

definition group :: "history \<Rightarrow> (transaction_id option \<times> history) option" where
  "group h = group_trailing h
     (case rev (undo_stack h) of [] \<Rightarrow> 0 | ent # rest \<Rightarrow> group_count (group_interval h) ent rest)"

fun count_until :: "transaction_id \<Rightarrow> history_entry list \<Rightarrow> nat option" where
  "count_until tid [] = None"
| "count_until tid (e # rest) =
     (if transaction_id e = tid then Some 0
      else if suppress_grouping e then None
      else map_option Suc (count_until tid rest))"

definition group_until :: "history \<Rightarrow> transaction_id \<Rightarrow> history option" where
  "group_until h tid = (case count_until tid (rev (undo_stack h)) of
     None \<Rightarrow> Some h
   | Some n \<Rightarrow> do { (_, h') \<leftarrow> group_trailing h n; Some h' })"

section \<open>Moving between the stacks\<close>

text \<open>\<^verbatim>\<open>rposition\<close> of a transaction: the last index with the identifier.\<close>

fun rposition :: "transaction_id \<Rightarrow> history_entry list \<Rightarrow> nat option" where
  "rposition tid [] = None"
| "rposition tid (e # es) =
     (case rposition tid es of Some i \<Rightarrow> Some (Suc i) | None \<Rightarrow> if transaction_id e = tid then Some 0 else None)"

definition remove_at :: "nat \<Rightarrow> 'a list \<Rightarrow> 'a list" where
  "remove_at i xs = take i xs @ drop (Suc i) xs"

definition pop_undo :: "history \<Rightarrow> (history_entry option \<times> history) option" where
  "pop_undo h =
     (if transaction_depth h \<noteq> 0 then None
      else if undo_stack h = [] then Some (None, h)
      else let ent = last (undo_stack h) in
        Some (Some ent, h\<lparr>undo_stack := butlast (undo_stack h), redo_stack := redo_stack h @ [ent]\<rparr>))"

definition pop_redo :: "history \<Rightarrow> (history_entry option \<times> history) option" where
  "pop_redo h =
     (if transaction_depth h \<noteq> 0 then None
      else if redo_stack h = [] then Some (None, h)
      else let ent = last (redo_stack h) in
        Some (Some ent, h\<lparr>redo_stack := butlast (redo_stack h), undo_stack := undo_stack h @ [ent]\<rparr>))"

definition remove_from_undo :: "history \<Rightarrow> transaction_id \<Rightarrow> (history_entry option \<times> history) option" where
  "remove_from_undo h tid =
     (if transaction_depth h \<noteq> 0 then None
      else case rposition tid (undo_stack h) of
        None \<Rightarrow> Some (None, h)
      | Some i \<Rightarrow>
          (let ent = undo_stack h ! i in
           Some (Some ent, h\<lparr>undo_stack := remove_at i (undo_stack h), redo_stack := redo_stack h @ [ent]\<rparr>)))"

definition remove_from_undo_until :: "history \<Rightarrow> transaction_id \<Rightarrow> (history_entry list \<times> history) option" where
  "remove_from_undo_until h tid =
     (if transaction_depth h \<noteq> 0 then None
      else let h' = (case rposition tid (undo_stack h) of
               None \<Rightarrow> h
             | Some i \<Rightarrow> h\<lparr>undo_stack := take i (undo_stack h),
                          redo_stack := redo_stack h @ rev (drop i (undo_stack h))\<rparr>)
           in Some (drop (length (redo_stack h)) (redo_stack h'), h'))"

definition remove_from_redo :: "history \<Rightarrow> transaction_id \<Rightarrow> (history_entry list \<times> history) option" where
  "remove_from_redo h tid =
     (if transaction_depth h \<noteq> 0 then None
      else let h' = (case rposition tid (redo_stack h) of
               None \<Rightarrow> h
             | Some i \<Rightarrow> h\<lparr>redo_stack := take i (redo_stack h),
                          undo_stack := undo_stack h @ rev (drop i (redo_stack h))\<rparr>)
           in Some (drop (length (undo_stack h)) (undo_stack h'), h'))"

definition forget :: "history \<Rightarrow> transaction_id \<Rightarrow> (transaction option \<times> history) option" where
  "forget h tid =
     (if transaction_depth h \<noteq> 0 then None
      else case rposition tid (undo_stack h) of
        Some i \<Rightarrow> Some (Some (transaction_of (undo_stack h ! i)), h\<lparr>undo_stack := remove_at i (undo_stack h)\<rparr>)
      | None \<Rightarrow>
          (case rposition tid (redo_stack h) of
             Some i \<Rightarrow> Some (Some (transaction_of (redo_stack h ! i)), h\<lparr>redo_stack := remove_at i (redo_stack h)\<rparr>)
           | None \<Rightarrow> Some (None, h)))"

definition find_transaction :: "history \<Rightarrow> transaction_id \<Rightarrow> transaction option" where
  "find_transaction h tid = (case rposition tid (undo_stack h) of
     Some i \<Rightarrow> Some (transaction_of (undo_stack h ! i))
   | None \<Rightarrow> map_option (\<lambda>i. transaction_of (redo_stack h ! i)) (rposition tid (redo_stack h)))"

text \<open>\<^verbatim>\<open>transaction_mut\<close> with the update its caller makes through the reference.\<close>

definition update_entry :: "(transaction \<Rightarrow> transaction) \<Rightarrow> nat \<Rightarrow> history_entry list \<Rightarrow> history_entry list" where
  "update_entry f i es = es[i := (es ! i)\<lparr>transaction_of := f (transaction_of (es ! i))\<rparr>]"

definition transaction_mut :: "history \<Rightarrow> transaction_id \<Rightarrow> (transaction \<Rightarrow> transaction) \<Rightarrow> history option" where
  "transaction_mut h tid f = (case rposition tid (undo_stack h) of
     Some i \<Rightarrow> Some (h\<lparr>undo_stack := update_entry f i (undo_stack h)\<rparr>)
   | None \<Rightarrow> map_option (\<lambda>i. h\<lparr>redo_stack := update_entry f i (redo_stack h)\<rparr>) (rposition tid (redo_stack h)))"

definition merge_transactions :: "history \<Rightarrow> transaction_id \<Rightarrow> transaction_id \<Rightarrow> history option" where
  "merge_transactions h tid destination = do {
     (tx, h') \<leftarrow> forget h tid;
     Some (case tx of
       None \<Rightarrow> h'
     | Some tx \<Rightarrow> (case transaction_mut h' destination (\<lambda>d. d\<lparr>edit_ids := edit_ids d @ edit_ids tx\<rparr>) of
         None \<Rightarrow> h' | Some h'' \<Rightarrow> h'')) }"

end
