(* ===== verification/History_Correct.thy ===== *)
theory History_Correct
  imports History "HOL-Library.Multiset"
begin

text \<open>
  Correctness of the undo history: the invariant that every sequence of operations keeps, the exact conditions under which
  an operation panics, what grouping and merging conserve, and the round trips between the two stacks.
\<close>

section \<open>Positions of transactions\<close>

lemma rposition_None: "rposition tid es = None \<longleftrightarrow> tid \<notin> transaction_id ` set es"
  by (induction es) (auto split: option.splits)

lemma rposition_SomeD:
  "rposition tid es = Some i \<Longrightarrow> i < length es \<and> transaction_id (es ! i) = tid \<and>
     tid \<notin> transaction_id ` set (drop (Suc i) es)"
  by (induction es arbitrary: i) (auto split: option.splits if_splits simp: rposition_None)

lemma rposition_append:
  "rposition tid (xs @ ys) = (case rposition tid ys of Some i \<Rightarrow> Some (length xs + i) | None \<Rightarrow> rposition tid xs)"
  by (induction xs) (auto split: option.splits)

lemma set_remove_at: "set (remove_at i es) \<subseteq> set es"
  by (auto simp: remove_at_def dest: in_set_takeD in_set_dropD)

lemma mset_remove_at:
  assumes "i < length es"
  shows "mset es = mset (remove_at i es) + {#es ! i#}"
proof -
  have "es = take i es @ es ! i # drop (Suc i) es" using assms by (rule id_take_nth_drop)
  from arg_cong [OF this, of mset] show ?thesis by (simp add: remove_at_def)
qed

section \<open>The invariant\<close>

text \<open>The edits of the transactions on a stack.\<close>

definition stack_edits :: "history_entry list \<Rightarrow> lamport list" where
  "stack_edits es = concat (map (\<lambda>e. edit_ids (transaction_of e)) es)"

lemma stack_edits_simps [simp]:
  "stack_edits [] = []"
  "stack_edits (e # es) = edit_ids (transaction_of e) @ stack_edits es"
  "stack_edits (es @ fs) = stack_edits es @ stack_edits fs"
  by (simp_all add: stack_edits_def)

lemma stack_edits_last: "es \<noteq> [] \<Longrightarrow> stack_edits es = stack_edits (butlast es) @ edit_ids (transaction_of (last es))"
  by (metis append_butlast_last_id stack_edits_simps(1,2,3) append_Nil2)

lemma set_stack_edits: "set (stack_edits es) = (\<Union>e\<in>set es. set (edit_ids (transaction_of e)))"
  by (simp add: stack_edits_def)

text \<open>
  An open transaction is on the undo stack, the operations are stored under their timestamps, and every edit that a transaction
  names is a recorded edit operation.
\<close>

definition known_edit :: "history \<Rightarrow> lamport \<Rightarrow> bool" where
  "known_edit h i \<longleftrightarrow> (\<exists>e. tm_map (operations h) i = Some (EditOp e))"

definition history_ok :: "history \<Rightarrow> bool" where
  "history_ok h \<longleftrightarrow> (transaction_depth h \<noteq> 0 \<longrightarrow> undo_stack h \<noteq> []) \<and> tm_ok (operations h) \<and>
     (\<forall>i op. tm_map (operations h) i = Some op \<longrightarrow> operation_timestamp op = i) \<and>
     (\<forall>i\<in>set (stack_edits (undo_stack h)) \<union> set (stack_edits (redo_stack h)). known_edit h i)"

section \<open>Grouping\<close>

lemma group_count_le: "group_count iv ent rest \<le> length rest"
  by (induction iv ent rest rule: group_count.induct) auto

lemma count_until_less: "count_until tid es = Some n \<Longrightarrow> n < length es"
  by (induction es arbitrary: n) (auto split: if_splits)

lemma count_until_nth: "count_until tid es = Some n \<Longrightarrow> transaction_id (es ! n) = tid"
  by (induction es arbitrary: n) (auto split: if_splits)

text \<open>
  Merging fewer entries than there are keeps every edit in order, the entries below, the identity and the start of the
  transaction merged into, and both stacks' other fields.
\<close>

lemma group_trailing_ok:
  assumes "n < length (undo_stack h)"
  shows "\<exists>e. group_trailing h n = Some (Some (transaction_id (undo_stack h ! (length (undo_stack h) - Suc n))),
      h\<lparr>undo_stack := take (length (undo_stack h) - Suc n) (undo_stack h) @ [e]\<rparr>) \<and>
    transaction_id e = transaction_id (undo_stack h ! (length (undo_stack h) - Suc n)) \<and>
    edit_ids (transaction_of e) = stack_edits (drop (length (undo_stack h) - Suc n) (undo_stack h)) \<and>
    first_edit_at e = first_edit_at (undo_stack h ! (length (undo_stack h) - Suc n)) \<and>
    last_edit_at e = last_edit_at (last (undo_stack h))"
proof -
  let ?us = "undo_stack h" and ?k = "length (undo_stack h) - Suc n"
  let ?kept = "take (length ?us - n) ?us" and ?merged = "drop (length ?us - n) ?us"
  have k: "length ?us - n = Suc ?k" "?k < length ?us" using assms by auto
  have kept: "?kept \<noteq> []" "last ?kept = ?us ! ?k" "butlast ?kept = take ?k ?us"
    using k by (auto simp: take_Suc_conv_app_nth)
  have drop: "drop ?k ?us = ?us ! ?k # ?merged" using k by (metis Cons_nth_drop_Suc)
  define tx where "tx = transaction_of (?us ! ?k)"
  define e where "e = (?us ! ?k)\<lparr>transaction_of := tx\<lparr>edit_ids := edit_ids tx @ stack_edits ?merged\<rparr>,
     last_edit_at := (if ?merged = [] then last_edit_at (?us ! ?k) else last_edit_at (last ?merged))\<rparr>"
  have last: "last ?us = (if ?merged = [] then ?us ! ?k else last ?merged)"
    using drop k(2) by (metis last_drop last_ConsL last_ConsR)
  have id: "transaction_id e = transaction_id (?us ! ?k)" by (simp add: e_def transaction_id_def tx_def)
  have "group_trailing h n = Some (Some (transaction_id e), h\<lparr>undo_stack := take ?k ?us @ [e]\<rparr>)"
    using assms kept by (simp add: group_trailing_def Let_def e_def tx_def stack_edits_def)
  moreover have "edit_ids (transaction_of e) = stack_edits (drop ?k ?us)"
    unfolding drop by (simp add: e_def tx_def)
  moreover have "first_edit_at e = first_edit_at (?us ! ?k)" by (simp add: e_def)
  moreover have "last_edit_at e = last_edit_at (last ?us)" unfolding last by (simp add: e_def)
  ultimately show ?thesis using id by metis
qed

lemma group_trailing_edits:
  assumes "n < length (undo_stack h)"
  shows "\<exists>tid us. group_trailing h n = Some (Some tid, h\<lparr>undo_stack := us\<rparr>) \<and> us \<noteq> [] \<and>
    length us = length (undo_stack h) - n \<and> stack_edits us = stack_edits (undo_stack h) \<and> transaction_id (last us) = tid"
proof -
  let ?us = "undo_stack h" and ?k = "length (undo_stack h) - Suc n"
  obtain e where e: "group_trailing h n = Some (Some (transaction_id (?us ! ?k)), h\<lparr>undo_stack := take ?k ?us @ [e]\<rparr>)"
    "transaction_id e = transaction_id (?us ! ?k)" "edit_ids (transaction_of e) = stack_edits (drop ?k ?us)"
    using group_trailing_ok [OF assms] by blast
  have "stack_edits (take ?k ?us @ [e]) = stack_edits ?us"
    using e(3) stack_edits_simps(3) [of "take ?k ?us" "drop ?k ?us"] by simp
  then show ?thesis using e assms by (intro exI [of _ "take ?k ?us @ [e]"] exI [of _ "transaction_id e"]) auto
qed

lemma group_ok:
  "\<exists>tid us. group h = Some (tid, h\<lparr>undo_stack := us\<rparr>) \<and> stack_edits us = stack_edits (undo_stack h) \<and>
     (us = [] \<longleftrightarrow> undo_stack h = []) \<and> (tid = None \<longleftrightarrow> undo_stack h = [])"
proof (cases "rev (undo_stack h)")
  case Nil
  then have "group h = Some (None, h\<lparr>undo_stack := []\<rparr>)" by (simp add: group_def group_trailing_def)
  then show ?thesis using Nil by auto
next
  case (Cons e rest)
  then have len: "length (undo_stack h) = Suc (length rest)" by (metis length_rev length_Cons)
  then have "group_count (group_interval h) e rest < length (undo_stack h)"
    using group_count_le [of "group_interval h" e rest] by simp
  from group_trailing_edits [OF this] show ?thesis using Cons len by (fastforce simp: group_def)
qed

lemma group_until_ok:
  "\<exists>us. group_until h tid = Some (h\<lparr>undo_stack := us\<rparr>) \<and> stack_edits us = stack_edits (undo_stack h) \<and>
     (us = [] \<longleftrightarrow> undo_stack h = [])"
proof (cases "count_until tid (rev (undo_stack h))")
  case None
  then show ?thesis by (intro exI [of _ "undo_stack h"]) (simp add: group_until_def)
next
  case (Some n)
  then have "n < length (undo_stack h)" using count_until_less by fastforce
  from group_trailing_edits [OF this] show ?thesis using Some \<open>n < _\<close> by (fastforce simp: group_until_def)
qed

section \<open>Sequences of operations\<close>

datatype history_op =
    Push operation
  | Start global nat lamport
  | End nat
  | Group
  | GroupUntil transaction_id
  | Finalize
  | PushTransaction transaction nat
  | PushEmpty global nat lamport
  | PushUndo lamport
  | PopUndo
  | PopRedo
  | RemoveFromUndo transaction_id
  | RemoveFromUndoUntil transaction_id
  | RemoveFromRedo transaction_id
  | Forget transaction_id
  | Merge transaction_id transaction_id

fun history_exec :: "history \<Rightarrow> history_op \<Rightarrow> history option" where
  "history_exec h (Push op) = history_push h op"
| "history_exec h (Start s now clk) = Some (snd (snd (start_transaction h s now clk)))"
| "history_exec h (End now) = map_option snd (end_transaction h now)"
| "history_exec h Group = map_option snd (group h)"
| "history_exec h (GroupUntil tid) = group_until h tid"
| "history_exec h Finalize = Some (snd (finalize_last_transaction h))"
| "history_exec h (PushTransaction tx now) = push_transaction h tx now"
| "history_exec h (PushEmpty s now clk) = map_option (snd \<circ> snd) (push_empty_transaction h s now clk)"
| "history_exec h (PushUndo i) = push_undo h i"
| "history_exec h PopUndo = map_option snd (pop_undo h)"
| "history_exec h PopRedo = map_option snd (pop_redo h)"
| "history_exec h (RemoveFromUndo tid) = map_option snd (remove_from_undo h tid)"
| "history_exec h (RemoveFromUndoUntil tid) = map_option snd (remove_from_undo_until h tid)"
| "history_exec h (RemoveFromRedo tid) = map_option snd (remove_from_redo h tid)"
| "history_exec h (Forget tid) = map_option snd (forget h tid)"
| "history_exec h (Merge tid dst) = merge_transactions h tid dst"

text \<open>
  What the callers owe: a timestamp names one operation, and a transaction pushed from outside names recorded edits.
\<close>

fun op_allowed :: "history \<Rightarrow> history_op \<Rightarrow> bool" where
  "op_allowed h (Push op) \<longleftrightarrow> tm_get (operations h) (operation_timestamp op) \<in> {None, Some op}"
| "op_allowed h (PushTransaction tx _) \<longleftrightarrow>
     list_all (\<lambda>i. case tm_get (operations h) i of Some op \<Rightarrow> is_edit op | None \<Rightarrow> False) (edit_ids tx)"
| "op_allowed h _ \<longleftrightarrow> True"

text \<open>The assertions on the nesting depth, in one place.\<close>

fun depth_required :: "history_op \<Rightarrow> nat \<Rightarrow> bool" where
  "depth_required (Push _) d \<longleftrightarrow> True"
| "depth_required (Start _ _ _) d \<longleftrightarrow> True"
| "depth_required Group d \<longleftrightarrow> True"
| "depth_required (GroupUntil _) d \<longleftrightarrow> True"
| "depth_required Finalize d \<longleftrightarrow> True"
| "depth_required (End _) d \<longleftrightarrow> d \<noteq> 0"
| "depth_required (PushUndo _) d \<longleftrightarrow> d \<noteq> 0"
| "depth_required _ d \<longleftrightarrow> d = 0"

inductive history_reachable :: "history \<Rightarrow> bool" where
  init: "history_reachable (history_new t)"
| step: "history_reachable h \<Longrightarrow> op_allowed h op \<Longrightarrow> history_exec h op = Some h' \<Longrightarrow> history_reachable h'"

text \<open>
  The same runs, with the transaction that is open beside the history: the outermost start opens it and the last end closes
  it. Grouping is possible while it is open and can merge it into an earlier transaction, which then takes its place.
\<close>

fun opened_by :: "history \<Rightarrow> history_op \<Rightarrow> transaction_id option \<Rightarrow> transaction_id option" where
  "opened_by h (Start _ _ clk) tid = (if transaction_depth h = 0 then Some (fst (lamport_tick clk)) else tid)"
| "opened_by h (End _) tid = (if transaction_depth h = 1 then None else tid)"
| "opened_by h Group tid = (if transaction_depth h = 0 then tid else Option.bind (group h) fst)"
| "opened_by h (GroupUntil until) tid =
     (if transaction_depth h = 0 \<or> count_until until (rev (undo_stack h)) = None then tid else Some until)"
| "opened_by h _ tid = tid"

inductive history_reached :: "transaction_id option \<Rightarrow> history \<Rightarrow> bool" where
  reached_new: "history_reached None (history_new t)"
| reached_step: "history_reached tid h \<Longrightarrow> op_allowed h op \<Longrightarrow> history_exec h op = Some h' \<Longrightarrow> history_reached (opened_by h op tid) h'"

lemma history_reached_iff: "history_reachable h \<longleftrightarrow> (\<exists>tid. history_reached tid h)"
proof
  show "history_reachable h \<Longrightarrow> \<exists>tid. history_reached tid h"
    by (induction rule: history_reachable.induct) (blast intro: history_reached.intros)+
  have "history_reached tid h \<Longrightarrow> history_reachable h" for tid
    by (induction rule: history_reached.induct) (auto intro: history_reachable.intros)
  then show "\<exists>tid. history_reached tid h \<Longrightarrow> history_reachable h" by blast
qed

section \<open>Every operation keeps the invariant\<close>

text \<open>An operation that only rearranges or drops edits of the stacks keeps the invariant.\<close>

lemma history_ok_stacks:
  assumes "history_ok h" "operations h' = operations h"
    "set (stack_edits (undo_stack h')) \<union> set (stack_edits (redo_stack h')) \<subseteq>
       set (stack_edits (undo_stack h)) \<union> set (stack_edits (redo_stack h)) \<union> Collect (known_edit h)"
    "undo_stack h \<noteq> [] \<or> transaction_depth h = 0 \<Longrightarrow> transaction_depth h' = 0 \<or> undo_stack h' \<noteq> []"
  shows "history_ok h'"
proof -
  have "known_edit h' i = known_edit h i" for i by (simp add: known_edit_def assms(2))
  then show ?thesis using assms by (auto simp: history_ok_def)
qed

lemma stack_edits_last_update:
  "es \<noteq> [] \<Longrightarrow> edit_ids (transaction_of e) = edit_ids (transaction_of (last es)) \<Longrightarrow>
     stack_edits (butlast es @ [e]) = stack_edits es"
  by (simp add: stack_edits_last [of es])

lemma in_stack_edits_remove_at: "x \<in> set (stack_edits (remove_at i es)) \<Longrightarrow> x \<in> set (stack_edits es)"
  using set_remove_at [of i es] by (auto simp: set_stack_edits)

lemma in_stack_edits_take: "x \<in> set (stack_edits (take i es)) \<Longrightarrow> x \<in> set (stack_edits es)"
  by (auto simp: set_stack_edits dest: in_set_takeD)

lemma in_stack_edits_drop: "x \<in> set (stack_edits (rev (drop i es))) \<Longrightarrow> x \<in> set (stack_edits es)"
  by (auto simp: set_stack_edits dest: in_set_dropD)

lemma in_stack_edits_nth: "i < length es \<Longrightarrow> x \<in> set (edit_ids (transaction_of (es ! i))) \<Longrightarrow> x \<in> set (stack_edits es)"
  by (auto simp: set_stack_edits)

lemma in_stack_edits_butlast: "x \<in> set (stack_edits (butlast es)) \<Longrightarrow> x \<in> set (stack_edits es)"
  by (auto simp: set_stack_edits dest: in_set_butlastD)

lemma in_stack_edits_last: "es \<noteq> [] \<Longrightarrow> x \<in> set (edit_ids (transaction_of (last es))) \<Longrightarrow> x \<in> set (stack_edits es)"
  by (auto simp: set_stack_edits)

lemmas in_stack_edits = in_stack_edits_remove_at in_stack_edits_take in_stack_edits_drop in_stack_edits_nth
  in_stack_edits_butlast in_stack_edits_last

lemma in_stack_edits_update:
  assumes "x \<in> set (stack_edits (update_entry f i es))" "i < length es"
    "set (edit_ids (f (transaction_of (es ! i)))) \<subseteq> set (edit_ids (transaction_of (es ! i))) \<union> A"
  shows "x \<in> set (stack_edits es) \<union> A"
proof -
  obtain e where e: "e \<in> set (update_entry f i es)" "x \<in> set (edit_ids (transaction_of e))"
    using assms(1) by (auto simp: set_stack_edits)
  let ?u = "(es ! i)\<lparr>transaction_of := f (transaction_of (es ! i))\<rparr>"
  from e(1) have "e = ?u \<or> e \<in> set es"
    using set_update_subset_insert [of es i ?u] by (auto simp: update_entry_def)
  then show ?thesis using e(2) assms(2,3) by (fastforce simp: set_stack_edits dest: nth_mem)
qed

lemma history_push_ok:
  assumes "history_ok h" "op_allowed h (Push op)"
  shows "\<exists>h'. history_push h op = Some h' \<and> history_ok h' \<and> undo_stack h' = undo_stack h \<and>
    tm_map (operations h') = (tm_map (operations h))(operation_timestamp op \<mapsto> op)"
proof -
  have ok: "tm_ok (operations h)" using assms(1) by (simp add: history_ok_def)
  obtain m where m: "tm_insert (operations h) (operation_timestamp op) op = Some m" "tm_ok m"
    "tm_map m = (tm_map (operations h))(operation_timestamp op \<mapsto> op)"
    using tm_insert_or_replace_ok [OF ok] by blast
  let ?h = "h\<lparr>operations := m\<rparr>"
  have "known_edit ?h i" if "known_edit h i" for i
    using that assms(2) by (auto simp: known_edit_def m(3) tm_get_eq [OF ok])
  then have "history_ok ?h" using assms(1) m(2) by (auto simp: history_ok_def m(3))
  then show ?thesis using m by (auto simp: history_push_def)
qed

lemma history_new_ok: "history_ok (history_new t)"
  by (simp add: history_ok_def history_new_def tm_default_ok conjunct2 [OF tm_default_ok])

lemma start_transaction_keeps:
  "history_ok h \<Longrightarrow> history_ok (snd (snd (start_transaction h s now clk)))"
  by (erule history_ok_stacks)
    (auto simp: start_transaction_def Let_def new_entry_def split: prod.splits)

lemma end_transaction_keeps:
  "history_ok h \<Longrightarrow> end_transaction h now = Some (e, h') \<Longrightarrow> history_ok h'"
  by (erule history_ok_stacks)
    (auto simp: end_transaction_def Let_def stack_edits_last_update split: if_splits dest: in_stack_edits)

lemma finalize_keeps: "history_ok h \<Longrightarrow> history_ok (snd (finalize_last_transaction h))"
  by (erule history_ok_stacks) 
    (auto simp: finalize_last_transaction_def Let_def dest: in_stack_edits)

lemma push_undo_keeps:
  assumes "history_ok h" "push_undo h i = Some h'"
  shows "history_ok h'"
proof (rule history_ok_stacks [OF assms(1)])
  have "tm_get (operations h) i = tm_map (operations h) i"
    using assms(1) by (simp add: history_ok_def tm_get_eq)
  then show "set (stack_edits (undo_stack h')) \<union> set (stack_edits (redo_stack h')) \<subseteq>
       set (stack_edits (undo_stack h)) \<union> set (stack_edits (redo_stack h)) \<union> Collect (known_edit h)"
    using assms(2)
    by (auto simp: push_undo_def Let_def known_edit_def split: if_splits option.splits operation.splits dest: in_stack_edits)
qed (use assms in \<open>auto simp: push_undo_def Let_def history_ok_def split: if_splits option.splits operation.splits\<close>)

lemma push_transaction_keeps:
  assumes "history_ok h" "op_allowed h (PushTransaction tx now)" "push_transaction h tx now = Some h'"
  shows "history_ok h'"
proof (rule history_ok_stacks [OF assms(1)])
  have "known_edit h i" if "i \<in> set (edit_ids tx)" for i
  proof -
    have "case tm_map (operations h) i of Some op \<Rightarrow> is_edit op | None \<Rightarrow> False"
      using assms(1,2) that by (auto simp: list_all_iff history_ok_def tm_get_eq)
    then show ?thesis by (auto simp: known_edit_def split: option.splits elim: is_edit.elims)
  qed
  then show "set (stack_edits (undo_stack h')) \<union> set (stack_edits (redo_stack h')) \<subseteq>
       set (stack_edits (undo_stack h)) \<union> set (stack_edits (redo_stack h)) \<union> Collect (known_edit h)"
    using assms(3) by (auto simp: push_transaction_def new_entry_def split: if_splits)
qed (use assms in \<open>auto simp: push_transaction_def split: if_splits\<close>)


lemma group_keeps: "history_ok h \<Longrightarrow> group h = Some (tid, h') \<Longrightarrow> history_ok h'"
  using group_ok [of h] by (auto elim!: history_ok_stacks)

lemma group_until_keeps: "history_ok h \<Longrightarrow> group_until h tid = Some h' \<Longrightarrow> history_ok h'"
  using group_until_ok [of h tid] by (auto elim!: history_ok_stacks)

lemma pop_keeps:
  "history_ok h \<Longrightarrow> pop_undo h = Some (e, h') \<Longrightarrow> history_ok h'"
  "history_ok h \<Longrightarrow> pop_redo h = Some (e, h') \<Longrightarrow> history_ok h'"
  by (erule history_ok_stacks; auto simp: pop_undo_def pop_redo_def Let_def split: if_splits dest: in_stack_edits)+

lemma remove_keeps:
  "history_ok h \<Longrightarrow> remove_from_undo h tid = Some (e, h') \<Longrightarrow> history_ok h'"
  "history_ok h \<Longrightarrow> remove_from_undo_until h tid = Some (es, h') \<Longrightarrow> history_ok h'"
  "history_ok h \<Longrightarrow> remove_from_redo h tid = Some (es, h') \<Longrightarrow> history_ok h'"
  by (erule history_ok_stacks;
      auto simp: remove_from_undo_def remove_from_undo_until_def remove_from_redo_def Let_def
        split: if_splits option.splits dest: in_stack_edits dest!: rposition_SomeD)+

text \<open>What \<^verbatim>\<open>forget\<close> leaves and returns, by the number of times each edit occurs.\<close>

definition history_edits :: "history \<Rightarrow> lamport multiset" where
  "history_edits h = mset (stack_edits (undo_stack h)) + mset (stack_edits (redo_stack h))"

lemma mset_stack_edits: "mset (stack_edits es) = (\<Sum>e\<in>#mset es. mset (edit_ids (transaction_of e)))"
  by (induction es) auto

lemma mset_stack_edits_remove_at:
  "i < length es \<Longrightarrow> mset (stack_edits es) =
     mset (stack_edits (remove_at i es)) + mset (edit_ids (transaction_of (es ! i)))"
  unfolding mset_stack_edits by (subst mset_remove_at) auto

lemma forget_ok:
  assumes "transaction_depth h = 0"
  shows "case forget h tid of
      None \<Rightarrow> False
    | Some (None, h') \<Rightarrow> h' = h \<and> tid \<notin> transaction_id ` set (undo_stack h @ redo_stack h)
    | Some (Some tx, h') \<Rightarrow> tx_id tx = tid \<and> transaction_depth h' = 0 \<and> operations h' = operations h \<and>
        history_edits h = history_edits h' + mset (edit_ids tx) \<and>
        (\<exists>e. transaction_of e = tx \<and>
           mset (undo_stack h @ redo_stack h) = add_mset e (mset (undo_stack h' @ redo_stack h')))"
proof (cases "rposition tid (undo_stack h)")
  case (Some i)
  then have i: "i < length (undo_stack h)" "transaction_id (undo_stack h ! i) = tid"
    using rposition_SomeD by blast+
  have "forget h tid = Some (Some (transaction_of (undo_stack h ! i)), h\<lparr>undo_stack := remove_at i (undo_stack h)\<rparr>)"
    using assms Some by (simp add: forget_def)
  then show ?thesis
    using i assms mset_remove_at [OF i(1)] mset_stack_edits_remove_at [OF i(1)]
    by (simp add: history_edits_def transaction_id_def)
next
  case undo: None
  show ?thesis
  proof (cases "rposition tid (redo_stack h)")
    case (Some i)
    then have i: "i < length (redo_stack h)" "transaction_id (redo_stack h ! i) = tid"
      using rposition_SomeD by blast+
    have "forget h tid = Some (Some (transaction_of (redo_stack h ! i)), h\<lparr>redo_stack := remove_at i (redo_stack h)\<rparr>)"
      using assms Some undo by (simp add: forget_def)
    then show ?thesis
      using i assms mset_remove_at [OF i(1)] mset_stack_edits_remove_at [OF i(1)]
      by (simp add: history_edits_def transaction_id_def)
  next
    case None
    then have "forget h tid = Some (None, h)" using assms undo by (simp add: forget_def)
    then show ?thesis using None undo by (auto simp: rposition_None)
  qed
qed

lemma forget_keeps: "history_ok h \<Longrightarrow> forget h tid = Some (tx, h') \<Longrightarrow> history_ok h'"
  by (erule history_ok_stacks)
    (auto simp: forget_def split: if_splits option.splits dest: in_stack_edits dest!: rposition_SomeD)

lemma forget_edits_known:
  "history_ok h \<Longrightarrow> forget h tid = Some (Some tx, h') \<Longrightarrow> i \<in> set (edit_ids tx) \<Longrightarrow> known_edit h' i"
  by (auto simp: forget_def history_ok_def known_edit_def split: if_splits option.splits
      dest: in_stack_edits dest!: rposition_SomeD)

lemma length_update_entry [simp]: "length (update_entry f i es) = length es"
  by (simp add: update_entry_def)

lemma mset_update_entry:
  assumes "i < length es" "edit_ids (f (transaction_of (es ! i))) = edit_ids (transaction_of (es ! i)) @ ids"
  shows "mset (stack_edits (update_entry f i es)) = mset (stack_edits es) + mset ids"
proof -
  have "remove_at i (update_entry f i es) = remove_at i es" by (simp add: update_entry_def remove_at_def)
  moreover have "edit_ids (transaction_of (update_entry f i es ! i)) = edit_ids (transaction_of (es ! i)) @ ids"
    using assms by (simp add: update_entry_def)
  ultimately show ?thesis
    using mset_stack_edits_remove_at [of i "update_entry f i es"] mset_stack_edits_remove_at [OF assms(1)] assms(1)
    by simp
qed

lemma transaction_mut_ok:
  assumes "\<And>tx. edit_ids (f tx) = edit_ids tx @ ids"
  shows "case transaction_mut h tid f of
      None \<Rightarrow> tid \<notin> transaction_id ` set (undo_stack h @ redo_stack h)
    | Some h' \<Rightarrow> history_edits h' = history_edits h + mset ids \<and> operations h' = operations h \<and>
        transaction_depth h' = transaction_depth h \<and> length (undo_stack h') = length (undo_stack h) \<and>
        length (redo_stack h') = length (redo_stack h)"
proof (cases "rposition tid (undo_stack h)")
  case (Some i)
  then show ?thesis using rposition_SomeD [OF Some] mset_update_entry [of i "undo_stack h" f ids] assms
    by (simp add: transaction_mut_def history_edits_def)
next
  case None
  then show ?thesis using mset_update_entry [of _ "redo_stack h" f ids] assms
    by (auto simp: transaction_mut_def history_edits_def rposition_None split: option.split dest!: rposition_SomeD)
qed

lemma merge_transactions_keeps:
  assumes "history_ok h" "merge_transactions h tid dst = Some h'"
  shows "history_ok h'"
proof -
  obtain tx h1 where f: "forget h tid = Some (tx, h1)"
    using assms(2) by (auto simp: merge_transactions_def bind_eq_Some_conv)
  have h1: "history_ok h1" using forget_keeps [OF assms(1) f] .
  show ?thesis
  proof (cases tx)
    case None
    then show ?thesis using assms(2) f h1 by (simp add: merge_transactions_def)
  next
    case (Some t)
    let ?f = "\<lambda>d. d\<lparr>edit_ids := edit_ids d @ edit_ids t\<rparr>"
    show ?thesis
    proof (cases "transaction_mut h1 dst ?f")
      case None
      then show ?thesis using assms(2) f h1 Some by (simp add: merge_transactions_def)
    next
      case (Some h2)
      then have h2: "h2 = h'" using assms(2) f \<open>tx = Some t\<close> by (simp add: merge_transactions_def)
      have m: "history_edits h' = history_edits h1 + mset (edit_ids t)" "operations h' = operations h1"
        "transaction_depth h' = transaction_depth h1" "length (undo_stack h') = length (undo_stack h1)"
        using transaction_mut_ok [where f = ?f and ids = "edit_ids t" and h = h1 and tid = dst] Some h2 by auto
      have "set (edit_ids t) \<subseteq> Collect (known_edit h1)"
        using forget_edits_known [OF assms(1)] f \<open>tx = Some t\<close> by auto
      then show ?thesis using arg_cong [OF m(1), of set_mset] m(2-4)
        by (intro history_ok_stacks [OF h1]) (auto simp: history_edits_def)
    qed
  qed
qed

lemma push_empty_keeps:
  "history_ok h \<Longrightarrow> push_empty_transaction h s now clk = Some (tid, clk', h') \<Longrightarrow> history_ok h'"
  by (erule history_ok_stacks)
    (auto simp: push_empty_transaction_def new_entry_def Let_def split: if_splits prod.splits)

lemmas history_keeps = start_transaction_keeps end_transaction_keeps group_keeps group_until_keeps finalize_keeps
  push_transaction_keeps push_empty_keeps push_undo_keeps pop_keeps remove_keeps forget_keeps merge_transactions_keeps

lemma history_exec_keeps:
  assumes "history_ok h" "op_allowed h op" "history_exec h op = Some h'"
  shows "history_ok h'"
proof (cases op)
  case (Push x1)
  then show ?thesis using history_push_ok [of h x1] assms by auto
qed (use assms in \<open>auto dest: history_keeps\<close>)

lemma history_reachable_ok: "history_reachable h \<Longrightarrow> history_ok h"
  by (induction rule: history_reachable.induct) (auto simp: history_new_ok intro: history_exec_keeps)

text \<open>The transaction that is open is the one on top of the undo stack.\<close>

definition open_ok :: "transaction_id option \<Rightarrow> history \<Rightarrow> bool" where
  "open_ok tid h \<longleftrightarrow> (case tid of
     None \<Rightarrow> transaction_depth h = 0
   | Some i \<Rightarrow> transaction_depth h \<noteq> 0 \<and> undo_stack h \<noteq> [] \<and> transaction_id (last (undo_stack h)) = i)"

lemma open_ok_simps [simp]:
  "open_ok None h \<longleftrightarrow> transaction_depth h = 0"
  "open_ok (Some i) h \<longleftrightarrow> transaction_depth h \<noteq> 0 \<and> undo_stack h \<noteq> [] \<and> transaction_id (last (undo_stack h)) = i"
  by (simp_all add: open_ok_def)

lemma group_top:
  assumes "undo_stack h \<noteq> []"
  shows "\<exists>tid us. group h = Some (Some tid, h\<lparr>undo_stack := us\<rparr>) \<and> us \<noteq> [] \<and> transaction_id (last us) = tid"
proof -
  obtain e rest where r: "rev (undo_stack h) = e # rest" using assms by (cases "rev (undo_stack h)") auto
  then have "length (undo_stack h) = Suc (length rest)" by (metis length_rev length_Cons)
  then have "group_count (group_interval h) e rest < length (undo_stack h)"
    using group_count_le [of "group_interval h" e rest] by simp
  from group_trailing_edits [OF this] show ?thesis using r by (auto simp: group_def)
qed

lemma group_until_top:
  assumes "count_until tid (rev (undo_stack h)) = Some n"
  shows "\<exists>us. group_until h tid = Some (h\<lparr>undo_stack := us\<rparr>) \<and> us \<noteq> [] \<and> transaction_id (last us) = tid"
proof -
  have n: "n < length (undo_stack h)" using count_until_less [OF assms] by simp
  then have "transaction_id (undo_stack h ! (length (undo_stack h) - Suc n)) = tid" using count_until_nth [OF assms] by (simp add: rev_nth)
  then show ?thesis using group_trailing_ok [OF n] assms by (auto simp: group_until_def)
qed

lemma open_ok_step:
  assumes "open_ok tid h" "history_exec h op = Some h'"
  shows "open_ok (opened_by h op tid) h'"
proof (cases op)
  case (Start s now clk)
  then show ?thesis using assms
    by (cases tid) (auto simp: start_transaction_def Let_def new_entry_def transaction_id_def split: prod.splits)
next
  case (End now)
  then show ?thesis using assms
    by (cases tid) (auto simp: end_transaction_def Let_def transaction_id_def split: if_splits)
next
  case Group
  then show ?thesis using assms group_top [of h] group_ok [of h] by (cases tid) auto
next
  case (GroupUntil until)
  show ?thesis
  proof (cases "count_until until (rev (undo_stack h))")
    case None
    then show ?thesis using assms GroupUntil by (simp add: group_until_def)
  next
    case (Some n)
    then show ?thesis using assms GroupUntil group_until_top [OF Some] by (cases tid) auto
  qed
next
  case (PushUndo i)
  then show ?thesis using assms
    by (cases tid) (auto simp: push_undo_def Let_def transaction_id_def split: if_splits option.splits operation.splits)
next
  case Finalize
  then show ?thesis using assms by (cases tid) (auto simp: finalize_last_transaction_def Let_def transaction_id_def)
next
  case (Merge src dst)
  then show ?thesis using assms
    by (cases tid)
      (auto simp: merge_transactions_def forget_def transaction_mut_def bind_eq_Some_conv split: if_splits option.splits)
qed (use assms in \<open>auto simp: open_ok_def history_push_def push_transaction_def push_empty_transaction_def pop_undo_def pop_redo_def
    remove_from_undo_def remove_from_undo_until_def remove_from_redo_def forget_def Let_def bind_eq_Some_conv
    split: if_splits option.splits prod.splits\<close>)

lemma history_reached_open: "history_reached tid h \<Longrightarrow> open_ok tid h"
  by (induction rule: history_reached.induct) (simp_all add: history_new_def open_ok_step)

text \<open>The only panics are the assertions on the depth.\<close>

lemma history_exec_panics_iff:
  assumes "history_ok h" "op_allowed h op"
  shows "history_exec h op = None \<longleftrightarrow> \<not> depth_required op (transaction_depth h)"
proof (cases op)
  case (Push x1)
  then show ?thesis using history_push_ok [of h x1] assms by auto
next
  case (Group)
  then show ?thesis using group_ok [of h] by auto
next
  case (GroupUntil tid)
  then show ?thesis using group_until_ok [of h tid] by auto
next
  case (End now)
  then show ?thesis using assms by (auto simp: end_transaction_def Let_def history_ok_def)
next
  case (PushUndo i)
  then show ?thesis using assms
    by (auto simp: push_undo_def Let_def history_ok_def split: option.splits operation.splits)
next
  case (Merge tid dst)
  then show ?thesis
    by (auto simp: merge_transactions_def forget_def bind_eq_None_conv split: option.splits)
qed (auto simp: push_transaction_def push_empty_transaction_def pop_undo_def pop_redo_def remove_from_undo_def
    remove_from_undo_until_def remove_from_redo_def forget_def Let_def split: option.splits prod.splits)


section \<open>Round trips between the stacks\<close>

lemma pop_undo_redo:
  assumes "transaction_depth h = 0" "undo_stack h \<noteq> []"
  shows "\<exists>h'. pop_undo h = Some (Some (last (undo_stack h)), h') \<and> pop_redo h' = Some (Some (last (undo_stack h)), h)"
  using assms by (simp add: pop_undo_def pop_redo_def Let_def)

lemma rposition_unique:
  assumes "distinct (map transaction_id es)" "i < length es"
  shows "rposition (transaction_id (es ! i)) es = Some i"
proof (cases "rposition (transaction_id (es ! i)) es")
  case None
  then show ?thesis using assms(2) by (auto simp: rposition_None)
next
  case (Some j)
  then have "j < length es" "transaction_id (es ! j) = transaction_id (es ! i)" using rposition_SomeD by blast+
  then have "j = i" using assms by (auto simp: distinct_conv_nth)
  then show ?thesis using Some by simp
qed

lemma undo_until_then_redo:
  assumes "transaction_depth h = 0" "distinct (map transaction_id (undo_stack h @ redo_stack h))"
    "tid \<in> transaction_id ` set (undo_stack h)"
  shows "\<exists>es h'. remove_from_undo_until h tid = Some (es, h') \<and> undo_stack h = undo_stack h' @ rev es \<and>
    transaction_id (last es) = tid \<and> redo_stack h' = redo_stack h @ es \<and>
    remove_from_redo h' (transaction_id (last (undo_stack h))) = Some (rev es, h)"
proof -
  let ?us = "undo_stack h" and ?rs = "redo_stack h"
  obtain i where i: "rposition tid ?us = Some i" using assms(3) by (metis option.exhaust rposition_None)
  from rposition_SomeD [OF i] have il: "i < length ?us" "transaction_id (?us ! i) = tid" by blast+
  let ?es = "rev (drop i ?us)" and ?h = "h\<lparr>undo_stack := take i ?us, redo_stack := ?rs @ rev (drop i ?us)\<rparr>"
  have 1: "remove_from_undo_until h tid = Some (?es, ?h)"
    using assms(1) i by (simp add: remove_from_undo_until_def)
  let ?l = "transaction_id (last ?us)"
  obtain us' l where us: "?us = us' @ [l]" using il(1) by (cases ?us rule: rev_cases) auto
  have es: "?es = l # rev (drop i us')" using il(1) us by simp
  have "?l \<notin> transaction_id ` set (rev (drop i us'))"
    using assms(2) by (auto simp: us dest: in_set_dropD)
  then have "rposition ?l (rev (drop i us')) = None" by (simp only: rposition_None not_False_eq_True)
  then have "rposition ?l ?es = Some 0" unfolding es by (simp add: us)
  then have "rposition ?l (?rs @ ?es) = Some (length ?rs)" by (simp add: rposition_append)
  then have "remove_from_redo ?h ?l = Some (rev ?es, h)"
    using assms(1) il(1) by (simp add: remove_from_redo_def)
  moreover have "transaction_id (last ?es) = tid" using il by (simp add: last_rev hd_drop_conv_nth)
  ultimately show ?thesis using 1 by auto
qed

section \<open>Merging transactions\<close>

lemma merge_transactions_ok:
  assumes "transaction_depth h = 0" "tid \<noteq> dst" "{tid, dst} \<subseteq> transaction_id ` set (undo_stack h @ redo_stack h)"
  shows "\<exists>h'. merge_transactions h tid dst = Some h' \<and> history_edits h' = history_edits h \<and>
    Suc (length (undo_stack h' @ redo_stack h')) = length (undo_stack h @ redo_stack h)"
proof -
  from assms(3) have "tid \<in> transaction_id ` set (undo_stack h @ redo_stack h)" by simp
  then obtain tx h1 e where f: "forget h tid = Some (Some tx, h1)" "tx_id tx = tid" "transaction_of e = tx"
    "history_edits h = history_edits h1 + mset (edit_ids tx)"
    "mset (undo_stack h @ redo_stack h) = add_mset e (mset (undo_stack h1 @ redo_stack h1))"
    using forget_ok [OF assms(1), of tid] by (auto split: option.splits prod.splits)
  have "set (undo_stack h @ redo_stack h) = insert e (set (undo_stack h1 @ redo_stack h1))"
    using arg_cong [OF f(5), of set_mset] by simp
  then have "dst \<in> transaction_id ` set (undo_stack h1 @ redo_stack h1)"
    using assms(2,3) f(2,3) by (auto simp: transaction_id_def)
  then obtain h2 where h2: "transaction_mut h1 dst (\<lambda>d. d\<lparr>edit_ids := edit_ids d @ edit_ids tx\<rparr>) = Some h2"
    "history_edits h2 = history_edits h1 + mset (edit_ids tx)" "length (undo_stack h2) = length (undo_stack h1)"
    "length (redo_stack h2) = length (redo_stack h1)"
    using transaction_mut_ok [where f = "\<lambda>d. d\<lparr>edit_ids := edit_ids d @ edit_ids tx\<rparr>" and ids = "edit_ids tx"
        and h = h1 and tid = dst] by (auto split: option.splits)
  moreover have "merge_transactions h tid dst = Some h2" by (simp add: merge_transactions_def f(1) h2(1))
  ultimately show ?thesis using f(4) arg_cong [OF f(5), of size] by simp
qed

section \<open>Nested transactions\<close>

primrec history_run :: "history \<Rightarrow> history_op list \<Rightarrow> history option" where
  "history_run h [] = Some h"
| "history_run h (op # ops) = do { h' \<leftarrow> history_exec h op; history_run h' ops }"

text \<open>
  The body of a transaction: nested starts and ends that never close the outer transaction, operations that are stored, and
  edits that are recorded. \<open>body_depth\<close> is the depth at its end.
\<close>

fun body_depth :: "nat \<Rightarrow> history_op list \<Rightarrow> nat option" where
  "body_depth d [] = Some d"
| "body_depth d (Start _ _ _ # ops) = body_depth (Suc d) ops"
| "body_depth d (End _ # ops) = (if d > 1 then body_depth (d - 1) ops else None)"
| "body_depth d (PushUndo _ # ops) = body_depth d ops"
| "body_depth d (Push _ # ops) = body_depth d ops"
| "body_depth d (_ # ops) = None"

text \<open>The operations stored by a body, and the edits it records.\<close>

fun body_operations :: "(lamport \<rightharpoonup> operation) \<Rightarrow> history_op list \<Rightarrow> (lamport \<rightharpoonup> operation)" where
  "body_operations m [] = m"
| "body_operations m (Push op # ops) = body_operations (m(operation_timestamp op \<mapsto> op)) ops"
| "body_operations m (_ # ops) = body_operations m ops"

fun body_edits :: "(lamport \<rightharpoonup> operation) \<Rightarrow> history_op list \<Rightarrow> lamport list" where
  "body_edits m [] = []"
| "body_edits m (PushUndo i # ops) =
     (case m i of Some (EditOp _) \<Rightarrow> i # body_edits m ops | _ \<Rightarrow> body_edits m ops)"
| "body_edits m (Push op # ops) = body_edits (m(operation_timestamp op \<mapsto> op)) ops"
| "body_edits m (_ # ops) = body_edits m ops"

definition add_edits :: "history \<Rightarrow> lamport list \<Rightarrow> history" where
  "add_edits h ids = (let e = last (undo_stack h); tx = transaction_of e in
     h\<lparr>undo_stack := butlast (undo_stack h) @ [e\<lparr>transaction_of := tx\<lparr>edit_ids := edit_ids tx @ ids\<rparr>\<rparr>]\<rparr>)"

lemma add_edits_simps [simp]:
  "transaction_depth (add_edits h ids) = transaction_depth h"
  "operations (add_edits h ids) = operations h"
  "undo_stack (add_edits h ids) \<noteq> []"
  by (simp_all add: add_edits_def Let_def)

lemma add_edits_Nil: "undo_stack h \<noteq> [] \<Longrightarrow> add_edits h [] = h"
  by (simp add: add_edits_def)

lemma add_edits_add: "undo_stack h \<noteq> [] \<Longrightarrow> add_edits (add_edits h is) js = add_edits h (is @ js)"
  by (simp add: add_edits_def Let_def)

lemma add_edits_depth: "undo_stack h \<noteq> [] \<Longrightarrow>
    add_edits (h\<lparr>transaction_depth := d\<rparr>) ids = (add_edits h ids)\<lparr>transaction_depth := d\<rparr>"
  by (simp add: add_edits_def Let_def)

lemma add_edits_operations: "undo_stack h \<noteq> [] \<Longrightarrow> add_edits (h\<lparr>operations := m\<rparr>) ids = (add_edits h ids)\<lparr>operations := m\<rparr>"
  by (simp add: add_edits_def Let_def)

lemma body_run:
  assumes "undo_stack h \<noteq> []" "0 < transaction_depth h" "body_depth (transaction_depth h) ops = Some d" "tm_ok (operations h)"
  shows "\<exists>m. history_run h ops = Some ((add_edits h (body_edits (tm_map (operations h)) ops))\<lparr>transaction_depth := d, operations := m\<rparr>) \<and>
    tm_ok m \<and> tm_map m = body_operations (tm_map (operations h)) ops"
  using assms
proof (induction "transaction_depth h" ops arbitrary: h rule: body_depth.induct)
  case 1
  then show ?case by (intro exI [of _ "operations h"]) (simp add: add_edits_Nil)
next
  case (2 s now clk ops)
  let ?h = "h\<lparr>transaction_depth := Suc (transaction_depth h)\<rparr>"
  have "history_exec h (Start s now clk) = Some ?h" using 2(3) by (simp add: start_transaction_def)
  then show ?case using 2(1) [of ?h] 2(2-5) by (simp add: add_edits_depth)
next
  case (3 now ops)
  let ?h = "h\<lparr>transaction_depth := transaction_depth h - 1\<rparr>"
  have d: "1 < transaction_depth h" using 3(4) by (simp split: if_splits)
  then have e: "end_transaction h now = Some (None, ?h)" by (auto simp: end_transaction_def Let_def)
  show ?case using 3(1) [of ?h] 3(2-5) d e by (simp add: add_edits_depth)
next
  case (4 i ops)
  have get: "tm_get (operations h) i = tm_map (operations h) i" using 4(5) by (simp add: tm_get_eq)
  show ?case
  proof (cases "\<exists>e. tm_map (operations h) i = Some (EditOp e)")
    case True
    let ?h = "add_edits h [i]"
    have "history_exec h (PushUndo i) = Some ?h" using 4(2,3) True get by (auto simp: push_undo_def add_edits_def Let_def)
    then show ?thesis using 4(1) [of ?h] 4(2-5) True by (auto simp: add_edits_add)
  next
    case False
    have "history_exec h (PushUndo i) = Some h"
      using 4(2,3) False get by (auto simp: push_undo_def split: option.split operation.split)
    then show ?thesis using 4(1) [of h] 4(2-5) False by (auto split: option.split operation.split)
  qed
next
  case (5 op ops)
  obtain m where m: "tm_insert (operations h) (operation_timestamp op) op = Some m" "tm_ok m"
    "tm_map m = (tm_map (operations h))(operation_timestamp op \<mapsto> op)"
    using tm_insert_or_replace_ok [OF 5(5)] by blast
  let ?h = "h\<lparr>operations := m\<rparr>"
  have "history_exec h (Push op) = Some ?h" using m(1) by (simp add: history_push_def)
  then show ?case using 5(1) [of ?h] 5(2-4) m(2,3) by (simp add: add_edits_operations)
qed auto

lemma history_run_append: "history_run h (xs @ ys) = do { h' \<leftarrow> history_run h xs; history_run h' ys }"
  by (induction xs arbitrary: h) (auto split: bind_splits)

lemma transaction_bracket_ok:
  assumes "transaction_depth h = 0" "body_depth 1 body = Some 1" "tm_ok (operations h)"
  defines "ids \<equiv> body_edits (tm_map (operations h)) body"
  shows "\<exists>m. tm_ok m \<and> tm_map m = body_operations (tm_map (operations h)) body \<and>
    history_run h (Start s t0 clk # body @ [End t1]) =
     (if ids = [] then Some (h\<lparr>operations := m\<rparr>)
      else Some (h\<lparr>operations := m, undo_stack := undo_stack h @ [\<lparr>transaction_of = \<lparr>tx_id = fst (lamport_tick clk), edit_ids = ids, tx_start = s\<rparr>,
             first_edit_at = t0, last_edit_at = t1, suppress_grouping = False\<rparr>], redo_stack := []\<rparr>))"
proof -
  let ?e = "new_entry \<lparr>tx_id = fst (lamport_tick clk), edit_ids = [], tx_start = s\<rparr> t0"
  let ?h = "h\<lparr>transaction_depth := 1, undo_stack := undo_stack h @ [?e]\<rparr>"
  have "history_exec h (Start s t0 clk) = Some ?h"
    using assms(1) by (simp add: start_transaction_def Let_def split: prod.split)
  moreover obtain m where "history_run ?h body = Some ((add_edits ?h ids)\<lparr>transaction_depth := 1, operations := m\<rparr>)" "tm_ok m"
    "tm_map m = body_operations (tm_map (operations h)) body"
    using body_run [of ?h body 1] assms(2,3) by (auto simp: ids_def)
  ultimately show ?thesis using assms(1)
    by (intro exI [of _ m]) (simp add: history_run_append add_edits_def end_transaction_def Let_def new_entry_def)
qed

end
