(* ===== verification/Selection.thy ===== *)
theory Selection
  imports Prelude
begin

text \<open>
  Selections, \<^verbatim>\<open>crates/text/src/selection.rs\<close>: a range of positions with a moving end, the head, and a fixed end, the
  tail. The positions are of any linear order and the floating-point types of the goal are type parameters, since the code
  only stores them. The lemmas show what each mutation does to head and tail, and which of them keep the range ordered.
\<close>

datatype ('f, 'h) selection_goal =
    NoGoal
  | HorizontalPosition 'f
  | HorizontalRange 'f 'f
  | WrappedHorizontalPosition u32 'h

record ('t, 'f, 'h) selection =
  sel_id :: nat
  sel_start :: 't
  sel_end :: 't
  reversed :: bool
  goal :: "('f, 'h) selection_goal"

section \<open>Operations\<close>

definition head :: "('t, 'f, 'h) selection \<Rightarrow> 't" where
  "head s = (if reversed s then sel_start s else sel_end s)"

definition tail :: "('t, 'f, 'h) selection \<Rightarrow> 't" where
  "tail s = (if reversed s then sel_end s else sel_start s)"

definition map_selection :: "('t \<Rightarrow> 'u) \<Rightarrow> ('t, 'f, 'h) selection \<Rightarrow> ('u, 'f, 'h) selection" where
  "map_selection f s = \<lparr>sel_id = sel_id s, sel_start = f (sel_start s), sel_end = f (sel_end s),
     reversed = reversed s, goal = goal s\<rparr>"

definition collapse_to :: "('t, 'f, 'h) selection \<Rightarrow> 't \<Rightarrow> ('f, 'h) selection_goal \<Rightarrow> ('t, 'f, 'h) selection" where
  "collapse_to s point new_goal = s\<lparr>sel_start := point, sel_end := point, goal := new_goal, reversed := False\<rparr>"

definition selection_is_empty :: "('t, 'f, 'h) selection \<Rightarrow> bool" where
  "selection_is_empty s \<longleftrightarrow> sel_start s = sel_end s"

definition set_head ::
  "('t::linorder, 'f, 'h) selection \<Rightarrow> 't \<Rightarrow> ('f, 'h) selection_goal \<Rightarrow> ('t, 'f, 'h) selection" where
  "set_head s h new_goal =
     (if ord_cmp h (tail s) = Less
      then (let s = (if \<not> reversed s then s\<lparr>sel_end := sel_start s, reversed := True\<rparr> else s)
            in s\<lparr>sel_start := h\<rparr>)
      else (let s = (if reversed s then s\<lparr>sel_start := sel_end s, reversed := False\<rparr> else s)
            in s\<lparr>sel_end := h\<rparr>))\<lparr>goal := new_goal\<rparr>"

definition set_tail ::
  "('t::linorder, 'f, 'h) selection \<Rightarrow> 't \<Rightarrow> ('f, 'h) selection_goal \<Rightarrow> ('t, 'f, 'h) selection" where
  "set_tail s t new_goal =
     (if ord_cmp t (head s) \<noteq> Greater
      then (let s = (if reversed s then s\<lparr>sel_end := sel_start s, reversed := False\<rparr> else s)
            in s\<lparr>sel_start := t\<rparr>)
      else (let s = (if \<not> reversed s then s\<lparr>sel_start := sel_end s, reversed := True\<rparr> else s)
            in s\<lparr>sel_end := t\<rparr>))\<lparr>goal := new_goal\<rparr>"

definition set_head_tail ::
  "('t::linorder, 'f, 'h) selection \<Rightarrow> 't \<Rightarrow> 't \<Rightarrow> ('f, 'h) selection_goal \<Rightarrow> ('t, 'f, 'h) selection" where
  "set_head_tail s h t new_goal =
     (if h < t then s\<lparr>reversed := True, sel_start := h, sel_end := t, goal := new_goal\<rparr>
      else s\<lparr>reversed := False, sel_start := t, sel_end := h, goal := new_goal\<rparr>)"

definition swap_head_tail :: "('t, 'f, 'h) selection \<Rightarrow> ('t, 'f, 'h) selection" where
  "swap_head_tail s =
     (if reversed s then s\<lparr>reversed := False\<rparr>
      else s\<lparr>sel_start := sel_end s, sel_end := sel_start s\<rparr>)"

definition selection_range :: "('t, 'f, 'h) selection \<Rightarrow> 't \<times> 't" where
  "selection_range s = (sel_start s, sel_end s)"

text \<open>\<^verbatim>\<open>len\<close> at \<^verbatim>\<open>usize\<close>: the subtraction panics below zero.\<close>

definition selection_len :: "(nat, 'f, 'h) selection \<Rightarrow> nat option" where
  "selection_len s = (if sel_start s \<le> sel_end s then Some (sel_end s - sel_start s) else None)"

definition selection_equals :: "('t, 'f, 'h) selection \<Rightarrow> 't \<times> 't \<Rightarrow> bool" where
  "selection_equals s r \<longleftrightarrow> sel_start s = fst r \<and> sel_end s = snd r"

section \<open>Ordered selections\<close>

definition selection_ok :: "('t::linorder, 'f, 'h) selection \<Rightarrow> bool" where
  "selection_ok s \<longleftrightarrow> sel_start s \<le> sel_end s"

lemma set_head_ok:
  "selection_ok (set_head s h g)" "head (set_head s h g) = h" "tail (set_head s h g) = tail s"
  "goal (set_head s h g) = g" "sel_id (set_head s h g) = sel_id s"
  by (auto simp: set_head_def selection_ok_def head_def tail_def ord_cmp_def Let_def)

lemma set_tail_ok:
  "selection_ok (set_tail s t g)" "tail (set_tail s t g) = t" "head (set_tail s t g) = head s"
  "goal (set_tail s t g) = g" "sel_id (set_tail s t g) = sel_id s"
  by (auto simp: set_tail_def selection_ok_def head_def tail_def ord_cmp_def Let_def)

lemma set_head_tail_ok:
  "selection_ok (set_head_tail s h t g)" "head (set_head_tail s h t g) = h" "tail (set_head_tail s h t g) = t"
  "goal (set_head_tail s h t g) = g"
  by (auto simp: set_head_tail_def selection_ok_def head_def tail_def)

lemma collapse_to_ok:
  "selection_ok (collapse_to s p g)" "selection_is_empty (collapse_to s p g)" "head (collapse_to s p g) = p"
  by (auto simp: collapse_to_def selection_ok_def selection_is_empty_def head_def)

lemma tail_collapse_to: "tail (collapse_to s p g) = p"
  by (simp add: collapse_to_def tail_def)

lemma map_selection_ok:
  "selection_ok s \<Longrightarrow> mono f \<Longrightarrow> selection_ok (map_selection f s)"
  "head (map_selection f s) = f (head s)" "tail (map_selection f s) = f (tail s)"
  by (auto simp: map_selection_def selection_ok_def head_def tail_def monoD)

text \<open>
  \<^verbatim>\<open>swap_head_tail\<close> does swap head and tail, but the swap of a selection that is not reversed leaves a range that is
  not ordered, unless it is empty: the flag stays unset and the ends are exchanged.
\<close>

lemma swap_head_tail_ok: "head (swap_head_tail s) = tail s" "tail (swap_head_tail s) = head s"
  by (auto simp: swap_head_tail_def head_def tail_def)

lemma swap_head_tail_ordered_iff:
  assumes "selection_ok s"
  shows "selection_ok (swap_head_tail s) \<longleftrightarrow> reversed s \<or> selection_is_empty s"
  using assms by (auto simp: swap_head_tail_def selection_ok_def selection_is_empty_def)

text \<open>The sequence of head and tail moves: what the last ones set is what is read.\<close>

datatype 't selection_move = MoveHead 't | MoveTail 't | MoveBoth 't 't | Collapse 't

fun move ::
  "('f, 'h) selection_goal \<Rightarrow> ('t::linorder, 'f, 'h) selection \<Rightarrow> 't selection_move \<Rightarrow> ('t, 'f, 'h) selection" where
  "move g s (MoveHead h) = set_head s h g"
| "move g s (MoveTail t) = set_tail s t g"
| "move g s (MoveBoth h t) = set_head_tail s h t g"
| "move g s (Collapse p) = collapse_to s p g"

fun move_ends :: "'t \<times> 't \<Rightarrow> 't selection_move \<Rightarrow> 't \<times> 't" where
  "move_ends (h, t) (MoveHead h') = (h', t)"
| "move_ends (h, t) (MoveTail t') = (h, t')"
| "move_ends (h, t) (MoveBoth h' t') = (h', t')"
| "move_ends (h, t) (Collapse p) = (p, p)"

lemma move_ok: "selection_ok (move g s m)" "(head (move g s m), tail (move g s m)) = move_ends (head s, tail s) m"
  by (cases m; simp add: set_head_ok set_tail_ok set_head_tail_ok collapse_to_ok tail_collapse_to)+

lemma moves_ok:
  assumes "selection_ok s"
  shows "selection_ok (foldl (move g) s ms) \<and>
    (head (foldl (move g) s ms), tail (foldl (move g) s ms)) = foldl move_ends (head s, tail s) ms"
  using assms
proof (induction ms arbitrary: s)
  case (Cons m ms)
  then show ?case using Cons.IH [of "move g s m"] move_ok [of g s m] by simp
qed simp

end
