(* ===== verification/Rope_Text.thy ===== *)
theory Rope_Text
  imports Prelude "HOL-Library.Monad_Syntax"
begin

text \<open>
  Ropes as the strings of their UTF-8 bytes, one \<open>char\<close> per byte, so that offsets and lengths are the source's: the character
  boundaries of a rope, and its cursor (\<^verbatim>\<open>crates/rope/src/rope.rs\<close>, \<^verbatim>\<open>crates/rope/src/chunk.rs\<close>). A rope keeps its text
  in chunks; each chunk is a \<^verbatim>\<open>str\<close>, so that chunks start and end at character boundaries and rounding an offset
  inside its chunk is rounding it in the text. A piece cut out of a rope is rounded inwards to whole characters, while the
  cursor moves to the offset it was given.
\<close>

section \<open>Character boundaries\<close>

text \<open>\<^verbatim>\<open>util::is_utf8_char_boundary\<close>: a byte that does not continue a character.\<close>

definition char_start :: "char \<Rightarrow> bool" where
  "char_start c \<longleftrightarrow> (of_char c :: nat) < 128 \<or> 192 \<le> (of_char c :: nat)"

text \<open>\<^verbatim>\<open>str::is_char_boundary\<close> and \<^verbatim>\<open>Rope::is_char_boundary\<close>.\<close>

definition is_char_boundary :: "string \<Rightarrow> nat \<Rightarrow> bool" where
  "is_char_boundary s i \<longleftrightarrow> i = 0 \<or> i = length s \<or> i < length s \<and> char_start (s ! i)"

fun floor_boundary :: "string \<Rightarrow> nat \<Rightarrow> nat" where
  "floor_boundary s 0 = 0"
| "floor_boundary s (Suc i) = (if is_char_boundary s (Suc i) then Suc i else floor_boundary s i)"

text \<open>\<^verbatim>\<open>Rope::assert_char_boundary\<close>, \<^verbatim>\<open>floor_char_boundary\<close> and \<^verbatim>\<open>ceil_char_boundary\<close>.\<close>

definition assert_char_boundary :: "bool \<Rightarrow> string \<Rightarrow> nat \<Rightarrow> bool option" where
  "assert_char_boundary panics text offset =
     (if is_char_boundary text offset then Some True else if panics then None else Some False)"

definition rope_floor :: "string \<Rightarrow> nat \<Rightarrow> nat" where
  "rope_floor text i = (if length text \<le> i then length text else floor_boundary text i)"

fun ceil_boundary :: "nat \<Rightarrow> string \<Rightarrow> nat \<Rightarrow> nat" where
  "ceil_boundary 0 text i = i"
| "ceil_boundary (Suc n) text i = (if is_char_boundary text i then i else ceil_boundary n text (Suc i))"

definition rope_ceil :: "string \<Rightarrow> nat \<Rightarrow> nat" where
  "rope_ceil text i = (if length text < i then length text else ceil_boundary (length text - i) text i)"

section \<open>Cursors over ropes\<close>

text \<open>A cursor of a rope is its offset; it panics when it is moved backwards or past the end.\<close>

definition rope_seek :: "string \<Rightarrow> nat \<Rightarrow> nat \<Rightarrow> nat option" where
  "rope_seek text at to = (if at \<le> to \<and> to \<le> length text then Some to else None)"

text \<open>The rounding of \<^verbatim>\<open>ChunkSlice::slice\<close>: the start up, the end down, an empty piece inside a character.\<close>

definition slice_bounds :: "string \<Rightarrow> nat \<Rightarrow> nat \<Rightarrow> nat \<times> nat" where
  "slice_bounds text start fin =
     (let start = (if is_char_boundary text start then start else rope_ceil text start);
          fin = (if is_char_boundary text fin then fin
                 else if fin < start then start else rope_floor text fin)
      in (start, fin))"

definition rope_cut :: "string \<Rightarrow> nat \<Rightarrow> nat \<Rightarrow> (string \<times> nat) option" where
  "rope_cut text at to = do {
     at' \<leftarrow> rope_seek text at to;
     let (start, fin) = slice_bounds text at to;
     Some (take (fin - start) (drop start text), at') }"

definition rope_count :: "string \<Rightarrow> nat \<Rightarrow> nat \<Rightarrow> (nat \<times> nat) option" where
  "rope_count text at to = do { (piece, at') \<leftarrow> rope_cut text at to; Some (length piece, at') }"

section \<open>Rounding\<close>

lemma is_char_boundary_ends [simp]: "is_char_boundary s 0" "is_char_boundary s (length s)"
  by (simp_all add: is_char_boundary_def)

lemma is_char_boundary_le: "is_char_boundary s i \<Longrightarrow> i \<le> length s"
  by (auto simp: is_char_boundary_def)

lemma floor_boundary_le: "floor_boundary s i \<le> i"
  by (induction i) auto

lemma floor_boundary_boundary [simp]: "is_char_boundary s (floor_boundary s i)"
  by (induction i) auto

lemma floor_boundary_greatest: "is_char_boundary s j \<Longrightarrow> j \<le> i \<Longrightarrow> j \<le> floor_boundary s i"
  by (induction i) (auto simp: le_Suc_eq)

lemma rope_floor_boundary [simp]: "is_char_boundary s (rope_floor s i)"
  by (simp add: rope_floor_def)

lemma rope_floor_id: "is_char_boundary s i \<Longrightarrow> rope_floor s i = i"
  using floor_boundary_greatest [of s i i] floor_boundary_le [of s i] is_char_boundary_le [of s i] by (auto simp: rope_floor_def)

lemma rope_floor_le: "i \<le> length s \<Longrightarrow> rope_floor s i \<le> i"
  by (simp add: rope_floor_def floor_boundary_le)

lemma rope_floor_length: "rope_floor s i \<le> length s"
  using floor_boundary_le [of s i] by (simp add: rope_floor_def)

lemma rope_floor_mono: "i \<le> j \<Longrightarrow> rope_floor s i \<le> rope_floor s j"
  using floor_boundary_greatest [of s "floor_boundary s i" j] floor_boundary_le [of s i]
  by (auto simp: rope_floor_def)

text \<open>Between two character boundaries nothing is rounded.\<close>

lemma rope_cut_chars:
  assumes "is_char_boundary text a" "is_char_boundary text b" "a \<le> b"
  shows "rope_cut text a b = Some (take (b - a) (drop a text), b)"
  using assms is_char_boundary_le [OF assms(2)] by (simp add: rope_cut_def rope_seek_def slice_bounds_def Let_def)

lemma rope_count_chars:
  assumes "is_char_boundary text a" "is_char_boundary text b" "a \<le> b"
  shows "rope_count text a b = Some (b - a, b)"
  using rope_cut_chars [OF assms] is_char_boundary_le [OF assms(2)] assms(3) by (simp add: rope_count_def)

text \<open>
  A \<^verbatim>\<open>str\<close> is valid UTF-8; what matters of this here is that it does not start inside a character.
\<close>

definition starts_on_char :: "string \<Rightarrow> bool" where
  "starts_on_char s \<longleftrightarrow> s = [] \<or> char_start (hd s)"

lemma boundary_append: "starts_on_char v \<Longrightarrow> is_char_boundary (u @ v) (length u)"
  by (cases v) (simp_all add: is_char_boundary_def starts_on_char_def)

end
