(* ===== verification/Line_Ending.thy ===== *)
theory Line_Ending
  imports Rope_Text
begin

text \<open>
  Small values of \<^verbatim>\<open>crates/text/src/text.rs\<close>: line endings (detection, normalisation, conversion, and the chunks of a rope
  with another line ending), the indentation of a line, and buffer identifiers. The regular expression \<^verbatim>\<open>\r\n|\r\<close> is applied by a
  third-party crate: its \<^verbatim>\<open>replace_all\<close> is a parameter, and \<open>replaces_line_separators\<close> states its documented
  behaviour on this expression (leftmost, first alternative first).
\<close>

abbreviation (input) LF :: char where "LF \<equiv> CHR 0x0A"
abbreviation (input) CR :: char where "CR \<equiv> CHR 0x0D"
abbreviation (input) TAB :: char where "TAB \<equiv> CHR 0x09"
abbreviation (input) SPACE :: char where "SPACE \<equiv> CHR 0x20"

section \<open>Line endings\<close>

datatype line_ending = Unix | Windows

text \<open>The default of a Unix build.\<close>

definition line_ending_default :: line_ending where
  "line_ending_default = Unix"

fun as_str :: "line_ending \<Rightarrow> string" where
  "as_str Unix = [LF]"
| "as_str Windows = [CR, LF]"

fun line_ending_label :: "line_ending \<Rightarrow> string" where
  "line_ending_label Unix = ''LF''"
| "line_ending_label Windows = ''CRLF''"

fun find_char :: "char \<Rightarrow> string \<Rightarrow> nat option" where
  "find_char c [] = None"
| "find_char c (x # xs) = (if x = c then Some 0 else map_option Suc (find_char c xs))"

definition detect :: "string \<Rightarrow> line_ending" where
  "detect text =
     (let max_ix = floor_boundary text (min (length text) 1000) in
      case find_char LF (take max_ix text) of
        Some ix \<Rightarrow> (if 0 < ix \<and> text ! (ix - 1) = CR then Windows else Unix)
      | None \<Rightarrow> line_ending_default)"

text \<open>
  \<^verbatim>\<open>normalize\<close>, \<^verbatim>\<open>normalize_arc\<close> and \<^verbatim>\<open>normalize_cow\<close>: a borrowed result of \<^verbatim>\<open>replace_all\<close> means that nothing was
  replaced, so in each case the text becomes the result.
\<close>

definition normalize :: "(string \<Rightarrow> string) \<Rightarrow> string \<Rightarrow> string" where
  "normalize replace_all text = replace_all text"

definition replaces_line_separators :: "(string \<Rightarrow> string) \<Rightarrow> bool" where
  "replaces_line_separators f \<longleftrightarrow> f [] = [] \<and> (\<forall>s. f (CR # LF # s) = LF # f s) \<and>
     (\<forall>s. (s = [] \<or> hd s \<noteq> LF) \<longrightarrow> f (CR # s) = LF # f s) \<and> (\<forall>c s. c \<noteq> CR \<longrightarrow> f (c # s) = c # f s)"

text \<open>\<^verbatim>\<open>str::replace\<close> of one byte.\<close>

definition replace_char :: "char \<Rightarrow> string \<Rightarrow> string \<Rightarrow> string" where
  "replace_char c t s = concat (map (\<lambda>x. if x = c then t else [x]) s)"

definition apply_line_ending :: "(string \<Rightarrow> string) \<Rightarrow> line_ending \<Rightarrow> string \<Rightarrow> string" where
  "apply_line_ending replace_all self text =
     (case (detect text, self) of
        (Unix, Unix) \<Rightarrow> text
      | (Windows, Windows) \<Rightarrow> text
      | (Unix, Windows) \<Rightarrow> replace_char LF [CR, LF] text
      | (Windows, Unix) \<Rightarrow> normalize replace_all text)"

text \<open>\<^verbatim>\<open>str::lines\<close>: the pieces up to and including a line feed, without it and without a carriage return before it.\<close>

fun split_inclusive :: "string \<Rightarrow> string list" where
  "split_inclusive [] = []"
| "split_inclusive (c # s) =
     (if c = LF then [c] # split_inclusive s
      else case split_inclusive s of [] \<Rightarrow> [[c]] | l # ls \<Rightarrow> (c # l) # ls)"

definition strip_line :: "string \<Rightarrow> string" where
  "strip_line l =
     (if l \<noteq> [] \<and> last l = LF
      then (let l = butlast l in if l \<noteq> [] \<and> last l = CR then butlast l else l)
      else l)"

definition str_lines :: "string \<Rightarrow> string list" where
  "str_lines s = map strip_line (split_inclusive s)"

fun line_pieces :: "string \<Rightarrow> bool \<Rightarrow> string list \<Rightarrow> string list" where
  "line_pieces stop newline [] = []"
| "line_pieces stop newline (line # ls) = (if newline then [stop] else []) @ [line] @ line_pieces stop True ls"

definition chunk_with_line_ending :: "line_ending \<Rightarrow> string \<Rightarrow> string list" where
  "chunk_with_line_ending le chunk =
     line_pieces (as_str le) False (str_lines chunk) @ (if chunk \<noteq> [] \<and> last chunk = LF then [as_str le] else [])"

text \<open>The chunks of the rope are the parameter.\<close>

definition chunks_with_line_ending :: "string list \<Rightarrow> line_ending \<Rightarrow> string list" where
  "chunks_with_line_ending chunks le = concat (map (chunk_with_line_ending le) chunks)"

section \<open>Indentation\<close>

record line_indent =
  tabs :: u32
  spaces :: u32
  line_blank :: bool

text \<open>The loop over the characters: the state, and whether it ran to the end.\<close>

fun indent_chars :: "string \<Rightarrow> line_indent \<Rightarrow> bool \<times> line_indent" where
  "indent_chars [] st = (True, st)"
| "indent_chars (c # cs) st =
     (if c = TAB then indent_chars cs (st\<lparr>tabs := tabs st + 1\<rparr>)
      else if c = SPACE then indent_chars cs (st\<lparr>spaces := spaces st + 1\<rparr>)
      else (False, if c \<noteq> LF then st\<lparr>line_blank := False\<rparr> else st))"

definition indent_init :: line_indent where
  "indent_init = \<lparr>tabs = 0, spaces = 0, line_blank = True\<rparr>"

definition indent_from_iter :: "string \<Rightarrow> line_indent" where
  "indent_from_iter cs = snd (indent_chars cs indent_init)"

text \<open>\<^verbatim>\<open>from_chunks\<close> also leaves the iterator at the chunk where it stopped.\<close>

fun indent_chunks :: "string list \<Rightarrow> line_indent \<Rightarrow> line_indent \<times> string list" where
  "indent_chunks [] st = (st, [])"
| "indent_chunks (chunk # chunks) st =
     (case indent_chars chunk st of
        (True, st') \<Rightarrow> indent_chunks chunks st'
      | (False, st') \<Rightarrow> (st', chunk # chunks))"

definition indent_from_chunks :: "string list \<Rightarrow> line_indent \<times> string list" where
  "indent_from_chunks chunks = indent_chunks chunks indent_init"

definition indent_spaces :: "u32 \<Rightarrow> line_indent" where
  "indent_spaces n = \<lparr>tabs = 0, spaces = n, line_blank = True\<rparr>"

definition indent_tabs :: "u32 \<Rightarrow> line_indent" where
  "indent_tabs n = \<lparr>tabs = n, spaces = 0, line_blank = True\<rparr>"

definition is_line_empty :: "line_indent \<Rightarrow> bool" where
  "is_line_empty l \<longleftrightarrow> tabs l = 0 \<and> spaces l = 0 \<and> line_blank l"

definition is_line_blank :: "line_indent \<Rightarrow> bool" where
  "is_line_blank l \<longleftrightarrow> line_blank l"

definition raw_len :: "line_indent \<Rightarrow> u32" where
  "raw_len l = tabs l + spaces l"

definition indent_len :: "line_indent \<Rightarrow> u32 \<Rightarrow> u32" where
  "indent_len l tab_size = tabs l * tab_size + spaces l"

section \<open>Buffer identifiers\<close>

text \<open>\<^verbatim>\<open>NonZeroU64\<close>, with its invariant as a predicate.\<close>

datatype buffer_id = BufferId (buffer_id_value: u64)

definition buffer_id_ok :: "buffer_id \<Rightarrow> bool" where
  "buffer_id_ok b \<longleftrightarrow> buffer_id_value b \<noteq> 0"

definition buffer_id_new :: "u64 \<Rightarrow> string + buffer_id" where
  "buffer_id_new n = (if n = 0 then Inl ''Buffer id cannot be 0.'' else Inr (BufferId n))"

definition saturating_add :: "'n::len word \<Rightarrow> 'n word \<Rightarrow> 'n word" where
  "saturating_add a b = (if unat a + unat b < 2 ^ LENGTH('n) then a + b else - 1)"

definition buffer_id_next :: "buffer_id \<Rightarrow> buffer_id \<times> buffer_id" where
  "buffer_id_next b = (b, BufferId (saturating_add (buffer_id_value b) 1))"

definition buffer_id_to_proto :: "buffer_id \<Rightarrow> u64" where
  "buffer_id_to_proto b = buffer_id_value b"

section \<open>Line endings: facts\<close>

lemma replaces_line_separatorsD:
  assumes "replaces_line_separators f"
  shows "f [] = []" "f (CR # LF # s) = LF # f s" "s = [] \<or> hd s \<noteq> LF \<Longrightarrow> f (CR # s) = LF # f s"
    "c \<noteq> CR \<Longrightarrow> f (c # s) = c # f s"
  using assms by (auto simp: replaces_line_separators_def)

lemma normalize_no_CR:
  assumes "replaces_line_separators f"
  shows "CR \<notin> set (normalize f s)"
proof (induction s rule: length_induct)
  case (1 s)
  note IH = 1 [rule_format, unfolded normalize_def] and f = replaces_line_separatorsD [OF assms]
  consider "s = []" | t where "s = CR # LF # t" | t where "s = CR # t" "t = [] \<or> hd t \<noteq> LF" | c t where "s = c # t" "c \<noteq> CR"
    by (metis list.exhaust list.sel(1))
  then show ?case
    by cases (use IH in \<open>auto simp: normalize_def f\<close>)
qed

lemma normalize_id:
  assumes "replaces_line_separators f" "CR \<notin> set s"
  shows "normalize f s = s"
  using assms(2)
proof (induction s)
  case (Cons c s)
  then show ?case using replaces_line_separatorsD(4) [OF assms(1), of c s] by (auto simp: normalize_def)
qed (simp add: normalize_def replaces_line_separatorsD [OF assms(1)])

lemma normalize_as_str:
  assumes "replaces_line_separators f" "CR \<notin> set s"
  shows "normalize f (replace_char LF (as_str le) s) = s"
  using assms(2)
proof (induction s)
  case (Cons c s)
  then show ?case
    by (cases le) (auto simp: normalize_def replace_char_def replaces_line_separatorsD [OF assms(1)])
qed (simp add: normalize_def replace_char_def replaces_line_separatorsD [OF assms(1)])

lemma find_char_Some: "find_char c s = Some i \<Longrightarrow> i < length s \<and> s ! i = c \<and> c \<notin> set (take i s)"
  by (induction s arbitrary: i) (auto split: if_splits)

lemma detect_Unix:
  assumes "CR \<notin> set s"
  shows "detect s = Unix"
proof -
  have "s ! (ix - 1) \<noteq> CR" if "find_char LF (take n s) = Some ix" for n ix
    using find_char_Some [OF that] assms by (metis length_take less_imp_diff_less min_less_iff_conj nth_mem)
  then show ?thesis by (auto simp: detect_def Let_def line_ending_default_def split: option.split)
qed

section \<open>Chunks: facts\<close>

lemma split_inclusive_concat: "concat (split_inclusive s) = s"
  by (induction s) (auto split: list.splits)

lemma split_inclusive_ne: "l \<in> set (split_inclusive s) \<Longrightarrow> l \<noteq> []"
  by (induction s arbitrary: l) (auto split: list.splits if_splits)

lemma split_inclusive_Nil [simp]: "split_inclusive s = [] \<longleftrightarrow> s = []"
  by (cases s) (auto split: list.splits)

lemma replace_char_simps [simp]:
  "replace_char c t [] = []"
  "replace_char c t (x # s) = (if x = c then t else [x]) @ replace_char c t s"
  by (simp_all add: replace_char_def)

lemma line_pieces_concat:
  "concat (line_pieces stop b ls) = (if b \<and> ls \<noteq> [] then stop else []) @ concat (line_pieces stop False ls)"
  by (cases ls) auto

lemma strip_line_Cons:
  "c \<noteq> LF \<Longrightarrow> c \<noteq> CR \<Longrightarrow> l \<noteq> [] \<Longrightarrow> strip_line (c # l) = c # strip_line l"
  by (auto simp: strip_line_def Let_def)

text \<open>The pieces of a chunk without carriage returns are the chunk with every line feed replaced.\<close>

lemma chunk_with_line_ending_ok:
  "CR \<notin> set s \<Longrightarrow> concat (chunk_with_line_ending le s) = replace_char LF (as_str le) s"
proof (induction s)
  case Nil
  then show ?case by (simp add: chunk_with_line_ending_def str_lines_def)
next
  case (Cons c s)
  show ?case
  proof (cases "c = LF")
    case True
    have "str_lines (c # s) = [] # str_lines s" using True by (simp add: str_lines_def strip_line_def)
    then show ?thesis using Cons True
      by (auto simp: chunk_with_line_ending_def line_pieces_concat [of _ True] str_lines_def split: if_splits)
  next
    case False
    show ?thesis
    proof (cases "split_inclusive s")
      case Nil
      then show ?thesis using Cons.prems False by (auto simp: chunk_with_line_ending_def str_lines_def strip_line_def)
    next
      case (Cons l ls)
      then have "l \<noteq> []" using split_inclusive_ne [of l s] by simp
      then have "str_lines (c # s) = (c # strip_line l) # map strip_line ls" "str_lines s = strip_line l # map strip_line ls"
        "s \<noteq> []"
        using False Cons.prems Cons by (auto simp: str_lines_def strip_line_Cons)
      then show ?thesis using Cons.IH Cons.prems False by (auto simp: chunk_with_line_ending_def)
    qed
  qed
qed

lemma replace_char_append: "replace_char c t (xs @ ys) = replace_char c t xs @ replace_char c t ys"
  by (simp add: replace_char_def)

lemma chunks_with_line_ending_ok:
  "CR \<notin> set (concat chunks) \<Longrightarrow>
     concat (chunks_with_line_ending chunks le) = replace_char LF (as_str le) (concat chunks)"
  by (induction chunks) (auto simp: chunks_with_line_ending_def chunk_with_line_ending_ok replace_char_append)

text \<open>What is written for a normalised text, whole or in chunks, and that normalising it gives the text back.\<close>

lemma written_ok:
  fixes le :: line_ending
  assumes "replaces_line_separators f" "CR \<notin> set (concat cs)"
  defines "w \<equiv> (case le of Unix \<Rightarrow> concat cs | Windows \<Rightarrow> concat (map (\<lambda>c. if c = LF then [CR, LF] else [c]) (concat cs)))"
  shows "apply_line_ending f le (concat cs) = w \<and> concat (chunks_with_line_ending cs le) = w \<and> normalize f w = concat cs"
proof -
  have "replace_char LF [LF] s = s" for s by (induction s) simp_all
  then have w: "w = replace_char LF (as_str le) (concat cs)" by (cases le) (simp_all add: w_def replace_char_def)
  have "apply_line_ending f le (concat cs) = w"
    using detect_Unix [OF assms(2)] by (cases le) (simp_all add: apply_line_ending_def w_def replace_char_def)
  then show ?thesis using chunks_with_line_ending_ok [OF assms(2)] normalize_as_str [OF assms(1,2)] unfolding w by simp
qed

section \<open>Indentation: facts\<close>

lemma indent_chars_append:
  "indent_chars (xs @ ys) st = (case indent_chars xs st of (True, st') \<Rightarrow> indent_chars ys st' | r \<Rightarrow> r)"
  by (induction xs arbitrary: st) auto

lemma indent_chunks_eq: "fst (indent_chunks chunks st) = snd (indent_chars (concat chunks) st)"
  by (induction chunks arbitrary: st) (auto simp: indent_chars_append split: prod.split bool.split)

abbreviation (input) indent_char :: "char \<Rightarrow> bool" where
  "indent_char c \<equiv> c = TAB \<or> c = SPACE"

lemma indent_chars_eq:
  "snd (indent_chars cs st) = \<lparr>tabs = tabs st + of_nat (count_list (takeWhile indent_char cs) TAB),
     spaces = spaces st + of_nat (count_list (takeWhile indent_char cs) SPACE),
     line_blank = (line_blank st \<and> (dropWhile indent_char cs = [] \<or> hd (dropWhile indent_char cs) = LF))\<rparr>"
  by (induction cs st rule: indent_chars.induct) auto

lemma count_indent: "list_all indent_char cs \<Longrightarrow> count_list cs TAB + count_list cs SPACE = length cs"
  by (induction cs) auto

lemma indent_from_iter_ok:
  "raw_len (indent_from_iter cs) = of_nat (length (takeWhile indent_char cs))"
  "is_line_blank (indent_from_iter cs) \<longleftrightarrow> dropWhile indent_char cs = [] \<or> hd (dropWhile indent_char cs) = LF"
proof -
  have "list_all indent_char (takeWhile indent_char cs)" by (auto simp: list_all_iff dest: set_takeWhileD)
  from count_indent [OF this] show "raw_len (indent_from_iter cs) = of_nat (length (takeWhile indent_char cs))"
    by (simp add: indent_from_iter_def indent_chars_eq raw_len_def indent_init_def flip: of_nat_add)
qed (simp add: indent_from_iter_def indent_chars_eq is_line_blank_def indent_init_def)

section \<open>Buffer identifiers: facts\<close>

lemma unat_saturating_add: "unat (saturating_add a b :: 'n::len word) = min (unat a + unat b) (2 ^ LENGTH('n) - 1)"
  by (auto simp: saturating_add_def unat_word_ariths unsigned_minus_1_eq_mask mask_eq_exp_minus_1 min_def)

lemma buffer_id_next_ok:
  assumes "buffer_id_ok b"
  shows "buffer_id_ok (snd (buffer_id_next b)) \<and>
    unat (buffer_id_value (snd (buffer_id_next b))) = min (unat (buffer_id_value b) + 1) (2 ^ 64 - 1)"
proof -
  have "unat (buffer_id_value (snd (buffer_id_next b))) = min (unat (buffer_id_value b) + 1) (2 ^ 64 - 1)"
    by (simp add: buffer_id_next_def unat_saturating_add)
  moreover from this have "buffer_id_value (snd (buffer_id_next b)) \<noteq> 0" by auto
  ultimately show ?thesis by (simp add: buffer_id_ok_def)
qed

end
