(* ===== verification/Fragment.thy ===== *)
theory Fragment
  imports Undo_Map Tree_Map Locator Line_Ending
begin

text \<open>
  The fragments of a buffer, \<^verbatim>\<open>crates/text/src/text.rs\<close>: \<^verbatim>\<open>Fragment\<close> with its summary and the dimensions that cursors over
  fragments use, \<^verbatim>\<open>InsertionFragment\<close> and \<^verbatim>\<open>InsertionSlice\<close> with their keys and orders, and the two accumulators of
  an edit, \<^verbatim>\<open>FragmentBuilder\<close> and \<^verbatim>\<open>RopeBuilder\<close>.

  Offsets of type \<^verbatim>\<open>usize\<close> are natural numbers. Fields of type \<^verbatim>\<open>u32\<close> are natural numbers too, and every conversion and
  sum at that width is written with its wrap-around, \<open>u32_of\<close>. A rope is the byte string it holds. Version vectors in
  summaries are of the type \<open>version\<close> of version vectors in normal form, the only ones that the code can build; on it
  join and meet are associative with the empty vector as left identity.
\<close>

section \<open>Version vectors in normal form\<close>

typedef version = "{g. canonical g}" morphisms global_of Version
  by (rule exI [of _ global_new]) simp

setup_lifting type_definition_version

lift_definition version_new :: version is global_new by simp
lift_definition version_observe :: "version \<Rightarrow> lamport \<Rightarrow> version" is global_observe by simp
lift_definition version_join :: "version \<Rightarrow> version \<Rightarrow> version" is global_join by simp
lift_definition version_meet :: "version \<Rightarrow> version \<Rightarrow> version" is global_meet by simp
lift_definition version_get :: "version \<Rightarrow> replica_id \<Rightarrow> u32" is global_get .

lemma version_eqI: "(\<And>r. version_get a r = version_get b r) \<Longrightarrow> a = b"
  by transfer (rule canonical_eqI)

lemma version_get_new [simp]: "version_get version_new r = 0"
  by transfer simp

lemma version_get_join [simp]: "version_get (version_join a b) r = max (version_get a r) (version_get b r)"
  by transfer simp

lemma version_get_observe: "version_get (version_observe v t) r = (if r = lreplica t then max (version_get v r) (lvalue t) else version_get v r)"
  by transfer (auto simp: global_get_observe)

lemma version_get_meet [simp]: "version_get (version_meet a b) r = meet_seq (version_get a r) (version_get b r)"
  by transfer (rule global_get_meet)

lemma meet_seq_assoc: "meet_seq (meet_seq a b) c = meet_seq a (meet_seq b c)"
  by (auto simp: meet_seq_def min_def)

lemma version_laws:
  "version_join (version_join a b) c = version_join a (version_join b c)" "version_join version_new a = a"
  "version_meet (version_meet a b) c = version_meet a (version_meet b c)" "version_meet version_new a = a"
  by (rule version_eqI, simp add: max.assoc meet_seq_assoc)+

section \<open>Fragments and their summaries\<close>

definition u32_of :: "nat \<Rightarrow> nat" where
  "u32_of n = n mod 2 ^ 32"

record fragment =
  frag_id :: locator
  frag_timestamp :: lamport
  insertion_offset :: nat
  frag_len :: nat
  frag_visible :: bool
  deletions :: "lamport list"
  max_undos :: version

record fragment_text_summary =
  text_visible :: nat
  text_deleted :: nat

record fragment_summary =
  frag_text :: fragment_text_summary
  max_id :: locator
  max_version :: version
  min_insertion_version :: version
  max_insertion_version :: version

definition text_zero :: fragment_text_summary where
  "text_zero = \<lparr>text_visible = 0, text_deleted = 0\<rparr>"

definition text_add :: "fragment_text_summary \<Rightarrow> fragment_text_summary \<Rightarrow> fragment_text_summary" where
  "text_add a b = \<lparr>text_visible = text_visible a + text_visible b, text_deleted = text_deleted a + text_deleted b\<rparr>"

definition fragment_summary_default :: fragment_summary where
  "fragment_summary_default = \<lparr>frag_text = text_zero, max_id = locator_min, max_version = version_new,
     min_insertion_version = version_new, max_insertion_version = version_new\<rparr>"

definition fragment_summary_add :: "fragment_summary \<Rightarrow> fragment_summary \<Rightarrow> fragment_summary" where
  "fragment_summary_add a b = \<lparr>
     frag_text = text_add (frag_text a) (frag_text b),
     max_id = locator_assign (max_id a) (max_id b),
     max_version = version_join (max_version a) (max_version b),
     min_insertion_version = version_meet (min_insertion_version a) (min_insertion_version b),
     max_insertion_version = version_join (max_insertion_version a) (max_insertion_version b)\<rparr>"

definition fragment_summary_of :: "fragment \<Rightarrow> fragment_summary" where
  "fragment_summary_of f =
     (let inserted = version_observe version_new (frag_timestamp f);
          max_v = version_join (foldl version_observe inserted (deletions f)) (max_undos f)
      in \<lparr>frag_text = (if frag_visible f then \<lparr>text_visible = frag_len f, text_deleted = 0\<rparr>
                      else \<lparr>text_visible = 0, text_deleted = frag_len f\<rparr>),
          max_id = frag_id f, max_version = max_v,
          min_insertion_version = inserted, max_insertion_version = inserted\<rparr>)"

definition frag_item :: "(fragment, fragment_summary) item_impl" where
  "frag_item = \<lparr>szero = fragment_summary_default, sadd = fragment_summary_add, summarize = fragment_summary_of\<rparr>"

type_synonym fragment_tree = "(fragment, fragment_summary) sum_tree"

text \<open>Visibility now, and at a past version.\<close>

fun all_option :: "('a \<Rightarrow> bool option) \<Rightarrow> 'a list \<Rightarrow> bool option" where
  "all_option p [] = Some True"
| "all_option p (x # xs) = do { b \<leftarrow> p x; if b then all_option p xs else Some False }"

definition is_visible :: "fragment \<Rightarrow> undo_map \<Rightarrow> bool option" where
  "is_visible f undos = do {
     undone \<leftarrow> is_undone undos (frag_timestamp f);
     if undone then Some False else all_option (is_undone undos) (deletions f) }"

definition was_visible :: "fragment \<Rightarrow> global \<Rightarrow> undo_map \<Rightarrow> bool option" where
  "was_visible f version undos =
     (if \<not> global_observed version (frag_timestamp f) then Some False
      else do {
        undone \<leftarrow> was_undone undos (frag_timestamp f) version;
        if undone then Some False
        else all_option (\<lambda>d. if \<not> global_observed version d then Some True else was_undone undos d version) (deletions f) })"

section \<open>Dimensions\<close>

definition text_dim :: "(fragment_summary, fragment_text_summary) dim_impl" where
  "text_dim = \<lparr>dzero = text_zero, dadd = \<lambda>d s. text_add d (frag_text s)\<rparr>"

definition usize_dim :: "(fragment_summary, nat) dim_impl" where
  "usize_dim = \<lparr>dzero = 0, dadd = \<lambda>d s. d + text_visible (frag_text s)\<rparr>"

definition full_offset_dim :: "(fragment_summary, nat) dim_impl" where
  "full_offset_dim = \<lparr>dzero = 0, dadd = \<lambda>d s. d + (text_visible (frag_text s) + text_deleted (frag_text s))\<rparr>"

definition locator_dim :: "(fragment_summary, locator option) dim_impl" where
  "locator_dim = \<lparr>dzero = None, dadd = \<lambda>_ s. Some (max_id s)\<rparr>"

text \<open>\<^verbatim>\<open>Dimensions<D1, D2>\<close>, which seeks by its first component.\<close>

definition pair_dim :: "('s, 'd) dim_impl \<Rightarrow> ('s, 'e) dim_impl \<Rightarrow> ('s, 'd \<times> 'e) dim_impl" where
  "pair_dim M N = \<lparr>dzero = (dzero M, dzero N), dadd = \<lambda>(d, e) s. (dadd M d s, dadd N e s)\<rparr>"

definition pair_target :: "('d \<Rightarrow> ordering) \<Rightarrow> 'd \<times> 'e \<Rightarrow> ordering" where
  "pair_target cmp de = cmp (fst de)"

definition visible_target :: "nat \<Rightarrow> fragment_text_summary \<Rightarrow> ordering" where
  "visible_target n loc = ord_cmp n (text_visible loc)"

section \<open>Insertion fragments and slices\<close>

datatype insertion_key = InsertionKey (ikey_timestamp: lamport) (ikey_offset: nat)

text \<open>The derived order: field by field, in the order of the declaration.\<close>

definition insertion_key_cmp :: "insertion_key \<Rightarrow> insertion_key \<Rightarrow> ordering" where
  "insertion_key_cmp a b =
     then_with (lamport_cmp (ikey_timestamp a) (ikey_timestamp b)) (ord_cmp (ikey_offset a) (ikey_offset b))"

lemma insertion_key_cmp_Equal [simp]: "insertion_key_cmp a b = Equal \<longleftrightarrow> a = b"
  by (auto simp: insertion_key_cmp_def lamport_cmp_ord intro: insertion_key.expand)

lemma insertion_key_cmp_Less: "insertion_key_cmp a b = Less \<longleftrightarrow> ikey_timestamp a < ikey_timestamp b \<or> ikey_timestamp a = ikey_timestamp b \<and> ikey_offset a < ikey_offset b"
  by (auto simp: insertion_key_cmp_def lamport_cmp_ord)

instantiation insertion_key :: linorder
begin

definition less_insertion_key :: "insertion_key \<Rightarrow> insertion_key \<Rightarrow> bool" where
  "less_insertion_key a b \<longleftrightarrow> insertion_key_cmp a b = Less"

definition less_eq_insertion_key :: "insertion_key \<Rightarrow> insertion_key \<Rightarrow> bool" where
  "less_eq_insertion_key a b \<longleftrightarrow> insertion_key_cmp a b \<noteq> Greater"

instance
  by standard (auto simp: less_insertion_key_def less_eq_insertion_key_def not_Greater insertion_key_cmp_Less intro: insertion_key.expand)

end

lemma less_insertion_key_iff: "a < b \<longleftrightarrow> ikey_timestamp a < ikey_timestamp b \<or> ikey_timestamp a = ikey_timestamp b \<and> ikey_offset a < ikey_offset b" for a b :: insertion_key
  by (simp add: less_insertion_key_def insertion_key_cmp_Less)

lemma less_eq_insertion_key_iff: "a \<le> b \<longleftrightarrow> ikey_timestamp a < ikey_timestamp b \<or> ikey_timestamp a = ikey_timestamp b \<and> ikey_offset a \<le> ikey_offset b" for a b :: insertion_key
  by (auto simp: order_le_less less_insertion_key_iff intro: insertion_key.expand)

lemma insertion_key_cmp_ord: "insertion_key_cmp a b = ord_cmp a b"
  by (rule ord_cmp_unique) (simp_all add: less_insertion_key_def)

record insertion_fragment =
  ins_timestamp :: lamport
  split_offset :: nat
  ins_fragment_id :: locator

definition insertion_key_of :: "insertion_fragment \<Rightarrow> insertion_key" where
  "insertion_key_of i = InsertionKey (ins_timestamp i) (split_offset i)"

definition insertion_item :: "(insertion_fragment, insertion_key) item_impl" where
  "insertion_item = \<lparr>szero = InsertionKey lamport_MIN 0, sadd = \<lambda>_ b. b, summarize = insertion_key_of\<rparr>"

definition insertion_dim :: "(insertion_key, insertion_key) dim_impl" where
  "insertion_dim = \<lparr>dzero = InsertionKey lamport_MIN 0, dadd = \<lambda>_ b. b\<rparr>"

definition insertion_keyed :: "(insertion_fragment, insertion_key, insertion_key) keyed_impl" where
  "insertion_keyed = \<lparr>kitem = insertion_item, kdim = insertion_dim, ikey = insertion_key_of\<rparr>"

type_synonym insertion_tree = "(insertion_fragment, insertion_key) sum_tree"

definition insertion_fragment_new :: "fragment \<Rightarrow> insertion_fragment" where
  "insertion_fragment_new f =
     \<lparr>ins_timestamp = frag_timestamp f, split_offset = insertion_offset f, ins_fragment_id = frag_id f\<rparr>"

definition insert_new :: "fragment \<Rightarrow> (insertion_fragment, insertion_key) edit" where
  "insert_new f = Insert (insertion_fragment_new f)"

datatype insertion_slice =
  InsertionSlice (slice_edit_id: lamport) (slice_insertion_id: lamport) (slice_start: nat) (slice_end: nat)

text \<open>\<^verbatim>\<open>Ord\<close> and \<^verbatim>\<open>PartialOrd\<close> for \<^verbatim>\<open>InsertionSlice\<close>.\<close>

definition insertion_slice_cmp :: "insertion_slice \<Rightarrow> insertion_slice \<Rightarrow> ordering" where
  "insertion_slice_cmp a b =
     then_with (then_with (then_with
       (lamport_cmp (slice_edit_id a) (slice_edit_id b))
       (lamport_cmp (slice_insertion_id a) (slice_insertion_id b)))
       (ord_cmp (slice_start a) (slice_start b)))
       (ord_cmp (slice_end a) (slice_end b))"

definition insertion_slice_partial_cmp :: "insertion_slice \<Rightarrow> insertion_slice \<Rightarrow> ordering option" where
  "insertion_slice_partial_cmp a b = Some (insertion_slice_cmp a b)"

lemma insertion_slice_cmp_Equal [simp]: "insertion_slice_cmp a b = Equal \<longleftrightarrow> a = b"
  by (auto simp: insertion_slice_cmp_def lamport_cmp_ord intro: insertion_slice.expand)

lemma insertion_slice_cmp_Less: "insertion_slice_cmp a b = Less \<longleftrightarrow> slice_edit_id a < slice_edit_id b \<or> slice_edit_id a = slice_edit_id b \<and>
     (slice_insertion_id a < slice_insertion_id b \<or> slice_insertion_id a = slice_insertion_id b \<and>
       (slice_start a < slice_start b \<or> slice_start a = slice_start b \<and> slice_end a < slice_end b))"
  by (auto simp: insertion_slice_cmp_def lamport_cmp_ord)

instantiation insertion_slice :: linorder
begin

definition less_insertion_slice :: "insertion_slice \<Rightarrow> insertion_slice \<Rightarrow> bool" where
  "less_insertion_slice a b \<longleftrightarrow> insertion_slice_partial_cmp a b = Some Less"

definition less_eq_insertion_slice :: "insertion_slice \<Rightarrow> insertion_slice \<Rightarrow> bool" where
  "less_eq_insertion_slice a b \<longleftrightarrow> insertion_slice_partial_cmp a b \<in> {Some Less, Some Equal}"

instance
  by standard (auto simp: less_insertion_slice_def less_eq_insertion_slice_def
    insertion_slice_partial_cmp_def insertion_slice_cmp_Less intro: insertion_slice.expand)

end

lemma less_insertion_slice_iff: "a < b \<longleftrightarrow> slice_edit_id a < slice_edit_id b \<or> slice_edit_id a = slice_edit_id b \<and>
     (slice_insertion_id a < slice_insertion_id b \<or> slice_insertion_id a = slice_insertion_id b \<and>
       (slice_start a < slice_start b \<or> slice_start a = slice_start b \<and> slice_end a < slice_end b))" for a b :: insertion_slice
  by (simp add: less_insertion_slice_def insertion_slice_partial_cmp_def insertion_slice_cmp_Less)

lemma insertion_slice_cmp_ord: "insertion_slice_cmp a b = ord_cmp a b"
  by (rule ord_cmp_unique) (simp_all add: less_insertion_slice_def insertion_slice_partial_cmp_def)

definition slice_from_fragment :: "lamport \<Rightarrow> fragment \<Rightarrow> insertion_slice" where
  "slice_from_fragment edit_id f =
     InsertionSlice edit_id (frag_timestamp f) (insertion_offset f) (u32_of (insertion_offset f + frag_len f))"

section \<open>Fragment builder\<close>

datatype fragment_chunk = TreeChunk fragment_tree | Loose "fragment list"

record fragment_builder =
  fb_chunks :: "fragment_chunk list"
  fb_summary :: fragment_summary

definition fb_new :: "fragment_tree \<Rightarrow> fragment_builder" where
  "fb_new init = \<lparr>fb_chunks = (if is_empty init then [] else [TreeChunk init]), fb_summary = summary init\<rparr>"

definition fb_append :: "fragment_tree \<Rightarrow> fragment_builder \<Rightarrow> fragment_builder" where
  "fb_append ft b =
     (if is_empty ft then b
      else b\<lparr>fb_summary := fragment_summary_add (fb_summary b) (summary ft), fb_chunks := fb_chunks b @ [TreeChunk ft]\<rparr>)"

definition fb_push :: "fragment \<Rightarrow> fragment_builder \<Rightarrow> fragment_builder" where
  "fb_push f b = b\<lparr>
     fb_summary := fragment_summary_add (fb_summary b) (fragment_summary_of f),
     fb_chunks := (case rev (fb_chunks b) of
         Loose fs # rest \<Rightarrow> rev rest @ [Loose (fs @ [f])]
       | _ \<Rightarrow> fb_chunks b @ [Loose [f]])\<rparr>"

definition chunk_tree :: "fragment_chunk \<Rightarrow> fragment_tree" where
  "chunk_tree c = (case c of
     TreeChunk t \<Rightarrow> t
   | Loose fs \<Rightarrow> (if length fs > 1024 then from_par_iter frag_item fs else from_iter frag_item fs))"

fun append_chunks :: "fragment_tree \<Rightarrow> fragment_chunk list \<Rightarrow> fragment_tree option" where
  "append_chunks t [] = Some t"
| "append_chunks t (c # cs) = do { t' \<leftarrow> append_tree frag_item t (chunk_tree c); append_chunks t' cs }"

definition to_sum_tree :: "fragment_builder \<Rightarrow> fragment_tree option" where
  "to_sum_tree b = append_chunks (st_new frag_item) (fb_chunks b)"

section \<open>Rope builder\<close>

text \<open>A cursor over an old rope is the rope and the offset.\<close>

record rope_builder =
  old_visible :: string
  visible_at :: nat
  old_deleted :: string
  deleted_at :: nat
  new_visible :: string
  new_deleted :: string

definition rb_new :: "string \<Rightarrow> string \<Rightarrow> rope_builder" where
  "rb_new v d = \<lparr>old_visible = v, visible_at = 0, old_deleted = d, deleted_at = 0, new_visible = [], new_deleted = []\<rparr>"

definition rb_push :: "nat \<Rightarrow> bool \<Rightarrow> bool \<Rightarrow> rope_builder \<Rightarrow> rope_builder option" where
  "rb_push n was_vis is_vis rb = do {
     (text, rb) \<leftarrow>
       (if was_vis then do {
          (text, at) \<leftarrow> rope_cut (old_visible rb) (visible_at rb) (visible_at rb + n);
          Some (text, rb\<lparr>visible_at := at\<rparr>)
        } else do {
          (text, at) \<leftarrow> rope_cut (old_deleted rb) (deleted_at rb) (deleted_at rb + n);
          Some (text, rb\<lparr>deleted_at := at\<rparr>) });
     Some (if is_vis then rb\<lparr>new_visible := new_visible rb @ text\<rparr> else rb\<lparr>new_deleted := new_deleted rb @ text\<rparr>) }"

definition rb_append :: "fragment_text_summary \<Rightarrow> rope_builder \<Rightarrow> rope_builder option" where
  "rb_append n rb = do { rb \<leftarrow> rb_push (text_visible n) True True rb; rb_push (text_deleted n) False False rb }"

definition rb_push_fragment :: "fragment \<Rightarrow> bool \<Rightarrow> rope_builder \<Rightarrow> rope_builder option" where
  "rb_push_fragment f was_vis rb = (if frag_len f = 0 then None else rb_push (frag_len f) was_vis (frag_visible f) rb)"

definition rb_push_str :: "string \<Rightarrow> rope_builder \<Rightarrow> rope_builder" where
  "rb_push_str text rb = rb\<lparr>new_visible := new_visible rb @ text\<rparr>"

definition rb_finish :: "rope_builder \<Rightarrow> (string \<times> string) option" where
  "rb_finish rb = do {
     (visible, _) \<leftarrow> rope_cut (old_visible rb) (visible_at rb) (length (old_visible rb));
     (deleted, _) \<leftarrow> rope_cut (old_deleted rb) (deleted_at rb) (length (old_deleted rb));
     Some (new_visible rb @ visible, new_deleted rb @ deleted) }"

section \<open>Laws\<close>

lemma frag_item_simps [simp]:
  "szero frag_item = fragment_summary_default" "sadd frag_item = fragment_summary_add"
  "summarize frag_item = fragment_summary_of"
  by (simp_all add: frag_item_def)

lemma text_add_assoc: "text_add (text_add a b) c = text_add a (text_add b c)" and text_add_zero: "text_add text_zero a = a"
  by (simp_all add: text_add_def text_zero_def)

interpretation frag_laws: summary_laws frag_item
  by unfold_locales
    (simp_all add: fragment_summary_add_def fragment_summary_default_def text_add_assoc text_add_zero version_laws)

interpretation text_laws: dimension_laws frag_item text_dim
  by unfold_locales (simp add: text_dim_def fragment_summary_add_def text_add_assoc)

lemma usize_dimension: "dimension_laws frag_item usize_dim"
  by unfold_locales (simp add: usize_dim_def fragment_summary_add_def text_add_def)

interpretation usize_laws: dimension_laws frag_item usize_dim by (rule usize_dimension)

interpretation full_offset_laws: dimension_laws frag_item full_offset_dim
  by unfold_locales (simp add: full_offset_dim_def fragment_summary_add_def text_add_def)

interpretation locator_laws: dimension_laws frag_item "pair_dim locator_dim usize_dim"
  by unfold_locales (auto simp: pair_dim_def locator_dim_def usize_dim_def fragment_summary_add_def text_add_def)

text \<open>Measuring in bytes what a cursor over text summaries passes.\<close>

interpretation text_in_bytes: two_dimensions frag_item text_dim usize_dim ..

lemma insertion_keyed_simps [simp]:
  "kitem insertion_keyed = insertion_item" "kdim insertion_keyed = insertion_dim" "ikey insertion_keyed = insertion_key_of"
  by (simp_all add: insertion_keyed_def)

lemma insertion_key_least [simp]: "InsertionKey lamport_MIN 0 \<le> k"
  by (simp add: less_eq_insertion_key_iff) (metis lamport_MIN_least order_le_less)

interpretation insertion_laws: keyed_laws insertion_keyed
  rewrites "kitem insertion_keyed = insertion_item" and "kdim insertion_keyed = insertion_dim"
    and "ikey insertion_keyed = insertion_key_of" and "dzero insertion_dim = InsertionKey lamport_MIN 0"
  by unfold_locales (simp_all add: insertion_item_def insertion_dim_def)

end
