(* ===== verification/Buffer_Edit.thy ===== *)
theory Buffer_Edit
  imports Fragment History Patch_Correct
begin

text \<open>
  A snapshot of a buffer and the application of local edits to it, \<^verbatim>\<open>BufferSnapshot::apply_edit_internal\<close> of
  \<^verbatim>\<open>crates/text/src/text.rs\<close>. One pass walks the old fragments with a cursor, keeping untouched subtrees, splitting
  the fragments at the ends of the edited ranges, inserting the new text and marking what the ranges cover as deleted; the
  visible and the deleted rope are rebuilt alongside. \<open>edit_pass\<close> holds the local variables of that pass. \<open>None\<close> is a
  panic: an \<^verbatim>\<open>unwrap\<close> of nothing, an index below zero, a debug assertion or a panic of a tree or rope operation. The loop
  over the fragments of a deleted range has one unit of fuel per fragment of the tree and one more; each of its rounds but
  the last moves the cursor forward.
\<close>

section \<open>Snapshots\<close>

record buffer_snapshot =
  visible_text :: string
  deleted_text :: string
  sn_fragments :: fragment_tree
  sn_insertions :: insertion_tree
  sn_slices :: "insertion_slice tree_set"
  sn_undo_map :: undo_map
  sn_version :: global
  sn_remote_id :: buffer_id
  sn_replica_id :: replica_id
  sn_line_ending :: line_ending

definition MAX_INSERTION_LEN :: nat where
  "MAX_INSERTION_LEN = 2 ^ 32 - 1"

text \<open>\<^verbatim>\<open>ToOffset for usize\<close>, and for the ranges of a batch of edits.\<close>

definition usize_to_offset :: "bool \<Rightarrow> buffer_snapshot \<Rightarrow> nat \<Rightarrow> nat option" where
  "usize_to_offset debug s offset = do {
     boundary \<leftarrow> assert_char_boundary debug (visible_text s) offset;
     Some (if boundary then offset else rope_floor (visible_text s) offset) }"

definition range_to_offset :: "bool \<Rightarrow> buffer_snapshot \<Rightarrow> nat \<times> nat \<Rightarrow> (nat \<times> nat) option" where
  "range_to_offset debug s r = do {
     a \<leftarrow> usize_to_offset debug s (fst r); b \<leftarrow> usize_to_offset debug s (snd r); Some (a, b) }"

fun edits_to_offsets ::
  "bool \<Rightarrow> buffer_snapshot \<Rightarrow> ((nat \<times> nat) \<times> string) list \<Rightarrow> ((nat \<times> nat) \<times> string) list option" where
  "edits_to_offsets debug s [] = Some []"
| "edits_to_offsets debug s ((r, new) # es) = do {
     r \<leftarrow> range_to_offset debug s r;
     es \<leftarrow> edits_to_offsets debug s es;
     Some ((r, new) # es) }"

type_synonym text_cursor = "(fragment, fragment_summary, fragment_text_summary) cursor"

record edit_pass =
  ed_cursor :: text_cursor
  ed_frags :: fragment_builder
  ed_ropes :: rope_builder
  ed_start :: nat
  ed_offset :: nat
  ed_insertions :: "(insertion_fragment, insertion_key) edit list"
  ed_slices :: "insertion_slice list"
  ed_patch :: patch
  ed_ranges :: "(nat \<times> nat) list"
  ed_texts :: "string list"

section \<open>Pieces of fragments\<close>

text \<open>The part of a fragment that starts at \<open>start\<close> between two offsets, with the conversions to \<^verbatim>\<open>u32\<close>.\<close>

definition cut :: "fragment \<Rightarrow> nat \<Rightarrow> nat \<Rightarrow> nat \<Rightarrow> fragment option" where
  "cut f start from stop = do {
     n \<leftarrow> usize_sub stop from;
     off \<leftarrow> usize_sub from start;
     Some (f\<lparr>frag_len := u32_of n, insertion_offset := u32_of (insertion_offset f + u32_of off)\<rparr>) }"

definition push_piece :: "fragment \<Rightarrow> bool \<Rightarrow> edit_pass \<Rightarrow> edit_pass option" where
  "push_piece f was_vis st = do {
     rb \<leftarrow> rb_push_fragment f was_vis (ed_ropes st);
     Some (st\<lparr>ed_insertions := ed_insertions st @ [insert_new f], ed_ropes := rb, ed_frags := fb_push f (ed_frags st)\<rparr>) }"

definition current_fragment :: "edit_pass \<Rightarrow> fragment option" where
  "current_fragment st = do { item \<leftarrow> cursor_item (ed_cursor st); item }"

text \<open>If the current fragment has been partially consumed, consume the rest of it and go to the next one.\<close>

definition consume_rest :: "edit_pass \<Rightarrow> edit_pass option" where
  "consume_rest st =
     (let start = text_visible (c_position (ed_cursor st)) in
      if start < ed_start st then do {
        fragment_end \<leftarrow> cursor_end text_dim (ed_cursor st);
        st \<leftarrow> (if ed_start st < text_visible fragment_end then do {
            f \<leftarrow> current_fragment st;
            rest \<leftarrow> cut f start (ed_start st) (text_visible fragment_end);
            push_piece rest (frag_visible rest) st
          } else Some st);
        c \<leftarrow> cursor_next text_dim (ed_cursor st);
        Some (st\<lparr>ed_cursor := c\<rparr>)
      } else Some st)"

text \<open>If the current fragment ends before the range, jump to the first one that extends past its start.\<close>

definition advance_to_range :: "nat \<Rightarrow> edit_pass \<Rightarrow> edit_pass option" where
  "advance_to_range range_start st = do {
     fragment_end \<leftarrow> cursor_end text_dim (ed_cursor st);
     if text_visible fragment_end < range_start then do {
       st \<leftarrow> consume_rest st;
       (sl, c) \<leftarrow> slice frag_item text_dim (ed_cursor st) (visible_target range_start) Right;
       rb \<leftarrow> rb_append (frag_text (summary sl)) (ed_ropes st);
       Some (st\<lparr>ed_cursor := c, ed_ropes := rb, ed_frags := fb_append sl (ed_frags st),
                ed_start := text_visible (c_position c)\<rparr>)
     } else Some st }"

text \<open>Keep the part of the current fragment before the range.\<close>

definition push_prefix :: "nat \<Rightarrow> edit_pass \<Rightarrow> edit_pass option" where
  "push_prefix range_start st =
     (if ed_start st < range_start then do {
        f \<leftarrow> current_fragment st;
        prefix \<leftarrow> cut f (text_visible (c_position (ed_cursor st))) (ed_start st) range_start;
        let prefix = prefix\<lparr>frag_id := locator_between (max_id (fb_summary (ed_frags st))) (frag_id prefix)\<rparr>;
        st \<leftarrow> push_piece prefix (frag_visible prefix) st;
        Some (st\<lparr>ed_start := range_start\<rparr>)
      } else Some st)"

section \<open>Insertion\<close>

definition inserted_fragment :: "lamport \<Rightarrow> locator \<Rightarrow> nat \<Rightarrow> edit_pass \<Rightarrow> fragment" where
  "inserted_fragment ts next_id chunk_len st =
     \<lparr>frag_id = locator_between (max_id (fb_summary (ed_frags st))) next_id, frag_timestamp = ts,
      insertion_offset = ed_offset st, frag_len = u32_of chunk_len, frag_visible = True, deletions = [],
      max_undos = version_new\<rparr>"

definition chunk_end :: "string \<Rightarrow> nat \<Rightarrow> nat" where
  "chunk_end text offset =
     (let target_end = min (length text) (offset + MAX_INSERTION_LEN) in
      if target_end = length text then target_end else floor_boundary text target_end)"

function insertion_loop :: "string \<Rightarrow> nat \<Rightarrow> lamport \<Rightarrow> locator \<Rightarrow> lamport \<Rightarrow> edit_pass \<Rightarrow> edit_pass option" where
  "insertion_loop text offset ts next_id edit_ts st =
     (if offset < length text then
        (let stop = chunk_end text offset in
         if stop = offset then Some st
         else if stop < offset then None
         else
           (let chunk_len = stop - offset;
                f = inserted_fragment ts next_id chunk_len st in
            insertion_loop text stop ts next_id edit_ts
              (st\<lparr>ed_slices := ed_slices st @ [slice_from_fragment edit_ts f],
                  ed_insertions := ed_insertions st @ [insert_new f],
                  ed_frags := fb_push f (ed_frags st),
                  ed_offset := u32_of (ed_offset st + u32_of chunk_len)\<rparr>)))
      else Some st)"
  by pat_completeness auto
termination
  by (relation "measure (\<lambda>(text, offset, _). length text - offset)") auto

declare insertion_loop.simps [simp del]

definition push_fragments_for_insertion ::
  "string \<Rightarrow> lamport \<Rightarrow> locator \<Rightarrow> lamport \<Rightarrow> edit_pass \<Rightarrow> edit_pass option" where
  "push_fragments_for_insertion text ts next_id edit_ts st = do {
     st \<leftarrow> insertion_loop text 0 ts next_id edit_ts st;
     Some (st\<lparr>ed_ropes := rb_push_str text (ed_ropes st)\<rparr>) }"

definition insert_text :: "string \<Rightarrow> lamport \<Rightarrow> edit_pass \<Rightarrow> edit_pass option" where
  "insert_text text ts st =
     (if text = [] then Some st
      else do {
        let new_start = text_visible (frag_text (fb_summary (ed_frags st)));
        item \<leftarrow> cursor_item (ed_cursor st);
        let next_id = (case item of None \<Rightarrow> locator_max | Some f \<Rightarrow> frag_id f);
        st \<leftarrow> push_fragments_for_insertion text ts next_id ts st;
        Some (st\<lparr>ed_patch := patch_push (ed_patch st)
          \<lparr>eo_start = ed_start st, eo_end = ed_start st, en_start = new_start, en_end = new_start + length text\<rparr>\<rparr>) })"

section \<open>Deletion\<close>

definition delete_step :: "lamport \<Rightarrow> nat \<Rightarrow> edit_pass \<Rightarrow> edit_pass option" where
  "delete_step ts range_end st = do {
     f \<leftarrow> current_fragment st;
     fragment_end \<leftarrow> cursor_end text_dim (ed_cursor st);
     let intersection_end = min range_end (text_visible fragment_end);
     intersection \<leftarrow>
       (if frag_visible f then do {
          p \<leftarrow> cut f (text_visible (c_position (ed_cursor st))) (ed_start st) intersection_end;
          Some (p\<lparr>frag_id := locator_between (max_id (fb_summary (ed_frags st))) (frag_id p),
                  deletions := deletions p @ [ts], frag_visible := False\<rparr>)
        } else Some f);
     st \<leftarrow>
       (if 0 < frag_len intersection then do {
          let st = (if frag_visible f \<and> \<not> frag_visible intersection
             then let new_start = text_visible (frag_text (fb_summary (ed_frags st))) in
               st\<lparr>ed_patch := patch_push (ed_patch st)
                    \<lparr>eo_start = ed_start st, eo_end = intersection_end, en_start = new_start, en_end = new_start\<rparr>,
                  ed_slices := ed_slices st @ [slice_from_fragment ts intersection]\<rparr>
             else st);
          st \<leftarrow> push_piece intersection (frag_visible f) st;
          Some (st\<lparr>ed_start := intersection_end\<rparr>)
        } else Some st);
     if text_visible fragment_end \<le> range_end then do {
       c \<leftarrow> cursor_next text_dim (ed_cursor st);
       Some (st\<lparr>ed_cursor := c\<rparr>)
     } else Some st }"

fun delete_range :: "nat \<Rightarrow> lamport \<Rightarrow> nat \<Rightarrow> edit_pass \<Rightarrow> edit_pass option" where
  "delete_range fuel ts range_end st =
     (if ed_start st < range_end then
        (case fuel of 0 \<Rightarrow> None
         | Suc n \<Rightarrow> do { st \<leftarrow> delete_step ts range_end st; delete_range n ts range_end st })
      else Some st)"

declare delete_range.simps [simp del]

section \<open>Applying edits\<close>

definition edit_fuel :: "edit_pass \<Rightarrow> nat" where
  "edit_fuel st = Suc (length (tree_items (c_tree (ed_cursor st))))"

text \<open>One edit: the new text is normalised first; the range in full offsets goes to the operation.\<close>

definition edit_one ::
  "(string \<Rightarrow> string) \<Rightarrow> lamport \<Rightarrow> (nat \<times> nat) \<times> string \<Rightarrow> edit_pass \<Rightarrow> edit_pass option" where
  "edit_one replace_all ts e st = do {
     let range_start = fst (fst e);
     let range_end = snd (fst e);
     let text = normalize replace_all (snd e);
     st \<leftarrow> advance_to_range range_start st;
     let full_start = range_start + text_deleted (c_position (ed_cursor st));
     st \<leftarrow> push_prefix range_start st;
     st \<leftarrow> insert_text text ts st;
     st \<leftarrow> delete_range (edit_fuel st) ts range_end st;
     let full_end = range_end + text_deleted (c_position (ed_cursor st));
     Some (st\<lparr>ed_ranges := ed_ranges st @ [(full_start, full_end)], ed_texts := ed_texts st @ [text]\<rparr>) }"

fun edit_all ::
  "(string \<Rightarrow> string) \<Rightarrow> lamport \<Rightarrow> ((nat \<times> nat) \<times> string) list \<Rightarrow> edit_pass \<Rightarrow> edit_pass option" where
  "edit_all replace_all ts [] st = Some st"
| "edit_all replace_all ts (e # es) st = do { st \<leftarrow> edit_one replace_all ts e st; edit_all replace_all ts es st }"

definition edit_begin :: "buffer_snapshot \<Rightarrow> nat \<Rightarrow> edit_pass option" where
  "edit_begin s first_start = do {
     (sl, c) \<leftarrow> slice frag_item text_dim (cursor_new text_dim (sn_fragments s)) (visible_target first_start) Right;
     let b = fb_new sl;
     rb \<leftarrow> rb_append (frag_text (fb_summary b)) (rb_new (visible_text s) (deleted_text s));
     Some \<lparr>ed_cursor = c, ed_frags = b, ed_ropes = rb, ed_start = text_visible (c_position c), ed_offset = 0,
           ed_insertions = [], ed_slices = [], ed_patch = [], ed_ranges = [], ed_texts = []\<rparr> }"

definition edit_suffix :: "edit_pass \<Rightarrow> edit_pass option" where
  "edit_suffix st = do {
     st \<leftarrow> consume_rest st;
     (sl, c) \<leftarrow> suffix frag_item text_dim (ed_cursor st);
     rb \<leftarrow> rb_append (frag_text (summary sl)) (ed_ropes st);
     Some (st\<lparr>ed_cursor := c, ed_ropes := rb, ed_frags := fb_append sl (ed_frags st)\<rparr>) }"

definition edit_commit :: "buffer_snapshot \<Rightarrow> edit_pass \<Rightarrow> buffer_snapshot option" where
  "edit_commit s st = do {
     (visible, deleted) \<leftarrow> rb_finish (ed_ropes st);
     tree \<leftarrow> to_sum_tree (ed_frags st);
     (_, ins) \<leftarrow> edit_tree insertion_keyed (sn_insertions s) (ed_insertions st);
     slices \<leftarrow> ts_extend (sn_slices s) (ed_slices st);
     Some (s\<lparr>sn_fragments := tree, sn_insertions := ins, visible_text := visible, deleted_text := deleted,
             sn_slices := slices\<rparr>) }"

definition apply_edit_internal ::
  "(string \<Rightarrow> string) \<Rightarrow> buffer_snapshot \<Rightarrow> ((nat \<times> nat) \<times> string) list \<Rightarrow> lamport \<Rightarrow>
   (edit_operation \<times> patch \<times> buffer_snapshot) option" where
  "apply_edit_internal replace_all s edits ts =
     (case edits of
        [] \<Rightarrow> Some (\<lparr>edit_timestamp = ts, edit_version = sn_version s, edit_ranges = [], edit_new_text = []\<rparr>, [], s)
      | e # _ \<Rightarrow> do {
          st \<leftarrow> edit_begin s (fst (fst e));
          st \<leftarrow> edit_all replace_all ts edits st;
          st \<leftarrow> edit_suffix st;
          s' \<leftarrow> edit_commit s st;
          Some (\<lparr>edit_timestamp = ts, edit_version = sn_version s, edit_ranges = ed_ranges st, edit_new_text = ed_texts st\<rparr>,
                ed_patch st, s') })"

end
