(* ===== verification/Buffer_Undo.thy ===== *)
theory Buffer_Undo
  imports Buffer_Edit
begin

text \<open>
  Undoing and redoing edits, \<^verbatim>\<open>Buffer::fragment_ids_for_edits\<close> and \<^verbatim>\<open>Buffer::apply_undo\<close> of
  \<^verbatim>\<open>crates/text/src/text.rs\<close>. The slices of the edits are looked up in the set of slices and sorted; one cursor over the tree
  of insertions then collects the identifiers of the fragments that the slices have become. A second pass over the fragments
  recomputes the visibility of these fragments. The sorts of the code are unstable; slices that compare equal differ in
  their edit only, which the loop does not read, so a stable sort gives the same result.
\<close>

section \<open>The slices of edits\<close>

definition slices_for_edit :: "insertion_slice tree_set \<Rightarrow> lamport \<Rightarrow> insertion_slice list option" where
  "slices_for_edit slices edit_id = do {
     found \<leftarrow> ts_iter_from (length (tree_items slices)) slices (InsertionSlice edit_id lamport_MIN 0 0);
     Some (takeWhile (\<lambda>s. slice_edit_id s = edit_id) found) }"

fun slices_for_edits :: "insertion_slice tree_set \<Rightarrow> lamport list \<Rightarrow> insertion_slice list option" where
  "slices_for_edits slices [] = Some []"
| "slices_for_edits slices (e # es) = do {
     a \<leftarrow> slices_for_edit slices e;
     b \<leftarrow> slices_for_edits slices es;
     Some (a @ b) }"

text \<open>The order of the slices: by insertion, then by start, then by descending end.\<close>

datatype slice_order = SliceOrder (so_insertion: lamport) (so_start: nat) (so_end: nat)

definition slice_order_cmp :: "slice_order \<Rightarrow> slice_order \<Rightarrow> ordering" where
  "slice_order_cmp a b =
     then_with (then_with
       (lamport_cmp (so_insertion a) (so_insertion b))
       (ord_cmp (so_start a) (so_start b)))
       (ord_reverse (ord_cmp (so_end a) (so_end b)))"

lemma slice_order_cmp_Equal [simp]: "slice_order_cmp a b = Equal \<longleftrightarrow> a = b"
  by (auto simp: slice_order_cmp_def lamport_cmp_ord intro: slice_order.expand)

lemma slice_order_cmp_Less: "slice_order_cmp a b = Less \<longleftrightarrow> so_insertion a < so_insertion b \<or> so_insertion a = so_insertion b \<and>
     (so_start a < so_start b \<or> so_start a = so_start b \<and> so_end b < so_end a)"
  by (auto simp: slice_order_cmp_def lamport_cmp_ord)

instantiation slice_order :: linorder
begin

definition less_slice_order :: "slice_order \<Rightarrow> slice_order \<Rightarrow> bool" where
  "less_slice_order a b \<longleftrightarrow> slice_order_cmp a b = Less"

definition less_eq_slice_order :: "slice_order \<Rightarrow> slice_order \<Rightarrow> bool" where
  "less_eq_slice_order a b \<longleftrightarrow> slice_order_cmp a b \<noteq> Greater"

instance
  by standard (auto simp: less_slice_order_def less_eq_slice_order_def
    not_Greater slice_order_cmp_Less intro: slice_order.expand)

end

lemma less_slice_order_iff: "a < b \<longleftrightarrow> so_insertion a < so_insertion b \<or> so_insertion a = so_insertion b \<and>
     (so_start a < so_start b \<or> so_start a = so_start b \<and> so_end b < so_end a)" for a b :: slice_order
  by (simp add: less_slice_order_def slice_order_cmp_Less)

lemma slice_order_cmp_ord: "slice_order_cmp a b = ord_cmp a b"
  by (rule ord_cmp_unique) (simp_all add: less_slice_order_def)

definition slice_order_of :: "insertion_slice \<Rightarrow> slice_order" where
  "slice_order_of s = SliceOrder (slice_insertion_id s) (slice_start s) (slice_end s)"

section \<open>The fragments of slices\<close>

type_synonym insertion_cursor = "(insertion_fragment, insertion_key, insertion_key) cursor"

definition seek_slice :: "insertion_slice \<Rightarrow> insertion_cursor \<Rightarrow> insertion_cursor option" where
  "seek_slice s c =
     (if slice_insertion_id s \<noteq> ikey_timestamp (c_position c) \<or> ikey_offset (c_position c) < slice_start s
      then do {
        (_, c) \<leftarrow> seek_forward insertion_dim c (ord_cmp (InsertionKey (slice_insertion_id s) (slice_start s))) Left;
        Some c
      } else Some c)"

partial_function (option) collect_fragment_ids ::
  "insertion_slice \<Rightarrow> insertion_cursor \<Rightarrow> locator list \<Rightarrow> (locator list \<times> insertion_cursor) option" where
  "collect_fragment_ids s c ids = do {
     item \<leftarrow> cursor_item c;
     (case item of
        None \<Rightarrow> Some (ids, c)
      | Some i \<Rightarrow>
          if ins_timestamp i \<noteq> slice_insertion_id s \<or> slice_end s \<le> split_offset i then Some (ids, c)
          else do {
            c \<leftarrow> cursor_next insertion_dim c;
            collect_fragment_ids s c (ids @ [ins_fragment_id i]) }) }"

declare collect_fragment_ids.simps [code]

fun slice_fragment_ids :: "insertion_slice list \<Rightarrow> insertion_cursor \<Rightarrow> locator list \<Rightarrow> locator list option" where
  "slice_fragment_ids [] c ids = Some ids"
| "slice_fragment_ids (s # ss) c ids = do {
     c \<leftarrow> seek_slice s c;
     (ids, c) \<leftarrow> collect_fragment_ids s c ids;
     slice_fragment_ids ss c ids }"

definition fragment_ids_for_edits :: "buffer_snapshot \<Rightarrow> lamport list \<Rightarrow> locator list option" where
  "fragment_ids_for_edits s eids = do {
     slices \<leftarrow> slices_for_edits (sn_slices s) eids;
     ids \<leftarrow> slice_fragment_ids (sort_key slice_order_of slices) (cursor_new insertion_dim (sn_insertions s)) [];
     Some (sort ids) }"

section \<open>Applying an undo\<close>

definition id_dim :: "(fragment_summary, locator option \<times> nat) dim_impl" where
  "id_dim = pair_dim locator_dim usize_dim"

definition id_target :: "locator \<Rightarrow> locator option \<times> nat \<Rightarrow> ordering" where
  "id_target fid = pair_target (ord_cmp (Some fid))"

record undo_pass =
  up_cursor :: "(fragment, fragment_summary, locator option \<times> nat) cursor"
  up_tree :: fragment_tree
  up_ropes :: rope_builder
  up_patch :: patch

definition refresh :: "undo_map \<Rightarrow> lamport \<Rightarrow> fragment \<Rightarrow> fragment option" where
  "refresh undos ts f = do {
     vis \<leftarrow> is_visible f undos;
     Some (f\<lparr>frag_visible := vis, max_undos := version_observe (max_undos f) ts\<rparr>) }"

definition undo_edit :: "fragment \<Rightarrow> fragment \<Rightarrow> nat \<Rightarrow> nat \<Rightarrow> patch \<Rightarrow> patch" where
  "undo_edit f f' old_start new_start p =
     (if frag_visible f \<and> \<not> frag_visible f'
      then patch_push p \<lparr>eo_start = old_start, eo_end = old_start + frag_len f', en_start = new_start, en_end = new_start\<rparr>
      else if \<not> frag_visible f \<and> frag_visible f'
      then patch_push p \<lparr>eo_start = old_start, eo_end = old_start, en_start = new_start, en_end = new_start + frag_len f'\<rparr>
      else p)"

definition undo_step :: "undo_map \<Rightarrow> lamport \<Rightarrow> locator \<Rightarrow> undo_pass \<Rightarrow> undo_pass option" where
  "undo_step undos ts fid st = do {
     (preceding, c) \<leftarrow> slice frag_item id_dim (up_cursor st) (id_target fid) Left;
     rb \<leftarrow> rb_append (frag_text (summary preceding)) (up_ropes st);
     tree \<leftarrow> append_tree frag_item (up_tree st) preceding;
     item \<leftarrow> cursor_item c;
     (case item of
        None \<Rightarrow> Some (st\<lparr>up_cursor := c, up_tree := tree, up_ropes := rb\<rparr>)
      | Some f \<Rightarrow> do {
          f' \<leftarrow> refresh undos ts f;
          let p = undo_edit f f' (snd (c_position c)) (text_visible (frag_text (summary tree))) (up_patch st);
          rb \<leftarrow> rb_push_fragment f' (frag_visible f) rb;
          tree \<leftarrow> push frag_item tree f';
          c \<leftarrow> cursor_next id_dim c;
          Some \<lparr>up_cursor = c, up_tree = tree, up_ropes = rb, up_patch = p\<rparr> }) }"

fun undo_steps :: "undo_map \<Rightarrow> lamport \<Rightarrow> locator list \<Rightarrow> undo_pass \<Rightarrow> undo_pass option" where
  "undo_steps undos ts [] st = Some st"
| "undo_steps undos ts (fid # fids) st = do { st \<leftarrow> undo_step undos ts fid st; undo_steps undos ts fids st }"

text \<open>The new snapshot and the patch that goes to the subscribers.\<close>

definition snapshot_undo :: "buffer_snapshot \<Rightarrow> undo_operation \<Rightarrow> (patch \<times> buffer_snapshot) option" where
  "snapshot_undo s undo = do {
     undos \<leftarrow> um_insert (sn_undo_map s) undo;
     let s = s\<lparr>sn_undo_map := undos\<rparr>;
     fids \<leftarrow> fragment_ids_for_edits s (map fst (undo_counts undo));
     st \<leftarrow> undo_steps undos (undo_timestamp undo) fids
       \<lparr>up_cursor = cursor_new id_dim (sn_fragments s), up_tree = st_new frag_item,
        up_ropes = rb_new (visible_text s) (deleted_text s), up_patch = []\<rparr>;
     (sl, _) \<leftarrow> suffix frag_item id_dim (up_cursor st);
     rb \<leftarrow> rb_append (frag_text (summary sl)) (up_ropes st);
     tree \<leftarrow> append_tree frag_item (up_tree st) sl;
     (visible, deleted) \<leftarrow> rb_finish rb;
     Some (up_patch st, s\<lparr>sn_fragments := tree, visible_text := visible, deleted_text := deleted\<rparr>) }"

end
