(* ===== verification/Buffer.thy ===== *)
theory Buffer
  imports Buffer_Undo Subscription "HOL-Library.AList"
begin

text \<open>
  A buffer and its operations on one replica, \<^verbatim>\<open>Buffer\<close> of \<^verbatim>\<open>crates/text/src/text.rs\<close>: creation, transactions, edits,
  undo and redo. The reads of the clock of the machine, \<^verbatim>\<open>Instant::now()\<close>, are arguments. Ranges of edits are in byte
  offsets, converted as \<^verbatim>\<open>ToOffset for usize\<close> does: a range that cuts a character panics in a build with debug assertions
  and is rounded down in one without, which \<open>debug\<close> tells apart. The outer option of a result is \<open>None\<close> for a panic.
\<close>

record buffer =
  bf_snapshot :: buffer_snapshot
  bf_history :: history
  bf_clock :: lamport
  bf_subscriptions :: topic

section \<open>Creation\<close>

record base_loop_state =
  bl_fragments :: fragment_tree
  bl_insertions :: insertion_tree
  bl_offset :: nat
  bl_prev :: locator

definition base_fragment :: "lamport \<Rightarrow> base_loop_state \<Rightarrow> nat \<Rightarrow> fragment" where
  "base_fragment ts st chunk_len =
     \<lparr>frag_id = locator_between (bl_prev st) locator_max, frag_timestamp = ts, insertion_offset = bl_offset st,
      frag_len = u32_of chunk_len, frag_visible = True, deletions = [], max_undos = version_new\<rparr>"

partial_function (option) base_loop :: "string \<Rightarrow> nat \<Rightarrow> lamport \<Rightarrow> base_loop_state \<Rightarrow> base_loop_state option" where
  "base_loop text offset ts st =
     (if offset < length text then do {
        let stop = chunk_end text offset;
        chunk_len \<leftarrow> usize_sub stop offset;
        let f = base_fragment ts st chunk_len;
        ins \<leftarrow> push insertion_item (bl_insertions st) (insertion_fragment_new f);
        frags \<leftarrow> push frag_item (bl_fragments st) f;
        base_loop text stop ts
          \<lparr>bl_fragments = frags, bl_insertions = ins, bl_offset = u32_of (bl_offset st + u32_of chunk_len), bl_prev = frag_id f\<rparr>
      } else Some st)"

declare base_loop.simps [code]

definition new_normalized :: "replica_id \<Rightarrow> buffer_id \<Rightarrow> line_ending \<Rightarrow> string \<Rightarrow> buffer option" where
  "new_normalized replica remote_id ending normalized = do {
     let history = history_new normalized;
     let visible = base_text history;
     (frags, ins, clk, version) \<leftarrow>
       (if visible \<noteq> [] then do {
          let ts = lamport_new LOCAL;
          st \<leftarrow> base_loop visible 0 ts
            \<lparr>bl_fragments = st_new frag_item, bl_insertions = st_new insertion_item, bl_offset = 0, bl_prev = locator_min\<rparr>;
          Some (bl_fragments st, bl_insertions st, lamport_observe (lamport_new replica) ts, global_observe global_new ts)
        } else Some (st_new frag_item, st_new insertion_item, lamport_new replica, global_new));
     Some \<lparr>bf_snapshot = \<lparr>visible_text = visible, deleted_text = [], sn_fragments = frags, sn_insertions = ins,
             sn_slices = ts_default, sn_undo_map = um_default, sn_version = version, sn_remote_id = remote_id,
             sn_replica_id = replica, sn_line_ending = ending\<rparr>,
           bf_history = history, bf_clock = clk, bf_subscriptions = topic_default\<rparr> }"

definition buffer_new :: "(string \<Rightarrow> string) \<Rightarrow> replica_id \<Rightarrow> buffer_id \<Rightarrow> string \<Rightarrow> buffer option" where
  "buffer_new replace_all replica remote_id text =
     new_normalized replica remote_id (detect text) (normalize replace_all text)"

definition buffer_branch :: "buffer \<Rightarrow> buffer" where
  "buffer_branch b = \<lparr>bf_snapshot = bf_snapshot b, bf_history = history_new (base_text (bf_history b)),
     bf_clock = lamport_new LOCAL_BRANCH, bf_subscriptions = topic_default\<rparr>"

definition buffer_version :: "buffer \<Rightarrow> global" where
  "buffer_version b = sn_version (bf_snapshot b)"

definition buffer_replica_id :: "buffer \<Rightarrow> replica_id" where
  "buffer_replica_id b = lreplica (bf_clock b)"

definition buffer_remote_id :: "buffer \<Rightarrow> buffer_id" where
  "buffer_remote_id b = sn_remote_id (bf_snapshot b)"

definition transaction_group_interval :: "buffer \<Rightarrow> nat" where
  "transaction_group_interval b = group_interval (bf_history b)"

definition buffer_operations :: "buffer \<Rightarrow> (lamport, operation) tree_map" where
  "buffer_operations b = operations (bf_history b)"

definition set_line_ending :: "buffer \<Rightarrow> line_ending \<Rightarrow> buffer" where
  "set_line_ending b ending = b\<lparr>bf_snapshot := (bf_snapshot b)\<lparr>sn_line_ending := ending\<rparr>\<rparr>"

definition peek_undo_stack :: "buffer \<Rightarrow> history_entry option" where
  "peek_undo_stack b = (let es = undo_stack (bf_history b) in if es = [] then None else Some (last es))"

definition peek_redo_stack :: "buffer \<Rightarrow> history_entry option" where
  "peek_redo_stack b = (let es = redo_stack (bf_history b) in if es = [] then None else Some (last es))"

definition buffer_subscribe :: "buffer \<Rightarrow> sub_cell \<times> buffer" where
  "buffer_subscribe b = (let (c, t) = subscribe (bf_subscriptions b) in (c, b\<lparr>bf_subscriptions := t\<rparr>))"

section \<open>Transactions\<close>

definition start_transaction_at :: "buffer \<Rightarrow> nat \<Rightarrow> transaction_id option \<times> buffer" where
  "start_transaction_at b now =
     (let (tid, clk, h) = start_transaction (bf_history b) (buffer_version b) now (bf_clock b)
      in (tid, b\<lparr>bf_clock := clk, bf_history := h\<rparr>))"

definition end_transaction_at :: "buffer \<Rightarrow> nat \<Rightarrow> ((transaction_id \<times> global) option \<times> buffer) option" where
  "end_transaction_at b now = do {
     (ent, h) \<leftarrow> end_transaction (bf_history b) now;
     (case ent of
        None \<Rightarrow> Some (None, b\<lparr>bf_history := h\<rparr>)
      | Some ent \<Rightarrow> do {
          (tid, h) \<leftarrow> group h;
          tid \<leftarrow> tid;
          Some (Some (tid, tx_start (transaction_of ent)), b\<lparr>bf_history := h\<rparr>) }) }"

definition buffer_finalize_last_transaction :: "buffer \<Rightarrow> transaction option \<times> buffer" where
  "buffer_finalize_last_transaction b =
     (let (tx, h) = finalize_last_transaction (bf_history b) in (tx, b\<lparr>bf_history := h\<rparr>))"

definition group_until_transaction :: "buffer \<Rightarrow> transaction_id \<Rightarrow> buffer option" where
  "group_until_transaction b tid = do { h \<leftarrow> group_until (bf_history b) tid; Some (b\<lparr>bf_history := h\<rparr>) }"

definition forget_transaction :: "buffer \<Rightarrow> transaction_id \<Rightarrow> (transaction option \<times> buffer) option" where
  "forget_transaction b tid = do { (tx, h) \<leftarrow> forget (bf_history b) tid; Some (tx, b\<lparr>bf_history := h\<rparr>) }"

definition get_transaction :: "buffer \<Rightarrow> transaction_id \<Rightarrow> transaction option" where
  "get_transaction b tid = find_transaction (bf_history b) tid"

definition buffer_merge_transactions :: "buffer \<Rightarrow> transaction_id \<Rightarrow> transaction_id \<Rightarrow> buffer option" where
  "buffer_merge_transactions b tid destination = do {
     h \<leftarrow> merge_transactions (bf_history b) tid destination; Some (b\<lparr>bf_history := h\<rparr>) }"

definition buffer_push_transaction :: "buffer \<Rightarrow> transaction \<Rightarrow> nat \<Rightarrow> buffer option" where
  "buffer_push_transaction b tx now = do { h \<leftarrow> push_transaction (bf_history b) tx now; Some (b\<lparr>bf_history := h\<rparr>) }"

definition buffer_push_empty_transaction :: "buffer \<Rightarrow> nat \<Rightarrow> (transaction_id \<times> buffer) option" where
  "buffer_push_empty_transaction b now = do {
     (tid, clk, h) \<leftarrow> push_empty_transaction (bf_history b) (buffer_version b) now (bf_clock b);
     Some (tid, b\<lparr>bf_clock := clk, bf_history := h\<rparr>) }"

section \<open>Editing\<close>

definition apply_local_edit ::
  "bool \<Rightarrow> (string \<Rightarrow> string) \<Rightarrow> buffer \<Rightarrow> ((nat \<times> nat) \<times> string) list \<Rightarrow> lamport \<Rightarrow> (edit_operation \<times> buffer) option" where
  "apply_local_edit debug replace_all b edits ts = do {
     edits \<leftarrow> edits_to_offsets debug (bf_snapshot b) edits;
     (op, p, s) \<leftarrow> apply_edit_internal replace_all (bf_snapshot b) edits ts;
     t \<leftarrow> publish p (bf_subscriptions b);
     Some (op, b\<lparr>bf_snapshot := s, bf_subscriptions := t\<rparr>) }"

definition observe_version :: "buffer \<Rightarrow> lamport \<Rightarrow> buffer" where
  "observe_version b ts = b\<lparr>bf_snapshot := (bf_snapshot b)\<lparr>sn_version := global_observe (sn_version (bf_snapshot b)) ts\<rparr>\<rparr>"

definition buffer_edit ::
  "bool \<Rightarrow> (string \<Rightarrow> string) \<Rightarrow> buffer \<Rightarrow> ((nat \<times> nat) \<times> string) list \<Rightarrow> nat \<Rightarrow> nat \<Rightarrow> (operation \<times> buffer) option" where
  "buffer_edit debug replace_all b edits started ended = do {
     let b = snd (start_transaction_at b started);
     let (ts, clk) = lamport_tick (bf_clock b);
     (op, b) \<leftarrow> apply_local_edit debug replace_all (b\<lparr>bf_clock := clk\<rparr>) edits ts;
     h \<leftarrow> history_push (bf_history b) (EditOp op);
     h \<leftarrow> push_undo h (edit_timestamp op);
     let b = observe_version (b\<lparr>bf_history := h\<rparr>) (edit_timestamp op);
     (_, b) \<leftarrow> end_transaction_at b ended;
     Some (EditOp op, b) }"

text \<open>Edits on a copy of the snapshot, which the buffer can take over if it has not changed in between.\<close>

record edited_buffer_snapshot =
  eb_base_version :: global
  eb_snapshot :: buffer_snapshot
  eb_did_edit :: bool

definition snapshot_with_edits ::
  "bool \<Rightarrow> (string \<Rightarrow> string) \<Rightarrow> buffer \<Rightarrow> ((nat \<times> nat) \<times> string) list \<Rightarrow> (edited_buffer_snapshot \<times> buffer) option" where
  "snapshot_with_edits debug replace_all b edits = do {
     let s = bf_snapshot b;
     edits \<leftarrow> edits_to_offsets debug s edits;
     if edits = [] then Some (\<lparr>eb_base_version = buffer_version b, eb_snapshot = s, eb_did_edit = False\<rparr>, b)
     else do {
       let (ts, clk) = lamport_tick (bf_clock b);
       (_, _, s) \<leftarrow> apply_edit_internal replace_all s edits ts;
       Some (\<lparr>eb_base_version = buffer_version b, eb_snapshot = s\<lparr>sn_version := global_observe (sn_version s) ts\<rparr>, eb_did_edit = True\<rparr>,
             b\<lparr>bf_clock := clk\<rparr>) } }"

definition fast_forward :: "buffer \<Rightarrow> edited_buffer_snapshot \<Rightarrow> buffer option" where
  "fast_forward b e =
     (if global_changed_since (buffer_version b) (eb_base_version e) then None
      else Some (b\<lparr>bf_snapshot := eb_snapshot e,
                   bf_clock := foldl lamport_observe (bf_clock b) (global_iter (sn_version (eb_snapshot e)))\<rparr>))"

section \<open>Undo and redo\<close>

definition apply_undo :: "buffer \<Rightarrow> undo_operation \<Rightarrow> buffer option" where
  "apply_undo b undo = do {
     (p, s) \<leftarrow> snapshot_undo (bf_snapshot b) undo;
     t \<leftarrow> publish p (bf_subscriptions b);
     Some (b\<lparr>bf_snapshot := s, bf_subscriptions := t\<rparr>) }"

definition undo_operations :: "buffer \<Rightarrow> (lamport \<times> u32) list \<Rightarrow> (operation \<times> buffer) option" where
  "undo_operations b counts = do {
     let (ts, clk) = lamport_tick (bf_clock b);
     let undo = \<lparr>undo_timestamp = ts, undo_version = buffer_version b, undo_counts = counts\<rparr>;
     b \<leftarrow> apply_undo (observe_version (b\<lparr>bf_clock := clk\<rparr>) ts) undo;
     Some (UndoOp undo, b) }"

fun next_counts :: "undo_map \<Rightarrow> lamport list \<Rightarrow> (lamport \<times> u32) list \<Rightarrow> (lamport \<times> u32) list option" where
  "next_counts m [] counts = Some counts"
| "next_counts m (e # es) counts = do {
     n \<leftarrow> undo_count m e;
     next_counts m es (AList.update e (saturating_add n 1) counts) }"

definition undo_or_redo :: "buffer \<Rightarrow> transaction \<Rightarrow> (operation \<times> buffer) option" where
  "undo_or_redo b tx = do {
     counts \<leftarrow> next_counts (sn_undo_map (bf_snapshot b)) (edit_ids tx) [];
     (op, b) \<leftarrow> undo_operations b counts;
     h \<leftarrow> history_push (bf_history b) op;
     Some (op, b\<lparr>bf_history := h\<rparr>) }"

fun undo_or_redo_all :: "buffer \<Rightarrow> history_entry list \<Rightarrow> (operation list \<times> buffer) option" where
  "undo_or_redo_all b [] = Some ([], b)"
| "undo_or_redo_all b (e # es) = do {
     (op, b) \<leftarrow> undo_or_redo b (transaction_of e);
     (ops, b) \<leftarrow> undo_or_redo_all b es;
     Some (op # ops, b) }"

text \<open>The entry moved between the stacks, if any, is undone or redone.\<close>

definition undo_popped :: "buffer \<Rightarrow> history_entry option \<times> history \<Rightarrow> ((transaction_id \<times> operation) option \<times> buffer) option" where
  "undo_popped b popped = (case fst popped of
     None \<Rightarrow> Some (None, b\<lparr>bf_history := snd popped\<rparr>)
   | Some ent \<Rightarrow> do {
       (op, b) \<leftarrow> undo_or_redo (b\<lparr>bf_history := snd popped\<rparr>) (transaction_of ent);
       Some (Some (tx_id (transaction_of ent), op), b) })"

definition buffer_undo :: "buffer \<Rightarrow> ((transaction_id \<times> operation) option \<times> buffer) option" where
  "buffer_undo b = do { popped \<leftarrow> pop_undo (bf_history b); undo_popped b popped }"

definition buffer_redo :: "buffer \<Rightarrow> ((transaction_id \<times> operation) option \<times> buffer) option" where
  "buffer_redo b = do { popped \<leftarrow> pop_redo (bf_history b); undo_popped b popped }"

definition undo_transaction :: "buffer \<Rightarrow> transaction_id \<Rightarrow> (operation option \<times> buffer) option" where
  "undo_transaction b tid = do {
     popped \<leftarrow> remove_from_undo (bf_history b) tid;
     (r, b) \<leftarrow> undo_popped b popped;
     Some (map_option snd r, b) }"

definition undo_to_transaction :: "buffer \<Rightarrow> transaction_id \<Rightarrow> (operation list \<times> buffer) option" where
  "undo_to_transaction b tid = do {
     (es, h) \<leftarrow> remove_from_undo_until (bf_history b) tid;
     undo_or_redo_all (b\<lparr>bf_history := h\<rparr>) es }"

definition redo_to_transaction :: "buffer \<Rightarrow> transaction_id \<Rightarrow> (operation list \<times> buffer) option" where
  "redo_to_transaction b tid = do {
     (es, h) \<leftarrow> remove_from_redo (bf_history b) tid;
     undo_or_redo_all (b\<lparr>bf_history := h\<rparr>) es }"

end
