(* ===== verification/Fragment_Cells.thy ===== *)
theory Fragment_Cells
  imports Buffer_Edit
begin

text \<open>
  What fragments stand for. A cell is one byte of an insertion, named by the timestamp of the insertion and the offset in its
  text; a fragment is a run of consecutive cells of one insertion, visible or not. The visible rope holds the bytes of the
  visible cells in order, the deleted rope those of the others. This theory relates the summaries, dimensions and seeks of
  the fragment tree and the two builders to the cells of the fragments.
\<close>

section \<open>Cells\<close>

type_synonym cell = "lamport \<times> nat"

definition cells :: "fragment \<Rightarrow> cell list" where
  "cells f = map (Pair (frag_timestamp f)) [insertion_offset f ..< insertion_offset f + frag_len f]"

definition all_cells :: "fragment list \<Rightarrow> cell list" where
  "all_cells fs = concat (map cells fs)"

definition vis_cells :: "fragment list \<Rightarrow> cell list" where
  "vis_cells fs = concat (map cells (filter frag_visible fs))"

definition del_cells :: "fragment list \<Rightarrow> cell list" where
  "del_cells fs = concat (map cells (filter (\<lambda>f. \<not> frag_visible f) fs))"

lemma length_cells [simp]: "length (cells f) = frag_len f"
  by (simp add: cells_def)

lemma cells_simps [simp]:
  "all_cells [] = []" "all_cells (f # fs) = cells f @ all_cells fs" "all_cells (fs @ gs) = all_cells fs @ all_cells gs"
  "vis_cells [] = []" "vis_cells (f # fs) = (if frag_visible f then cells f else []) @ vis_cells fs"
  "vis_cells (fs @ gs) = vis_cells fs @ vis_cells gs"
  "del_cells [] = []" "del_cells (f # fs) = (if frag_visible f then [] else cells f) @ del_cells fs"
  "del_cells (fs @ gs) = del_cells fs @ del_cells gs"
  by (simp_all add: all_cells_def vis_cells_def del_cells_def)

lemma cells_fst: "c \<in> set (cells f) \<Longrightarrow> fst c = frag_timestamp f"
  by (auto simp: cells_def)

lemma set_vis_cells: "set (vis_cells fs) \<subseteq> set (all_cells fs)" and set_del_cells: "set (del_cells fs) \<subseteq> set (all_cells fs)"
  by (auto simp: vis_cells_def del_cells_def all_cells_def)

text \<open>The position of a cursor before the \<open>k\<close>-th fragment.\<close>

definition vis_at :: "fragment list \<Rightarrow> nat \<Rightarrow> nat" where
  "vis_at fs k = length (vis_cells (take k fs))"

definition del_at :: "fragment list \<Rightarrow> nat \<Rightarrow> nat" where
  "del_at fs k = length (del_cells (take k fs))"

definition width :: "fragment \<Rightarrow> nat" where
  "width f = (if frag_visible f then frag_len f else 0)"

lemma vis_at_Suc: "k < length fs \<Longrightarrow> vis_at fs (Suc k) = vis_at fs k + width (fs ! k)"
  by (simp add: vis_at_def take_Suc_conv_app_nth width_def)

lemma vis_at_end: "length fs \<le> k \<Longrightarrow> vis_at fs k = length (vis_cells fs)"
  by (simp add: vis_at_def)

lemma vis_at_0 [simp]: "vis_at fs 0 = 0" "del_at fs 0 = 0"
  by (simp_all add: vis_at_def del_at_def)

lemma vis_at_mono: "j \<le> k \<Longrightarrow> vis_at fs j \<le> vis_at fs k"
proof -
  assume "j \<le> k"
  then have "take k fs = take j fs @ take (k - j) (drop j fs)" by (metis le_add_diff_inverse take_add)
  then show ?thesis by (simp add: vis_at_def)
qed

lemma vis_at_le: "vis_at fs k \<le> length (vis_cells fs)"
  using vis_at_mono [of k "max k (length fs)" fs] by (simp add: vis_at_end)

section \<open>Summaries and positions\<close>

lemma frag_text_of: "frag_text (fragment_summary_of f) =
    \<lparr>text_visible = length (vis_cells [f]), text_deleted = length (del_cells [f])\<rparr>"
  by (simp add: fragment_summary_of_def Let_def)

lemma max_id_of: "max_id (fragment_summary_of f) = frag_id f"
  by (simp add: fragment_summary_of_def Let_def)

lemma pos_after_text:
  "pos_after frag_item text_dim d fs = \<lparr>text_visible = text_visible d + length (vis_cells fs),
     text_deleted = text_deleted d + length (del_cells fs)\<rparr>"
  by (induction fs arbitrary: d) (simp_all add: text_dim_def text_add_def frag_text_of)

lemma pos_text_at: "pos_after frag_item text_dim (dzero text_dim) (take k fs) =
    \<lparr>text_visible = vis_at fs k, text_deleted = del_at fs k\<rparr>"
  unfolding pos_after_text by (simp add: vis_at_def del_at_def text_dim_def text_zero_def)

text \<open>The summary of a sequence of fragments, also of the empty one.\<close>

definition frags_summary :: "fragment list \<Rightarrow> fragment_summary" where
  "frags_summary fs = frag_laws.smry fs"

lemma frags_summary_Nil: "frags_summary [] = fragment_summary_default"
  by (simp add: frags_summary_def frag_laws.smry_def ssum_def)

lemma frags_summary_append:
  "gs \<noteq> [] \<Longrightarrow> frags_summary (fs @ gs) = fragment_summary_add (frags_summary fs) (frags_summary gs)"
  by (simp add: frags_summary_def frag_laws.smry_append)

lemma frags_summary_single: "frags_summary [f] = fragment_summary_of f"
  by (simp add: frags_summary_def frag_laws.smry_def)

lemma frags_summary_text:
  "frag_text (frags_summary fs) = \<lparr>text_visible = length (vis_cells fs), text_deleted = length (del_cells fs)\<rparr>"
proof (induction fs rule: rev_induct)
  case (snoc f fs)
  then show ?case
    by (simp add: frags_summary_append frags_summary_single fragment_summary_add_def text_add_def frag_text_of)
qed (simp add: frags_summary_Nil fragment_summary_default_def text_zero_def)

lemma frags_summary_max_id: "max_id (frags_summary fs) = (if fs = [] then locator_min else frag_id (last fs))"
proof (induction fs rule: rev_induct)
  case (snoc f fs)
  then show ?case by (simp add: frags_summary_append frags_summary_single fragment_summary_add_def max_id_of)
qed (simp add: frags_summary_Nil fragment_summary_default_def)

lemma tree_summary: "wf_tree frag_item t \<Longrightarrow> summary t = frags_summary (tree_items t)"
  unfolding frags_summary_def by (rule frag_laws.wf_tree_summary)

section \<open>Seeking by visible offset\<close>

lemma passes_visible: "passes (visible_target n) Right d \<longleftrightarrow> text_visible d \<le> n"
  by (auto simp: passes_def visible_target_def)

lemma seekable_visible: "seekable frag_item text_dim (passes (visible_target n) Right) d fs"
  unfolding seekable_def passes_visible pos_after_text
proof (intro allI impI, elim conjE)
  fix i j
  assume "i \<le> j" and *: "text_visible \<lparr>text_visible = text_visible d + length (vis_cells (take j fs)),
     text_deleted = text_deleted d + length (del_cells (take j fs))\<rparr> \<le> n"
  moreover have "length (vis_cells (take i fs)) \<le> length (vis_cells (take j fs))"
    using vis_at_mono [OF \<open>i \<le> j\<close>, of fs] by (simp add: vis_at_def)
  ultimately show "text_visible \<lparr>text_visible = text_visible d + length (vis_cells (take i fs)),
     text_deleted = text_deleted d + length (del_cells (take i fs))\<rparr> \<le> n" by simp
qed

lemma dadd_text: "dadd text_dim d (fragment_summary_of f) = \<lparr>text_visible = text_visible d + length (vis_cells [f]),
    text_deleted = text_deleted d + length (del_cells [f])\<rparr>"
  by (simp add: text_dim_def text_add_def frag_text_of)

lemma seek_visible:
  assumes "text_visible d \<le> n" "m = seek_count frag_item text_dim (passes (visible_target n) Right) d fs"
  shows "m \<le> length fs \<and> text_visible d + length (vis_cells (take m fs)) \<le> n \<and>
    (m < length fs \<longrightarrow> n < text_visible d + length (vis_cells (take (Suc m) fs)))"
  using assms
proof (induction fs arbitrary: d m)
  case (Cons f fs)
  let ?d = "dadd text_dim d (fragment_summary_of f)"
  show ?case
  proof (cases "text_visible ?d \<le> n")
    case True
    then have "passes (visible_target n) Right ?d" by (simp add: passes_visible)
    then obtain j where j: "m = Suc j" "j = seek_count frag_item text_dim (passes (visible_target n) Right) ?d fs"
      using Cons.prems(2) by (simp add: seek_count_def Let_def)
    have "text_visible ?d = text_visible d + length (vis_cells [f])" by (simp add: dadd_text)
    then show ?thesis using Cons.IH [OF True j(2)] j(1) by auto
  next
    case False
    then have "m = 0" using Cons.prems(2) by (simp add: seek_count_def passes_visible Let_def)
    then show ?thesis using False Cons.prems(1) by (simp add: dadd_text)
  qed
qed (simp add: seek_count_def)

section \<open>Builders\<close>

text \<open>The fragments a builder has accumulated.\<close>

fun chunk_items :: "fragment_chunk \<Rightarrow> fragment list" where
  "chunk_items (TreeChunk t) = tree_items t"
| "chunk_items (Loose fs) = fs"

fun chunk_ok :: "fragment_chunk \<Rightarrow> bool" where
  "chunk_ok (TreeChunk t) \<longleftrightarrow> wf_tree frag_item t"
| "chunk_ok (Loose fs) \<longleftrightarrow> True"

definition fb_ok :: "fragment_builder \<Rightarrow> fragment list \<Rightarrow> bool" where
  "fb_ok b fs \<longleftrightarrow> list_all chunk_ok (fb_chunks b) \<and> concat (map chunk_items (fb_chunks b)) = fs \<and>
     fb_summary b = frags_summary fs"

lemma fb_new_ok: "wf_tree frag_item t \<Longrightarrow> fb_ok (fb_new t) (tree_items t)"
  by (auto simp: fb_ok_def fb_new_def is_empty_iff tree_summary)

lemma fb_append_ok: "fb_ok b fs \<Longrightarrow> wf_tree frag_item t \<Longrightarrow> fb_ok (fb_append t b) (fs @ tree_items t)"
  by (auto simp: fb_ok_def fb_append_def is_empty_iff tree_summary frags_summary_append)

lemma fb_push_ok:
  assumes "fb_ok b fs"
  shows "fb_ok (fb_push f b) (fs @ [f])"
proof -
  have s: "fragment_summary_add (fb_summary b) (fragment_summary_of f) = frags_summary (fs @ [f])"
    using assms by (simp add: fb_ok_def frags_summary_append frags_summary_single)
  show ?thesis
  proof (cases "fb_chunks b" rule: rev_cases)
    case Nil
    then show ?thesis using assms s by (simp add: fb_ok_def fb_push_def)
  next
    case (snoc cs c)
    then show ?thesis using assms s by (cases c) (auto simp: fb_ok_def fb_push_def)
  qed
qed

lemma chunk_tree_ok: "chunk_ok c \<Longrightarrow> wf_tree frag_item (chunk_tree c) \<and> tree_items (chunk_tree c) = chunk_items c"
  by (cases c) (auto simp: chunk_tree_def frag_laws.from_par_iter_eq frag_laws.from_iter_ok)

lemma append_chunks_ok:
  "wf_tree frag_item t \<Longrightarrow> list_all chunk_ok cs \<Longrightarrow>
   \<exists>t'. append_chunks t cs = Some t' \<and> wf_tree frag_item t' \<and> tree_items t' = tree_items t @ concat (map chunk_items cs)"
proof (induction cs arbitrary: t)
  case (Cons c cs)
  obtain t1 where "append_tree frag_item t (chunk_tree c) = Some t1" "wf_tree frag_item t1"
    "tree_items t1 = tree_items t @ chunk_items c"
    using frag_laws.append_tree_ok [OF Cons.prems(1), of "chunk_tree c"] chunk_tree_ok [of c] Cons.prems(2) by auto
  then show ?case using Cons.IH [of t1] Cons.prems(2) by auto
qed simp

lemma to_sum_tree_ok:
  "fb_ok b fs \<Longrightarrow> \<exists>t. to_sum_tree b = Some t \<and> wf_tree frag_item t \<and> tree_items t = fs"
  using append_chunks_ok [of "st_new frag_item" "fb_chunks b"] by (auto simp: to_sum_tree_def fb_ok_def)

text \<open>Every fragment starts at the start of a character, so that the ropes can be cut at fragments.\<close>

definition starts_ok :: "(cell \<Rightarrow> char) \<Rightarrow> fragment list \<Rightarrow> bool" where
  "starts_ok ch fs \<longleftrightarrow> (\<forall>f\<in>set fs. 0 < frag_len f \<and> char_start (ch (frag_timestamp f, insertion_offset f)))"

lemma starts_ok_simps [simp]:
  "starts_ok ch []" "starts_ok ch (fs @ gs) \<longleftrightarrow> starts_ok ch fs \<and> starts_ok ch gs"
  "starts_ok ch (f # fs) \<longleftrightarrow> 0 < frag_len f \<and> char_start (ch (frag_timestamp f, insertion_offset f)) \<and> starts_ok ch fs"
  by (auto simp: starts_ok_def)

lemma starts_ok_subset: "starts_ok ch fs \<Longrightarrow> set gs \<subseteq> set fs \<Longrightarrow> starts_ok ch gs"
  by (auto simp: starts_ok_def)

lemma starts_ok_cong: "starts_ok ch fs \<Longrightarrow> (\<And>c. c \<in> set (all_cells fs) \<Longrightarrow> ch' c = ch c) \<Longrightarrow> starts_ok ch' fs"
  by (fastforce simp: starts_ok_def all_cells_def cells_def)

lemma hd_cells: "0 < frag_len f \<Longrightarrow> cells f \<noteq> [] \<and> hd (cells f) = (frag_timestamp f, insertion_offset f)"
  by (auto simp: cells_def hd_map)

lemma starts_ok_cells:
  "starts_ok ch fs \<Longrightarrow> starts_on_char (map ch (vis_cells fs))" "starts_ok ch fs \<Longrightarrow> starts_on_char (map ch (del_cells fs))"
proof (induction fs)
  case (Cons f fs)
  have f: "map ch (cells f) \<noteq> []" "hd (map ch (cells f)) = ch (frag_timestamp f, insertion_offset f)" if "starts_ok ch (f # fs)"
    using hd_cells [of f] that by (auto simp: hd_map)
  {
    case 1
    with Cons.IH f show ?case by (auto simp: starts_on_char_def)
  next
    case 2
    with Cons.IH f show ?case by (auto simp: starts_on_char_def)
  }
qed (simp_all add: starts_on_char_def)

lemma fragment_boundary:
  assumes "starts_ok ch xs"
  shows "is_char_boundary (map ch (vis_cells xs)) (vis_at xs k)" "is_char_boundary (map ch (del_cells xs)) (del_at xs k)"
proof -
  have rest: "starts_ok ch (drop k xs)" using assms set_drop_subset by (rule starts_ok_subset)
  have "vis_cells xs = vis_cells (take k xs) @ vis_cells (drop k xs)" "del_cells xs = del_cells (take k xs) @ del_cells (drop k xs)"
    by (metis append_take_drop_id cells_simps(6), metis append_take_drop_id cells_simps(9))
  then show "is_char_boundary (map ch (vis_cells xs)) (vis_at xs k)" "is_char_boundary (map ch (del_cells xs)) (del_at xs k)"
    using boundary_append [OF starts_ok_cells(1) [OF rest], of "map ch (vis_cells (take k xs))"]
      boundary_append [OF starts_ok_cells(2) [OF rest], of "map ch (del_cells (take k xs))"] by (simp_all add: vis_at_def del_at_def)
qed

text \<open>A piece cut out at character boundaries starts at the start of a character.\<close>

lemma piece_starts:
  assumes "is_char_boundary (map ch cs) a" "cells f = take (frag_len f) (drop a cs)" "0 < frag_len f" "starts_on_char (map ch cs)"
  shows "char_start (ch (frag_timestamp f, insertion_offset f))"
proof -
  have "cells f \<noteq> []" using assms(3) hd_cells by blast
  then have a: "a < length cs" using assms(2) by (metis drop_all leI take_Nil)
  then have "hd (cells f) = cs ! a" using assms(2,3) by (simp add: hd_drop_conv_nth)
  moreover have "char_start (ch (cs ! a))"
    using assms(1,4) a by (cases "a = 0") (auto simp: is_char_boundary_def starts_on_char_def hd_conv_nth)
  ultimately show ?thesis using hd_cells [OF assms(3)] by simp
qed

lemma rb_push_ok:
  assumes "is_char_boundary (if was then old_visible rb else old_deleted rb) (if was then visible_at rb else deleted_at rb)"
    "is_char_boundary (if was then old_visible rb else old_deleted rb) ((if was then visible_at rb else deleted_at rb) + n)"
  defines "piece \<equiv> take n (if was then drop (visible_at rb) (old_visible rb) else drop (deleted_at rb) (old_deleted rb))"
  shows "rb_push n was is_vis rb = Some
     \<lparr>old_visible = old_visible rb, visible_at = (if was then visible_at rb + n else visible_at rb),
      old_deleted = old_deleted rb, deleted_at = (if was then deleted_at rb else deleted_at rb + n),
      new_visible = new_visible rb @ (if is_vis then piece else []), new_deleted = new_deleted rb @ (if is_vis then [] else piece)\<rparr>"
  using assms by (cases was; cases is_vis) (simp_all add: rb_push_def rope_cut_chars)

lemma rb_append_ok:
  assumes "is_char_boundary (old_visible rb) (visible_at rb)" "is_char_boundary (old_visible rb) (visible_at rb + v)"
    "is_char_boundary (old_deleted rb) (deleted_at rb)" "is_char_boundary (old_deleted rb) (deleted_at rb + d)"
  shows "rb_append \<lparr>text_visible = v, text_deleted = d\<rparr> rb = Some
     \<lparr>old_visible = old_visible rb, visible_at = visible_at rb + v, old_deleted = old_deleted rb, deleted_at = deleted_at rb + d,
      new_visible = new_visible rb @ take v (drop (visible_at rb) (old_visible rb)),
      new_deleted = new_deleted rb @ take d (drop (deleted_at rb) (old_deleted rb))\<rparr>"
  using assms by (simp add: rb_append_def rb_push_ok)

end
