(* ===== verification/Edit_Invariant.thy ===== *)
theory Edit_Invariant
  imports Fragment_Cells "HOL-Library.Sublist"
begin

text \<open>
  The invariant of the pass that applies local edits, in three parts: what has been put out (\<open>out_ok\<close>), the ropes
  (\<open>ropes_ok\<close>) and the position of the cursor (\<open>edit_inv\<close>); with the facts about pieces of fragments and fresh
  locators that its preservation rests on.
\<close>

section \<open>Well-formed fragments\<close>

definition frag_ok :: "fragment \<Rightarrow> bool" where
  "frag_ok f \<longleftrightarrow> 0 < frag_len f \<and> insertion_offset f + frag_len f < 2 ^ 32 \<and> locator_ok (frag_id f) \<and>
     locator_min < frag_id f \<and> frag_id f < locator_max"

definition frags_ok :: "fragment list \<Rightarrow> bool" where
  "frags_ok fs \<longleftrightarrow> list_all frag_ok fs \<and> sorted_wrt (<) (map frag_id fs) \<and> distinct (all_cells fs)"

text \<open>The locator that the fragments put out so far must stay below.\<close>

definition next_bound :: "fragment list \<Rightarrow> nat \<Rightarrow> locator" where
  "next_bound xs k = (if k < length xs then frag_id (xs ! k) else locator_max)"

lemma locator_min_less_max: "locator_min < locator_max"
  by (simp add: locator_min_def locator_max_def less_locator_def word_less_nat_alt unsigned_minus_1_eq_mask mask_eq_exp_minus_1)

lemma next_bound_ok:
  "list_all frag_ok xs \<Longrightarrow> locator_ok (next_bound xs k) \<and> locator_min < next_bound xs k \<and> next_bound xs k \<le> locator_max"
  by (auto simp: next_bound_def list_all_length frag_ok_def locator_min_less_max)

lemma next_bound_Suc:
  assumes "list_all frag_ok xs" "sorted_wrt (<) (map frag_id xs)" "k < length xs"
  shows "next_bound xs k < next_bound xs (Suc k)"
  using assms by (auto simp: next_bound_def list_all_length frag_ok_def sorted_wrt_iff_nth_less)

lemma next_bound_mono:
  assumes "list_all frag_ok xs" "sorted_wrt (<) (map frag_id xs)" "j \<le> k"
  shows "next_bound xs j \<le> next_bound xs k"
  using assms(3)
proof (induction rule: dec_induct)
  case (step n)
  have "next_bound xs n \<le> next_bound xs (Suc n)"
    using next_bound_Suc [OF assms(1,2), of n] by (cases "n < length xs") (auto simp: next_bound_def)
  then show ?case using step by order
qed simp

section \<open>Pieces of a fragment\<close>

lemma u32_of_small: "n < 2 ^ 32 \<Longrightarrow> u32_of n = n"
  by (simp add: u32_of_def)

lemma cut_ok:
  assumes "frag_ok f" "start \<le> from" "from \<le> stop" "stop \<le> start + frag_len f"
  shows "\<exists>p. cut f start from stop = Some p \<and> cells p = take (stop - from) (drop (from - start) (cells f)) \<and>
    frag_len p = stop - from \<and> insertion_offset p + frag_len p < 2 ^ 32 \<and>
    frag_id p = frag_id f \<and> frag_visible p = frag_visible f \<and> frag_timestamp p = frag_timestamp f \<and>
    deletions p = deletions f \<and> max_undos p = max_undos f"
proof -
  have b: "insertion_offset f + frag_len f < 2 ^ 32" using assms(1) by (simp add: frag_ok_def)
  let ?p = "f\<lparr>frag_len := stop - from, insertion_offset := insertion_offset f + (from - start)\<rparr>"
  have "cut f start from stop = Some ?p"
    using assms(2-4) b by (simp add: cut_def usize_sub_def u32_of_small)
  moreover have "cells ?p = take (stop - from) (drop (from - start) (cells f))"
    using assms(2-4) by (simp add: cells_def take_map drop_map add.assoc)
  ultimately show ?thesis using assms(2-4) b by auto
qed

text \<open>The bytes of a piece of the current fragment are where the cursor over the visible rope is.\<close>

lemma vis_cells_split:
  assumes "k < length xs"
  shows "vis_cells xs = vis_cells (take k xs) @ (if frag_visible (xs ! k) then cells (xs ! k) else []) @ vis_cells (drop (Suc k) xs)"
    and "del_cells xs = del_cells (take k xs) @ (if frag_visible (xs ! k) then [] else cells (xs ! k)) @ del_cells (drop (Suc k) xs)"
proof -
  have "xs = take k xs @ xs ! k # drop (Suc k) xs" using assms by (rule id_take_nth_drop)
  from arg_cong [OF this, of vis_cells] arg_cong [OF this, of del_cells]
  show "vis_cells xs = vis_cells (take k xs) @ (if frag_visible (xs ! k) then cells (xs ! k) else []) @ vis_cells (drop (Suc k) xs)"
    "del_cells xs = del_cells (take k xs) @ (if frag_visible (xs ! k) then [] else cells (xs ! k)) @ del_cells (drop (Suc k) xs)"
    by simp_all
qed

lemma vis_piece:
  assumes "k < length xs" "vis_at xs k \<le> a" "a + n \<le> vis_at xs (Suc k)"
  shows "take n (drop a (vis_cells xs)) = take n (drop (a - vis_at xs k) (cells (xs ! k)))"
proof (cases "frag_visible (xs ! k)")
  case True
  have "a - vis_at xs k + n \<le> frag_len (xs ! k)" using assms True by (simp add: vis_at_Suc width_def)
  then show ?thesis using assms(2) True by (simp add: vis_cells_split(1) [OF assms(1)] vis_at_def)
next
  case False
  then have "n = 0" using assms by (simp add: vis_at_Suc width_def)
  then show ?thesis by simp
qed

lemma del_piece:
  assumes "k < length xs" "\<not> frag_visible (xs ! k)"
  shows "take (frag_len (xs ! k)) (drop (del_at xs k) (del_cells xs)) = cells (xs ! k)"
  using assms(2) by (simp add: vis_cells_split(2) [OF assms(1)] del_at_def)

lemma del_at_Suc: "k < length xs \<Longrightarrow> del_at xs (Suc k) = del_at xs k + (if frag_visible (xs ! k) then 0 else frag_len (xs ! k))"
  by (simp add: del_at_def take_Suc_conv_app_nth)

section \<open>What has been put out\<close>

definition out_ok :: "lamport \<Rightarrow> cell list \<Rightarrow> nat \<Rightarrow> locator \<Rightarrow> fragment list \<Rightarrow> bool" where
  "out_ok ts old n b out \<longleftrightarrow> list_all frag_ok out \<and> sorted_wrt (<) (map frag_id out) \<and> (\<forall>f\<in>set out. frag_id f < b) \<and>
     filter (\<lambda>c. fst c \<noteq> ts) (all_cells out) = old \<and> filter (\<lambda>c. fst c = ts) (all_cells out) = map (Pair ts) [0..<n]"

lemma filter_cells:
  "filter (\<lambda>c. fst c \<noteq> ts) (cells f) = (if frag_timestamp f = ts then [] else cells f)"
  "filter (\<lambda>c. fst c = ts) (cells f) = (if frag_timestamp f = ts then cells f else [])"
  by (auto simp: filter_empty_conv filter_id_conv dest: cells_fst)

lemma filter_all_cells:
  assumes "ts \<notin> frag_timestamp ` set fs"
  shows "filter (\<lambda>c. fst c \<noteq> ts) (all_cells fs) = all_cells fs" "filter (\<lambda>c. fst c = ts) (all_cells fs) = []"
  using assms by (induction fs) (auto simp: filter_cells)

lemma out_ok_weaken: "out_ok ts old n b out \<Longrightarrow> b \<le> b' \<Longrightarrow> out_ok ts old n b' out"
  by (auto simp: out_ok_def)

lemma out_ok_push:
  assumes "out_ok ts old n b out" "frag_ok f" "b \<le> frag_id f \<or> (\<forall>g\<in>set out. frag_id g < frag_id f)" "frag_id f < b'"
    "frag_timestamp f \<noteq> ts"
  shows "out_ok ts (old @ cells f) n b' (out @ [f])"
  using assms by (auto simp: out_ok_def sorted_wrt_append filter_cells intro: less_trans order.strict_trans2)

lemma out_ok_insert:
  assumes "out_ok ts old n b out" "frag_ok f" "\<forall>g\<in>set out. frag_id g < frag_id f" "frag_id f < b"
    "frag_timestamp f = ts" "insertion_offset f = n"
  shows "out_ok ts old (n + frag_len f) b (out @ [f])"
  using assms upt_add_eq_append [of 0 n "frag_len f"] by (auto simp: out_ok_def sorted_wrt_append filter_cells cells_def)

lemma out_ok_append:
  assumes "out_ok ts old n b out" "list_all frag_ok fs" "sorted_wrt (<) (map frag_id fs)" "\<forall>f\<in>set fs. b \<le> frag_id f \<and> frag_id f < b'"
    "b \<le> b'" "ts \<notin> frag_timestamp ` set fs"
  shows "out_ok ts (old @ all_cells fs) n b' (out @ fs)"
  using assms by (auto simp: out_ok_def sorted_wrt_append filter_all_cells intro: order.strict_trans2)

text \<open>A locator between the last fragment put out and a bound.\<close>

lemma fresh_locator:
  assumes "out_ok ts old n b out" "locator_ok b" "locator_min < b" "b \<le> locator_max"
  defines "l \<equiv> locator_between (max_id (frags_summary out)) b"
  shows "locator_ok l" "locator_min < l" "l < b" "l < locator_max" "\<forall>f\<in>set out. frag_id f < l"
proof -
  let ?m = "max_id (frags_summary out)"
  have m: "?m < b" using assms(1,3) by (auto simp: frags_summary_max_id out_ok_def)
  have le: "frag_id f \<le> ?m" if "f \<in> set out" for f
  proof -
    have "out = butlast out @ [last out]" using that by (metis append_butlast_last_id empty_iff empty_set)
    then have "f = last out \<or> f \<in> set (butlast out)" using that by (metis Un_iff empty_iff empty_set set_ConsD set_append)
    moreover have "sorted_wrt (<) (map frag_id (butlast out @ [last out]))"
      using assms(1) \<open>out = butlast out @ [last out]\<close> by (simp add: out_ok_def)
    ultimately show ?thesis using that by (auto simp: frags_summary_max_id sorted_wrt_append)
  qed
  have "locator_min \<le> ?m"
    using assms(1) by (auto simp: frags_summary_max_id out_ok_def list_all_iff frag_ok_def intro: less_imp_le)
  moreover have "?m < l" unfolding l_def by (rule locator_between_greater)
  ultimately show "locator_min < l" by order
  show "locator_ok l" unfolding l_def by (rule locator_between_ok)
  show "l < b" unfolding l_def using m assms(2) by (rule locator_between_less)
  then show "l < locator_max" using assms(4) by order
  show "\<forall>f\<in>set out. frag_id f < l" using le \<open>?m < l\<close> by (meson order.strict_trans1)
qed

section \<open>Ropes\<close>

text \<open>Both cursors are at character boundaries of the old ropes, and the fragments put out start at the start of a character.\<close>

definition ropes_ok :: "(cell \<Rightarrow> char) \<Rightarrow> fragment list \<Rightarrow> nat \<Rightarrow> nat \<Rightarrow> fragment list \<Rightarrow> rope_builder \<Rightarrow> bool" where
  "ropes_ok ch xs a d out rb \<longleftrightarrow> starts_ok ch xs \<and> starts_ok ch out \<and>
     old_visible rb = map ch (vis_cells xs) \<and> visible_at rb = a \<and> is_char_boundary (map ch (vis_cells xs)) a \<and>
     old_deleted rb = map ch (del_cells xs) \<and> deleted_at rb = d \<and> is_char_boundary (map ch (del_cells xs)) d \<and>
     new_visible rb = map ch (vis_cells out) \<and> new_deleted rb = map ch (del_cells out)"

lemma ropes_push_visible:
  assumes "ropes_ok ch xs a d out rb" "0 < frag_len f" "is_char_boundary (map ch (vis_cells xs)) (a + frag_len f)"
    and "take (frag_len f) (drop a (vis_cells xs)) = cells f"
  shows "\<exists>rb'. rb_push_fragment f True rb = Some rb' \<and> ropes_ok ch xs (a + frag_len f) d (out @ [f]) rb'"
proof -
  have "char_start (ch (frag_timestamp f, insertion_offset f))"
    using piece_starts [of ch "vis_cells xs" a f] assms starts_ok_cells by (simp add: ropes_ok_def)
  moreover have "take (frag_len f) (drop a (map ch (vis_cells xs))) = map ch (cells f)"
    using assms(4) by (metis take_map drop_map)
  ultimately show ?thesis using assms(1-3) by (simp add: rb_push_fragment_def rb_push_ok ropes_ok_def)
qed

lemma ropes_push_deleted:
  assumes "ropes_ok ch xs a d out rb" "0 < frag_len f" "is_char_boundary (map ch (del_cells xs)) (d + frag_len f)"
    and "take (frag_len f) (drop d (del_cells xs)) = cells f"
  shows "\<exists>rb'. rb_push_fragment f False rb = Some rb' \<and> ropes_ok ch xs a (d + frag_len f) (out @ [f]) rb'"
proof -
  have "char_start (ch (frag_timestamp f, insertion_offset f))"
    using piece_starts [of ch "del_cells xs" d f] assms starts_ok_cells by (simp add: ropes_ok_def)
  moreover have "take (frag_len f) (drop d (map ch (del_cells xs))) = map ch (cells f)"
    using assms(4) by (metis take_map drop_map)
  ultimately show ?thesis using assms(1-3) by (simp add: rb_push_fragment_def rb_push_ok ropes_ok_def)
qed

lemma ropes_push_str:
  "ropes_ok ch xs a d out rb \<Longrightarrow> text = map ch (vis_cells fs) \<Longrightarrow> del_cells fs = [] \<Longrightarrow> starts_ok ch fs \<Longrightarrow>
   ropes_ok ch xs a d (out @ fs) (rb_push_str text rb)"
  by (simp add: ropes_ok_def rb_push_str_def)

lemma ropes_boundary:
  assumes "ropes_ok ch xs a d out rb"
  shows "is_char_boundary (map ch (vis_cells xs)) (vis_at xs j)" "is_char_boundary (map ch (del_cells xs)) (del_at xs j)"
  using assms fragment_boundary [of ch xs j] by (simp_all add: ropes_ok_def)

lemma ropes_new:
  "starts_ok ch xs \<Longrightarrow> ropes_ok ch xs 0 0 [] (rb_new (map ch (vis_cells xs)) (map ch (del_cells xs)))"
  by (simp add: ropes_ok_def rb_new_def)

lemma ropes_finish:
  "ropes_ok ch xs (length (vis_cells xs)) (length (del_cells xs)) out rb \<Longrightarrow>
   rb_finish rb = Some (map ch (vis_cells out), map ch (del_cells out)) \<and> starts_ok ch out"
  using rope_cut_chars [of "map ch (vis_cells xs)" "length (vis_cells xs)" "length (vis_cells xs)"]
    rope_cut_chars [of "map ch (del_cells xs)" "length (del_cells xs)" "length (del_cells xs)"]
  by (simp add: ropes_ok_def rb_finish_def)

lemma drop_vis_at: "drop (vis_at xs k) (vis_cells xs) = vis_cells (drop k xs)" "drop (del_at xs k) (del_cells xs) = del_cells (drop k xs)"
proof -
  have "vis_cells xs = vis_cells (take k xs) @ vis_cells (drop k xs)" "del_cells xs = del_cells (take k xs) @ del_cells (drop k xs)"
    by (metis append_take_drop_id cells_simps(6), metis append_take_drop_id cells_simps(9))
  then show "drop (vis_at xs k) (vis_cells xs) = vis_cells (drop k xs)" "drop (del_at xs k) (del_cells xs) = del_cells (drop k xs)"
    by (simp_all add: vis_at_def del_at_def)
qed

lemma ropes_append:
  assumes "ropes_ok ch xs (vis_at xs k) (del_at xs k) out rb"
  shows "\<exists>rb'. rb_append \<lparr>text_visible = length (vis_cells (take m (drop k xs))), text_deleted = length (del_cells (take m (drop k xs)))\<rparr> rb =
      Some rb' \<and> ropes_ok ch xs (vis_at xs (k + m)) (del_at xs (k + m)) (out @ take m (drop k xs)) rb'"
proof -
  let ?g = "take m (drop k xs)"
  have rb: "starts_ok ch xs" "old_visible rb = map ch (vis_cells xs)" "old_deleted rb = map ch (del_cells xs)"
    "visible_at rb = vis_at xs k" "deleted_at rb = del_at xs k" using assms by (simp_all add: ropes_ok_def)
  have at: "vis_at xs k + length (vis_cells ?g) = vis_at xs (k + m)" "del_at xs k + length (del_cells ?g) = del_at xs (k + m)"
    by (simp_all add: vis_at_def del_at_def take_add)
  have g: "starts_ok ch ?g" using rb(1) by (rule starts_ok_subset) (metis set_drop_subset set_take_subset subset_trans)
  have rest: "drop k xs = ?g @ drop (k + m) xs" by (metis append_take_drop_id drop_drop add.commute)
  have "take (length (vis_cells ?g)) (drop (vis_at xs k) (map ch (vis_cells xs))) = map ch (vis_cells ?g)"
    "take (length (del_cells ?g)) (drop (del_at xs k) (map ch (del_cells xs))) = map ch (del_cells ?g)"
    using arg_cong [OF rest, of vis_cells] arg_cong [OF rest, of del_cells] by (simp_all add: drop_map take_map drop_vis_at)
  then show ?thesis
    using assms fragment_boundary [OF rb(1)] g
    by (simp add: rb_append_ok rb at) (simp add: ropes_ok_def)
qed

end
