(* ===== verification/Edit_Steps.thy ===== *)
theory Edit_Steps
  imports Edit_Invariant
begin

text \<open>
  Every step of the pass that applies local edits keeps its invariant, and what it adds to the visible cells put out: the old
  cells up to the range, the cells of the new text, and nothing for the deleted range.
\<close>

section \<open>The invariant\<close>

definition edit_ctx :: "fragment list \<Rightarrow> fragment_tree \<Rightarrow> lamport \<Rightarrow> bool" where
  "edit_ctx xs t ts \<longleftrightarrow> wf_tree frag_item t \<and> tree_items t = xs \<and> frags_ok xs \<and> ts \<notin> frag_timestamp ` set xs"

text \<open>The old cells that have been dealt with when the visible offset is \<open>a\<close> and the cursor is before the \<open>k\<close>-th fragment.\<close>

definition consumed :: "fragment list \<Rightarrow> nat \<Rightarrow> nat \<Rightarrow> cell list" where
  "consumed xs k a = all_cells (take k xs) @ (if k < length xs then take (a - vis_at xs k) (cells (xs ! k)) else [])"

text \<open>
  Where the fragments put out come from: a fragment is a part of an old one, untouched or newly deleted, or it is a piece of
  the new text. The new pieces and the newly deleted ones are in the log \<open>ps\<close> of slices.
\<close>

definition part_of :: "fragment \<Rightarrow> fragment \<Rightarrow> bool" where
  "part_of g f \<longleftrightarrow> set (cells g) \<subseteq> set (cells f) \<and> frag_timestamp g = frag_timestamp f \<and> max_undos g = max_undos f"

definition kept :: "fragment list \<Rightarrow> fragment \<Rightarrow> bool" where
  "kept xs g \<longleftrightarrow> (\<exists>f\<in>set xs. part_of g f \<and> deletions g = deletions f \<and> frag_visible g = frag_visible f)"

definition erased :: "fragment list \<Rightarrow> lamport \<Rightarrow> fragment \<Rightarrow> bool" where
  "erased xs ts g \<longleftrightarrow>
     (\<exists>f\<in>set xs. part_of g f \<and> deletions g = deletions f @ [ts] \<and> frag_visible f \<and> \<not> frag_visible g)"

definition fresh :: "lamport \<Rightarrow> fragment \<Rightarrow> bool" where
  "fresh ts g \<longleftrightarrow> frag_timestamp g = ts \<and> deletions g = [] \<and> max_undos g = version_new \<and> frag_visible g"

definition sliced :: "fragment list \<Rightarrow> lamport \<Rightarrow> insertion_slice list \<Rightarrow> fragment list \<Rightarrow> bool" where
  "sliced xs ts log out \<longleftrightarrow> (\<exists>ps. log = map (slice_from_fragment ts) ps \<and> subseq ps out \<and>
     (\<forall>g\<in>set out. kept xs g \<or> g \<in> set ps \<and> (erased xs ts g \<or> fresh ts g)))"

text \<open>The log of insertion fragments has all fragments put out that are not old ones.\<close>

definition indexed :: "fragment list \<Rightarrow> (insertion_fragment, insertion_key) edit list \<Rightarrow> fragment list \<Rightarrow> bool" where
  "indexed xs log out \<longleftrightarrow> (\<exists>ps. log = map insert_new ps \<and> subseq ps out \<and> set out \<subseteq> set xs \<union> set ps)"

lemma indexed_keep: "indexed xs log out \<Longrightarrow> set fs \<subseteq> set xs \<Longrightarrow> indexed xs log (out @ fs)"
  unfolding indexed_def by (metis Un_mono Un_subset_iff le_sup_iff set_append subseq_rev_drop_many sup.coboundedI1)

lemma subseq_push: "subseq ps out \<Longrightarrow> subseq (ps @ [f]) (out @ [f])"
  by (simp add: list_emb_append_mono)

lemma indexed_push:
  assumes "indexed xs log out"
  shows "indexed xs (log @ [insert_new f]) (out @ [f])"
proof -
  obtain ps where "log = map insert_new ps" "subseq ps out" "set out \<subseteq> set xs \<union> set ps" using assms by (auto simp: indexed_def)
  then show ?thesis unfolding indexed_def by (intro exI [of _ "ps @ [f]"]) (auto simp: subseq_push)
qed

lemma sliced_keep: "sliced xs ts log out \<Longrightarrow> list_all (kept xs) fs \<Longrightarrow> sliced xs ts log (out @ fs)"
  unfolding sliced_def list_all_iff by (metis UnE set_append subseq_rev_drop_many)

lemma sliced_push:
  assumes "sliced xs ts log out" "erased xs ts f \<or> fresh ts f"
  shows "sliced xs ts (log @ [slice_from_fragment ts f]) (out @ [f])"
proof -
  obtain ps where "log = map (slice_from_fragment ts) ps" "subseq ps out"
    "\<forall>g\<in>set out. kept xs g \<or> g \<in> set ps \<and> (erased xs ts g \<or> fresh ts g)"
    using assms(1) by (auto simp: sliced_def)
  then show ?thesis unfolding sliced_def using assms(2) by (intro exI [of _ "ps @ [f]"]) (auto simp: subseq_push)
qed

lemma kept_old: "set fs \<subseteq> set xs \<Longrightarrow> list_all (kept xs) fs"
  by (auto simp: list_all_iff kept_def part_of_def)

lemma part_of_piece:
  "cells p = take n (drop m (cells f)) \<Longrightarrow> frag_timestamp p = frag_timestamp f \<Longrightarrow> max_undos p = max_undos f \<Longrightarrow> part_of p f"
  using set_take_subset [of n "drop m (cells f)"] set_drop_subset [of m "cells f"] by (auto simp: part_of_def)

definition edit_inv ::
  "fragment list \<Rightarrow> fragment_tree \<Rightarrow> lamport \<Rightarrow> (cell \<Rightarrow> char) \<Rightarrow> nat \<Rightarrow> nat \<Rightarrow> fragment list \<Rightarrow> edit_pass \<Rightarrow> bool" where
  "edit_inv xs t ts ch k a out st \<longleftrightarrow>
     cursor_at frag_item text_dim k (ed_cursor st) \<and> did_seek (ed_cursor st) \<and> c_tree (ed_cursor st) = t \<and>
     fb_ok (ed_frags st) out \<and> vis_at xs k \<le> a \<and> a \<le> vis_at xs (Suc k) \<and>
     out_ok ts (consumed xs k a) (ed_offset st) (next_bound xs k) out \<and>
     ropes_ok ch xs a (del_at xs k) out (ed_ropes st) \<and>
     indexed xs (ed_insertions st) out \<and> sliced xs ts (ed_slices st) out"

lemma edit_inv_boundary:
  assumes "edit_inv xs t ts ch k a out st"
  shows "is_char_boundary (map ch (vis_cells xs)) (vis_at xs j)" "is_char_boundary (map ch (del_cells xs)) (del_at xs j)"
  using assms ropes_boundary by (auto simp: edit_inv_def)

text \<open>What the steps leave alone.\<close>

definition same_log :: "edit_pass \<Rightarrow> edit_pass \<Rightarrow> bool" where
  "same_log st st' \<longleftrightarrow> ed_ranges st' = ed_ranges st \<and> ed_texts st' = ed_texts st"

lemma edit_ctxD:
  assumes "edit_ctx xs t ts"
  shows "wf_tree frag_item t" "tree_items t = xs" "list_all frag_ok xs" "sorted_wrt (<) (map frag_id xs)"
    "distinct (all_cells xs)" "ts \<notin> frag_timestamp ` set xs"
  using assms by (auto simp: edit_ctx_def frags_ok_def)

lemma edit_invD:
  assumes "edit_ctx xs t ts" "edit_inv xs t ts ch k a out st"
  shows "c_position (ed_cursor st) = \<lparr>text_visible = vis_at xs k, text_deleted = del_at xs k\<rparr>"
    and "cursor_end text_dim (ed_cursor st) = Some \<lparr>text_visible = vis_at xs (Suc k), text_deleted = del_at xs (Suc k)\<rparr>"
    and "current_fragment st = (if k < length xs then Some (xs ! k) else None)"
    and "cursor_item (ed_cursor st) = Some (if k < length xs then Some (xs ! k) else None)"
    and "k \<le> length xs"
proof -
  have c: "cursor_at frag_item text_dim k (ed_cursor st)" "did_seek (ed_cursor st)" "tree_items (c_tree (ed_cursor st)) = xs"
    using assms by (auto simp: edit_inv_def edit_ctx_def)
  show "c_position (ed_cursor st) = \<lparr>text_visible = vis_at xs k, text_deleted = del_at xs k\<rparr>"
    using c(1,3) by (simp add: cursor_at_def pos_text_at)
  show "cursor_end text_dim (ed_cursor st) = Some \<lparr>text_visible = vis_at xs (Suc k), text_deleted = del_at xs (Suc k)\<rparr>"
    using cursor_end_at [OF c(1,2)] c(3) by (simp add: end_at_def pos_text_at)
  show item: "cursor_item (ed_cursor st) = Some (if k < length xs then Some (xs ! k) else None)"
    using cursor_item_at(1) [OF c(1,2)] c(3) by simp
  then show "current_fragment st = (if k < length xs then Some (xs ! k) else None)"
    by (simp add: current_fragment_def)
  show "k \<le> length xs" using c(1,3) by (simp add: cursor_at_def)
qed

lemma all_cells_take_Suc: "k < length xs \<Longrightarrow> all_cells (take (Suc k) xs) = all_cells (take k xs) @ cells (xs ! k)"
  by (simp add: take_Suc_conv_app_nth)

lemma consumed_start: "consumed xs k (vis_at xs k) = all_cells (take k xs)"
  by (simp add: consumed_def)

lemma consumed_whole:
  assumes "k < length xs" "frag_visible (xs ! k)"
  shows "consumed xs k (vis_at xs (Suc k)) = all_cells (take (Suc k) xs)"
  using assms by (simp add: consumed_def all_cells_take_Suc vis_at_Suc width_def)

lemma consumed_piece:
  assumes "k < length xs" "vis_at xs k \<le> a"
  shows "consumed xs k (a + n) = consumed xs k a @ take n (drop (a - vis_at xs k) (cells (xs ! k)))"
  using assms take_add [of "a - vis_at xs k" n "cells (xs ! k)"] by (simp add: consumed_def)

lemma take_drop_join:
  assumes "a \<le> b" "b \<le> c"
  shows "take (c - a) (drop a v) = take (b - a) (drop a v) @ take (c - b) (drop b v)"
proof -
  have "c - a = (b - a) + (c - b)" "drop (b - a) (drop a v) = drop b v" using assms by simp_all
  then show ?thesis by (metis take_add)
qed

lemma vis_run: "take (vis_at xs (k + m) - vis_at xs k) (drop (vis_at xs k) (vis_cells xs)) = vis_cells (take m (drop k xs))"
proof -
  have "drop k xs = take m (drop k xs) @ drop (k + m) xs" by (metis append_take_drop_id drop_drop add.commute)
  from arg_cong [OF this, of vis_cells] show ?thesis by (simp add: drop_vis_at) (simp add: vis_at_def take_add)
qed

section \<open>Pushing a piece\<close>

text \<open>
  A piece of the current fragment, visible or marked deleted, is pushed: the offset moves by its length. The bound is the one
  the caller has for the identifier of the piece.
\<close>

lemma push_visible_piece:
  assumes "edit_ctx xs t ts" "edit_inv xs t ts ch k a out st" "k < length xs" "frag_visible (xs ! k)"
    and "a < a'" "a' \<le> vis_at xs (Suc k)" and chars: "is_char_boundary (map ch (vis_cells xs)) a'"
    and p: "cells p = take (a' - a) (drop (a - vis_at xs k) (cells (xs ! k)))" "frag_len p = a' - a" "frag_ok p"
      "frag_timestamp p = frag_timestamp (xs ! k)"
    and "next_bound xs k \<le> frag_id p \<or> (\<forall>g\<in>set out. frag_id g < frag_id p)" "frag_id p < b"
  shows "\<exists>st'. push_piece p True st = Some st' \<and> ed_cursor st' = ed_cursor st \<and> ed_offset st' = ed_offset st \<and>
    ed_patch st' = ed_patch st \<and> same_log st st' \<and> ed_slices st' = ed_slices st \<and> fb_ok (ed_frags st') (out @ [p]) \<and>
    out_ok ts (consumed xs k a') (ed_offset st) b (out @ [p]) \<and> ropes_ok ch xs a' (del_at xs k) (out @ [p]) (ed_ropes st') \<and>
    indexed xs (ed_insertions st') (out @ [p])"
proof -
  note inv = assms(2) [unfolded edit_inv_def] and ctx = edit_ctxD [OF assms(1)]
  have a: "vis_at xs k \<le> a" using inv by blast
  have "take (frag_len p) (drop a (vis_cells xs)) = cells p"
    using vis_piece [OF assms(3) a, of "a' - a"] assms(5,6) p(1,2) by simp
  moreover have "is_char_boundary (map ch (vis_cells xs)) (a + frag_len p)" using assms(5) p(2) chars by simp
  moreover have "ropes_ok ch xs a (del_at xs k) out (ed_ropes st)" using inv by blast
  ultimately obtain rb where rb: "rb_push_fragment p True (ed_ropes st) = Some rb"
    "ropes_ok ch xs (a + frag_len p) (del_at xs k) (out @ [p]) rb"
    using ropes_push_visible p(2) assms(5) by (metis zero_less_diff)
  have "frag_timestamp p \<noteq> ts" using ctx(6) assms(3) p(4) by (metis image_eqI nth_mem)
  moreover have "out_ok ts (consumed xs k a) (ed_offset st) (next_bound xs k) out" using inv by blast
  ultimately have "out_ok ts (consumed xs k a @ cells p) (ed_offset st) b (out @ [p])"
    using out_ok_push p(3) assms(12,13) by blast
  moreover have "consumed xs k a' = consumed xs k a @ cells p"
    using consumed_piece [OF assms(3) a, of "a' - a"] assms(5) p(1) by simp
  moreover have "indexed xs (ed_insertions st @ [insert_new p]) (out @ [p])" using inv by (intro indexed_push) blast
  moreover have "fb_ok (fb_push p (ed_frags st)) (out @ [p])" using inv by (intro fb_push_ok) blast
  ultimately show ?thesis using rb assms(5) p(2)
    by (auto simp: push_piece_def same_log_def)
qed

section \<open>Leaving a fragment\<close>

lemma next_cursor:
  assumes "edit_ctx xs t ts" "cursor_at frag_item text_dim k c" "did_seek c" "c_tree c = t" "k < length xs"
  shows "\<exists>c'. cursor_next text_dim c = Some c' \<and> c_tree c' = t \<and> did_seek c' \<and> cursor_at frag_item text_dim (Suc k) c'"
  using text_laws.cursor_next_ok [OF assms(2)] assms by (auto simp: edit_ctx_def Suc_le_eq min_absorb1)

text \<open>Past a visible fragment that is used up, the invariant holds at the next one.\<close>

lemma leave_visible:
  assumes "edit_ctx xs t ts" "k < length xs" "frag_visible (xs ! k)"
    and "cursor_at frag_item text_dim k (ed_cursor st)" "did_seek (ed_cursor st)" "c_tree (ed_cursor st) = t"
    and "fb_ok (ed_frags st) out" "out_ok ts (consumed xs k (vis_at xs (Suc k))) (ed_offset st) b out" "b \<le> next_bound xs (Suc k)"
    and "ropes_ok ch xs (vis_at xs (Suc k)) (del_at xs k) out (ed_ropes st)"
    and "indexed xs (ed_insertions st) out" "sliced xs ts (ed_slices st) out"
  shows "\<exists>c. cursor_next text_dim (ed_cursor st) = Some c \<and>
    edit_inv xs t ts ch (Suc k) (vis_at xs (Suc k)) out (st\<lparr>ed_cursor := c\<rparr>)"
proof -
  obtain c where c: "cursor_next text_dim (ed_cursor st) = Some c" "c_tree c = t" "did_seek c" "cursor_at frag_item text_dim (Suc k) c"
    using next_cursor [OF assms(1,4,5,6,2)] by blast
  have "out_ok ts (consumed xs (Suc k) (vis_at xs (Suc k))) (ed_offset st) (next_bound xs (Suc k)) out"
    using out_ok_weaken [OF assms(8,9)] by (simp add: consumed_start consumed_whole [OF assms(2,3)])
  moreover have "del_at xs (Suc k) = del_at xs k" using assms(2,3) by (simp add: del_at_Suc)
  ultimately show ?thesis using c assms(7,10-12) vis_at_mono [of "Suc k" "Suc (Suc k)" xs] by (simp add: edit_inv_def)
qed

lemma start_visible:
  assumes "edit_ctx xs t ts" "edit_inv xs t ts ch k a out st" "vis_at xs k < a"
  shows "k < length xs" "frag_visible (xs ! k)"
proof -
  have a: "a \<le> vis_at xs (Suc k)" using assms(2) by (simp add: edit_inv_def)
  then show k: "k < length xs" using assms(3) by (metis leD le_SucI not_less vis_at_end)
  show "frag_visible (xs ! k)" using a assms(3) vis_at_Suc [OF k] by (auto simp: width_def split: if_splits)
qed

lemma consume_rest_ok:
  assumes "edit_ctx xs t ts" "edit_inv xs t ts ch k a out st" "ed_start st = a"
  shows "\<exists>st' k' out'. consume_rest st = Some st' \<and> edit_inv xs t ts ch k' (vis_at xs k') out' st' \<and>
    a \<le> vis_at xs k' \<and> vis_at xs k' \<le> vis_at xs (Suc k) \<and> ed_offset st' = ed_offset st \<and> ed_patch st' = ed_patch st \<and>
    same_log st st' \<and> vis_cells out' = vis_cells out @ take (vis_at xs k' - a) (drop a (vis_cells xs))"
proof (cases "vis_at xs k < a")
  case False
  then have "a = vis_at xs k" using assms(2) by (simp add: edit_inv_def)
  then show ?thesis
    using assms edit_invD(1) [OF assms(1,2)] vis_at_mono [of k "Suc k" xs]
    by (intro exI [of _ st] exI [of _ k] exI [of _ out]) (simp add: consume_rest_def same_log_def)
next
  case True
  note D = edit_invD [OF assms(1,2)] and k = start_visible [OF assms(1,2) True] and ctx = edit_ctxD [OF assms(1)]
  note inv = assms(2) [unfolded edit_inv_def]
  have a: "a \<le> vis_at xs (Suc k)" using inv by blast
  have fok: "frag_ok (xs ! k)" using ctx(3) k(1) by (simp add: list_all_length)
  have wid: "vis_at xs (Suc k) = vis_at xs k + frag_len (xs ! k)" using vis_at_Suc [OF k(1)] k(2) by (simp add: width_def)
  note bound = next_bound_Suc [OF ctx(3,4) k(1)]
  show ?thesis
  proof (cases "a < vis_at xs (Suc k)")
    case less: True
    obtain p where p: "cut (xs ! k) (vis_at xs k) a (vis_at xs (Suc k)) = Some p"
      "cells p = take (vis_at xs (Suc k) - a) (drop (a - vis_at xs k) (cells (xs ! k)))"
      "frag_len p = vis_at xs (Suc k) - a" "insertion_offset p + frag_len p < 2 ^ 32"
      "frag_id p = frag_id (xs ! k)" "frag_visible p" "frag_timestamp p = frag_timestamp (xs ! k)"
      "deletions p = deletions (xs ! k)" "max_undos p = max_undos (xs ! k)"
      using cut_ok [OF fok, of "vis_at xs k" a "vis_at xs (Suc k)"] True less wid k(2) by auto
    have pok: "frag_ok p" using fok p(3-5) less by (simp add: frag_ok_def)
    have id: "next_bound xs k = frag_id p" using k(1) p(5) by (simp add: next_bound_def)
    obtain st1 where st1: "push_piece p True st = Some st1" "ed_cursor st1 = ed_cursor st" "ed_offset st1 = ed_offset st"
      "ed_patch st1 = ed_patch st" "same_log st st1" "ed_slices st1 = ed_slices st" "fb_ok (ed_frags st1) (out @ [p])"
      "out_ok ts (consumed xs k (vis_at xs (Suc k))) (ed_offset st) (next_bound xs (Suc k)) (out @ [p])"
      "ropes_ok ch xs (vis_at xs (Suc k)) (del_at xs k) (out @ [p]) (ed_ropes st1)"
      "indexed xs (ed_insertions st1) (out @ [p])"
      using push_visible_piece [OF assms(1,2) k less order.refl edit_inv_boundary(1) [OF assms(2)] p(2,3) pok p(7), of "next_bound xs (Suc k)"] id bound by auto
    have "kept xs p" using part_of_piece [OF p(2,7,9)] p(6,8) k by (auto simp: kept_def)
    then have "sliced xs ts (ed_slices st1) (out @ [p])" using inv st1(6) by (simp add: sliced_keep)
    then obtain c where c: "cursor_next text_dim (ed_cursor st) = Some c"
      "edit_inv xs t ts ch (Suc k) (vis_at xs (Suc k)) (out @ [p]) (st1\<lparr>ed_cursor := c\<rparr>)"
      using leave_visible [of xs t ts k st1 "out @ [p]" "next_bound xs (Suc k)" ch] assms(1) k inv st1 by auto
    have "consume_rest st = Some (st1\<lparr>ed_cursor := c\<rparr>)"
      using True less D p k(1) c(1) st1(1,2) assms(3) by (simp add: consume_rest_def)
    moreover have "cells p = take (vis_at xs (Suc k) - a) (drop a (vis_cells xs))"
      using vis_piece [OF k(1), of a "vis_at xs (Suc k) - a"] True less p(2) by simp
    ultimately show ?thesis using c(2) a st1 p(6)
      by (intro exI [of _ "st1\<lparr>ed_cursor := c\<rparr>"] exI [of _ "Suc k"] exI [of _ "out @ [p]"]) (simp add: same_log_def)
  next
    case False
    then have eq: "a = vis_at xs (Suc k)" using a by simp
    obtain c where c: "cursor_next text_dim (ed_cursor st) = Some c"
      "edit_inv xs t ts ch (Suc k) (vis_at xs (Suc k)) out (st\<lparr>ed_cursor := c\<rparr>)"
      using leave_visible [of xs t ts k st out "next_bound xs k" ch] assms(1) k inv eq less_imp_le [OF bound] by auto
    have "consume_rest st = Some (st\<lparr>ed_cursor := c\<rparr>)"
      using True eq D c(1) assms(3) by (simp add: consume_rest_def)
    then show ?thesis using c(2) eq
      by (intro exI [of _ "st\<lparr>ed_cursor := c\<rparr>"] exI [of _ "Suc k"] exI [of _ out]) (simp add: same_log_def)
  qed
qed

section \<open>Moving to a range\<close>

text \<open>Appending a run of untouched fragments.\<close>

lemma out_ok_run:
  assumes "edit_ctx xs t ts" "out_ok ts (consumed xs k (vis_at xs k)) n (next_bound xs k) out" "k + m \<le> length xs"
  shows "out_ok ts (consumed xs (k + m) (vis_at xs (k + m))) n (next_bound xs (k + m)) (out @ take m (drop k xs))"
proof -
  let ?g = "take m (drop k xs)"
  note ctx = edit_ctxD [OF assms(1)]
  have part: "list_all frag_ok ?g" "sorted_wrt (<) (map frag_id ?g)" "ts \<notin> frag_timestamp ` set ?g"
    using ctx(3,4,6)
    by (auto simp: list_all_iff sorted_wrt_take sorted_wrt_drop simp flip: take_map drop_map dest: in_set_takeD in_set_dropD)
  have between: "next_bound xs k \<le> frag_id f \<and> frag_id f < next_bound xs (k + m)" if f: "f \<in> set ?g" for f
  proof -
    obtain i where i: "i < length ?g" "f = ?g ! i" using f by (metis in_set_conv_nth)
    then have fi: "f = xs ! (k + i)" "i < m" "k + i < length xs" using assms(3) by auto
    then have "frag_id f = next_bound xs (k + i)" by (simp add: next_bound_def)
    moreover have "next_bound xs k \<le> next_bound xs (k + i)" by (rule next_bound_mono [OF ctx(3,4)]) simp
    moreover have "next_bound xs (k + i) < next_bound xs (Suc (k + i))" using next_bound_Suc [OF ctx(3,4) fi(3)] .
    moreover have "next_bound xs (Suc (k + i)) \<le> next_bound xs (k + m)" by (rule next_bound_mono [OF ctx(3,4)]) (use fi in simp)
    ultimately show ?thesis by (metis order.strict_trans2)
  qed
  have "out_ok ts (consumed xs k (vis_at xs k) @ all_cells ?g) n (next_bound xs (k + m)) (out @ ?g)"
    by (rule out_ok_append) (use assms(2) part between next_bound_mono [OF ctx(3,4), of k "k + m"] in auto)
  then show ?thesis by (simp add: consumed_start take_add)
qed

lemma run_summary:
  "wf_tree frag_item sl \<Longrightarrow> frag_text (summary sl) =
   \<lparr>text_visible = length (vis_cells (tree_items sl)), text_deleted = length (del_cells (tree_items sl))\<rparr>"
  by (simp add: tree_summary frags_summary_text)

lemma append_run:
  assumes "edit_ctx xs t ts" "edit_inv xs t ts ch k (vis_at xs k) out st" "k + m \<le> length xs"
    and "cursor_at frag_item text_dim (k + m) c" "did_seek c" "c_tree c = t"
    and "wf_tree frag_item sl" "tree_items sl = take m (drop k xs)"
  shows "\<exists>rb. rb_append (frag_text (summary sl)) (ed_ropes st) = Some rb \<and>
    edit_inv xs t ts ch (k + m) (vis_at xs (k + m)) (out @ take m (drop k xs))
      (st\<lparr>ed_cursor := c, ed_ropes := rb, ed_frags := fb_append sl (ed_frags st)\<rparr>)"
proof -
  let ?g = "take m (drop k xs)"
  note inv = assms(2) [unfolded edit_inv_def]
  have "ropes_ok ch xs (vis_at xs k) (del_at xs k) out (ed_ropes st)" using inv by blast
  from ropes_append [OF this, of m] obtain rb where rb: "rb_append (frag_text (summary sl)) (ed_ropes st) = Some rb"
    "ropes_ok ch xs (vis_at xs (k + m)) (del_at xs (k + m)) (out @ ?g) rb" unfolding run_summary [OF assms(7)] assms(8) by blast
  have "out_ok ts (consumed xs (k + m) (vis_at xs (k + m))) (ed_offset st) (next_bound xs (k + m)) (out @ ?g)"
    using out_ok_run [OF assms(1) _ assms(3)] inv by blast
  moreover have "fb_ok (fb_append sl (ed_frags st)) (out @ ?g)"
    using fb_append_ok [of "ed_frags st" out sl] inv assms(7,8) by simp
  moreover have "set ?g \<subseteq> set xs" by (metis set_drop_subset set_take_subset subset_trans)
  then have "indexed xs (ed_insertions st) (out @ ?g)" "sliced xs ts (ed_slices st) (out @ ?g)"
    using inv by (blast intro: indexed_keep sliced_keep kept_old)+
  ultimately show ?thesis using rb assms(4-6) vis_at_mono [of "k + m" "Suc (k + m)" xs]
    by (intro exI [of _ rb]) (simp add: edit_inv_def)
qed

lemma advance_to_range_ok:
  assumes "edit_ctx xs t ts" "edit_inv xs t ts ch k a out st" "ed_start st = a" "a \<le> rs" "rs \<le> length (vis_cells xs)"
  shows "\<exists>st' k' a' out'. advance_to_range rs st = Some st' \<and> edit_inv xs t ts ch k' a' out' st' \<and> ed_start st' = a' \<and>
    a \<le> a' \<and> a' \<le> rs \<and> rs \<le> vis_at xs (Suc k') \<and> ed_offset st' = ed_offset st \<and> ed_patch st' = ed_patch st \<and>
    same_log st st' \<and> vis_cells out' = vis_cells out @ take (a' - a) (drop a (vis_cells xs))"
proof (cases "vis_at xs (Suc k) < rs")
  case False
  then show ?thesis using assms edit_invD(2) [OF assms(1,2)]
    by (intro exI [of _ st] exI [of _ k] exI [of _ a] exI [of _ out]) (simp add: advance_to_range_def same_log_def)
next
  case True
  obtain st1 k1 out1 where s1: "consume_rest st = Some st1" "edit_inv xs t ts ch k1 (vis_at xs k1) out1 st1"
    "a \<le> vis_at xs k1" "vis_at xs k1 \<le> vis_at xs (Suc k)" "ed_offset st1 = ed_offset st" "ed_patch st1 = ed_patch st"
    "same_log st st1" "vis_cells out1 = vis_cells out @ take (vis_at xs k1 - a) (drop a (vis_cells xs))"
    using consume_rest_ok [OF assms(1-3)] by blast
  let ?c = "ed_cursor st1"
  have c: "cursor_at frag_item text_dim k1 ?c" "c_tree ?c = t" using s1(2) by (simp_all add: edit_inv_def)
  have pos: "text_visible (c_position ?c) = vis_at xs k1" using edit_invD(1) [OF assms(1) s1(2)] by simp
  define m where "m = seek_count frag_item text_dim (passes (visible_target rs) Right) (c_position ?c) (drop k1 xs)"
  have m: "k1 + m \<le> length xs" "vis_at xs (k1 + m) \<le> rs" "k1 + m < length xs \<Longrightarrow> rs < vis_at xs (Suc (k1 + m))"
    using seek_visible [OF _ m_def] edit_invD(5) [OF assms(1) s1(2)] True s1(4) pos
    by (auto simp: vis_at_def take_add simp flip: add_Suc_right)
  have le: "rs \<le> vis_at xs (Suc (k1 + m))"
    using m(1,3) assms(5) by (cases "k1 + m < length xs") (auto simp: vis_at_end)
  obtain sl c' where sl: "slice frag_item text_dim ?c (visible_target rs) Right = Some (sl, c')" "wf_tree frag_item sl"
    "tree_items sl = take m (drop k1 xs)" "c_tree c' = t" "did_seek c'" "cursor_at frag_item text_dim (k1 + m) c'"
    using text_laws.slice_ok [OF c(1), of "visible_target rs" Right] c(2) edit_ctxD(2) [OF assms(1)] True s1(4) pos seekable_visible
    by (auto simp: m_def visible_target_def)
  obtain rb where rb: "rb_append (frag_text (summary sl)) (ed_ropes st1) = Some rb"
    "edit_inv xs t ts ch (k1 + m) (vis_at xs (k1 + m)) (out1 @ take m (drop k1 xs))
      (st1\<lparr>ed_cursor := c', ed_ropes := rb, ed_frags := fb_append sl (ed_frags st1)\<rparr>)"
    using append_run [OF assms(1) s1(2) m(1) sl(6,5,4,2,3)] by blast
  let ?st = "st1\<lparr>ed_cursor := c', ed_ropes := rb, ed_frags := fb_append sl (ed_frags st1), ed_start := vis_at xs (k1 + m)\<rparr>"
  have pos': "text_visible (c_position c') = vis_at xs (k1 + m)" using edit_invD(1) [OF assms(1) rb(2)] by simp
  have "advance_to_range rs st = Some ?st"
    using edit_invD(2) [OF assms(1,2)] True s1(1) sl(1) rb(1) pos' by (simp add: advance_to_range_def)
  moreover have "edit_inv xs t ts ch (k1 + m) (vis_at xs (k1 + m)) (out1 @ take m (drop k1 xs)) ?st"
    using rb(2) by (simp add: edit_inv_def)
  moreover have "a \<le> vis_at xs (k1 + m)" using s1(3) vis_at_mono [of k1 "k1 + m" xs] by simp
  moreover have "vis_cells (out1 @ take m (drop k1 xs)) = vis_cells out @ take (vis_at xs (k1 + m) - a) (drop a (vis_cells xs))"
    using s1(3,8) vis_run [of xs k1 m] take_drop_join [of a "vis_at xs k1" "vis_at xs (k1 + m)" "vis_cells xs"]
      vis_at_mono [of k1 "k1 + m" xs] by simp
  ultimately show ?thesis using m(2) le s1(5-7)
    by (intro exI [of _ ?st] exI [of _ "k1 + m"] exI [of _ "vis_at xs (k1 + m)"] exI [of _ "out1 @ take m (drop k1 xs)"])
      (simp add: same_log_def)
qed

text \<open>The piece of the current fragment up to an offset, and a locator for it below the fragment.\<close>

lemma current_piece:
  assumes "edit_ctx xs t ts" "edit_inv xs t ts ch k a out st" "a < a'" "a' \<le> vis_at xs (Suc k)"
  shows "k < length xs" "frag_visible (xs ! k)"
    and "\<exists>q. cut (xs ! k) (vis_at xs k) a a' = Some q \<and> cells q = take (a' - a) (drop (a - vis_at xs k) (cells (xs ! k))) \<and>
      cells q = take (a' - a) (drop a (vis_cells xs)) \<and> frag_len q = a' - a \<and> frag_ok q \<and>
      frag_id q = frag_id (xs ! k) \<and> frag_visible q \<and> frag_timestamp q = frag_timestamp (xs ! k) \<and>
      deletions q = deletions (xs ! k) \<and> max_undos q = max_undos (xs ! k)"
proof -
  have a: "vis_at xs k \<le> a" using assms(2) by (simp add: edit_inv_def)
  then show k: "k < length xs" using assms(3,4) by (metis leD le_SucI le_trans not_less order.strict_trans2 vis_at_end)
  show v: "frag_visible (xs ! k)" using assms(3,4) a vis_at_Suc [OF k] by (auto simp: width_def split: if_splits)
  have fok: "frag_ok (xs ! k)" using edit_ctxD(3) [OF assms(1)] k by (simp add: list_all_length)
  have wid: "vis_at xs (Suc k) = vis_at xs k + frag_len (xs ! k)" using vis_at_Suc [OF k] v by (simp add: width_def)
  show "\<exists>q. cut (xs ! k) (vis_at xs k) a a' = Some q \<and> cells q = take (a' - a) (drop (a - vis_at xs k) (cells (xs ! k))) \<and>
      cells q = take (a' - a) (drop a (vis_cells xs)) \<and> frag_len q = a' - a \<and> frag_ok q \<and>
      frag_id q = frag_id (xs ! k) \<and> frag_visible q \<and> frag_timestamp q = frag_timestamp (xs ! k) \<and>
      deletions q = deletions (xs ! k) \<and> max_undos q = max_undos (xs ! k)"
    using cut_ok [OF fok, of "vis_at xs k" a a'] vis_piece [OF k a, of "a' - a"] assms(3,4) a v wid fok
    by (auto simp: frag_ok_def)
qed

lemma current_locator:
  assumes "edit_ctx xs t ts" "edit_inv xs t ts ch k a out st" "k < length xs"
  defines "l \<equiv> locator_between (max_id (fb_summary (ed_frags st))) (frag_id (xs ! k))"
  shows "l < next_bound xs k" "\<forall>f\<in>set out. frag_id f < l" "frag_ok q \<Longrightarrow> frag_ok (q\<lparr>frag_id := l\<rparr>)"
proof -
  have "fb_summary (ed_frags st) = frags_summary out" "out_ok ts (consumed xs k a) (ed_offset st) (next_bound xs k) out"
    using assms(2) by (auto simp: edit_inv_def fb_ok_def)
  with fresh_locator [of ts "consumed xs k a" "ed_offset st" "next_bound xs k" out] next_bound_ok [OF edit_ctxD(3) [OF assms(1)], of k] assms(3)
  show "l < next_bound xs k" "\<forall>f\<in>set out. frag_id f < l" "frag_ok q \<Longrightarrow> frag_ok (q\<lparr>frag_id := l\<rparr>)"
    by (auto simp: l_def next_bound_def frag_ok_def)
qed

lemma push_prefix_ok:
  assumes "edit_ctx xs t ts" "edit_inv xs t ts ch k a out st" "ed_start st = a" "a \<le> rs" "rs \<le> vis_at xs (Suc k)"
    and chars: "is_char_boundary (map ch (vis_cells xs)) rs"
  shows "\<exists>st' out'. push_prefix rs st = Some st' \<and> edit_inv xs t ts ch k rs out' st' \<and> ed_start st' = rs \<and>
    ed_offset st' = ed_offset st \<and> ed_patch st' = ed_patch st \<and> same_log st st' \<and> ed_cursor st' = ed_cursor st \<and>
    vis_cells out' = vis_cells out @ take (rs - a) (drop a (vis_cells xs))"
proof (cases "a < rs")
  case False
  then show ?thesis using assms
    by (intro exI [of _ st] exI [of _ out]) (simp add: push_prefix_def same_log_def)
next
  case True
  note D = edit_invD [OF assms(1,2)] and inv = assms(2) [unfolded edit_inv_def]
  note k = current_piece(1,2) [OF assms(1,2) True assms(5)]
  obtain q where q: "cut (xs ! k) (vis_at xs k) a rs = Some q" "cells q = take (rs - a) (drop (a - vis_at xs k) (cells (xs ! k)))"
    "cells q = take (rs - a) (drop a (vis_cells xs))" "frag_len q = rs - a" "frag_ok q"
    "frag_id q = frag_id (xs ! k)" "frag_visible q" "frag_timestamp q = frag_timestamp (xs ! k)"
    "deletions q = deletions (xs ! k)" "max_undos q = max_undos (xs ! k)"
    using current_piece(3) [OF assms(1,2) True assms(5)] by blast
  define l where "l = locator_between (max_id (fb_summary (ed_frags st))) (frag_id (xs ! k))"
  note l = current_locator [OF assms(1,2) k(1), folded l_def]
  let ?p = "q\<lparr>frag_id := l\<rparr>"
  have p: "cells ?p = cells q" by (simp add: cells_def)
  obtain st1 where st1: "push_piece ?p True st = Some st1" "ed_cursor st1 = ed_cursor st" "ed_offset st1 = ed_offset st"
    "ed_patch st1 = ed_patch st" "same_log st st1" "ed_slices st1 = ed_slices st" "fb_ok (ed_frags st1) (out @ [?p])"
    "out_ok ts (consumed xs k rs) (ed_offset st) (next_bound xs k) (out @ [?p])"
    "ropes_ok ch xs rs (del_at xs k) (out @ [?p]) (ed_ropes st1)" "indexed xs (ed_insertions st1) (out @ [?p])"
    using push_visible_piece [OF assms(1,2) k True assms(5) chars q(2) [folded p] _ l(3) [OF q(5)], of "next_bound xs k"] q l by auto
  have "part_of ?p (xs ! k)" using part_of_piece [OF q(2,8,10)] p by (simp add: part_of_def)
  then have "kept xs ?p" using q(7,9) k by (auto simp: kept_def)
  then have "sliced xs ts (ed_slices st1) (out @ [?p])" using inv st1(6) by (simp add: sliced_keep)
  then have "edit_inv xs t ts ch k rs (out @ [?p]) (st1\<lparr>ed_start := rs\<rparr>)"
    using inv st1 True assms(5) by (simp add: edit_inv_def)
  moreover have "push_prefix rs st = Some (st1\<lparr>ed_start := rs\<rparr>)"
    using True D k q(1,7) st1(1) assms(3) by (simp add: push_prefix_def l_def q(6) Let_def)
  ultimately show ?thesis using st1 q(3,7) p
    by (intro exI [of _ "st1\<lparr>ed_start := rs\<rparr>"] exI [of _ "out @ [?p]"]) (simp add: same_log_def)
qed

section \<open>The patch\<close>

text \<open>
  The patch of what has been put out describes how the old visible text up to \<open>a\<close> became the visible cells put out: every old
  position that it keeps has its cell at the new position.
\<close>

definition patch_inv :: "fragment list \<Rightarrow> nat \<Rightarrow> cell list \<Rightarrow> patch \<Rightarrow> bool" where
  "patch_inv xs a vis p \<longleftrightarrow> a \<le> length (vis_cells xs) \<and> composed \<lparr>c_out = p, c_old = a, c_new = length vis\<rparr> \<and>
     (\<forall>i<a. \<forall>j. keep 0 0 p i = Some j \<longrightarrow> j < length vis \<and> vis ! j = vis_cells xs ! i)"

lemma patch_push_empty: "patch_push p \<lparr>eo_start = u, eo_end = u, en_start = v, en_end = v\<rparr> = p"
  by (simp add: patch_push_def edit_is_empty_def)

lemma composed_gap: "composed \<lparr>c_out = p, c_old = u, c_new = v\<rparr> \<Longrightarrow> composed \<lparr>c_out = p, c_old = u + g, c_new = v + g\<rparr>"
  using composed_pushed(1) [of "\<lparr>c_out = p, c_old = u, c_new = v\<rparr>" g 0 0] by (simp add: pushed_def patch_push_empty)

lemma patch_inv_gap:
  assumes "patch_inv xs a vis p" "a \<le> a'" "a' \<le> length (vis_cells xs)"
  shows "patch_inv xs a' (vis @ take (a' - a) (drop a (vis_cells xs))) p"
proof -
  let ?c = "\<lparr>c_out = p, c_old = a, c_new = length vis\<rparr>"
  have c: "composed ?c" using assms(1) by (simp add: patch_inv_def)
  then have "ends 0 0 p a (length vis)" by (simp add: composed_def)
  note gap = keep_gap [OF this]
  have "j < length (vis @ take (a' - a) (drop a (vis_cells xs))) \<and> (vis @ take (a' - a) (drop a (vis_cells xs))) ! j = vis_cells xs ! i"
    if "i < a'" "keep 0 0 p i = Some j" for i j
  proof (cases "i < a")
    case True
    then show ?thesis using assms(1) that(2) by (auto simp: patch_inv_def nth_append)
  next
    case False
    then have "j = length vis + (i - a)" using gap [of i] that(2) by simp
    then show ?thesis using that(1) False assms(2,3) by (auto simp: nth_append)
  qed
  moreover have "composed \<lparr>c_out = p, c_old = a', c_new = length (vis @ take (a' - a) (drop a (vis_cells xs)))\<rparr>"
    using composed_gap [OF c, of "a' - a"] assms(2,3) by simp
  ultimately show ?thesis using assms(3) by (simp add: patch_inv_def)
qed

lemma patch_inv_insert:
  assumes "patch_inv xs a vis p"
  shows "patch_inv xs a (vis @ new)
    (patch_push p \<lparr>eo_start = a, eo_end = a, en_start = length vis, en_end = length vis + length new\<rparr>)"
proof -
  let ?c = "\<lparr>c_out = p, c_old = a, c_new = length vis\<rparr>"
  have c: "composed ?c" using assms by (simp add: patch_inv_def)
  have "keep 0 0 (c_out (pushed ?c 0 0 (length new))) i = keep 0 0 p i" if "i < a" for i
    using composed_pushed(2) [where st = ?c and g = 0 and ol = 0 and nl = "length new"] c that by simp
  then show ?thesis using assms composed_pushed(1) [OF c, of 0 0 "length new"]
    by (simp add: patch_inv_def pushed_def) (metis nth_append trans_less_add1)
qed

lemma patch_inv_delete:
  assumes "patch_inv xs a vis p" "a \<le> a'" "a' \<le> length (vis_cells xs)"
  shows "patch_inv xs a' vis (patch_push p \<lparr>eo_start = a, eo_end = a', en_start = length vis, en_end = length vis\<rparr>)"
proof -
  let ?c = "\<lparr>c_out = p, c_old = a, c_new = length vis\<rparr>"
  have c: "composed ?c" using assms(1) by (simp add: patch_inv_def)
  have "keep 0 0 (c_out (pushed ?c 0 (a' - a) 0)) i = (if i < a then keep 0 0 p i else None)" if "i < a'" for i
    using composed_pushed(2) [where st = ?c and g = 0 and ol = "a' - a" and nl = 0] c that assms(2) by simp
  then show ?thesis using assms composed_pushed(1) [OF c, of 0 "a' - a" 0] by (simp add: patch_inv_def pushed_def)
qed

section \<open>Inserting text\<close>

lemma chunk_end_small: "length text < 2 ^ 32 \<Longrightarrow> chunk_end text 0 = length text"
  by (simp add: chunk_end_def MAX_INSERTION_LEN_def Let_def min_absorb1)

lemma insertion_loop_done: "length text \<le> offset \<Longrightarrow> insertion_loop text offset ts next_id edit_ts st = Some st"
  by (subst insertion_loop.simps) simp

lemma insert_text_ok:
  assumes "edit_ctx xs t ts" "edit_inv xs t ts ch k a out st" "ed_start st = a" "patch_inv xs a (vis_cells out) (ed_patch st)"
    and "ed_offset st + length text < 2 ^ 32" "text = map (\<lambda>i. ch (ts, ed_offset st + i)) [0..<length text]"
    and chars: "starts_on_char text"
  shows "\<exists>st' out'. insert_text text ts st = Some st' \<and> edit_inv xs t ts ch k a out' st' \<and> ed_start st' = a \<and>
    ed_offset st' = ed_offset st + length text \<and> patch_inv xs a (vis_cells out') (ed_patch st') \<and> same_log st st' \<and>
    ed_cursor st' = ed_cursor st \<and>
    vis_cells out' = vis_cells out @ map (Pair ts) [ed_offset st..<ed_offset st + length text]"
proof (cases "text = []")
  case True
  then show ?thesis using assms by (intro exI [of _ st] exI [of _ out]) (simp add: insert_text_def same_log_def)
next
  case False
  note D = edit_invD [OF assms(1,2)] and ctx = edit_ctxD [OF assms(1)]
  note inv = assms(2) [unfolded edit_inv_def]
  have fb: "fb_summary (ed_frags st) = frags_summary out" using inv by (simp add: fb_ok_def)
  have nb: "(case (if k < length xs then Some (xs ! k) else None) of None \<Rightarrow> locator_max | Some f \<Rightarrow> frag_id f) = next_bound xs k"
    by (simp add: next_bound_def)
  define f where "f = inserted_fragment ts (next_bound xs k) (length text) st"
  have out: "out_ok ts (consumed xs k a) (ed_offset st) (next_bound xs k) out" using inv by blast
  note l = fresh_locator [OF out] and b = next_bound_ok [OF ctx(3), of k]
  have f: "frag_len f = length text" "frag_visible f" "frag_timestamp f = ts" "insertion_offset f = ed_offset st"
    "frag_id f = locator_between (max_id (frags_summary out)) (next_bound xs k)"
    using assms(5) by (simp_all add: f_def inserted_fragment_def fb u32_of_small)
  have fr: "fresh ts f" by (simp add: fresh_def f_def inserted_fragment_def)
  have fok: "frag_ok f" using f l b assms(5) False by (simp add: frag_ok_def)
  have cf: "cells f = map (Pair ts) [ed_offset st..<ed_offset st + length text]" by (simp add: cells_def f)
  have "map ch (cells f) = map (\<lambda>i. ch (ts, ed_offset st + i)) [0..<length text]"
    by (rule nth_equalityI) (simp_all add: cf)
  then have tx: "text = map ch (vis_cells [f])" using assms(6) f(2) by simp
  have "hd (cells f) = (ts, ed_offset st)" "cells f \<noteq> []" using hd_cells [of f] f False by auto
  then have "hd text = ch (ts, ed_offset st)" using tx f(2) by (simp add: hd_map)
  then have fs: "starts_ok ch [f]" using chars f False by (simp add: starts_on_char_def)
  let ?st = "st\<lparr>ed_slices := ed_slices st @ [slice_from_fragment ts f], ed_insertions := ed_insertions st @ [insert_new f],
      ed_frags := fb_push f (ed_frags st), ed_offset := ed_offset st + length text\<rparr>"
  have loop: "insertion_loop text 0 ts (next_bound xs k) ts st = Some ?st"
    using False assms(5) by (subst insertion_loop.simps)
      (simp add: chunk_end_small Let_def u32_of_small f_def [symmetric] insertion_loop_done)
  let ?p = "patch_push (ed_patch st) \<lparr>eo_start = a, eo_end = a, en_start = length (vis_cells out), en_end = length (vis_cells out) + length text\<rparr>"
  let ?r = "?st\<lparr>ed_ropes := rb_push_str text (ed_ropes st), ed_patch := ?p\<rparr>"
  have run: "insert_text text ts st = Some ?r"
    using False loop assms(3) D(4) by (simp add: insert_text_def push_fragments_for_insertion_def nb fb frags_summary_text Let_def)
  have "indexed xs (ed_insertions st @ [insert_new f]) (out @ [f])"
    "sliced xs ts (ed_slices st @ [slice_from_fragment ts f]) (out @ [f])"
    using inv fr by (blast intro: indexed_push sliced_push)+
  moreover have "out_ok ts (consumed xs k a) (ed_offset st + length text) (next_bound xs k) (out @ [f])"
    using out_ok_insert [OF out fok] l(3,5) b f by simp
  moreover have "ropes_ok ch xs a (del_at xs k) (out @ [f]) (rb_push_str text (ed_ropes st))"
    using ropes_push_str [of ch xs a "del_at xs k" out "ed_ropes st" "text" "[f]"] tx f(2) fs inv by simp
  ultimately have "edit_inv xs t ts ch k a (out @ [f]) ?r"
    using inv fb_push_ok [of "ed_frags st" out f] by (simp add: edit_inv_def)
  moreover have "vis_cells (out @ [f]) = vis_cells out @ map (Pair ts) [ed_offset st..<ed_offset st + length text]"
    using f(2) cf by simp
  moreover from this have "patch_inv xs a (vis_cells (out @ [f])) ?p"
    using patch_inv_insert [OF assms(4), of "map (Pair ts) [ed_offset st..<ed_offset st + length text]"] by simp
  ultimately show ?thesis using run assms(3)
    by (intro exI [of _ ?r] exI [of _ "out @ [f]"]) (simp add: same_log_def)
qed

section \<open>Deleting a range\<close>

lemma push_piece_log:
  "push_piece p was (st\<lparr>ed_patch := q, ed_slices := sl\<rparr>) = map_option (\<lambda>s. s\<lparr>ed_patch := q, ed_slices := sl\<rparr>) (push_piece p was st)"
  by (cases "rb_push_fragment p was (ed_ropes st)") (simp_all add: push_piece_def)

text \<open>A fragment that is not visible is put out as it is.\<close>

lemma delete_step_hidden:
  assumes "edit_ctx xs t ts" "edit_inv xs t ts ch k a out st" "ed_start st = a" "a < re" "k < length xs" "\<not> frag_visible (xs ! k)"
  shows "\<exists>st'. delete_step ts re st = Some st' \<and> edit_inv xs t ts ch (Suc k) a (out @ [xs ! k]) st' \<and> ed_start st' = a \<and>
    ed_offset st' = ed_offset st \<and> ed_patch st' = ed_patch st \<and> same_log st st'"
proof -
  let ?f = "xs ! k"
  note D = edit_invD [OF assms(1,2)] and ctx = edit_ctxD [OF assms(1)] and inv = assms(2) [unfolded edit_inv_def]
  have at: "vis_at xs (Suc k) = a" "vis_at xs k = a" using inv assms(5,6) by (auto simp: vis_at_Suc width_def)
  have fok: "frag_ok ?f" using ctx(3) assms(5) by (simp add: list_all_length)
  have d: "del_at xs (Suc k) = del_at xs k + frag_len ?f" using assms(5,6) by (simp add: del_at_Suc)
  have "is_char_boundary (map ch (del_cells xs)) (del_at xs (Suc k))" by (rule edit_inv_boundary [OF assms(2)])
  then obtain rb where rb: "rb_push_fragment ?f False (ed_ropes st) = Some rb"
    "ropes_ok ch xs a (del_at xs (Suc k)) (out @ [?f]) rb"
    using ropes_push_deleted [of ch xs a "del_at xs k" out "ed_ropes st" ?f] inv fok assms(6) del_piece [OF assms(5,6)] d
    by (auto simp: frag_ok_def)
  let ?s = "st\<lparr>ed_insertions := ed_insertions st @ [insert_new ?f], ed_ropes := rb, ed_frags := fb_push ?f (ed_frags st), ed_start := a\<rparr>"
  obtain c where c: "cursor_next text_dim (ed_cursor st) = Some c" "c_tree c = t" "did_seek c" "cursor_at frag_item text_dim (Suc k) c"
    using next_cursor [OF assms(1) _ _ _ assms(5), of "ed_cursor st"] inv by blast
  have "frag_timestamp ?f \<noteq> ts" using ctx(6) assms(5) by (metis image_eqI nth_mem)
  then have "out_ok ts (consumed xs k a @ cells ?f) (ed_offset st) (next_bound xs (Suc k)) (out @ [?f])"
    using out_ok_push [of ts "consumed xs k a" "ed_offset st" "next_bound xs k" out ?f] inv fok next_bound_Suc [OF ctx(3,4) assms(5)] assms(5)
    by (simp add: next_bound_def)
  moreover have "consumed xs k a @ cells ?f = consumed xs (Suc k) a"
    using consumed_start [of xs k] consumed_start [of xs "Suc k"] assms(5) by (simp add: at all_cells_take_Suc)
  moreover have "indexed xs (ed_insertions st @ [insert_new ?f]) (out @ [?f])"
    "sliced xs ts (ed_slices st) (out @ [?f])" "fb_ok (fb_push ?f (ed_frags st)) (out @ [?f])"
    using inv kept_old [of "[?f]" xs] assms(5) by (auto intro: indexed_push sliced_keep fb_push_ok)
  ultimately have "edit_inv xs t ts ch (Suc k) a (out @ [?f]) (?s\<lparr>ed_cursor := c\<rparr>)"
    using c rb(2) at vis_at_mono [of "Suc k" "Suc (Suc k)" xs] by (simp add: edit_inv_def)
  moreover have "delete_step ts re st = Some (?s\<lparr>ed_cursor := c\<rparr>)"
    using D assms(3-6) fok rb(1) c(1) at by (simp add: delete_step_def push_piece_def frag_ok_def min_def Let_def)
  ultimately show ?thesis by (intro exI [of _ "?s\<lparr>ed_cursor := c\<rparr>"]) (simp add: same_log_def)
qed

end
