(* ===== verification/Edit_Correct.thy ===== *)
theory Edit_Correct
  imports Edit_Steps
begin

text \<open>
  The pass that applies local edits is correct: deleting a range, one edit, a sequence of edits and the whole of
  \<open>apply_edit_internal\<close>. The result is compared with \<open>splice_list\<close>, which edits a plain list.
\<close>

section \<open>Deleting a visible fragment\<close>

text \<open>The part of the current fragment up to \<open>a'\<close>, marked deleted, is put out.\<close>

lemma push_deleted_piece:
  assumes "edit_ctx xs t ts" "edit_inv xs t ts ch k a out st" "a < a'" "a' \<le> vis_at xs (Suc k)"
    and "patch_inv xs a (vis_cells out) (ed_patch st)" "is_char_boundary (map ch (vis_cells xs)) a'"
  defines "q \<equiv> the (cut (xs ! k) (vis_at xs k) a a')"
  defines "p \<equiv> q\<lparr>frag_id := locator_between (max_id (fb_summary (ed_frags st))) (frag_id q), deletions := deletions q @ [ts],
      frag_visible := False\<rparr>"
  defines "e \<equiv> \<lparr>eo_start = a, eo_end = a', en_start = length (vis_cells out), en_end = length (vis_cells out)\<rparr>"
  shows "cut (xs ! k) (vis_at xs k) a a' = Some q" "frag_len p = a' - a"
    and "\<exists>st'. push_piece p True (st\<lparr>ed_patch := patch_push (ed_patch st) e, ed_slices := ed_slices st @ [slice_from_fragment ts p]\<rparr>) = Some st' \<and>
      edit_inv xs t ts ch k a' (out @ [p]) st' \<and> ed_offset st' = ed_offset st \<and> ed_cursor st' = ed_cursor st \<and>
      patch_inv xs a' (vis_cells (out @ [p])) (ed_patch st') \<and> same_log st st'"
proof -
  note inv = assms(2) [unfolded edit_inv_def] and k = current_piece(1,2) [OF assms(1-4)]
  obtain r where r: "cut (xs ! k) (vis_at xs k) a a' = Some r" "cells r = take (a' - a) (drop (a - vis_at xs k) (cells (xs ! k)))"
    "frag_len r = a' - a" "frag_ok r" "frag_id r = frag_id (xs ! k)" "frag_timestamp r = frag_timestamp (xs ! k)"
    "deletions r = deletions (xs ! k)" "max_undos r = max_undos (xs ! k)"
    using current_piece(3) [OF assms(1-4)] by blast
  have qr: "q = r" using r(1) by (simp add: q_def)
  show "cut (xs ! k) (vis_at xs k) a a' = Some q" "frag_len p = a' - a" using r by (simp_all add: qr p_def)
  define l where "l = locator_between (max_id (fb_summary (ed_frags st))) (frag_id (xs ! k))"
  note l = current_locator [OF assms(1,2) k(1), folded l_def]
  have pl: "frag_id p = l" using r(5) by (simp add: p_def qr l_def)
  have "frag_ok (r\<lparr>frag_id := l\<rparr>)" using l(3) r(4) by blast
  then have pok: "frag_ok p" using pl by (simp add: frag_ok_def p_def qr)
  have p: "cells p = take (a' - a) (drop (a - vis_at xs k) (cells (xs ! k)))" "frag_len p = a' - a"
    "frag_timestamp p = frag_timestamp (xs ! k)" "\<not> frag_visible p"
    using r by (simp_all add: p_def qr cells_def)
  obtain st1 where st1: "push_piece p True st = Some st1" "ed_cursor st1 = ed_cursor st" "ed_offset st1 = ed_offset st"
    "ed_patch st1 = ed_patch st" "same_log st st1" "ed_slices st1 = ed_slices st" "fb_ok (ed_frags st1) (out @ [p])"
    "out_ok ts (consumed xs k a') (ed_offset st) (next_bound xs k) (out @ [p])"
    "ropes_ok ch xs a' (del_at xs k) (out @ [p]) (ed_ropes st1)" "indexed xs (ed_insertions st1) (out @ [p])"
    using push_visible_piece [OF assms(1,2) k assms(3,4,6) p(1,2) pok p(3), of "next_bound xs k"] pl l by auto
  let ?st = "st1\<lparr>ed_patch := patch_push (ed_patch st) e, ed_slices := ed_slices st @ [slice_from_fragment ts p]\<rparr>"
  have "part_of p (xs ! k)" using part_of_piece [OF p(1,3)] r(8) by (simp add: p_def qr)
  then have er: "erased xs ts p" using r(7) k by (auto simp: erased_def p_def qr)
  have "sliced xs ts (ed_slices st @ [slice_from_fragment ts p]) (out @ [p])"
    using inv er by (blast intro: sliced_push)
  then have "edit_inv xs t ts ch k a' (out @ [p]) ?st" using inv st1 assms(3,4) by (simp add: edit_inv_def)
  moreover have "patch_inv xs a' (vis_cells (out @ [p])) (patch_push (ed_patch st) e)"
    using patch_inv_delete [OF assms(5), of a'] assms(3,4) vis_at_le [of xs "Suc k"] p(4) by (simp add: e_def)
  ultimately show "\<exists>st'. push_piece p True (st\<lparr>ed_patch := patch_push (ed_patch st) e,
        ed_slices := ed_slices st @ [slice_from_fragment ts p]\<rparr>) = Some st' \<and>
      edit_inv xs t ts ch k a' (out @ [p]) st' \<and> ed_offset st' = ed_offset st \<and> ed_cursor st' = ed_cursor st \<and>
      patch_inv xs a' (vis_cells (out @ [p])) (ed_patch st') \<and> same_log st st'"
    using st1 by (simp add: push_piece_log same_log_def)
qed

text \<open>The invariant lets the cursor leave a visible fragment that is used up.\<close>

lemma leave_used_up:
  assumes "edit_ctx xs t ts" "edit_inv xs t ts ch k (vis_at xs (Suc k)) out st" "k < length xs" "frag_visible (xs ! k)"
  shows "\<exists>c. cursor_next text_dim (ed_cursor st) = Some c \<and>
    edit_inv xs t ts ch (Suc k) (vis_at xs (Suc k)) out (st\<lparr>ed_cursor := c\<rparr>)"
  using leave_visible [of xs t ts k st out "next_bound xs k" ch] assms
    less_imp_le [OF next_bound_Suc [OF edit_ctxD(3,4) [OF assms(1)] assms(3)]] by (simp add: edit_inv_def)

lemma delete_step_visible:
  assumes "edit_ctx xs t ts" "edit_inv xs t ts ch k a out st" "ed_start st = a" "a < re" "k < length xs" "frag_visible (xs ! k)"
    and "patch_inv xs a (vis_cells out) (ed_patch st)" and chars: "is_char_boundary (map ch (vis_cells xs)) re"
  shows "\<exists>st' k' a' out'. delete_step ts re st = Some st' \<and> edit_inv xs t ts ch k' a' out' st' \<and> ed_start st' = a' \<and>
    a' \<le> re \<and> (k' = Suc k \<or> k' = k \<and> a' = re) \<and> ed_offset st' = ed_offset st \<and>
    patch_inv xs a' (vis_cells out') (ed_patch st') \<and> same_log st st' \<and> vis_cells out' = vis_cells out"
proof -
  let ?E = "vis_at xs (Suc k)" and ?f = "xs ! k"
  note D = edit_invD [OF assms(1,2)]
  have aE: "a \<le> ?E" "vis_at xs k \<le> a" using assms(2) by (simp_all add: edit_inv_def)
  have fb: "text_visible (frag_text (fb_summary (ed_frags st))) = length (vis_cells out)"
    using assms(2) by (simp add: edit_inv_def fb_ok_def frags_summary_text)
  show ?thesis
  proof (cases "a < ?E")
    case True
    define a' where "a' = min re ?E"
    have a': "a < a'" "a' \<le> ?E" using True assms(4) by (auto simp: a'_def)
    have a'_chars: "is_char_boundary (map ch (vis_cells xs)) a'"
      using chars edit_inv_boundary(1) [OF assms(2), of "Suc k"] by (simp add: a'_def min_def)
    define q where "q = the (cut ?f (vis_at xs k) a a')"
    define p where "p = q\<lparr>frag_id := locator_between (max_id (fb_summary (ed_frags st))) (frag_id q),
      deletions := deletions q @ [ts], frag_visible := False\<rparr>"
    note piece = push_deleted_piece [OF assms(1,2) a' assms(7) a'_chars, folded q_def, folded p_def]
    from piece(3) obtain st1 where st1: "push_piece p True (st\<lparr>ed_patch := patch_push (ed_patch st)
          \<lparr>eo_start = a, eo_end = a', en_start = length (vis_cells out), en_end = length (vis_cells out)\<rparr>,
          ed_slices := ed_slices st @ [slice_from_fragment ts p]\<rparr>) = Some st1"
      "edit_inv xs t ts ch k a' (out @ [p]) st1" "ed_offset st1 = ed_offset st" "ed_cursor st1 = ed_cursor st"
      "patch_inv xs a' (vis_cells (out @ [p])) (ed_patch st1)" "same_log st st1" by blast
    let ?st = "st1\<lparr>ed_start := a'\<rparr>"
    have inv: "edit_inv xs t ts ch k a' (out @ [p]) ?st" using st1(2) by (simp add: edit_inv_def)
    have v: "vis_cells (out @ [p]) = vis_cells out" by (simp add: p_def)
    have step: "delete_step ts re st = (if ?E \<le> re then do { c \<leftarrow> cursor_next text_dim (ed_cursor st); Some (?st\<lparr>ed_cursor := c\<rparr>) } else Some ?st)"
      using D assms(3,5,6) piece(1,2) st1(1,4) a'(1)
      by (simp add: delete_step_def Let_def fb a'_def [symmetric] p_def [symmetric]) (simp add: p_def)
    show ?thesis
    proof (cases "?E \<le> re")
      case stop: True
      then have "a' = ?E" by (simp add: a'_def)
      then obtain c where "cursor_next text_dim (ed_cursor st) = Some c" "edit_inv xs t ts ch (Suc k) ?E (out @ [p]) (?st\<lparr>ed_cursor := c\<rparr>)"
        using leave_used_up [OF assms(1), of ch k "out @ [p]" ?st] inv assms(5,6) st1(4) by auto
      then show ?thesis using step stop st1 v \<open>a' = ?E\<close>
        by (intro exI [of _ "?st\<lparr>ed_cursor := c\<rparr>"] exI [of _ "Suc k"] exI [of _ ?E] exI [of _ "out @ [p]"]) (simp add: same_log_def)
    next
      case False
      then have "a' = re" by (simp add: a'_def)
      then show ?thesis using step False st1 v inv
        by (intro exI [of _ ?st] exI [of _ k] exI [of _ a'] exI [of _ "out @ [p]"]) (simp add: same_log_def)
    qed
  next
    case False
    then have eq: "a = ?E" using aE by simp
    obtain q where q: "cut ?f (vis_at xs k) a a = Some q" "frag_len q = 0"
      using cut_ok [of ?f "vis_at xs k" a a] aE eq edit_ctxD(3) [OF assms(1)] assms(5,6) by (auto simp: vis_at_Suc width_def list_all_length)
    obtain c where c: "cursor_next text_dim (ed_cursor st) = Some c" "edit_inv xs t ts ch (Suc k) ?E out (st\<lparr>ed_cursor := c\<rparr>)"
      using leave_used_up [OF assms(1) _ assms(5,6), of ch out st] assms(2) eq by auto
    have "delete_step ts re st = Some (st\<lparr>ed_cursor := c\<rparr>)"
      using D assms(3-6) q c(1) eq by (simp add: delete_step_def Let_def min_absorb2)
    then show ?thesis using c(2) assms eq
      by (intro exI [of _ "st\<lparr>ed_cursor := c\<rparr>"] exI [of _ "Suc k"] exI [of _ a] exI [of _ out]) (simp add: same_log_def)
  qed
qed

section \<open>Deleting a range\<close>

text \<open>Every round but the last moves the cursor to the next fragment.\<close>

lemma delete_step_ok:
  assumes "edit_ctx xs t ts" "edit_inv xs t ts ch k a out st" "ed_start st = a" "a < re" "re \<le> length (vis_cells xs)"
    and "patch_inv xs a (vis_cells out) (ed_patch st)" and chars: "is_char_boundary (map ch (vis_cells xs)) re"
  shows "\<exists>st' k' a' out'. delete_step ts re st = Some st' \<and> edit_inv xs t ts ch k' a' out' st' \<and> ed_start st' = a' \<and>
    a' \<le> re \<and> k < length xs \<and> (k' = Suc k \<or> k' = k \<and> a' = re) \<and> ed_offset st' = ed_offset st \<and>
    patch_inv xs a' (vis_cells out') (ed_patch st') \<and> same_log st st' \<and> vis_cells out' = vis_cells out"
proof -
  have k: "k < length xs"
  proof (rule ccontr)
    assume "\<not> k < length xs"
    then have "length (vis_cells xs) \<le> a" using assms(2) by (simp add: edit_inv_def vis_at_end)
    then show False using assms(4,5) by simp
  qed
  show ?thesis
  proof (cases "frag_visible (xs ! k)")
    case True
    then show ?thesis using delete_step_visible [OF assms(1-4) k True assms(6) chars] k by blast
  next
    case False
    then obtain st' where "delete_step ts re st = Some st'" "edit_inv xs t ts ch (Suc k) a (out @ [xs ! k]) st'" "ed_start st' = a"
      "ed_offset st' = ed_offset st" "ed_patch st' = ed_patch st" "same_log st st'"
      using delete_step_hidden [OF assms(1-4) k] by blast
    then show ?thesis using k assms(4,6) False
      by (intro exI [of _ st'] exI [of _ "Suc k"] exI [of _ a] exI [of _ "out @ [xs ! k]"]) simp
  qed
qed

lemma delete_range_ok:
  assumes "edit_ctx xs t ts" "edit_inv xs t ts ch k a out st" "ed_start st = a" "a \<le> re" "re \<le> length (vis_cells xs)"
    and "patch_inv xs a (vis_cells out) (ed_patch st)" "length xs - k < fuel"
    and chars: "is_char_boundary (map ch (vis_cells xs)) re"
  shows "\<exists>st' k' out'. delete_range fuel ts re st = Some st' \<and> edit_inv xs t ts ch k' re out' st' \<and> ed_start st' = re \<and>
    ed_offset st' = ed_offset st \<and> patch_inv xs re (vis_cells out') (ed_patch st') \<and> same_log st st' \<and> vis_cells out' = vis_cells out"
  using assms(2-4,6,7)
proof (induction fuel arbitrary: st k a out)
  case (Suc n)
  show ?case
  proof (cases "a < re")
    case False
    then show ?thesis using Suc.prems by (subst delete_range.simps) (auto simp: same_log_def)
  next
    case True
    obtain st1 k1 a1 out1 where s: "delete_step ts re st = Some st1" "edit_inv xs t ts ch k1 a1 out1 st1" "ed_start st1 = a1"
      "a1 \<le> re" "k < length xs" "k1 = Suc k \<or> k1 = k \<and> a1 = re" "ed_offset st1 = ed_offset st"
      "patch_inv xs a1 (vis_cells out1) (ed_patch st1)" "same_log st st1" "vis_cells out1 = vis_cells out"
      using delete_step_ok [OF assms(1) Suc.prems(1,2) True assms(5) Suc.prems(4) chars] by blast
    have run: "delete_range (Suc n) ts re st = delete_range n ts re st1"
      using True s(1) Suc.prems(2) by (subst delete_range.simps) simp
    show ?thesis
    proof (cases "a1 = re")
      case True
      then have "delete_range n ts re st1 = Some st1" using s(3) by (subst delete_range.simps) simp
      then show ?thesis using run s(2,3,7-10) True by (intro exI [of _ st1] exI [of _ k1] exI [of _ out1]) simp
    next
      case False
      then have "length xs - k1 < n" using s(5,6) Suc.prems(5) by auto
      from Suc.IH [OF s(2,3,4,8) this] show ?thesis using run s(7,9,10) by (auto simp: same_log_def)
    qed
  qed
qed simp

section \<open>One edit and a sequence of edits\<close>

lemma edit_one_ok:
  assumes "edit_ctx xs t ts" "edit_inv xs t ts ch k a out st" "ed_start st = a" "a \<le> rs" "rs \<le> re" "re \<le> length (vis_cells xs)"
    and "patch_inv xs a (vis_cells out) (ed_patch st)" "tx = normalize replace_all new"
    and "ed_offset st + length tx < 2 ^ 32" "tx = map (\<lambda>i. ch (ts, ed_offset st + i)) [0..<length tx]"
    and chars: "is_char_boundary (map ch (vis_cells xs)) rs" "is_char_boundary (map ch (vis_cells xs)) re" "starts_on_char tx"
  shows "\<exists>st' k' out'. edit_one replace_all ts ((rs, re), new) st = Some st' \<and> edit_inv xs t ts ch k' re out' st' \<and> ed_start st' = re \<and>
    ed_offset st' = ed_offset st + length tx \<and> patch_inv xs re (vis_cells out') (ed_patch st') \<and>
    ed_texts st' = ed_texts st @ [tx] \<and> length (ed_ranges st') = Suc (length (ed_ranges st)) \<and>
    vis_cells out' = vis_cells out @ take (rs - a) (drop a (vis_cells xs)) @
      map (Pair ts) [ed_offset st..<ed_offset st + length tx]"
proof -
  have rs: "rs \<le> length (vis_cells xs)" using assms(5,6) by simp
  obtain st1 k1 a1 out1 where s1: "advance_to_range rs st = Some st1" "edit_inv xs t ts ch k1 a1 out1 st1" "ed_start st1 = a1"
    "a \<le> a1" "a1 \<le> rs" "rs \<le> vis_at xs (Suc k1)" "ed_offset st1 = ed_offset st" "ed_patch st1 = ed_patch st"
    "same_log st st1" "vis_cells out1 = vis_cells out @ take (a1 - a) (drop a (vis_cells xs))"
    using advance_to_range_ok [OF assms(1-4) rs] by blast
  obtain st2 out2 where s2: "push_prefix rs st1 = Some st2" "edit_inv xs t ts ch k1 rs out2 st2" "ed_start st2 = rs"
    "ed_offset st2 = ed_offset st" "ed_patch st2 = ed_patch st" "same_log st1 st2"
    "vis_cells out2 = vis_cells out1 @ take (rs - a1) (drop a1 (vis_cells xs))"
    using push_prefix_ok [OF assms(1) s1(2,3,5,6) chars(1)] s1(7,8) by auto
  have v2: "vis_cells out2 = vis_cells out @ take (rs - a) (drop a (vis_cells xs))"
    using s2(7) s1(10) take_drop_join [OF s1(4,5), of "vis_cells xs"] by simp
  have p2: "patch_inv xs rs (vis_cells out2) (ed_patch st2)"
    using patch_inv_gap [OF assms(7,4) rs] v2 s2(5) by simp
  obtain st3 out3 where s3: "insert_text tx ts st2 = Some st3" "edit_inv xs t ts ch k1 rs out3 st3" "ed_start st3 = rs"
    "ed_offset st3 = ed_offset st + length tx" "patch_inv xs rs (vis_cells out3) (ed_patch st3)" "same_log st2 st3"
    "vis_cells out3 = vis_cells out2 @ map (Pair ts) [ed_offset st..<ed_offset st + length tx]"
    using insert_text_ok [OF assms(1) s2(2,3) p2, unfolded s2(4), OF assms(9,10) chars(3)] by blast
  have "tree_items (c_tree (ed_cursor st3)) = xs" using s3(2) edit_ctxD(2) [OF assms(1)] by (simp add: edit_inv_def)
  then have "length xs - k1 < edit_fuel st3" by (simp add: edit_fuel_def)
  then obtain st4 k4 out4 where s4: "delete_range (edit_fuel st3) ts re st3 = Some st4" "edit_inv xs t ts ch k4 re out4 st4"
    "ed_start st4 = re" "ed_offset st4 = ed_offset st3" "patch_inv xs re (vis_cells out4) (ed_patch st4)" "same_log st3 st4"
    "vis_cells out4 = vis_cells out3"
    using delete_range_ok [OF assms(1) s3(2,3) assms(5,6) s3(5) _ chars(2)] by blast
  let ?st = "\<lambda>fs fe. st4\<lparr>ed_ranges := ed_ranges st4 @ [(fs, fe)], ed_texts := ed_texts st4 @ [tx]\<rparr>"
  obtain fs fe where "edit_one replace_all ts ((rs, re), new) st = Some (?st fs fe)"
    using s1(1) s2(1) s3(1) s4(1) by (simp add: edit_one_def Let_def assms(8) [symmetric])
  moreover have "edit_inv xs t ts ch k4 re out4 (?st fs fe)" using s4(2) by (simp add: edit_inv_def)
  moreover have "ed_texts st4 = ed_texts st" "ed_ranges st4 = ed_ranges st"
    using s1(9) s2(6) s3(6) s4(6) by (simp_all add: same_log_def)
  ultimately show ?thesis
    using s4(3,4,5,7) s3(4,7) v2 by (intro exI [of _ "?st fs fe"] exI [of _ k4] exI [of _ out4]) simp
qed

text \<open>Replacing ordered ranges of a list, from position \<open>a\<close> on.\<close>

fun splice_list :: "'a list \<Rightarrow> nat \<Rightarrow> ((nat \<times> nat) \<times> 'a list) list \<Rightarrow> 'a list" where
  "splice_list v a [] = drop a v"
| "splice_list v a (((s, e), new) # es) = take (s - a) (drop a v) @ new @ splice_list v e es"

fun ranges_ordered :: "nat \<Rightarrow> nat \<Rightarrow> ((nat \<times> nat) \<times> 'a) list \<Rightarrow> bool" where
  "ranges_ordered n a [] \<longleftrightarrow> a \<le> n"
| "ranges_ordered n a (((s, e), _) # es) \<longleftrightarrow> a \<le> s \<and> s \<le> e \<and> ranges_ordered n e es"

lemma ranges_ordered_le: "ranges_ordered n a es \<Longrightarrow> a \<le> n"
  by (induction n a es rule: ranges_ordered.induct) auto

text \<open>The ends of the ranges are character boundaries of the text.\<close>

definition on_chars :: "string \<Rightarrow> ((nat \<times> nat) \<times> 'a) list \<Rightarrow> bool" where
  "on_chars text es \<longleftrightarrow> (\<forall>((s, e), _)\<in>set es. is_char_boundary text s \<and> is_char_boundary text e)"

lemma on_chars_simps [simp]:
  "on_chars text []"
  "on_chars text (((s, e), new) # es) \<longleftrightarrow> is_char_boundary text s \<and> is_char_boundary text e \<and> on_chars text es"
  by (auto simp: on_chars_def)

definition normalized :: "(string \<Rightarrow> string) \<Rightarrow> ((nat \<times> nat) \<times> string) list \<Rightarrow> ((nat \<times> nat) \<times> string) list" where
  "normalized replace_all es = map (\<lambda>(r, new). (r, normalize replace_all new)) es"

definition inserted :: "(string \<Rightarrow> string) \<Rightarrow> ((nat \<times> nat) \<times> string) list \<Rightarrow> string" where
  "inserted replace_all es = concat (map snd (normalized replace_all es))"

text \<open>The new texts are strings, of less than four gibibytes together.\<close>

definition texts_ok :: "(string \<Rightarrow> string) \<Rightarrow> ((nat \<times> nat) \<times> string) list \<Rightarrow> bool" where
  "texts_ok replace_all es \<longleftrightarrow> length (inserted replace_all es) < 2 ^ 32 \<and>
     (\<forall>(_, new)\<in>set es. starts_on_char (normalize replace_all new))"

text \<open>The bytes of the cells of the insertion from an offset on.\<close>

definition spelt :: "(cell \<Rightarrow> char) \<Rightarrow> lamport \<Rightarrow> nat \<Rightarrow> string \<Rightarrow> bool" where
  "spelt ch ts n tx \<longleftrightarrow> (\<forall>i<length tx. ch (ts, n + i) = tx ! i)"

lemma spelt_map: "spelt ch ts n tx \<Longrightarrow> tx = map (\<lambda>i. ch (ts, n + i)) [0..<length tx]"
  by (rule nth_equalityI) (simp_all add: spelt_def)

lemma spelt_append:
  assumes "spelt ch ts n (u @ v)"
  shows "spelt ch ts n u" "spelt ch ts (n + length u) v"
proof -
  show "spelt ch ts n u" using assms by (simp add: spelt_def nth_append)
  have "ch (ts, n + (length u + i)) = (u @ v) ! (length u + i)" if "i < length v" for i
    using assms that by (simp add: spelt_def)
  then show "spelt ch ts (n + length u) v" by (simp add: spelt_def add.assoc)
qed

lemma spelt_cells: "spelt ch ts n tx \<Longrightarrow> map ch (map (Pair ts) [n..<n + length tx]) = tx"
  by (rule nth_equalityI) (simp_all add: spelt_def)

lemma edit_all_ok:
  assumes "edit_ctx xs t ts" "edit_inv xs t ts ch k a out st" "ed_start st = a" "ranges_ordered (length (vis_cells xs)) a es"
    and "patch_inv xs a (vis_cells out) (ed_patch st)"
    and "ed_offset st + length (inserted replace_all es) < 2 ^ 32" "spelt ch ts (ed_offset st) (inserted replace_all es)"
    and "on_chars (map ch (vis_cells xs)) es" "\<forall>(_, new)\<in>set es. starts_on_char (normalize replace_all new)"
  shows "\<exists>st' k' a' out'. edit_all replace_all ts es st = Some st' \<and> edit_inv xs t ts ch k' a' out' st' \<and> ed_start st' = a' \<and>
    ed_offset st' = ed_offset st + length (inserted replace_all es) \<and> patch_inv xs a' (vis_cells out') (ed_patch st') \<and>
    ed_texts st' = ed_texts st @ map snd (normalized replace_all es) \<and>
    length (ed_ranges st') = length (ed_ranges st) + length es \<and>
    map ch (vis_cells out' @ drop a' (vis_cells xs)) =
      map ch (vis_cells out) @ splice_list (map ch (vis_cells xs)) a (normalized replace_all es)"
  using assms(2-)
proof (induction es arbitrary: st k a out)
  case Nil
  then show ?case
    by (intro exI [of _ st] exI [of _ k] exI [of _ a] exI [of _ out]) (simp add: inserted_def normalized_def drop_map)
next
  case (Cons x es)
  obtain rs re new where x: "x = ((rs, re), new)" by (metis surj_pair)
  define tx where "tx = normalize replace_all new"
  have r: "a \<le> rs" "rs \<le> re" "ranges_ordered (length (vis_cells xs)) re es" using Cons.prems(3) x by simp_all
  have ins: "inserted replace_all (x # es) = tx @ inserted replace_all es"
    and nrm: "normalized replace_all (x # es) = ((rs, re), tx) # normalized replace_all es"
    by (simp_all add: inserted_def normalized_def tx_def x)
  have sp: "spelt ch ts (ed_offset st) tx" "spelt ch ts (ed_offset st + length tx) (inserted replace_all es)"
    using spelt_append [of ch ts "ed_offset st" tx] Cons.prems(6) by (simp_all add: ins)
  have len: "ed_offset st + length tx < 2 ^ 32" using Cons.prems(5) by (simp add: ins)
  have chars: "is_char_boundary (map ch (vis_cells xs)) rs" "is_char_boundary (map ch (vis_cells xs)) re" "starts_on_char tx"
    "on_chars (map ch (vis_cells xs)) es" "\<forall>(_, new)\<in>set es. starts_on_char (normalize replace_all new)"
    using Cons.prems(7,8) x by (simp_all add: tx_def)
  obtain st1 k1 out1 where s1: "edit_one replace_all ts ((rs, re), new) st = Some st1" "edit_inv xs t ts ch k1 re out1 st1"
    "ed_start st1 = re" "ed_offset st1 = ed_offset st + length tx" "patch_inv xs re (vis_cells out1) (ed_patch st1)"
    "ed_texts st1 = ed_texts st @ [tx]" "length (ed_ranges st1) = Suc (length (ed_ranges st))"
    "vis_cells out1 = vis_cells out @ take (rs - a) (drop a (vis_cells xs)) @ map (Pair ts) [ed_offset st..<ed_offset st + length tx]"
    using edit_one_ok [OF assms(1) Cons.prems(1,2) r(1,2) ranges_ordered_le [OF r(3)] Cons.prems(4) tx_def len spelt_map [OF sp(1)] chars(1-3)]
    by blast
  obtain st2 k2 a2 out2 where s2: "edit_all replace_all ts es st1 = Some st2" "edit_inv xs t ts ch k2 a2 out2 st2" "ed_start st2 = a2"
    "ed_offset st2 = ed_offset st1 + length (inserted replace_all es)" "patch_inv xs a2 (vis_cells out2) (ed_patch st2)"
    "ed_texts st2 = ed_texts st1 @ map snd (normalized replace_all es)" "length (ed_ranges st2) = length (ed_ranges st1) + length es"
    "map ch (vis_cells out2 @ drop a2 (vis_cells xs)) = map ch (vis_cells out1) @ splice_list (map ch (vis_cells xs)) re (normalized replace_all es)"
    using Cons.IH [OF s1(2,3) r(3) s1(5) _ _ chars(4,5)] Cons.prems(5) sp(2) s1(4) by (auto simp: ins)
  have "map ch (vis_cells out1) = map ch (vis_cells out) @ take (rs - a) (drop a (map ch (vis_cells xs))) @ tx"
    using s1(8) spelt_cells [OF sp(1)] by (simp add: take_map drop_map)
  then show ?case using s1(1,4,6,7) s2
    by (intro exI [of _ st2] exI [where x = k2] exI [where x = a2] exI [where x = out2]) (simp add: ins nrm, simp add: x)
qed

section \<open>The beginning and the end of the pass\<close>

lemma edit_begin_ok:
  assumes "edit_ctx (tree_items (sn_fragments s)) (sn_fragments s) ts"
    and "visible_text s = map ch (vis_cells (tree_items (sn_fragments s)))" "deleted_text s = map ch (del_cells (tree_items (sn_fragments s)))"
    and "starts_ok ch (tree_items (sn_fragments s))"
  shows "\<exists>st k out. edit_begin s n = Some st \<and>
    edit_inv (tree_items (sn_fragments s)) (sn_fragments s) ts ch k (ed_start st) out st \<and> ed_start st \<le> n \<and> ed_offset st = 0 \<and>
    ed_patch st = [] \<and> ed_ranges st = [] \<and> ed_texts st = [] \<and>
    vis_cells out = take (ed_start st) (vis_cells (tree_items (sn_fragments s)))"
proof -
  let ?t = "sn_fragments s"
  let ?xs = "tree_items ?t" and ?c = "cursor_new text_dim ?t"
  have wf: "wf_tree frag_item ?t" using edit_ctxD(1) [OF assms(1)] .
  have c: "cursor_at frag_item text_dim 0 ?c" using cursor_at_new [OF wf] .
  have d: "c_position ?c = text_zero" by (simp add: cursor_new_def text_dim_def)
  define m where "m = seek_count frag_item text_dim (passes (visible_target n) Right) (c_position ?c) (drop 0 ?xs)"
  have m: "m \<le> length ?xs" "vis_at ?xs m \<le> n"
    using seek_visible [OF _ m_def] by (auto simp: d text_zero_def vis_at_def)
  obtain sl c' where sl: "slice frag_item text_dim ?c (visible_target n) Right = Some (sl, c')" "wf_tree frag_item sl"
    "tree_items sl = take m ?xs" "c_tree c' = ?t" "did_seek c'" "cursor_at frag_item text_dim m c'"
    using text_laws.slice_ok [OF c, of "visible_target n" Right] seekable_visible
    by (auto simp: m_def visible_target_def d text_zero_def)
  have "ropes_ok ch ?xs (vis_at ?xs 0) (del_at ?xs 0) [] (rb_new (visible_text s) (deleted_text s))"
    using ropes_new [OF assms(4)] assms(2,3) by simp
  from ropes_append [OF this, of m]
  obtain rb where rb: "rb_append (frag_text (summary sl)) (rb_new (visible_text s) (deleted_text s)) = Some rb"
    "ropes_ok ch ?xs (vis_at ?xs m) (del_at ?xs m) (take m ?xs) rb"
    using run_summary [OF sl(2)] sl(3) by auto
  have "out_ok ts (consumed ?xs 0 (vis_at ?xs 0)) 0 (next_bound ?xs 0) []"
    by (simp add: out_ok_def consumed_def)
  from out_ok_run [OF assms(1) this, of m] m(1)
  have out: "out_ok ts (consumed ?xs m (vis_at ?xs m)) 0 (next_bound ?xs m) (take m ?xs)" by simp
  let ?st = "\<lparr>ed_cursor = c', ed_frags = fb_new sl, ed_ropes = rb, ed_start = vis_at ?xs m,
    ed_offset = 0, ed_insertions = [], ed_slices = [], ed_patch = [], ed_ranges = [], ed_texts = []\<rparr>"
  have "edit_inv ?xs ?t ts ch m (vis_at ?xs m) (take m ?xs) ?st"
    using sl(4-6) fb_new_ok [OF sl(2)] sl(3) rb(2) out vis_at_mono [of m "Suc m" ?xs] kept_old [of "take m ?xs" ?xs]
    by (simp add: edit_inv_def indexed_def sliced_def set_take_subset list_all_iff)
  moreover have "edit_begin s n = Some ?st"
    using sl(1,4,6) rb(1) by (simp add: edit_begin_def fb_new_def cursor_at_def pos_text_at)
  moreover have "vis_cells (take m ?xs) = take (vis_at ?xs m) (vis_cells ?xs)"
    using vis_run [of ?xs 0 m] by simp
  ultimately show ?thesis using m(2) by (intro exI [of _ ?st] exI [of _ m] exI [of _ "take m ?xs"]) simp
qed

lemma edit_suffix_ok:
  assumes "edit_ctx xs t ts" "edit_inv xs t ts ch k a out st" "ed_start st = a" "patch_inv xs a (vis_cells out) (ed_patch st)"
  shows "\<exists>st' out'. edit_suffix st = Some st' \<and> fb_ok (ed_frags st') out' \<and>
    out_ok ts (all_cells xs) (ed_offset st) locator_max out' \<and>
    rb_finish (ed_ropes st') = Some (map ch (vis_cells out'), map ch (del_cells out')) \<and> starts_ok ch out' \<and>
    indexed xs (ed_insertions st') out' \<and> sliced xs ts (ed_slices st') out' \<and>
    vis_cells out' = vis_cells out @ drop a (vis_cells xs) \<and> ed_patch st' = ed_patch st \<and> same_log st st' \<and>
    patch_inv xs (length (vis_cells xs)) (vis_cells out') (ed_patch st')"
proof -
  obtain st1 k1 out1 where s1: "consume_rest st = Some st1" "edit_inv xs t ts ch k1 (vis_at xs k1) out1 st1"
    "a \<le> vis_at xs k1" "ed_offset st1 = ed_offset st" "ed_patch st1 = ed_patch st" "same_log st st1"
    "vis_cells out1 = vis_cells out @ take (vis_at xs k1 - a) (drop a (vis_cells xs))"
    using consume_rest_ok [OF assms(1-3)] by blast
  have xs: "tree_items (c_tree (ed_cursor st1)) = xs" and c: "cursor_at frag_item text_dim k1 (ed_cursor st1)" "c_tree (ed_cursor st1) = t"
    using s1(2) edit_ctxD(2) [OF assms(1)] by (auto simp: edit_inv_def)
  define m where "m = length xs - k1"
  have k: "k1 + m = length xs" using edit_invD(5) [OF assms(1) s1(2)] by (simp add: m_def)
  then have g: "take m (drop k1 xs) = drop k1 xs" by simp
  obtain sl c' where sl: "Sum_Cursor.suffix frag_item text_dim (ed_cursor st1) = Some (sl, c')" "wf_tree frag_item sl" "tree_items sl = drop k1 xs"
    "c_tree c' = t" "did_seek c'" "cursor_at frag_item text_dim (length xs) c'"
    using text_laws.suffix_ok [OF c(1)] c(2) xs by auto
  let ?st = "\<lambda>rb. st1\<lparr>ed_cursor := c', ed_ropes := rb, ed_frags := fb_append sl (ed_frags st1)\<rparr>" and ?out = "out1 @ drop k1 xs"
  have full: "vis_at xs (length xs) = length (vis_cells xs)" "del_at xs (length xs) = length (del_cells xs)"
    by (simp_all add: vis_at_def del_at_def)
  from append_run [OF assms(1) s1(2) eq_refl [OF k], unfolded k g, OF sl(6,5,4,2,3)]
  obtain rb where rb: "rb_append (frag_text (summary sl)) (ed_ropes st1) = Some rb"
    "edit_inv xs t ts ch (length xs) (length (vis_cells xs)) ?out (?st rb)"
    unfolding full by blast
  have run: "edit_suffix st = Some (?st rb)" using s1(1) sl(1) rb(1) by (simp add: edit_suffix_def)
  have v: "vis_cells ?out = vis_cells out @ drop a (vis_cells xs)"
    using s1(3,7) drop_vis_at(1) [of xs k1, symmetric] vis_at_le [of xs k1]
      take_drop_join [of a "vis_at xs k1" "length (vis_cells xs)" "vis_cells xs"] by simp
  have "a \<le> length (vis_cells xs)" using assms(4) by (simp add: patch_inv_def)
  from patch_inv_gap [OF assms(4) this order.refl]
  have "patch_inv xs (length (vis_cells xs)) (vis_cells ?out) (ed_patch st)" using v by simp
  moreover have "consumed xs (length xs) (length (vis_cells xs)) = all_cells xs" by (simp add: consumed_def)
  moreover have "fb_ok (ed_frags (?st rb)) ?out" "out_ok ts (consumed xs (length xs) (length (vis_cells xs))) (ed_offset st) locator_max ?out"
    "ropes_ok ch xs (length (vis_cells xs)) (length (del_cells xs)) ?out rb"
    "indexed xs (ed_insertions (?st rb)) ?out" "sliced xs ts (ed_slices (?st rb)) ?out"
    using rb(2) s1(4) full by (simp_all add: edit_inv_def next_bound_def)
  moreover from ropes_finish [OF this(3)]
  have "rb_finish (ed_ropes (?st rb)) = Some (map ch (vis_cells ?out), map ch (del_cells ?out))" "starts_ok ch ?out" by simp_all
  moreover have "ed_patch (?st rb) = ed_patch st" "same_log st (?st rb)" using s1(5,6) by (simp_all add: same_log_def)
  ultimately show ?thesis using run v by metis
qed

end
