(* ===== verification/Snapshot.thy ===== *)
theory Snapshot
  imports Edit_Correct
begin

text \<open>
  The invariant of a buffer snapshot and its preservation by local edits. A snapshot is coherent when its fragments are well
  formed and in the order of their locators, no cell occurs twice, the ropes spell the visible and the other cells, a
  fragment is visible exactly when its insertion has not been undone and all of its deletions have, the tree of insertions
  has one entry for each fragment under its first cell, and the slices of an edit cover the cells it inserted or deleted.
  The text of a buffer is created without slices, so nothing is asked of the edit \<open>base_timestamp\<close> that stands for it.
\<close>

section \<open>Visibility\<close>

definition undone :: "undo_map \<Rightarrow> lamport \<Rightarrow> bool" where
  "undone m e \<longleftrightarrow> Max (Set.insert 0 {n. \<exists>u. um_map m (e, u) = Some n}) mod 2 = 1"

definition shown :: "undo_map \<Rightarrow> fragment \<Rightarrow> bool" where
  "shown m f \<longleftrightarrow> \<not> undone m (frag_timestamp f) \<and> (\<forall>d\<in>set (deletions f). undone m d)"

lemma is_undone_ok: "um_ok m \<Longrightarrow> is_undone m e = Some (undone m e)"
  by (simp add: is_undone_def undo_count_ok undone_def)

lemma all_option_total: "(\<And>x. x \<in> set xs \<Longrightarrow> p x = Some (q x)) \<Longrightarrow> all_option p xs = Some (\<forall>x\<in>set xs. q x)"
  by (induction xs) auto

lemma is_visible_ok: "um_ok m \<Longrightarrow> is_visible f m = Some (shown m f)"
  by (simp add: is_visible_def is_undone_ok all_option_total shown_def)

lemma undone_new: "(\<And>u. um_map m (e, u) = None) \<Longrightarrow> \<not> undone m e"
  by (simp add: undone_def)

lemma undone_cong: "(\<And>u. um_map m (e, u) = um_map m' (e, u)) \<Longrightarrow> undone m e = undone m' e"
  by (simp add: undone_def)

section \<open>The index of insertions\<close>

definition first_key :: "fragment \<Rightarrow> insertion_key" where
  "first_key f = InsertionKey (frag_timestamp f) (insertion_offset f)"

definition insertions_ok :: "insertion_tree \<Rightarrow> fragment list \<Rightarrow> bool" where
  "insertions_ok ins fs \<longleftrightarrow> wf_tree insertion_item ins \<and> sorted_keys insertion_key_of (tree_items ins) \<and>
     (\<forall>k. key_lookup insertion_key_of (tree_items ins) k = map_option insertion_fragment_new (key_lookup first_key fs k))"

lemma key_of_new [simp]: "insertion_key_of (insertion_fragment_new f) = first_key f"
  by (simp add: insertion_key_of_def insertion_fragment_new_def first_key_def)

lemma first_cell: "0 < frag_len f \<Longrightarrow> (frag_timestamp f, insertion_offset f) \<in> set (cells f)"
  by (simp add: cells_def)

lemma distinct_first_keys: "list_all frag_ok fs \<Longrightarrow> distinct (all_cells fs) \<Longrightarrow> distinct (map first_key fs)"
proof (induction fs)
  case (Cons f fs)
  have "first_key f \<noteq> first_key g" if "g \<in> set fs" for g
  proof -
    have "0 < frag_len f" "0 < frag_len g" using Cons.prems(1) that by (auto simp: list_all_iff frag_ok_def)
    then have "(frag_timestamp f, insertion_offset f) \<in> set (cells f)" "(frag_timestamp g, insertion_offset g) \<in> set (all_cells fs)"
      using first_cell that by (auto simp: all_cells_def)
    then show ?thesis using Cons.prems(2) by (auto simp: first_key_def)
  qed
  then show ?case using Cons by auto
qed simp

lemma cells_disjoint:
  "distinct (all_cells fs) \<Longrightarrow> f \<in> set fs \<Longrightarrow> g \<in> set fs \<Longrightarrow> c \<in> set (cells f) \<Longrightarrow> c \<in> set (cells g) \<Longrightarrow> f = g"
proof (induction fs)
  case (Cons h fs)
  then show ?case by (auto simp: all_cells_def)
qed simp

lemma cells_by_fragment:
  "(\<And>g c. g \<in> set fs \<Longrightarrow> c \<in> set (cells g) \<Longrightarrow> P g = Q c) \<Longrightarrow> concat (map cells (filter P fs)) = filter Q (all_cells fs)"
proof (induction fs)
  case (Cons g fs)
  then have "concat (map cells (filter P fs)) = filter Q (all_cells fs)" by simp
  moreover have "filter Q (cells g) = (if P g then cells g else [])"
    using Cons.prems [of g] by (auto simp: filter_id_conv filter_empty_conv)
  ultimately show ?case by (simp add: all_cells_def)
qed (simp add: all_cells_def)

lemma distinct_filters: "distinct (filter P xs) \<Longrightarrow> distinct (filter (\<lambda>x. \<not> P x) xs) \<Longrightarrow> distinct xs"
  by (induction xs) (auto split: if_splits)

lemma out_ok_distinct:
  assumes "out_ok ts (all_cells xs) n b out" "distinct (all_cells xs)"
  shows "distinct (all_cells out)"
  using assms distinct_filters [of "\<lambda>c. fst c = ts" "all_cells out"]
  by (auto simp: out_ok_def distinct_map inj_on_def)

lemma subseq_subset: "subseq xs ys \<Longrightarrow> set xs \<subseteq> set ys"
  by (induction rule: list_emb.induct) auto

lemma subseq_distinct: "subseq xs ys \<Longrightarrow> distinct ys \<Longrightarrow> distinct xs"
  by (induction rule: list_emb.induct) (auto dest: subseq_subset)

text \<open>Every old fragment has its first cell at the beginning of a fragment put out.\<close>

lemma first_keys_kept:
  assumes "out_ok ts (all_cells xs) n b out" "sliced xs ts log out" "list_all frag_ok xs" "distinct (all_cells xs)"
    and "ts \<notin> frag_timestamp ` set xs" "f \<in> set xs"
  shows "first_key f \<in> first_key ` set out"
proof -
  let ?c = "(frag_timestamp f, insertion_offset f)"
  have c: "?c \<in> set (cells f)" using assms(3,6) first_cell by (auto simp: list_all_iff frag_ok_def)
  then have "?c \<in> set (all_cells xs)" using assms(6) by (auto simp: all_cells_def)
  then have "?c \<in> set (filter (\<lambda>c. fst c \<noteq> ts) (all_cells out))" using assms(1) by (simp add: out_ok_def)
  then have "?c \<in> set (all_cells out)" by simp
  then obtain g where g: "g \<in> set out" "?c \<in> set (cells g)" by (auto simp: all_cells_def)
  have "frag_timestamp g = frag_timestamp f" using cells_fst [OF g(2)] by simp
  then have "\<not> fresh ts g" using assms(5,6) by (auto simp: fresh_def)
  then obtain f' where f': "f' \<in> set xs" "part_of g f'"
    using assms(2) g(1) by (auto simp: sliced_def kept_def erased_def)
  then have "f' = f" using cells_disjoint [OF assms(4) _ assms(6) _ c] g(2) by (auto simp: part_of_def)
  moreover have "0 < frag_len g" using g(1) assms(1) by (auto simp: out_ok_def list_all_iff frag_ok_def)
  ultimately have "(frag_timestamp g, insertion_offset g) \<in> set (cells f)" using f'(2) first_cell [of g] by (auto simp: part_of_def)
  then have "insertion_offset f \<le> insertion_offset g" by (auto simp: cells_def)
  moreover have "insertion_offset g \<le> insertion_offset f" using g(2) by (auto simp: cells_def)
  ultimately have "first_key f = first_key g" using \<open>frag_timestamp g = frag_timestamp f\<close> by (simp add: first_key_def)
  then show ?thesis using g(1) by blast
qed

lemma key_lookup_insert_new:
  "key_lookup (edit_key insertion_keyed) (map insert_new ps) k = map_option insert_new (key_lookup first_key ps k)"
  by (induction ps) (auto simp: insert_new_def)

lemma insertions_edit_ok:
  assumes "insertions_ok ins xs" "indexed xs log out" "list_all frag_ok out" "distinct (all_cells out)" "distinct (map first_key xs)"
    and "first_key ` set xs \<subseteq> first_key ` set out"
  shows "\<exists>rs ins'. edit_tree insertion_keyed ins log = Some (rs, ins') \<and> insertions_ok ins' out"
proof -
  obtain ps where ps: "log = map insert_new ps" "subseq ps out" "set out \<subseteq> set xs \<union> set ps"
    using assms(2) by (auto simp: indexed_def)
  note dout = distinct_first_keys [OF assms(3,4)]
  have "subseq (map first_key ps) (map first_key out)" using ps(2) by (simp add: subseq_map)
  then have dps: "distinct (map first_key ps)" using dout by (rule subseq_distinct)
  have sub: "set ps \<subseteq> set out" using ps(2) by (rule subseq_subset)
  have "map (edit_key insertion_keyed) log = map first_key ps" by (simp add: ps(1) insert_new_def)
  then obtain rs ins' where e: "edit_tree insertion_keyed ins log = Some (rs, ins')" "insertion_laws.keyed_ok ins'"
    "insertion_laws.entries ins' = edit_effect insertion_keyed log (insertion_laws.entries ins)"
    using insertion_laws.edit_tree_ok [of ins log] dps assms(1) by (auto simp: insertions_ok_def insertion_laws.keyed_ok_def)
  have "key_lookup insertion_key_of (tree_items ins') k = map_option insertion_fragment_new (key_lookup first_key out k)" for k
  proof -
    have "key_lookup insertion_key_of (tree_items ins') k = (case key_lookup first_key ps k of
        None \<Rightarrow> map_option insertion_fragment_new (key_lookup first_key xs k) | Some p \<Rightarrow> Some (insertion_fragment_new p))"
      using fun_cong [OF e(3), of k] assms(1)
      by (auto simp: insertion_laws.entries_def edit_effect_def ps(1) key_lookup_insert_new insert_new_def insertions_ok_def split: option.split)
    moreover have "key_lookup first_key ps k = Some p \<Longrightarrow> key_lookup first_key out k = Some p" for p
      using sub key_lookup_distinct [OF dout] key_lookup_distinct [OF dps] by blast
    moreover have "key_lookup first_key xs k = key_lookup first_key out k" if none: "key_lookup first_key ps k = None"
    proof (cases "key_lookup first_key out k")
      case None
      then have "k \<notin> first_key ` set xs" using assms(6) by (auto simp: key_lookup_None_iff)
      then have "key_lookup first_key xs k = None" by (simp add: key_lookup_None_iff)
      then show ?thesis using None by simp
    next
      case (Some g)
      then have "g \<in> set xs" "first_key g = k" using key_lookup_SomeD [OF Some] none ps(3) by (auto simp: key_lookup_None_iff)
      then have "key_lookup first_key xs k = Some g" using key_lookup_distinct [OF assms(5)] by blast
      then show ?thesis using Some by simp
    qed
    ultimately show ?thesis by (auto split: option.split)
  qed
  then show ?thesis using e by (auto simp: insertions_ok_def insertion_laws.keyed_ok_def)
qed

section \<open>Slices\<close>

definition slice_set :: "insertion_slice tree_set \<Rightarrow> insertion_slice set" where
  "slice_set s = dom (tm_map s)"

definition covers :: "insertion_slice \<Rightarrow> lamport \<Rightarrow> cell \<Rightarrow> bool" where
  "covers sl e c \<longleftrightarrow> slice_edit_id sl = e \<and> slice_insertion_id sl = fst c \<and> slice_start sl \<le> snd c \<and> snd c < slice_end sl"

definition base_timestamp :: lamport where
  "base_timestamp = lamport_new LOCAL"

text \<open>The edits that made a fragment what it is.\<close>

definition edits_of :: "fragment \<Rightarrow> lamport set" where
  "edits_of f = Set.insert (frag_timestamp f) (set (deletions f))"

definition slices_cover :: "insertion_slice set \<Rightarrow> fragment list \<Rightarrow> bool" where
  "slices_cover S fs \<longleftrightarrow> (\<forall>f\<in>set fs. \<forall>e\<in>edits_of f. e \<noteq> base_timestamp \<longrightarrow> (\<forall>c\<in>set (cells f). \<exists>sl\<in>S. covers sl e c))"

lemma covers_own: "frag_ok f \<Longrightarrow> c \<in> set (cells f) \<Longrightarrow> covers (slice_from_fragment e f) e c"
  by (auto simp: covers_def slice_from_fragment_def cells_def frag_ok_def u32_of_small)

lemma slices_cover_sliced:
  assumes "slices_cover S xs" "sliced xs ts log out" "list_all frag_ok out"
  shows "slices_cover (S \<union> set log) out"
  unfolding slices_cover_def
proof (intro ballI impI)
  fix g e c
  assume g: "g \<in> set out" and e: "e \<in> edits_of g" "e \<noteq> base_timestamp" and c: "c \<in> set (cells g)"
  obtain ps where ps: "log = map (slice_from_fragment ts) ps" "kept xs g \<or> g \<in> set ps \<and> (erased xs ts g \<or> fresh ts g)"
    using assms(2) g by (auto simp: sliced_def)
  show "\<exists>sl\<in>S \<union> set log. covers sl e c"
  proof (cases "e = ts \<and> g \<in> set ps")
    case True
    then show ?thesis using covers_own [of g c ts] g c assms(3) ps(1) by (auto simp: list_all_iff)
  next
    case False
    then obtain f where "f \<in> set xs" "e \<in> edits_of f" "c \<in> set (cells f)"
      using ps(2) e(1) c by (fastforce simp: edits_of_def kept_def erased_def fresh_def part_of_def)
    then show ?thesis using assms(1) e(2) unfolding slices_cover_def by blast
  qed
qed

lemma ts_extend_ok:
  assumes "tm_ok s" "distinct ks"
  shows "\<exists>s'. ts_extend s ks = Some s' \<and> tm_ok s' \<and> slice_set s' = slice_set s \<union> set ks"
proof -
  have "map fst (map (\<lambda>k. (k, ())) ks) = ks" by (induction ks) auto
  then obtain s' where "tm_extend s (map (\<lambda>k. (k, ())) ks) = Some s'" "tm_ok s'" "tm_map s' = tm_map s ++ map_of (map (\<lambda>k. (k, ())) ks)"
    using tm_extend_ok [OF assms(1), of "map (\<lambda>k. (k, ())) ks"] assms(2) by auto
  then show ?thesis by (auto simp: ts_extend_def slice_set_def dom_map_of_conv_image_fst image_image)
qed

lemma slices_distinct:
  assumes "sliced xs ts log out" "list_all frag_ok out" "distinct (all_cells out)"
  shows "distinct log"
proof -
  obtain ps where ps: "log = map (slice_from_fragment ts) ps" "subseq ps out" using assms(1) by (auto simp: sliced_def)
  have "subseq (map first_key ps) (map first_key out)" using ps(2) by (simp add: subseq_map)
  then have "distinct (map first_key ps)" using distinct_first_keys [OF assms(2,3)] by (rule subseq_distinct)
  then have "distinct ps" "inj_on first_key (set ps)" by (auto simp: distinct_map)
  moreover from this(2) have "inj_on (slice_from_fragment ts) (set ps)"
    by (auto simp: inj_on_def slice_from_fragment_def first_key_def)
  ultimately show ?thesis by (simp add: ps(1) distinct_map)
qed

section \<open>The invariant\<close>

text \<open>The timestamps of the operations that a snapshot has seen.\<close>

definition undo_times :: "undo_map \<Rightarrow> lamport set" where
  "undo_times m = {t. \<exists>e u. um_map m (e, u) \<noteq> None \<and> (t = e \<or> t = u)}"

definition known_times :: "buffer_snapshot \<Rightarrow> lamport set" where
  "known_times s = (\<Union>f\<in>set (tree_items (sn_fragments s)). edits_of f) \<union> undo_times (sn_undo_map s) \<union>
     slice_edit_id ` slice_set (sn_slices s)"

text \<open>The bytes of one insertion stay in the order in which they were inserted, and none is ever lost.\<close>

definition insertion_order :: "cell list \<Rightarrow> bool" where
  "insertion_order cs \<longleftrightarrow> (\<forall>ts. \<exists>n. map snd (filter (\<lambda>c. fst c = ts) cs) = [0..<n])"

lemma insertion_order_sorted: "insertion_order cs \<Longrightarrow> sorted (map snd (filter (\<lambda>c. fst c = ts) cs))"
  unfolding insertion_order_def by (metis sorted_upt)

lemma insertion_order_out:
  assumes "out_ok ts (all_cells xs) n b out" "insertion_order (all_cells xs)"
  shows "insertion_order (all_cells out)"
  unfolding insertion_order_def
proof
  fix t
  have out: "filter (\<lambda>c. fst c \<noteq> ts) (all_cells out) = all_cells xs" "filter (\<lambda>c. fst c = ts) (all_cells out) = map (Pair ts) [0..<n]"
    using assms(1) by (auto simp: out_ok_def)
  show "\<exists>n. map snd (filter (\<lambda>c. fst c = t) (all_cells out)) = [0..<n]"
  proof (cases "t = ts")
    case False
    then have "filter (\<lambda>c. fst c = t) (all_cells out) = filter (\<lambda>c. fst c = t) (all_cells xs)"
      unfolding out(1) [symmetric] filter_filter by (intro filter_cong) auto
    then show ?thesis using assms(2) by (simp add: insertion_order_def)
  qed (auto simp: out(2) comp_def)
qed

text \<open>A fragment remembers the undos of the edits that made it.\<close>

definition undos_seen :: "undo_map \<Rightarrow> fragment \<Rightarrow> bool" where
  "undos_seen m f \<longleftrightarrow> (\<forall>e\<in>edits_of f. \<forall>u. um_map m (e, u) \<noteq> None \<longrightarrow> lvalue u \<le> version_get (max_undos f) (lreplica u))"

lemma undos_seen_out:
  assumes "sliced xs ts log out" "\<forall>f\<in>set xs. undos_seen m f" "ts \<notin> undo_times m" "g \<in> set out"
  shows "undos_seen m g"
proof -
  have new: "um_map m (ts, u) = None" for u using assms(3) by (auto simp: undo_times_def)
  have "kept xs g \<or> erased xs ts g \<or> fresh ts g" using assms(1,4) by (auto simp: sliced_def)
  then show ?thesis using assms(2) new by (fastforce simp: kept_def erased_def fresh_def part_of_def undos_seen_def edits_of_def)
qed

definition snapshot_ok :: "(cell \<Rightarrow> char) \<Rightarrow> buffer_snapshot \<Rightarrow> bool" where
  "snapshot_ok ch s \<longleftrightarrow> (let fs = tree_items (sn_fragments s) in
     wf_tree frag_item (sn_fragments s) \<and> frags_ok fs \<and>
     visible_text s = map ch (vis_cells fs) \<and> deleted_text s = map ch (del_cells fs) \<and> starts_ok ch fs \<and>
     insertions_ok (sn_insertions s) fs \<and> tm_ok (sn_slices s) \<and> slices_cover (slice_set (sn_slices s)) fs \<and>
     insertion_order (all_cells fs) \<and> um_ok (sn_undo_map s) \<and> (\<forall>f\<in>set fs. frag_visible f = shown (sn_undo_map s) f) \<and>
     (\<forall>f\<in>set fs. undos_seen (sn_undo_map s) f) \<and>
     (\<forall>t\<in>known_times s. global_observed (sn_version s) t) \<and>
     (\<forall>f\<in>set fs. frag_timestamp f \<noteq> lamport_MIN) \<and>
     (\<forall>sl\<in>slice_set (sn_slices s). slice_insertion_id sl \<noteq> lamport_MIN))"

text \<open>The bytes of the cells after an insertion.\<close>

definition with_insertion :: "lamport \<Rightarrow> string \<Rightarrow> (cell \<Rightarrow> char) \<Rightarrow> cell \<Rightarrow> char" where
  "with_insertion ts tx ch c = (if fst c = ts then tx ! snd c else ch c)"

lemma spelt_insertion: "spelt (with_insertion ts tx ch) ts 0 tx"
  by (simp add: spelt_def with_insertion_def)

lemma with_insertion_old:
  assumes "ts \<notin> frag_timestamp ` set fs"
  shows "map (with_insertion ts tx ch) (vis_cells fs) = map ch (vis_cells fs)"
    "map (with_insertion ts tx ch) (del_cells fs) = map ch (del_cells fs)"
    "starts_ok ch fs \<Longrightarrow> starts_ok (with_insertion ts tx ch) fs"
proof -
  have *: "fst c \<noteq> ts" if "c \<in> set (all_cells fs)" for c using that assms by (auto simp: all_cells_def dest: cells_fst)
  then show "map (with_insertion ts tx ch) (vis_cells fs) = map ch (vis_cells fs)"
    "map (with_insertion ts tx ch) (del_cells fs) = map ch (del_cells fs)"
    using set_vis_cells [of fs] set_del_cells [of fs] by (auto simp: with_insertion_def)
  show "starts_ok (with_insertion ts tx ch) fs" if "starts_ok ch fs"
    using that by (rule starts_ok_cong) (simp add: with_insertion_def *)
qed

lemma observed_observe: "global_observed v t \<Longrightarrow> global_observed (global_observe v ts) t" "global_observed (global_observe v ts) ts"
  by (auto simp: global_observed_def global_get_observe le_max_iff_disj)

text \<open>Visibility of the fragments put out, for a timestamp that has not been used.\<close>

lemma shown_out:
  assumes "sliced xs ts log out" "\<forall>f\<in>set xs. frag_visible f = shown m f" "\<not> undone m ts" "g \<in> set out"
  shows "frag_visible g = shown m g"
proof -
  have "kept xs g \<or> erased xs ts g \<or> fresh ts g" using assms(1,4) by (auto simp: sliced_def)
  then show ?thesis using assms(2,3) by (fastforce simp: kept_def erased_def fresh_def part_of_def shown_def)
qed

lemma edits_out:
  assumes "sliced xs ts log out" "g \<in> set out" "e \<in> edits_of g"
  shows "e = ts \<or> (\<exists>f\<in>set xs. e \<in> edits_of f)"
proof -
  have "kept xs g \<or> erased xs ts g \<or> fresh ts g" using assms(1,2) by (auto simp: sliced_def)
  then show ?thesis using assms(3) by (fastforce simp: kept_def erased_def fresh_def part_of_def edits_of_def)
qed

lemma slice_log:
  assumes "sliced xs ts log out" "sl \<in> set log"
  shows "slice_edit_id sl = ts" "slice_insertion_id sl \<in> frag_timestamp ` set out"
proof -
  obtain ps where "log = map (slice_from_fragment ts) ps" "subseq ps out" using assms(1) by (auto simp: sliced_def)
  then show "slice_edit_id sl = ts" "slice_insertion_id sl \<in> frag_timestamp ` set out"
    using assms(2) subseq_subset by (fastforce simp: slice_from_fragment_def)+
qed

lemma observed_MIN: "global_observed v lamport_MIN"
  by (simp add: global_observed_def lamport_MIN_def)

text \<open>No insertion has the least timestamp, which every version has observed.\<close>

lemma timestamps_out:
  assumes "sliced xs ts log out" "\<not> global_observed v ts" "\<forall>f\<in>set xs. frag_timestamp f \<noteq> lamport_MIN"
  shows "\<forall>g\<in>set out. frag_timestamp g \<noteq> lamport_MIN" "\<forall>sl\<in>set log. slice_insertion_id sl \<noteq> lamport_MIN"
proof -
  have "ts \<noteq> lamport_MIN" using assms(2) observed_MIN by blast
  show *: "\<forall>g\<in>set out. frag_timestamp g \<noteq> lamport_MIN"
  proof
    fix g assume "g \<in> set out"
    then have "kept xs g \<or> erased xs ts g \<or> fresh ts g" using assms(1) by (auto simp: sliced_def)
    then show "frag_timestamp g \<noteq> lamport_MIN"
      using assms(3) \<open>ts \<noteq> lamport_MIN\<close> by (auto simp: kept_def erased_def fresh_def part_of_def)
  qed
  then show "\<forall>sl\<in>set log. slice_insertion_id sl \<noteq> lamport_MIN" using slice_log(2) [OF assms(1)] by fastforce
qed

text \<open>Committing the fragments put out gives a coherent snapshot at the next version.\<close>

lemma edit_commit_ok:
  assumes ok: "snapshot_ok ch s" and xs: "xs = tree_items (sn_fragments s)"
    and ts: "\<not> global_observed (sn_version s) ts"
    and fb: "fb_ok (ed_frags st) out" and out: "out_ok ts (all_cells xs) n locator_max out"
    and rb: "rb_finish (ed_ropes st) = Some (map ch' (vis_cells out), map ch' (del_cells out))" "starts_ok ch' out"
    and ix: "indexed xs (ed_insertions st) out" and sl: "sliced xs ts (ed_slices st) out"
  shows "\<exists>s'. edit_commit s st = Some s' \<and> visible_text s' = map ch' (vis_cells out) \<and>
    tree_items (sn_fragments s') = out \<and> sn_undo_map s' = sn_undo_map s \<and> sn_version s' = sn_version s \<and>
    sn_remote_id s' = sn_remote_id s \<and> snapshot_ok ch' (s'\<lparr>sn_version := global_observe (sn_version s) ts\<rparr>)"
proof -
  have s0: "insertion_order (all_cells xs)" "\<forall>f\<in>set xs. undos_seen (sn_undo_map s) f"
    using ok by (simp_all add: snapshot_ok_def xs Let_def)
  have s: "frags_ok xs" "insertions_ok (sn_insertions s) xs" "tm_ok (sn_slices s)" "slices_cover (slice_set (sn_slices s)) xs"
    "um_ok (sn_undo_map s)" "\<forall>f\<in>set xs. frag_visible f = shown (sn_undo_map s) f"
    "\<And>t. t \<in> known_times s \<Longrightarrow> global_observed (sn_version s) t"
    "\<forall>f\<in>set xs. frag_timestamp f \<noteq> lamport_MIN" "\<forall>sl\<in>slice_set (sn_slices s). slice_insertion_id sl \<noteq> lamport_MIN"
    using ok by (auto simp: snapshot_ok_def xs Let_def)
  have fresh: "ts \<notin> known_times s" using s(7) ts by blast
  then have ts_xs: "ts \<notin> frag_timestamp ` set xs" by (auto simp: known_times_def edits_of_def xs)
  have fok: "list_all frag_ok xs" "distinct (all_cells xs)" "list_all frag_ok out" "sorted_wrt (<) (map frag_id out)"
    using s(1) out by (auto simp: frags_ok_def out_ok_def)
  note dist = out_ok_distinct [OF out fok(2)]
  have keys: "first_key ` set xs \<subseteq> first_key ` set out" using first_keys_kept [OF out sl fok(1,2) ts_xs] by blast
  obtain rs ins where ins: "edit_tree insertion_keyed (sn_insertions s) (ed_insertions st) = Some (rs, ins)" "insertions_ok ins out"
    using insertions_edit_ok [OF s(2) ix fok(3) dist distinct_first_keys [OF fok(1,2)] keys] by blast
  obtain sls where sls: "ts_extend (sn_slices s) (ed_slices st) = Some sls" "tm_ok sls"
    "slice_set sls = slice_set (sn_slices s) \<union> set (ed_slices st)"
    using ts_extend_ok [OF s(3) slices_distinct [OF sl fok(3) dist]] by blast
  obtain t where t: "to_sum_tree (ed_frags st) = Some t" "wf_tree frag_item t" "tree_items t = out" using to_sum_tree_ok [OF fb] by blast
  let ?s = "s\<lparr>sn_fragments := t, sn_insertions := ins, visible_text := map ch' (vis_cells out), deleted_text := map ch' (del_cells out), sn_slices := sls\<rparr>"
  have run: "edit_commit s st = Some ?s" using rb(1) t(1) ins(1) sls(1) by (simp add: edit_commit_def)
  have "\<not> undone (sn_undo_map s) ts" using fresh by (intro undone_new) (auto simp: known_times_def undo_times_def)
  then have "\<forall>g\<in>set out. frag_visible g = shown (sn_undo_map s) g" using shown_out [OF sl s(6)] by blast
  moreover have seen: "\<forall>g\<in>set out. undos_seen (sn_undo_map s) g"
    using undos_seen_out [OF sl s0(2)] fresh by (auto simp: known_times_def)
  moreover have "known_times ?s \<subseteq> Set.insert ts (known_times s)"
  proof -
    have "(\<Union>g\<in>set out. edits_of g) \<subseteq> Set.insert ts (\<Union>f\<in>set xs. edits_of f)" using edits_out [OF sl] by blast
    moreover have "slice_edit_id ` (slice_set sls) \<subseteq> Set.insert ts (slice_edit_id ` slice_set (sn_slices s))"
      using slice_log(1) [OF sl] sls(3) by auto
    ultimately show ?thesis by (auto simp: known_times_def t(3) xs)
  qed
  then have "\<forall>u\<in>known_times ?s. global_observed (global_observe (sn_version s) ts) u"
    using s(7) observed_observe by blast
  moreover have "known_times (?s\<lparr>sn_version := v\<rparr>) = known_times ?s" for v by (simp add: known_times_def)
  ultimately have "snapshot_ok ch' (?s\<lparr>sn_version := global_observe (sn_version s) ts\<rparr>)"
    using t ins(2) sls(2,3) fok(3,4) dist s(5,9) slices_cover_sliced [OF s(4) sl fok(3)] timestamps_out [OF sl ts s(8)]
      insertion_order_out [OF out s0(1)] seen rb(2)
    by (simp add: snapshot_ok_def frags_ok_def Let_def ball_Un)
  then show ?thesis using run t(3) by (intro exI [of _ ?s]) simp
qed

section \<open>Local edits\<close>

lemma splice_list_start: "a \<le> length v \<Longrightarrow> es \<noteq> [] \<Longrightarrow> a \<le> fst (fst (hd es)) \<Longrightarrow>
    take a v @ splice_list v a es = splice_list v 0 es"
proof (cases es)
  case (Cons e es')
  assume "a \<le> length v" "a \<le> fst (fst (hd es))"
  moreover obtain s t new where "e = ((s, t), new)" by (metis surj_pair)
  ultimately show ?thesis using Cons take_drop_join [of 0 a s v] by simp
qed simp

lemma snapshot_ok_observe: "snapshot_ok ch s \<Longrightarrow> snapshot_ok ch (s\<lparr>sn_version := global_observe (sn_version s) ts\<rparr>)"
  by (simp add: snapshot_ok_def known_times_def Let_def observed_observe)

lemma patch_inv_empty: "a \<le> length (vis_cells xs) \<Longrightarrow> patch_inv xs a (take a (vis_cells xs)) []"
  by (auto simp: patch_inv_def composed_def canonical_patch_def)

text \<open>What the patch of an edit says about the old and the new text.\<close>

definition patch_describes :: "'a list \<Rightarrow> 'a list \<Rightarrow> patch \<Rightarrow> bool" where
  "patch_describes old new p \<longleftrightarrow> ends 0 0 p (length old) (length new) \<and> canonical_patch p \<and>
     (\<forall>i<length old. \<forall>j. keep 0 0 p i = Some j \<longrightarrow> j < length new \<and> new ! j = old ! i)"

lemma patch_inv_describes: "patch_inv xs (length (vis_cells xs)) vis p \<Longrightarrow> patch_describes (vis_cells xs) vis p"
  by (auto simp: patch_inv_def patch_describes_def composed_def)

lemma patch_describes_map: "patch_describes u v p \<Longrightarrow> patch_describes (map f u) (map f v) p"
  by (auto simp: patch_describes_def)

text \<open>Every fragment after an edit is a piece of an old one, perhaps erased by the edit, or it was inserted by it.\<close>

definition pieces :: "fragment list \<Rightarrow> lamport \<Rightarrow> fragment list \<Rightarrow> bool" where
  "pieces xs ts out \<longleftrightarrow> (\<forall>g\<in>set out. kept xs g \<or> erased xs ts g \<or> fresh ts g)"

lemma sliced_pieces: "sliced xs ts log out \<Longrightarrow> pieces xs ts out"
  unfolding sliced_def pieces_def by blast

lemma pieces_refl: "pieces xs ts xs"
  unfolding pieces_def kept_def part_of_def by blast

text \<open>A selection of the fragments after an edit that treats pieces as the old fragments and leaves out the insertion.\<close>

lemma pieces_select:
  assumes dist: "distinct (all_cells xs)" and new: "\<And>f. f \<in> set xs \<Longrightarrow> ts \<notin> edits_of f"
    and out: "filter (\<lambda>c. fst c \<noteq> ts) (all_cells out) = all_cells xs" "pieces xs ts out"
    and kept: "\<And>f g. f \<in> set xs \<Longrightarrow> part_of g f \<Longrightarrow> deletions g = deletions f \<Longrightarrow> P g = Q f"
    and erased: "\<And>f g. f \<in> set xs \<Longrightarrow> part_of g f \<Longrightarrow> deletions g = deletions f @ [ts] \<Longrightarrow> frag_visible f \<Longrightarrow> P g = Q f"
    and fresh: "\<And>g. frag_timestamp g = ts \<Longrightarrow> \<not> P g"
  shows "concat (map cells (filter P out)) = concat (map cells (filter Q xs))"
proof -
  let ?V = "set (concat (map cells (filter Q xs)))"
  have in_V: "c \<in> ?V \<longleftrightarrow> Q f" if "f \<in> set xs" "c \<in> set (cells f)" for f c
  proof -
    have "c \<in> ?V \<longleftrightarrow> (\<exists>g\<in>set xs. Q g \<and> c \<in> set (cells g))" by auto
    then show ?thesis using that cells_disjoint [OF dist that(1) _ that(2)] by blast
  qed
  have piece: "P g \<longleftrightarrow> c \<in> ?V \<and> fst c \<noteq> ts" if g: "g \<in> set out" and c: "c \<in> set (cells g)" for g c
  proof (cases "frag_timestamp g = ts")
    case True
    then show ?thesis using fresh cells_fst [OF c] by simp
  next
    case False
    then obtain f where f: "f \<in> set xs" "part_of g f" "P g = Q f"
      using out(2) g kept erased by (fastforce simp: pieces_def kept_def erased_def fresh_def)
    then have "c \<in> set (cells f)" using c by (auto simp: part_of_def)
    then show ?thesis using f in_V False cells_fst [OF c] by simp
  qed
  have "concat (map cells (filter P out)) = filter (\<lambda>c. c \<in> ?V \<and> fst c \<noteq> ts) (all_cells out)"
    by (rule cells_by_fragment) (rule piece)
  also have "\<dots> = filter (\<lambda>c. c \<in> ?V) (all_cells xs)" unfolding out(1) [symmetric] filter_filter by (simp only: conj_commute)
  also have "\<dots> = concat (map cells (filter Q xs))" by (rule cells_by_fragment [symmetric]) (simp only: in_V)
  finally show ?thesis .
qed

lemma apply_edit_internal_ok:
  assumes ok: "snapshot_ok ch s" and ts: "\<not> global_observed (sn_version s) ts"
    and edits: "ranges_ordered (length (visible_text s)) 0 edits" "on_chars (visible_text s) edits"
    and texts: "texts_ok replace_all edits"
  defines "ch' \<equiv> with_insertion ts (inserted replace_all edits) ch"
  shows "\<exists>op p s'. apply_edit_internal replace_all s edits ts = Some (op, p, s') \<and>
    snapshot_ok ch' (s'\<lparr>sn_version := global_observe (sn_version s) ts\<rparr>) \<and>
    visible_text s' = splice_list (visible_text s) 0 (normalized replace_all edits) \<and>
    patch_describes (visible_text s) (visible_text s') p \<and>
    patch_describes (vis_cells (tree_items (sn_fragments s))) (vis_cells (tree_items (sn_fragments s'))) p \<and>
    filter (\<lambda>c. fst c \<noteq> ts) (all_cells (tree_items (sn_fragments s'))) = all_cells (tree_items (sn_fragments s)) \<and>
    pieces (tree_items (sn_fragments s)) ts (tree_items (sn_fragments s')) \<and>
    sn_undo_map s' = sn_undo_map s \<and> sn_version s' = sn_version s \<and> sn_remote_id s' = sn_remote_id s \<and>
    edit_timestamp op = ts \<and> edit_version op = sn_version s \<and> edit_new_text op = map snd (normalized replace_all edits) \<and>
    length (edit_ranges op) = length edits"
proof -
  let ?t = "sn_fragments s"
  define xs where "xs = tree_items ?t"
  have s: "wf_tree frag_item ?t" "frags_ok xs" "visible_text s = map ch (vis_cells xs)" "deleted_text s = map ch (del_cells xs)"
    "\<And>u. u \<in> known_times s \<Longrightarrow> global_observed (sn_version s) u" "starts_ok ch xs"
    using ok by (auto simp: snapshot_ok_def xs_def Let_def)
  have len: "length (inserted replace_all edits) < 2 ^ 32" and strs: "\<forall>(_, new)\<in>set edits. starts_on_char (normalize replace_all new)"
    using texts by (simp_all add: texts_ok_def)
  have "ts \<notin> known_times s" using s(5) ts by blast
  then have ts_xs: "ts \<notin> frag_timestamp ` set xs" by (auto simp: known_times_def edits_of_def xs_def)
  have ctx: "edit_ctx xs ?t ts" using s(1,2) ts_xs by (simp add: edit_ctx_def xs_def)
  note old = with_insertion_old(1,2) [OF ts_xs, of "inserted replace_all edits" ch, folded ch'_def]
    and starts = with_insertion_old(3) [OF ts_xs s(6), of "inserted replace_all edits", folded ch'_def]
  show ?thesis
  proof (cases edits)
    case Nil
    have "snapshot_ok ch' (s\<lparr>sn_version := global_observe (sn_version s) ts\<rparr>)"
      using snapshot_ok_observe [OF ok] old starts by (simp add: snapshot_ok_def Let_def xs_def)
    then show ?thesis
      using Nil by (simp add: apply_edit_internal_def normalized_def patch_describes_def canonical_patch_def pieces_refl)
        (metis Nil_is_map_conv all_cells_def filter_all_cells(1) ts_xs xs_def)
  next
    case (Cons e es)
    obtain st1 k1 out1 where s1: "edit_begin s (fst (fst e)) = Some st1" "edit_inv xs ?t ts ch' k1 (ed_start st1) out1 st1"
      "ed_start st1 \<le> fst (fst e)" "ed_offset st1 = 0" "ed_patch st1 = []" "ed_ranges st1 = []" "ed_texts st1 = []"
      "vis_cells out1 = take (ed_start st1) (vis_cells xs)"
      using edit_begin_ok [of s ts ch' "fst (fst e)"] ctx s(3,4) old starts by (auto simp: xs_def)
    let ?a = "ed_start st1"
    have a: "?a \<le> length (vis_cells xs)" using s1(2) vis_at_le [of xs "Suc k1"] by (simp add: edit_inv_def)
    have "ranges_ordered (length (vis_cells xs)) ?a edits"
      using edits(1) s1(3) Cons s(3) by (cases e) auto
    moreover have "on_chars (map ch' (vis_cells xs)) edits" unfolding old(1) using edits(2) s(3) by simp
    moreover have "spelt ch' ts (ed_offset st1) (inserted replace_all edits)" using spelt_insertion s1(4) by (simp add: ch'_def)
    moreover have "patch_inv xs ?a (vis_cells out1) (ed_patch st1)" using patch_inv_empty [OF a] s1(5,8) by simp
    ultimately obtain st2 k2 a2 out2 where s2: "edit_all replace_all ts edits st1 = Some st2" "edit_inv xs ?t ts ch' k2 a2 out2 st2"
      "ed_start st2 = a2" "patch_inv xs a2 (vis_cells out2) (ed_patch st2)" "ed_texts st2 = map snd (normalized replace_all edits)"
      "length (ed_ranges st2) = length edits"
      "map ch' (vis_cells out2 @ drop a2 (vis_cells xs)) =
        map ch' (vis_cells out1) @ splice_list (map ch' (vis_cells xs)) ?a (normalized replace_all edits)"
      using edit_all_ok [OF ctx s1(2) refl, of edits replace_all] len strs s1(4,6,7) by auto
    obtain st3 out3 where s3: "edit_suffix st2 = Some st3" "fb_ok (ed_frags st3) out3"
      "out_ok ts (all_cells xs) (ed_offset st2) locator_max out3"
      "rb_finish (ed_ropes st3) = Some (map ch' (vis_cells out3), map ch' (del_cells out3))" "starts_ok ch' out3"
      "indexed xs (ed_insertions st3) out3" "sliced xs ts (ed_slices st3) out3"
      "vis_cells out3 = vis_cells out2 @ drop a2 (vis_cells xs)" "ed_patch st3 = ed_patch st2" "same_log st2 st3"
      "patch_inv xs (length (vis_cells xs)) (vis_cells out3) (ed_patch st3)"
      using edit_suffix_ok [OF ctx s2(2,3,4)] by blast
    obtain s' where s': "edit_commit s st3 = Some s'" "visible_text s' = map ch' (vis_cells out3)"
      "tree_items (sn_fragments s') = out3" "sn_undo_map s' = sn_undo_map s" "sn_version s' = sn_version s"
      "sn_remote_id s' = sn_remote_id s" "snapshot_ok ch' (s'\<lparr>sn_version := global_observe (sn_version s) ts\<rparr>)"
      using edit_commit_ok [OF ok xs_def ts s3(2-7)] by blast
    have "map ch' (vis_cells out1) = take ?a (visible_text s)" using s1(8) s(3) by (metis old(1) take_map)
    then have "map ch' (vis_cells out3) = take ?a (visible_text s) @ splice_list (visible_text s) ?a (normalized replace_all edits)"
      using s2(7) s3(8) old s(3) by simp
    then have "map ch' (vis_cells out3) = splice_list (visible_text s) 0 (normalized replace_all edits)"
      using splice_list_start [of ?a "visible_text s" "normalized replace_all edits"] a s(3) s1(3) Cons
      by (cases e) (simp add: normalized_def)
    moreover note moves = patch_inv_describes [OF s3(11)]
    moreover have "patch_describes (visible_text s) (visible_text s') (ed_patch st3)"
      using patch_describes_map [OF moves, of ch'] s(3) s'(2) old by simp
    moreover have "apply_edit_internal replace_all s edits ts = Some (\<lparr>edit_timestamp = ts, edit_version = sn_version s,
        edit_ranges = ed_ranges st3, edit_new_text = ed_texts st3\<rparr>, ed_patch st3, s')"
      using s1(1) s2(1) s3(1) s'(1) Cons by (simp add: apply_edit_internal_def del: edit_all.simps)
    moreover have "filter (\<lambda>c. fst c \<noteq> ts) (all_cells out3) = all_cells xs" using s3(3) by (simp add: out_ok_def)
    ultimately show ?thesis using s2(5,6) s3(10) s'(2-7) sliced_pieces [OF s3(7)] by (simp add: same_log_def xs_def)
  qed
qed

section \<open>Converting the ranges\<close>

text \<open>What a build without debug assertions makes of the ranges: their ends are rounded down to characters.\<close>

definition floored :: "string \<Rightarrow> ((nat \<times> nat) \<times> 'a) list \<Rightarrow> ((nat \<times> nat) \<times> 'a) list" where
  "floored text es = map (\<lambda>((s, e), new). ((rope_floor text s, rope_floor text e), new)) es"

lemma floored_on_chars: "on_chars text (floored text es)"
  by (auto simp: on_chars_def floored_def)

lemma floored_id: "on_chars text es \<Longrightarrow> floored text es = es"
  by (induction es) (auto simp: floored_def rope_floor_id)

lemma floored_ordered: "ranges_ordered (length text) a es \<Longrightarrow> ranges_ordered (length text) (rope_floor text a) (floored text es)"
  by (induction "length text" a es rule: ranges_ordered.induct) (auto simp: floored_def rope_floor_length rope_floor_mono)

lemma floored_texts: "inserted replace_all (floored text es) = inserted replace_all es" "texts_ok replace_all (floored text es) = texts_ok replace_all es"
  "map snd (floored text es) = map snd es"
proof -
  show ins: "inserted replace_all (floored text es) = inserted replace_all es"
    by (induction es) (auto simp: inserted_def normalized_def floored_def)
  then show "texts_ok replace_all (floored text es) = texts_ok replace_all es" by (auto simp: texts_ok_def floored_def)
  show "map snd (floored text es) = map snd es" by (induction es) (auto simp: floored_def)
qed

lemma usize_to_offset_ok:
  "usize_to_offset debug s i =
    (if debug \<and> \<not> is_char_boundary (visible_text s) i then None else Some (rope_floor (visible_text s) i))"
  by (simp add: usize_to_offset_def assert_char_boundary_def rope_floor_id)

lemma edits_to_offsets_ok:
  "edits_to_offsets debug s es =
    (if debug \<and> \<not> on_chars (visible_text s) es then None else Some (floored (visible_text s) es))"
  by (induction es) (auto simp: floored_def usize_to_offset_ok range_to_offset_def)

end
