(* ===== verification/Undo_Ids.thy ===== *)
theory Undo_Ids
  imports Buffer_Undo Snapshot
begin

text \<open>
  The lookup of the fragments of edits is complete: \<open>fragment_ids_for_edits\<close> returns, in ascending order and each once,
  identifiers of fragments of the snapshot, among them those of all fragments that one of the edits inserted or deleted.
\<close>

section \<open>The slices of edits\<close>

lemma takeWhile_dropWhile_sorted:
  "sorted (map f xs) \<Longrightarrow> takeWhile (\<lambda>x. f x = e) (dropWhile (\<lambda>x. f x < (e::'b::linorder)) xs) = filter (\<lambda>x. f x = e) xs"
proof (induction xs)
  case (Cons x xs)
  show ?case
  proof (cases "f x < e")
    case False
    then have "\<forall>y\<in>set (x # xs). e \<le> f y" using Cons.prems by (auto intro: order_trans)
    then have d: "dropWhile (\<lambda>x. f x < e) (x # xs) = x # xs" "dropWhile (\<lambda>x. f x < e) xs = xs"
      by (auto simp: dropWhile_eq_self_iff dest!: hd_in_set)
    show ?thesis
    proof (cases "f x = e")
      case True
      then show ?thesis using Cons d by simp
    next
      case ne: False
      then have "e < f x" using False by simp
      then have "\<forall>y\<in>set xs. f y \<noteq> e" using Cons.prems by auto
      then show ?thesis using d ne by (auto simp: filter_empty_conv)
    qed
  qed (use Cons in auto)
qed simp

lemma less_first_slice: "k < InsertionSlice e lamport_MIN 0 0 \<longleftrightarrow> slice_edit_id k < e"
  using lamport_MIN_least [of "slice_insertion_id k"]
  by (auto simp: less_insertion_slice_iff not_less simp del: lamport_MIN_least)

lemma slices_for_edit_ok:
  assumes "tm_ok slices"
  shows "\<exists>found. slices_for_edit slices e = Some found \<and> set found = {sl \<in> slice_set slices. slice_edit_id sl = e}"
proof -
  let ?ks = "map me_key (tree_items slices)"
  have s: "sorted_keys me_key (tree_items slices)" using assms by (simp add: tm_ok_def)
  have "ts_iter_from (length (tree_items slices)) slices (InsertionSlice e lamport_MIN 0 0) =
      Some (dropWhile (\<lambda>k. slice_edit_id k < e) ?ks)"
    by (simp add: ts_iter_from_def tm_iter_from_ok [OF assms] less_first_slice kv_of_def dropWhile_map comp_def
      length_dropWhile_le)
  moreover have "sorted (map slice_edit_id ?ks)"
  proof -
    have "sorted_wrt (\<lambda>x y. me_key x < me_key y) (tree_items slices)" using s by (simp add: sorted_keys_def)
    then have "sorted_wrt (\<lambda>x y. slice_edit_id (me_key x) \<le> slice_edit_id (me_key y)) (tree_items slices)"
      by (rule sorted_wrt_mono_rel [rotated]) (auto simp: less_insertion_slice_iff)
    then show ?thesis by (simp add: sorted_wrt_map)
  qed
  ultimately have "slices_for_edit slices e = Some (filter (\<lambda>k. slice_edit_id k = e) ?ks)"
    by (simp add: slices_for_edit_def takeWhile_dropWhile_sorted)
  moreover have "slice_set slices = set ?ks"
    by (auto simp: slice_set_def dom_def tm_map_def key_lookup_None_iff)
  ultimately show ?thesis by auto
qed

lemma slices_for_edits_ok:
  "tm_ok slices \<Longrightarrow> \<exists>found. slices_for_edits slices es = Some found \<and> set found = {sl \<in> slice_set slices. slice_edit_id sl \<in> set es}"
proof (induction es)
  case (Cons e es)
  then obtain a b where "slices_for_edit slices e = Some a" "set a = {sl \<in> slice_set slices. slice_edit_id sl = e}"
    "slices_for_edits slices es = Some b" "set b = {sl \<in> slice_set slices. slice_edit_id sl \<in> set es}"
    using slices_for_edit_ok by meson
  then show ?case by auto
qed simp

section \<open>Collecting fragments\<close>

definition in_slice :: "insertion_slice \<Rightarrow> insertion_fragment \<Rightarrow> bool" where
  "in_slice s i \<longleftrightarrow> ins_timestamp i = slice_insertion_id s \<and> split_offset i < slice_end s"

definition slice_key :: "insertion_slice \<Rightarrow> insertion_key" where
  "slice_key s = InsertionKey (slice_insertion_id s) (slice_start s)"

lemma collect_fragment_ids_ok:
  fixes s :: insertion_slice
  assumes "cursor_at insertion_item insertion_dim n c" "did_seek c"
  defines "run \<equiv> takeWhile (in_slice s) (drop n (tree_items (c_tree c)))"
  shows "\<exists>c'. collect_fragment_ids s c ids = Some (ids @ map ins_fragment_id run, c') \<and>
    c_tree c' = c_tree c \<and> did_seek c' \<and> cursor_at insertion_item insertion_dim (n + length run) c'"
  using assms(1,2) unfolding run_def
proof (induction "length (tree_items (c_tree c)) - n" arbitrary: n c ids rule: less_induct)
  case less
  let ?xs = "tree_items (c_tree c)"
  have item: "cursor_item c = Some (if n < length ?xs then Some (?xs ! n) else None)"
    using cursor_item_at(1) [OF less.prems] by simp
  show ?case
  proof (cases "n < length ?xs \<and> in_slice s (?xs ! n)")
    case False
    then have "takeWhile (in_slice s) (drop n ?xs) = []"
      by (cases "n < length ?xs") (auto simp: takeWhile_eq_Nil_iff hd_drop_conv_nth)
    then show ?thesis using False item less.prems
      by (subst collect_fragment_ids.simps) (auto simp: in_slice_def not_less)
  next
    case True
    then have d: "drop n ?xs = ?xs ! n # drop (Suc n) ?xs" by (simp add: Cons_nth_drop_Suc)
    obtain c1 where c1: "cursor_next insertion_dim c = Some c1" "c_tree c1 = c_tree c" "did_seek c1"
      "cursor_at insertion_item insertion_dim (Suc n) c1"
      using insertion_laws.cursor_next_ok [OF less.prems(1)] less.prems(2) True by (auto simp: min_absorb1)
    have "length (tree_items (c_tree c1)) - Suc n < length ?xs - n" using c1(2) True by auto
    from less.hyps [OF this c1(4,3), of "ids @ [ins_fragment_id (?xs ! n)]"]
    show ?thesis using True item c1(1,2) d
      by (subst collect_fragment_ids.simps) (auto simp: in_slice_def)
  qed
qed

text \<open>In a sorted sequence that starts at the key of the slice, its fragments come first.\<close>

lemma in_slice_prefix:
  "sorted_keys insertion_key_of zs \<Longrightarrow> \<forall>z\<in>set zs. slice_key s \<le> insertion_key_of z \<Longrightarrow> y \<in> set zs \<Longrightarrow> in_slice s y \<Longrightarrow>
   y \<in> set (takeWhile (in_slice s) zs)"
proof (induction zs)
  case (Cons z zs)
  have "in_slice s z"
  proof (cases "y = z")
    case False
    then have "insertion_key_of z < insertion_key_of y" using Cons.prems(1,3) by auto
    moreover have "slice_key s \<le> insertion_key_of z" using Cons.prems(2) by simp
    ultimately have "slice_insertion_id s \<le> ins_timestamp z" "ins_timestamp z \<le> ins_timestamp y"
      "ins_timestamp z = ins_timestamp y \<Longrightarrow> split_offset z < split_offset y"
      by (auto simp: slice_key_def insertion_key_of_def less_insertion_key_iff less_eq_insertion_key_iff)
    then show ?thesis using Cons.prems(4) unfolding in_slice_def by (metis order_antisym less_trans)
  qed (use Cons.prems(4) in simp)
  then show ?case using Cons.IH [OF _ _ _ Cons.prems(4)] Cons.prems(1-3) by (cases "y = z") simp_all
qed simp

lemma insertion_below: "insertion_laws.below Left k = (\<lambda>i. insertion_key_of i < k)"
  by (rule ext) (simp add: insertion_laws.below_def)

lemma insertion_position:
  assumes "cursor_at insertion_item insertion_dim n c" "sorted_keys insertion_key_of (tree_items (c_tree c))"
  shows "c_position c = (if n = 0 then InsertionKey lamport_MIN 0 else insertion_key_of (tree_items (c_tree c) ! (n - 1)))"
proof -
  have n: "n \<le> length (tree_items (c_tree c))" using assms(1) by (simp add: cursor_at_def)
  have "c_position c = (if take n (tree_items (c_tree c)) = [] then InsertionKey lamport_MIN 0 else insertion_key_of (last (take n (tree_items (c_tree c)))))"
    using insertion_laws.pos_after_keys [OF sorted_keys_take [OF assms(2)], where d = "InsertionKey lamport_MIN 0"] assms(1)
    by (simp add: cursor_at_def insertion_dim_def)
  then show ?thesis using n by (cases "n = 0") (auto simp: last_conv_nth)
qed

text \<open>Before a slice is collected, the cursor is at the first fragment from the key of the slice on that it has not passed.\<close>

lemma seek_slice_ok:
  fixes s :: insertion_slice
  assumes "cursor_at insertion_item insertion_dim n c" "sorted_keys insertion_key_of (tree_items (c_tree c))" "did_seek c \<or> n = 0"
    and "slice_insertion_id s \<noteq> lamport_MIN"
    and "\<forall>y\<in>set (take n (tree_items (c_tree c))). ins_timestamp y \<le> slice_insertion_id s"
  defines "m \<equiv> length (takeWhile (\<lambda>y. insertion_key_of y < slice_key s) (drop n (tree_items (c_tree c))))"
  shows "\<exists>c'. seek_slice s c = Some c' \<and> c_tree c' = c_tree c \<and> did_seek c' \<and> cursor_at insertion_item insertion_dim (n + m) c'"
proof -
  let ?ys = "tree_items (c_tree c)"
  note pos = insertion_position [OF assms(1,2)]
  have n: "n \<le> length ?ys" using assms(1) by (simp add: cursor_at_def)
  have ts: "ikey_timestamp (c_position c) \<le> slice_insertion_id s"
  proof (cases "n = 0")
    case False
    then have "?ys ! (n - 1) \<in> set (take n ?ys)" using n by (auto simp: in_set_conv_nth intro!: exI [of _ "n - 1"])
    then show ?thesis using assms(5) False by (simp add: pos insertion_key_of_def)
  qed (simp add: pos)
  show ?thesis
  proof (cases "slice_insertion_id s \<noteq> ikey_timestamp (c_position c) \<or> ikey_offset (c_position c) < slice_start s")
    case True
    then have "c_position c \<le> slice_key s" using ts by (auto simp: slice_key_def less_eq_insertion_key_iff)
    then have "ord_cmp (slice_key s) (c_position c) \<noteq> Less" by (auto simp: ord_cmp_def not_less)
    moreover have "c_position c = pos_after insertion_item insertion_dim (InsertionKey lamport_MIN 0) (take n ?ys)"
      using assms(1) by (simp add: cursor_at_def insertion_dim_def)
    ultimately show ?thesis
      using insertion_laws.seek_forward_ok [OF assms(1), of "ord_cmp (slice_key s)" Left] True
        insertion_laws.seekable_drop [OF assms(2), of "slice_key s" Left n]
        insertion_laws.seek_count_drop [OF assms(2), of "slice_key s" Left n]
      by (auto simp: seek_slice_def insertion_below m_def slice_key_def)
  next
    case False
    then have "n \<noteq> 0" using assms(4) pos by (metis insertion_key.sel(1))
    then have k: "slice_key s \<le> insertion_key_of (?ys ! (n - 1))"
      using False by (simp add: pos slice_key_def less_eq_insertion_key_iff)
    have "slice_key s < insertion_key_of y" if y: "y \<in> set (drop n ?ys)" for y
    proof -
      have "?ys ! (n - 1) \<in> set (take n ?ys)" using n \<open>n \<noteq> 0\<close> by (auto simp: in_set_conv_nth intro!: exI [of _ "n - 1"])
      then have "insertion_key_of (?ys ! (n - 1)) < insertion_key_of y"
        using assms(2) y sorted_keys_simps(3) [of insertion_key_of "take n ?ys" "drop n ?ys"] by simp
      then show ?thesis using k by order
    qed
    then have "m = 0" unfolding m_def by (cases "drop n ?ys") (auto dest: less_asym)
    then show ?thesis using False assms(1,3) \<open>n \<noteq> 0\<close> by (auto simp: seek_slice_def)
  qed
qed

text \<open>
  The collection: \<open>got\<close> is what has been collected among the first \<open>n\<close> insertion fragments; those passed over are below the
  key \<open>p\<close> of the last slice, which the slices to come are not.
\<close>

definition collected :: "insertion_fragment list \<Rightarrow> nat \<Rightarrow> insertion_key \<Rightarrow> insertion_fragment list \<Rightarrow> bool" where
  "collected ys n p got \<longleftrightarrow> subseq got (take n ys) \<and>
     (\<forall>y\<in>set (take n ys). (y \<in> set got \<or> insertion_key_of y < p) \<and> ins_timestamp y \<le> ikey_timestamp p)"

lemma collected_step:
  fixes s :: insertion_slice
  assumes "collected ys n p got" "sorted_keys insertion_key_of ys" "p \<le> slice_key s" "n \<le> length ys"
  defines "skip \<equiv> takeWhile (\<lambda>y. insertion_key_of y < slice_key s) (drop n ys)"
  defines "run \<equiv> takeWhile (in_slice s) (drop (n + length skip) ys)"
  shows "collected ys (n + length skip + length run) (slice_key s) (got @ run)"
    and "\<forall>y\<in>set ys. in_slice s y \<and> slice_key s \<le> insertion_key_of y \<longrightarrow> y \<in> set (got @ run)"
proof -
  let ?zs = "drop (n + length skip) ys"
  have zs: "?zs = dropWhile (\<lambda>y. insertion_key_of y < slice_key s) (drop n ys)"
    by (simp add: skip_def dropWhile_eq_drop add.commute)
  have "take (length skip) (drop n ys) = skip" "take (length run) ?zs = run"
    unfolding skip_def run_def by (simp_all flip: takeWhile_eq_take)
  then have split: "take (n + length skip + length run) ys = take n ys @ skip @ run" by (simp add: take_add)
  have ge: "\<forall>z\<in>set ?zs. slice_key s \<le> insertion_key_of z"
    using dropWhile_ge [OF sorted_keys_drop [OF assms(2)]] by (simp add: zs)
  have old: "(y \<in> set got \<or> insertion_key_of y < slice_key s) \<and> ins_timestamp y \<le> slice_insertion_id s" if "y \<in> set (take n ys)" for y
  proof -
    have "y \<in> set got \<or> insertion_key_of y < p" "ins_timestamp y \<le> ikey_timestamp p" using assms(1) that by (auto simp: collected_def)
    moreover have "ikey_timestamp p \<le> slice_insertion_id s" using assms(3) by (auto simp: slice_key_def less_eq_insertion_key_iff)
    ultimately show ?thesis using assms(3) by (meson order.strict_trans2 order_trans)
  qed
  have skipped: "insertion_key_of y < slice_key s" "ins_timestamp y \<le> slice_insertion_id s" if "y \<in> set skip" for y
  proof -
    show "insertion_key_of y < slice_key s" using that by (auto simp: skip_def dest: set_takeWhileD)
    then show "ins_timestamp y \<le> slice_insertion_id s" by (auto simp: slice_key_def insertion_key_of_def less_insertion_key_iff)
  qed
  have ran: "in_slice s y" if "y \<in> set run" for y using that by (auto simp: run_def dest: set_takeWhileD)
  have "subseq got (take n ys @ skip)" using assms(1) by (auto simp: collected_def intro: subseq_rev_drop_many)
  then have "subseq (got @ run) ((take n ys @ skip) @ run)" by (rule list_emb_append_mono) simp
  then show "collected ys (n + length skip + length run) (slice_key s) (got @ run)"
    unfolding collected_def split using old skipped ran by (auto simp: slice_key_def in_slice_def)
  show "\<forall>y\<in>set ys. in_slice s y \<and> slice_key s \<le> insertion_key_of y \<longrightarrow> y \<in> set (got @ run)"
  proof (intro ballI impI)
    fix y assume y: "y \<in> set ys" "in_slice s y \<and> slice_key s \<le> insertion_key_of y"
    have "ys = take n ys @ skip @ ?zs"
      by (metis append_assoc append_take_drop_id drop_drop skip_def takeWhile_dropWhile_id zs)
    then have "y \<in> set (take n ys) \<union> set skip \<union> set ?zs" using y(1) by (metis Un_assoc set_append)
    then show "y \<in> set (got @ run)"
      using old skipped y(2) in_slice_prefix [OF sorted_keys_drop [OF assms(2)] ge, of y] by (auto simp: run_def not_less [symmetric])
  qed
qed

lemma slice_order_key: "slice_order_of s \<le> slice_order_of t \<Longrightarrow> slice_key s \<le> slice_key t"
  by (auto simp: slice_order_of_def slice_key_def order_le_less [where 'a = slice_order] less_slice_order_iff less_eq_insertion_key_iff)

lemma slice_fragment_ids_ok:
  assumes "cursor_at insertion_item insertion_dim n c" "c_tree c = ins" "did_seek c \<or> n = 0"
    and "sorted_keys insertion_key_of (tree_items ins)" "collected (tree_items ins) n p got"
    and "sorted (map slice_order_of ss)" "\<forall>s\<in>set ss. p \<le> slice_key s \<and> slice_insertion_id s \<noteq> lamport_MIN"
  shows "\<exists>got'. slice_fragment_ids ss c (map ins_fragment_id got) = Some (map ins_fragment_id got') \<and>
    subseq got' (tree_items ins) \<and> set got \<subseteq> set got' \<and>
    (\<forall>s\<in>set ss. \<forall>y\<in>set (tree_items ins). in_slice s y \<and> slice_key s \<le> insertion_key_of y \<longrightarrow> y \<in> set got')"
  using assms(1-3,5-)
proof (induction ss arbitrary: n c p got)
  case Nil
  then have "subseq got (take n (tree_items ins) @ drop n (tree_items ins))"
    unfolding collected_def by (blast intro: subseq_rev_drop_many)
  then show ?case by auto
next
  case (Cons s ss)
  let ?ys = "tree_items ins"
  have n: "n \<le> length ?ys" using Cons.prems(1,2) by (simp add: cursor_at_def)
  have s: "p \<le> slice_key s" "slice_insertion_id s \<noteq> lamport_MIN" using Cons.prems(6) by auto
  have "ikey_timestamp p \<le> slice_insertion_id s" using s(1) by (auto simp: slice_key_def less_eq_insertion_key_iff)
  then have ts: "\<forall>y\<in>set (take n (tree_items (c_tree c))). ins_timestamp y \<le> slice_insertion_id s"
    using Cons.prems(2,4) by (auto simp: collected_def)
  define skip where "skip = takeWhile (\<lambda>y. insertion_key_of y < slice_key s) (drop n ?ys)"
  define run where "run = takeWhile (in_slice s) (drop (n + length skip) ?ys)"
  note step = collected_step [OF Cons.prems(4) assms(4) s(1) n, folded skip_def, folded run_def]
  obtain c1 where c1: "seek_slice s c = Some c1" "c_tree c1 = ins" "did_seek c1"
    "cursor_at insertion_item insertion_dim (n + length skip) c1"
    using seek_slice_ok [OF Cons.prems(1) _ Cons.prems(3) s(2) ts] Cons.prems(2) assms(4) by (auto simp: skip_def)
  obtain c2 where c2: "collect_fragment_ids s c1 (map ins_fragment_id got) = Some (map ins_fragment_id (got @ run), c2)"
    "c_tree c2 = ins" "did_seek c2" "cursor_at insertion_item insertion_dim (n + length skip + length run) c2"
    using collect_fragment_ids_ok [OF c1(4,3), of s "map ins_fragment_id got"] c1(2) by (auto simp: run_def)
  have "\<forall>t\<in>set ss. slice_key s \<le> slice_key t \<and> slice_insertion_id t \<noteq> lamport_MIN"
    using Cons.prems(5,6) slice_order_key by auto
  with Cons.IH [OF c2(4,2) disjI1 [OF c2(3)] step(1)] Cons.prems(5) obtain got' where
    "slice_fragment_ids ss c2 (map ins_fragment_id (got @ run)) = Some (map ins_fragment_id got')" "subseq got' ?ys"
    "set (got @ run) \<subseteq> set got'"
    "\<forall>s\<in>set ss. \<forall>y\<in>set ?ys. in_slice s y \<and> slice_key s \<le> insertion_key_of y \<longrightarrow> y \<in> set got'" by auto
  then show ?case using c1(1) c2(1) step(2) by (intro exI [of _ got']) auto
qed

section \<open>Completeness\<close>

lemma insertions_okD:
  assumes "insertions_ok ins fs" "distinct (map first_key fs)"
  shows "set (tree_items ins) = insertion_fragment_new ` set fs"
proof -
  have k: "key_lookup insertion_key_of (tree_items ins) k = map_option insertion_fragment_new (key_lookup first_key fs k)" for k
    using assms(1) by (simp add: insertions_ok_def)
  have d: "distinct (map insertion_key_of (tree_items ins))"
    using assms(1) by (simp add: insertions_ok_def distinct_sorted_keys)
  have "y \<in> set (tree_items ins) \<longleftrightarrow> (\<exists>f\<in>set fs. y = insertion_fragment_new f)" for y
    using key_lookup_distinct [OF d, of "insertion_key_of y" y] key_lookup_distinct [OF assms(2), of "insertion_key_of y"] k [of "insertion_key_of y"]
    by (auto simp: key_of_new [symmetric] simp del: key_of_new)
  then show ?thesis by blast
qed

lemma fragment_ids_for_edits_ok:
  assumes "snapshot_ok ch s" "base_timestamp \<notin> set es"
  defines "fs \<equiv> tree_items (sn_fragments s)"
  shows "\<exists>ids. fragment_ids_for_edits s es = Some ids \<and> sorted_wrt (<) ids \<and> set ids \<subseteq> frag_id ` set fs \<and>
    (\<forall>f\<in>set fs. edits_of f \<inter> set es \<noteq> {} \<longrightarrow> frag_id f \<in> set ids)"
proof -
  let ?ins = "sn_insertions s"
  have s: "frags_ok fs" "insertions_ok ?ins fs" "tm_ok (sn_slices s)" "slices_cover (slice_set (sn_slices s)) fs"
    "\<forall>sl\<in>slice_set (sn_slices s). slice_insertion_id sl \<noteq> lamport_MIN"
    using assms(1) by (auto simp: snapshot_ok_def fs_def Let_def)
  have fok: "list_all frag_ok fs" "sorted_wrt (<) (map frag_id fs)" "distinct (all_cells fs)" using s(1) by (auto simp: frags_ok_def)
  have ins: "wf_tree insertion_item ?ins" "sorted_keys insertion_key_of (tree_items ?ins)" using s(2) by (auto simp: insertions_ok_def)
  note items = insertions_okD [OF s(2) distinct_first_keys [OF fok(1,3)]]
  obtain found where found: "slices_for_edits (sn_slices s) es = Some found"
    "set found = {sl \<in> slice_set (sn_slices s). slice_edit_id sl \<in> set es}" using slices_for_edits_ok [OF s(3)] by blast
  let ?ss = "sort_key slice_order_of found" and ?zero = "InsertionKey lamport_MIN 0"
  have "collected (tree_items ?ins) 0 ?zero []" by (simp add: collected_def)
  moreover have "\<forall>sl\<in>set ?ss. ?zero \<le> slice_key sl \<and> slice_insertion_id sl \<noteq> lamport_MIN" using found(2) s(5) by auto
  ultimately obtain got where got: "slice_fragment_ids ?ss (cursor_new insertion_dim ?ins) [] = Some (map ins_fragment_id got)"
    "subseq got (tree_items ?ins)"
    "\<forall>sl\<in>set ?ss. \<forall>y\<in>set (tree_items ?ins). in_slice sl y \<and> slice_key sl \<le> insertion_key_of y \<longrightarrow> y \<in> set got"
    using slice_fragment_ids_ok [OF cursor_at_new [OF ins(1), of insertion_dim] _ _ ins(2), of ?zero "[]" ?ss] by auto
  have sub: "set got \<subseteq> insertion_fragment_new ` set fs" using subseq_subset [OF got(2)] items by simp
  have "inj_on frag_id (set fs)" using fok(2) by (simp add: strict_sorted_iff distinct_map)
  then have "inj_on ins_fragment_id (set (tree_items ?ins))"
    unfolding items by (auto simp: inj_on_def insertion_fragment_new_def)
  moreover have "distinct got" using subseq_distinct [OF got(2)] distinct_sorted_keys [OF ins(2)] by (auto simp: distinct_map)
  ultimately have "distinct (map ins_fragment_id got)"
    using subseq_subset [OF got(2)] by (auto simp: distinct_map intro: inj_on_subset)
  then have "sorted_wrt (<) (sort (map ins_fragment_id got))" by (simp add: strict_sorted_iff)
  moreover have "set (sort (map ins_fragment_id got)) \<subseteq> frag_id ` set fs"
    using sub by (auto simp: insertion_fragment_new_def)
  moreover have "frag_id f \<in> set (map ins_fragment_id got)" if f: "f \<in> set fs" and e: "edits_of f \<inter> set es \<noteq> {}" for f
  proof -
    obtain e where e: "e \<in> edits_of f" "e \<in> set es" using e by blast
    have "0 < frag_len f" using fok(1) f by (auto simp: list_all_iff frag_ok_def)
    then obtain sl where sl: "sl \<in> slice_set (sn_slices s)" "covers sl e (frag_timestamp f, insertion_offset f)"
      using s(4) f e assms(2) first_cell unfolding slices_cover_def by metis
    then have "sl \<in> set ?ss" using found(2) e(2) by (auto simp: covers_def)
    moreover have "insertion_fragment_new f \<in> set (tree_items ?ins)" using items f by simp
    moreover have "in_slice sl (insertion_fragment_new f)" "slice_key sl \<le> insertion_key_of (insertion_fragment_new f)"
      using sl(2) by (auto simp: covers_def in_slice_def slice_key_def insertion_fragment_new_def insertion_key_of_def less_eq_insertion_key_iff)
    ultimately have "insertion_fragment_new f \<in> set got" using got(3) by blast
    then show ?thesis by (force simp: insertion_fragment_new_def)
  qed
  ultimately show ?thesis using found(1) got(1) by (auto simp: fragment_ids_for_edits_def)
qed

end
