(* ===== verification/Undo_Correct.thy ===== *)
theory Undo_Correct
  imports Undo_Ids
begin

text \<open>
  Applying an undo operation keeps the invariant of a snapshot: afterwards, again, a fragment is visible exactly when its
  insertion has not been undone and all of its deletions have, the ropes hold the visible and the other cells, and the
  published patch describes the change of the visible text. No cell is moved.
\<close>

section \<open>Seeking by locator\<close>

lemma id_dim_simps: "dzero id_dim = (None, 0)"
  "dadd id_dim d (fragment_summary_of f) = (Some (frag_id f), snd d + length (vis_cells [f]))"
  by (cases d; simp add: id_dim_def pair_dim_def locator_dim_def usize_dim_def max_id_of frag_text_of)+

lemma pos_after_id: "pos_after frag_item id_dim d fs =
    (if fs = [] then fst d else Some (frag_id (last fs)), snd d + length (vis_cells fs))"
  by (induction fs arbitrary: d) (auto simp: id_dim_simps)

lemma passes_id: "passes (id_target fid) Left d \<longleftrightarrow> fst d < Some fid"
  by (auto simp: passes_def id_target_def pair_target_def ord_cmp_def)

lemma id_target_ge: "fst d \<le> Some fid \<Longrightarrow> id_target fid d \<noteq> Less"
  by (auto simp: id_target_def pair_target_def ord_cmp_def)

lemma seek_count_id:
  "seek_count frag_item id_dim (passes (id_target fid) Left) d fs = length (takeWhile (\<lambda>f. frag_id f < fid) fs)"
  unfolding seek_count_def by (induction fs arbitrary: d) (simp_all add: passes_id id_dim_simps Let_def)

lemma seekable_id:
  assumes "sorted_wrt (<) (map frag_id fs)"
  shows "seekable frag_item id_dim (passes (id_target fid) Left) d fs"
  unfolding seekable_def
proof (intro allI impI, elim conjE)
  fix i j
  assume ij: "0 < i" "i \<le> j" "j \<le> length fs" and p: "passes (id_target fid) Left (pos_after frag_item id_dim d (take j fs))"
  have at: "fst (pos_after frag_item id_dim d (take n fs)) = Some (frag_id (fs ! (n - 1)))" if "0 < n" "n \<le> length fs" for n
    using that by (auto simp: pos_after_id last_conv_nth)
  have "frag_id (fs ! (i - 1)) \<le> frag_id (fs ! (j - 1))"
    using assms ij by (cases "i = j") (auto simp: sorted_wrt_iff_nth_less less_imp_le)
  then show "passes (id_target fid) Left (pos_after frag_item id_dim d (take i fs))"
    using p at [of i] at [of j] ij by (auto simp: passes_id)
qed

section \<open>The invariant of the pass\<close>

definition retouch :: "undo_map \<Rightarrow> lamport \<Rightarrow> locator set \<Rightarrow> fragment \<Rightarrow> fragment" where
  "retouch m ts ids f =
     (if frag_id f \<in> ids then f\<lparr>frag_visible := shown m f, max_undos := version_observe (max_undos f) ts\<rparr> else f)"

lemma retouch_simps [simp]:
  "cells (retouch m ts ids f) = cells f" "frag_id (retouch m ts ids f) = frag_id f"
  "frag_len (retouch m ts ids f) = frag_len f" "frag_timestamp (retouch m ts ids f) = frag_timestamp f"
  "insertion_offset (retouch m ts ids f) = insertion_offset f" "deletions (retouch m ts ids f) = deletions f"
  by (simp_all add: retouch_def cells_def)

lemma retouch_other: "frag_id f \<notin> ids \<Longrightarrow> retouch m ts ids f = f"
  by (simp add: retouch_def)

definition undo_inv ::
  "fragment list \<Rightarrow> fragment_tree \<Rightarrow> undo_map \<Rightarrow> lamport \<Rightarrow> (cell \<Rightarrow> char) \<Rightarrow> locator set \<Rightarrow> nat \<Rightarrow> undo_pass \<Rightarrow> bool" where
  "undo_inv xs t m ts ch ids k st \<longleftrightarrow>
     cursor_at frag_item id_dim k (up_cursor st) \<and> c_tree (up_cursor st) = t \<and>
     wf_tree frag_item (up_tree st) \<and> tree_items (up_tree st) = map (retouch m ts ids) (take k xs) \<and>
     ropes_ok ch xs (vis_at xs k) (del_at xs k) (map (retouch m ts ids) (take k xs)) (up_ropes st) \<and>
     patch_inv xs (vis_at xs k) (vis_cells (map (retouch m ts ids) (take k xs))) (up_patch st) \<and>
     (\<forall>f\<in>set (drop k xs). frag_id f \<notin> ids)"

text \<open>The fragments that the cursor passes over.\<close>

lemma undo_run:
  assumes inv: "undo_inv xs t m ts ch ids k st" and t: "tree_items t = xs" and km: "k + n \<le> length xs"
    and sl: "wf_tree frag_item sl" "tree_items sl = take n (drop k xs)"
    and c: "cursor_at frag_item id_dim (k + n) c" "c_tree c = t"
  shows "\<exists>rb tree. rb_append (frag_text (summary sl)) (up_ropes st) = Some rb \<and> append_tree frag_item (up_tree st) sl = Some tree \<and>
    undo_inv xs t m ts ch ids (k + n) (st\<lparr>up_cursor := c, up_tree := tree, up_ropes := rb\<rparr>)"
proof -
  let ?g = "take n (drop k xs)" and ?out = "map (retouch m ts ids) (take k xs)"
  note i = inv [unfolded undo_inv_def]
  have g: "map (retouch m ts ids) ?g = ?g"
    using i by (intro map_idI retouch_other) (auto dest: in_set_takeD)
  have out: "map (retouch m ts ids) (take (k + n) xs) = ?out @ ?g" using g by (simp add: take_add)
  obtain rb where rb: "rb_append (frag_text (summary sl)) (up_ropes st) = Some rb"
    "ropes_ok ch xs (vis_at xs (k + n)) (del_at xs (k + n)) (?out @ ?g) rb"
    using ropes_append [of ch xs k ?out "up_ropes st" n] i run_summary [OF sl(1)] sl(2) by auto
  obtain tree where tree: "append_tree frag_item (up_tree st) sl = Some tree" "wf_tree frag_item tree" "tree_items tree = ?out @ ?g"
    using frag_laws.append_tree_ok [of "up_tree st" sl] i sl by auto
  have "patch_inv xs (vis_at xs (k + n)) (vis_cells (?out @ ?g)) (up_patch st)"
    using patch_inv_gap [of xs "vis_at xs k" "vis_cells ?out" "up_patch st" "vis_at xs (k + n)"] i vis_run [of xs k n]
      vis_at_mono [of k "k + n" xs] vis_at_le [of xs "k + n"] by simp
  moreover have "\<forall>f\<in>set (drop (k + n) xs). frag_id f \<notin> ids"
    using i by (metis drop_drop add.commute in_set_dropD)
  ultimately show ?thesis using rb tree c out by (auto simp: undo_inv_def)
qed

text \<open>The edit that is published for one fragment.\<close>

lemma undo_edit_inv:
  assumes "patch_inv xs (vis_at xs k) vis p" "k < length xs" "cells f' = cells (xs ! k)" "frag_len f' = frag_len (xs ! k)"
  shows "patch_inv xs (vis_at xs (Suc k)) (vis @ vis_cells [f']) (undo_edit (xs ! k) f' (vis_at xs k) (length vis) p)"
proof -
  have at: "vis_at xs (Suc k) = vis_at xs k + width (xs ! k)" "vis_at xs (Suc k) \<le> length (vis_cells xs)"
    using vis_at_Suc [OF assms(2)] vis_at_le [of xs "Suc k"] by auto
  show ?thesis
  proof (cases "frag_visible (xs ! k)")
    case True
    then have "vis_at xs (Suc k) = vis_at xs k + frag_len f'" using at(1) assms(4) by (simp add: width_def)
    moreover have "take (frag_len f') (drop (vis_at xs k) (vis_cells xs)) = cells f'"
      using vis_piece [OF assms(2), of "vis_at xs k" "frag_len f'"] calculation assms(3,4) by simp
    ultimately show ?thesis
      using True at(2) patch_inv_gap [OF assms(1), of "vis_at xs (Suc k)"] patch_inv_delete [OF assms(1), of "vis_at xs (Suc k)"]
      by (cases "frag_visible f'") (simp_all add: undo_edit_def)
  next
    case False
    then have "vis_at xs (Suc k) = vis_at xs k" using at(1) by (simp add: width_def)
    then show ?thesis using False assms(1,4) patch_inv_insert [OF assms(1), of "cells f'"]
      by (cases "frag_visible f'") (simp_all add: undo_edit_def)
  qed
qed

lemma ropes_refresh:
  assumes "ropes_ok ch xs (vis_at xs k) (del_at xs k) out rb" "k < length xs" "cells f' = cells (xs ! k)"
    "frag_len f' = frag_len (xs ! k)" "0 < frag_len (xs ! k)"
  shows "\<exists>rb'. rb_push_fragment f' (frag_visible (xs ! k)) rb = Some rb' \<and>
    ropes_ok ch xs (vis_at xs (Suc k)) (del_at xs (Suc k)) (out @ [f']) rb'"
proof (cases "frag_visible (xs ! k)")
  case True
  have at: "vis_at xs (Suc k) = vis_at xs k + frag_len f'" "del_at xs (Suc k) = del_at xs k"
    using True assms(2,4) by (simp_all add: vis_at_Suc width_def del_at_Suc)
  have "take (frag_len f') (drop (vis_at xs k) (vis_cells xs)) = cells f'"
    using vis_piece [OF assms(2), of "vis_at xs k" "frag_len f'"] at(1) assms(3,4) by simp
  then show ?thesis
    using ropes_push_visible [OF assms(1), of f'] at ropes_boundary(1) [OF assms(1), of "Suc k"] assms(4,5) True by auto
next
  case False
  have at: "vis_at xs (Suc k) = vis_at xs k" "del_at xs (Suc k) = del_at xs k + frag_len f'"
    using False assms(2,4) by (simp_all add: vis_at_Suc width_def del_at_Suc)
  show ?thesis
    using ropes_push_deleted [OF assms(1), of f'] at ropes_boundary(2) [OF assms(1), of "Suc k"] del_piece [OF assms(2) False] assms(3-5) False by auto
qed

lemma refresh_retouch:
  assumes "um_ok m" "frag_id f \<in> ids"
  shows "refresh m ts f = Some (retouch m ts ids f)"
  using assms by (simp add: refresh_def is_visible_ok retouch_def)

text \<open>The fragment that is looked for.\<close>

lemma undo_hit:
  assumes inv: "undo_inv xs t m ts ch ids k st" and ctx: "tree_items t = xs" "frags_ok xs" "um_ok m" and k: "k < length xs"
    and seek: "did_seek (up_cursor st)"
  defines "f \<equiv> xs ! k"
  defines "ids' \<equiv> Set.insert (frag_id f) ids"
  defines "f' \<equiv> retouch m ts ids' f"
  shows "\<exists>rb tree c. rb_push_fragment f' (frag_visible f) (up_ropes st) = Some rb \<and> push frag_item (up_tree st) f' = Some tree \<and>
    cursor_next id_dim (up_cursor st) = Some c \<and> undo_inv xs t m ts ch ids' (Suc k)
      \<lparr>up_cursor = c, up_tree = tree, up_ropes = rb,
       up_patch = undo_edit f f' (snd (c_position (up_cursor st))) (text_visible (frag_text (summary (up_tree st)))) (up_patch st)\<rparr>"
proof -
  note i = inv [unfolded undo_inv_def]
  let ?out = "map (retouch m ts ids) (take k xs)"
  have srt: "sorted_wrt (<) (map frag_id xs)" "list_all frag_ok xs" using ctx(2) by (auto simp: frags_ok_def)
  have other: "frag_id g \<noteq> frag_id f" if "g \<in> set (take k xs) \<union> set (drop (Suc k) xs)" for g
  proof -
    have "distinct (map frag_id (take k xs @ f # drop (Suc k) xs))"
      using srt(1) id_take_nth_drop [OF k] by (simp add: f_def strict_sorted_iff)
    then have "frag_id f \<notin> frag_id ` (set (take k xs) \<union> set (drop (Suc k) xs))" by auto
    then show ?thesis using that by (metis imageI)
  qed
  then have "map (retouch m ts ids') (take k xs) = ?out" by (auto simp: retouch_def ids'_def)
  then have out: "map (retouch m ts ids') (take (Suc k) xs) = ?out @ [f']"
    using k by (simp add: take_Suc_conv_app_nth f'_def f_def)
  have f: "cells f' = cells f" "frag_len f' = frag_len f" by (simp_all add: f'_def)
  have len: "0 < frag_len f" using srt(2) k by (auto simp: list_all_length frag_ok_def f_def)
  obtain rb where rb: "rb_push_fragment f' (frag_visible f) (up_ropes st) = Some rb"
    "ropes_ok ch xs (vis_at xs (Suc k)) (del_at xs (Suc k)) (?out @ [f']) rb"
    using ropes_refresh [of ch xs k ?out "up_ropes st" f'] i k f len by (auto simp: f_def)
  obtain tree where tree: "push frag_item (up_tree st) f' = Some tree" "wf_tree frag_item tree" "tree_items tree = ?out @ [f']"
    using frag_laws.push_ok [of "up_tree st" f'] i by auto
  obtain c where c: "cursor_next id_dim (up_cursor st) = Some c" "c_tree c = t" "cursor_at frag_item id_dim (Suc k) c"
    using locator_laws.cursor_next_ok [folded id_dim_def, of k "up_cursor st"] i seek k ctx(1) by (auto simp: min_absorb1)
  have pos: "snd (c_position (up_cursor st)) = vis_at xs k"
    using i ctx(1) by (simp add: cursor_at_def pos_after_id id_dim_simps vis_at_def)
  have sum: "text_visible (frag_text (summary (up_tree st))) = length (vis_cells ?out)"
    using i run_summary [of "up_tree st"] by simp
  have "patch_inv xs (vis_at xs (Suc k)) (vis_cells (?out @ [f'])) (undo_edit f f' (vis_at xs k) (length (vis_cells ?out)) (up_patch st))"
    using undo_edit_inv [of xs k "vis_cells ?out" "up_patch st" f'] i k f by (simp add: f_def)
  moreover have "\<forall>g\<in>set (drop (Suc k) xs). frag_id g \<notin> ids'"
    using i other by (auto simp: ids'_def) (metis Cons_nth_drop_Suc k list.set_intros(2))
  ultimately show ?thesis using rb tree c by (auto simp: undo_inv_def pos sum out)
qed

lemma undo_step_ok:
  assumes inv: "undo_inv xs t m ts ch ids k st" and ctx: "tree_items t = xs" "frags_ok xs" "um_ok m"
    and fid: "fid \<in> frag_id ` set (drop k xs)"
  shows "\<exists>st' k'. undo_step m ts fid st = Some st' \<and> undo_inv xs t m ts ch (Set.insert fid ids) k' st' \<and>
    (\<forall>f\<in>set (drop k xs). fid < frag_id f \<longrightarrow> f \<in> set (drop k' xs))"
proof -
  note i = inv [unfolded undo_inv_def]
  let ?c = "up_cursor st" and ?ys = "drop k xs"
  have srt: "sorted_wrt (<) (map frag_id xs)" using ctx(2) by (auto simp: frags_ok_def)
  then have srt_ys: "sorted_wrt (<) (map frag_id ?ys)" by (simp add: drop_map [symmetric] sorted_wrt_drop)
  define n where "n = length (takeWhile (\<lambda>f. frag_id f < fid) ?ys)"
  obtain g where g: "g \<in> set ?ys" "frag_id g = fid" using fid by blast
  have "takeWhile (\<lambda>f. frag_id f < fid) ?ys \<noteq> ?ys" using g by (metis less_irrefl set_takeWhileD)
  then have n: "n < length ?ys" unfolding n_def by (metis length_takeWhile_le nat_less_le takeWhile_eq_take take_all_iff)
  then have kn: "k + n < length xs" by simp
  have hit: "frag_id (xs ! (k + n)) = fid"
  proof -
    have "\<not> frag_id (?ys ! n) < fid" using n nth_length_takeWhile unfolding n_def by blast
    moreover obtain j where j: "j < length ?ys" "?ys ! j = g" using g(1) by (metis in_set_conv_nth)
    moreover have "n \<le> j" unfolding n_def using j g(2) by (metis less_irrefl not_le_imp_less nth_mem set_takeWhileD takeWhile_nth)
    ultimately have "frag_id (?ys ! n) = fid"
      using srt_ys n g(2) by (cases "n = j") (auto simp: sorted_wrt_iff_nth_less dest: less_imp_le)
    then show ?thesis using kn by simp
  qed
  have pos: "id_target fid (c_position ?c) \<noteq> Less"
  proof (cases "take k xs = []")
    case False
    then have "frag_id (last (take k xs)) < fid"
      using srt g sorted_wrt_append [of "(<)" "map frag_id (take k xs)" "map frag_id (drop k xs)"]
      by (metis append_take_drop_id imageI image_set last_in_set map_append)
    then have "fst (c_position ?c) \<le> Some fid"
      using i ctx(1) False by (simp add: cursor_at_def pos_after_id id_dim_simps less_imp_le)
    then show ?thesis by (rule id_target_ge)
  qed (use i ctx(1) in \<open>simp add: cursor_at_def pos_after_id id_dim_simps id_target_ge\<close>)
  obtain sl c where sl: "slice frag_item id_dim ?c (id_target fid) Left = Some (sl, c)" "wf_tree frag_item sl"
    "tree_items sl = take n ?ys" "c_tree c = t" "did_seek c" "cursor_at frag_item id_dim (k + n) c"
    using locator_laws.slice_ok [folded id_dim_def, of k ?c "id_target fid" Left] i ctx(1) pos seekable_id [OF srt_ys]
    by (auto simp: seek_count_id n_def)
  obtain rb tree where run: "rb_append (frag_text (summary sl)) (up_ropes st) = Some rb" "append_tree frag_item (up_tree st) sl = Some tree"
    "undo_inv xs t m ts ch ids (k + n) (st\<lparr>up_cursor := c, up_tree := tree, up_ropes := rb\<rparr>)"
    using undo_run [OF inv ctx(1) less_imp_le [OF kn] sl(2,3,6,4)] by blast
  let ?f = "xs ! (k + n)" and ?ids = "Set.insert fid ids"
  let ?f' = "retouch m ts ?ids ?f"
  obtain rb' tree' c' where "rb_push_fragment ?f' (frag_visible ?f) rb = Some rb'" "push frag_item tree ?f' = Some tree'"
    "cursor_next id_dim c = Some c'" and inv': "undo_inv xs t m ts ch ?ids (Suc (k + n))
      \<lparr>up_cursor = c', up_tree = tree', up_ropes = rb',
       up_patch = undo_edit ?f ?f' (snd (c_position c)) (text_visible (frag_text (summary tree))) (up_patch st)\<rparr>"
    using undo_hit [OF run(3) ctx kn] sl(5) hit by auto
  moreover have "cursor_item c = Some (Some ?f)" using cursor_item_at(1) [OF sl(6,5)] sl(4) ctx(1) kn by simp
  moreover have "refresh m ts ?f = Some ?f'" using refresh_retouch [OF ctx(3)] hit by simp
  ultimately have "undo_step m ts fid st = Some \<lparr>up_cursor = c', up_tree = tree', up_ropes = rb',
       up_patch = undo_edit ?f ?f' (snd (c_position c)) (text_visible (frag_text (summary tree))) (up_patch st)\<rparr>"
    using sl(1) run(1,2) by (simp add: undo_step_def Let_def)
  moreover have "f \<in> set (drop (Suc (k + n)) xs)" if "f \<in> set ?ys" "fid < frag_id f" for f
  proof -
    have "?ys = takeWhile (\<lambda>f. frag_id f < fid) ?ys @ ?f # drop (Suc (k + n)) xs"
      by (metis Cons_nth_drop_Suc append_take_drop_id drop_drop add.commute kn n_def takeWhile_eq_take)
    then have "f \<in> set (takeWhile (\<lambda>f. frag_id f < fid) ?ys) \<or> f = ?f \<or> f \<in> set (drop (Suc (k + n)) xs)"
      using that(1) by (metis Un_iff set_ConsD set_append)
    then show ?thesis using that(2) hit by (auto dest: set_takeWhileD)
  qed
  ultimately show ?thesis using inv' by blast
qed

lemma undo_steps_ok:
  assumes ctx: "tree_items t = xs" "frags_ok xs" "um_ok m"
  shows "undo_inv xs t m ts ch ids k st \<Longrightarrow> sorted_wrt (<) fids \<Longrightarrow> set fids \<subseteq> frag_id ` set (drop k xs) \<Longrightarrow>
    \<exists>st' k'. undo_steps m ts fids st = Some st' \<and> undo_inv xs t m ts ch (ids \<union> set fids) k' st'"
proof (induction fids arbitrary: ids k st)
  case (Cons fid fids)
  obtain st1 k1 where s1: "undo_step m ts fid st = Some st1" "undo_inv xs t m ts ch (Set.insert fid ids) k1 st1"
    "\<forall>f\<in>set (drop k xs). fid < frag_id f \<longrightarrow> f \<in> set (drop k1 xs)"
    using undo_step_ok [OF Cons.prems(1) ctx, of fid] Cons.prems(3) by auto
  have "set fids \<subseteq> frag_id ` set (drop k1 xs)"
  proof
    fix l assume l: "l \<in> set fids"
    then obtain f where "f \<in> set (drop k xs)" "frag_id f = l" using Cons.prems(3) by auto
    then show "l \<in> frag_id ` set (drop k1 xs)" using s1(3) Cons.prems(2) l by auto
  qed
  then show ?case using Cons.IH [OF s1(2)] Cons.prems(2) s1(1) by auto
qed auto

section \<open>The snapshot after an undo\<close>

text \<open>The cells that are visible for a given undo map.\<close>

definition cells_under :: "undo_map \<Rightarrow> fragment list \<Rightarrow> cell list" where
  "cells_under m fs = concat (map cells (filter (shown m) fs))"

lemma shown_retouch: "shown m' (retouch m ts ids f) = shown m' f"
  by (simp add: shown_def)

lemma vis_cells_under: "\<forall>f\<in>set fs. frag_visible f = shown m f \<Longrightarrow> vis_cells fs = cells_under m fs"
  unfolding vis_cells_def cells_under_def by (metis (mono_tags, lifting) filter_cong)

lemma cells_retouch: "all_cells (map (retouch m ts ids) fs) = all_cells fs" "cells_under m' (map (retouch m ts ids) fs) = cells_under m' fs"
  by (induction fs) (simp_all add: cells_under_def shown_retouch)

lemma key_lookup_map: "(\<And>x. key (g x) = key x) \<Longrightarrow> key_lookup key (map g xs) k = map_option g (key_lookup key xs k)"
  by (induction xs) auto

lemma insertion_retouch [simp]:
  "insertion_fragment_new (retouch m ts ids f) = insertion_fragment_new f" "first_key (retouch m ts ids f) = first_key f"
  by (simp_all add: insertion_fragment_new_def first_key_def)

lemma insertions_retouch: "insertions_ok ins fs \<Longrightarrow> insertions_ok ins (map (retouch m ts ids) fs)"
  by (simp add: insertions_ok_def key_lookup_map option.map_comp comp_def)

lemma undo_run_ok:
  fixes ts :: lamport
  assumes t: "wf_tree frag_item t" "tree_items t = xs" "frags_ok xs" "um_ok m"
    and ropes: "v = map ch (vis_cells xs)" "d = map ch (del_cells xs)" "starts_ok ch xs"
    and fids: "sorted_wrt (<) fids" "set fids \<subseteq> frag_id ` set xs"
  defines "out \<equiv> map (retouch m ts (set fids)) xs"
  shows "\<exists>st sl c rb tree. undo_steps m ts fids \<lparr>up_cursor = cursor_new id_dim t, up_tree = st_new frag_item, up_ropes = rb_new v d, up_patch = []\<rparr> = Some st \<and>
    Sum_Cursor.suffix frag_item id_dim (up_cursor st) = Some (sl, c) \<and> rb_append (frag_text (summary sl)) (up_ropes st) = Some rb \<and>
    append_tree frag_item (up_tree st) sl = Some tree \<and> wf_tree frag_item tree \<and> tree_items tree = out \<and>
    rb_finish rb = Some (map ch (vis_cells out), map ch (del_cells out)) \<and>
    patch_inv xs (length (vis_cells xs)) (vis_cells out) (up_patch st)"
proof -
  let ?st = "\<lparr>up_cursor = cursor_new id_dim t, up_tree = st_new frag_item, up_ropes = rb_new v d, up_patch = []\<rparr>"
  have "undo_inv xs t m ts ch {} 0 ?st"
    using cursor_at_new [OF t(1)] patch_inv_empty [of 0 xs] ropes_new [OF ropes(3)] ropes(1,2) by (simp add: undo_inv_def)
  then obtain st k where st: "undo_steps m ts fids ?st = Some st" "undo_inv xs t m ts ch (set fids) k st"
    using undo_steps_ok [OF t(2-4), of ts ch "{}" 0 ?st fids] fids by auto
  have c: "cursor_at frag_item id_dim k (up_cursor st)" "c_tree (up_cursor st) = t" using st(2) by (auto simp: undo_inv_def)
  have k: "k \<le> length xs" using c t(2) by (auto simp: cursor_at_def)
  obtain sl c' where sl: "Sum_Cursor.suffix frag_item id_dim (up_cursor st) = Some (sl, c')" "wf_tree frag_item sl" "tree_items sl = drop k xs"
    "c_tree c' = t" "cursor_at frag_item id_dim (length xs) c'"
    using locator_laws.suffix_ok [folded id_dim_def, OF c(1)] c(2) t(2) by auto
  obtain rb tree where run: "rb_append (frag_text (summary sl)) (up_ropes st) = Some rb" "append_tree frag_item (up_tree st) sl = Some tree"
    "undo_inv xs t m ts ch (set fids) (length xs) (st\<lparr>up_cursor := c', up_tree := tree, up_ropes := rb\<rparr>)"
    using undo_run [OF st(2) t(2), of "length xs - k" sl c'] sl k by auto
  have full: "vis_at xs (length xs) = length (vis_cells xs)" "del_at xs (length xs) = length (del_cells xs)"
    by (simp_all add: vis_at_def del_at_def)
  have "ropes_ok ch xs (length (vis_cells xs)) (length (del_cells xs)) out rb" using run(3) full by (simp add: undo_inv_def out_def)
  note fin = ropes_finish [OF this]
  have "wf_tree frag_item tree" "tree_items tree = out" "rb_finish rb = Some (map ch (vis_cells out), map ch (del_cells out))"
    "patch_inv xs (length (vis_cells xs)) (vis_cells out) (up_patch st)"
    using run(3) full fin by (simp_all add: undo_inv_def out_def)
  then show ?thesis using st(1) sl(1) run(1,2) by blast
qed

lemma um_insert_undone:
  assumes "um_ok m" "distinct (map fst (undo_counts undo))"
  shows "\<exists>m'. um_insert m undo = Some m' \<and> um_ok m' \<and>
    (\<forall>e. e \<notin> set (map fst (undo_counts undo)) \<longrightarrow> undone m' e = undone m e) \<and>
    (\<forall>e u. um_map m' (e, u) \<noteq> None \<longrightarrow> um_map m (e, u) \<noteq> None \<or> e \<in> set (map fst (undo_counts undo)) \<and> u = undo_timestamp undo)"
proof -
  obtain m' where m': "um_insert m undo = Some m'" "um_ok m'"
    "um_map m' = (\<lambda>(e, u). case map_of (undo_counts undo) e of
       Some n \<Rightarrow> if u = undo_timestamp undo then Some n else um_map m (e, u) | None \<Rightarrow> um_map m (e, u))"
    using um_insert_ok [OF assms] by blast
  have "undone m' e = undone m e" if "e \<notin> set (map fst (undo_counts undo))" for e
    using that by (intro undone_cong) (simp add: m'(3) map_of_eq_None_iff [symmetric] split: option.split)
  moreover have "um_map m (e, u) \<noteq> None \<or> e \<in> set (map fst (undo_counts undo)) \<and> u = undo_timestamp undo"
    if "um_map m' (e, u) \<noteq> None" for e u
  proof (cases "map_of (undo_counts undo) e")
    case (Some n)
    then have "e \<in> set (map fst (undo_counts undo))" using map_of_SomeD by force
    then show ?thesis using that Some by (auto simp: m'(3) split: if_splits)
  qed (use that in \<open>simp add: m'(3)\<close>)
  ultimately show ?thesis using m'(1,2) by blast
qed

lemma shown_unaffected:
  "edits_of f \<inter> es = {} \<Longrightarrow> \<forall>e. e \<notin> es \<longrightarrow> undone m' e = undone m e \<Longrightarrow> shown m' f = shown m f"
  unfolding shown_def edits_of_def by blast

lemma snapshot_undo_ok:
  assumes ok: "snapshot_ok ch s" and counts: "distinct (map fst (undo_counts undo))"
    and base: "base_timestamp \<notin> set (map fst (undo_counts undo))"
    and obs: "global_observed (sn_version s) (undo_timestamp undo)"
      "\<forall>e\<in>set (map fst (undo_counts undo)). global_observed (sn_version s) e"
  shows "\<exists>p m s'. snapshot_undo s undo = Some (p, s') \<and> snapshot_ok ch s' \<and> um_insert (sn_undo_map s) undo = Some m \<and>
    sn_undo_map s' = m \<and> sn_version s' = sn_version s \<and>
    (\<exists>ids. tree_items (sn_fragments s') = map (retouch m (undo_timestamp undo) ids) (tree_items (sn_fragments s))) \<and>
    visible_text s' = map ch (cells_under m (tree_items (sn_fragments s))) \<and>
    patch_describes (visible_text s) (visible_text s') p \<and>
    patch_describes (vis_cells (tree_items (sn_fragments s))) (vis_cells (tree_items (sn_fragments s'))) p"
proof -
  let ?es = "set (map fst (undo_counts undo))" and ?ts = "undo_timestamp undo"
  define fs where "fs = tree_items (sn_fragments s)"
  have s: "wf_tree frag_item (sn_fragments s)" "frags_ok fs" "visible_text s = map ch (vis_cells fs)" "deleted_text s = map ch (del_cells fs)"
    "insertions_ok (sn_insertions s) fs" "slices_cover (slice_set (sn_slices s)) fs" "um_ok (sn_undo_map s)"
    "\<forall>f\<in>set fs. frag_visible f = shown (sn_undo_map s) f" "starts_ok ch fs"
    using ok by (auto simp: snapshot_ok_def fs_def Let_def)
  obtain m where m: "um_insert (sn_undo_map s) undo = Some m" "um_ok m" "\<forall>e. e \<notin> ?es \<longrightarrow> undone m e = undone (sn_undo_map s) e"
    "\<forall>e u. um_map m (e, u) \<noteq> None \<longrightarrow> um_map (sn_undo_map s) (e, u) \<noteq> None \<or> e \<in> ?es \<and> u = ?ts"
    using um_insert_undone [OF s(7) counts] by blast
  obtain fids where fids: "fragment_ids_for_edits s (map fst (undo_counts undo)) = Some fids" "sorted_wrt (<) fids"
    "set fids \<subseteq> frag_id ` set fs" "\<forall>f\<in>set fs. edits_of f \<inter> ?es \<noteq> {} \<longrightarrow> frag_id f \<in> set fids"
    using fragment_ids_for_edits_ok [OF ok base] by (auto simp: fs_def)
  have fids': "fragment_ids_for_edits (s\<lparr>sn_undo_map := m\<rparr>) (map fst (undo_counts undo)) = Some fids"
    using fids(1) by (simp add: fragment_ids_for_edits_def)
  define out where "out = map (retouch m ?ts (set fids)) fs"
  obtain st sl c rb tree where run: "undo_steps m ?ts fids \<lparr>up_cursor = cursor_new id_dim (sn_fragments s), up_tree = st_new frag_item,
       up_ropes = rb_new (visible_text s) (deleted_text s), up_patch = []\<rparr> = Some st"
    "Sum_Cursor.suffix frag_item id_dim (up_cursor st) = Some (sl, c)" "rb_append (frag_text (summary sl)) (up_ropes st) = Some rb"
    "append_tree frag_item (up_tree st) sl = Some tree" "wf_tree frag_item tree" "tree_items tree = out"
    "rb_finish rb = Some (map ch (vis_cells out), map ch (del_cells out))"
    "patch_inv fs (length (vis_cells fs)) (vis_cells out) (up_patch st)"
    using undo_run_ok [OF s(1) fs_def [symmetric] s(2) m(2) s(3,4,9) fids(2,3), of ?ts] unfolding out_def by blast
  let ?s = "s\<lparr>sn_undo_map := m, sn_fragments := tree, visible_text := map ch (vis_cells out), deleted_text := map ch (del_cells out)\<rparr>"
  have vis: "\<forall>g\<in>set out. frag_visible g = shown m g"
  proof -
    have "frag_visible (retouch m ?ts (set fids) f) = shown m f" if f: "f \<in> set fs" for f
    proof (cases "frag_id f \<in> set fids")
      case False
      then have "edits_of f \<inter> ?es = {}" using fids(4) f by blast
      then show ?thesis using False f s(8) shown_unaffected [OF _ m(3)] by (simp add: retouch_other)
    qed (simp add: retouch_def)
    then show ?thesis by (auto simp: out_def shown_retouch)
  qed
  have "undo_times m \<subseteq> undo_times (sn_undo_map s) \<union> ?es \<union> {?ts}" using m(4) unfolding undo_times_def by blast
  then have "known_times ?s \<subseteq> known_times s \<union> ?es \<union> {?ts}"
    unfolding known_times_def by (auto simp: run(6) out_def edits_of_def fs_def)
  then have "\<forall>t\<in>known_times ?s. global_observed (sn_version s) t"
    using ok obs by (auto simp: snapshot_ok_def Let_def)
  moreover have "frags_ok out" using s(2) by (simp add: frags_ok_def out_def cells_retouch list_all_iff frag_ok_def comp_def)
  moreover have "slices_cover (slice_set (sn_slices s)) out" using s(6) by (simp add: slices_cover_def out_def edits_of_def)
  moreover have "insertions_ok (sn_insertions s) out" using insertions_retouch [OF s(5)] by (simp add: out_def)
  moreover have "\<forall>g\<in>set out. frag_timestamp g \<noteq> lamport_MIN" using ok by (auto simp: snapshot_ok_def Let_def out_def fs_def)
  moreover have seen: "\<forall>g\<in>set out. undos_seen m g"
  proof -
    have "undos_seen m (retouch m ?ts (set fids) f)" if f: "f \<in> set fs" for f
    proof -
      have old: "undos_seen (sn_undo_map s) f" using ok f by (simp add: snapshot_ok_def Let_def fs_def)
      show ?thesis
      proof (cases "frag_id f \<in> set fids")
        case True
        show ?thesis unfolding undos_seen_def
        proof (intro ballI allI impI)
          fix e u assume e: "e \<in> edits_of (retouch m ?ts (set fids) f)" "um_map m (e, u) \<noteq> None"
          then have "um_map (sn_undo_map s) (e, u) \<noteq> None \<or> u = ?ts" "e \<in> edits_of f" using m(4) by (auto simp: edits_of_def)
          then have "lvalue u \<le> version_get (max_undos f) (lreplica u) \<or> u = ?ts" using old unfolding undos_seen_def by blast
          then show "lvalue u \<le> version_get (max_undos (retouch m ?ts (set fids) f)) (lreplica u)"
            using True by (auto simp: retouch_def version_get_observe le_max_iff_disj)
        qed
      next
        case False
        then have "edits_of f \<inter> ?es = {}" using fids(4) f by blast
        then have "undos_seen m f" using old m(4) unfolding undos_seen_def by blast
        then show ?thesis using False by (simp add: retouch_other)
      qed
    qed
    then show ?thesis by (auto simp: out_def)
  qed
  moreover have starts: "starts_ok ch out" using s(9) by (simp add: starts_ok_def out_def)
  moreover have order: "insertion_order (all_cells out)"
    using ok by (simp add: snapshot_ok_def Let_def out_def cells_retouch fs_def)
  ultimately have ok': "snapshot_ok ch ?s"
    using ok m(2) run(5,6) vis order seen starts by (simp add: snapshot_ok_def Let_def)
  have "snapshot_undo s undo = Some (up_patch st, ?s)"
    using m(1) fids' run(1-4,7) by (simp add: snapshot_undo_def Let_def)
  moreover have "vis_cells out = cells_under m fs" using vis_cells_under [OF vis] by (simp add: out_def cells_retouch)
  moreover note moves = patch_inv_describes [OF run(8)]
  moreover have "patch_describes (visible_text s) (map ch (vis_cells out)) (up_patch st)"
    using patch_describes_map [OF moves, of ch] s(3) by simp
  ultimately show ?thesis using ok' m(1) run(6) by (auto simp: out_def fs_def)
qed

end
