(* ===== verification/Buffer_Correct.thy ===== *)
theory Buffer_Correct
  imports Buffer Undo_Correct History_Correct
begin

text \<open>
  The invariant of a buffer, which its operations keep, and what they do to the visible text: an edit replaces the given
  ranges, undoing or redoing a transaction flips, for exactly its edits, whether they are undone.
\<close>

section \<open>The invariant\<close>

text \<open>
  The counts of the undo map never exceed the time of the undo that recorded them, and the clock is ahead of all of them: this is
  why the saturating increment of the counts never saturates.
\<close>

definition counts_ok :: "undo_map \<Rightarrow> lamport \<Rightarrow> bool" where
  "counts_ok m clk \<longleftrightarrow> (\<forall>e u n. um_map m (e, u) = Some n \<longrightarrow> n \<le> lvalue u \<and> lvalue u < lvalue clk)"

definition operations_ok :: "history \<Rightarrow> global \<Rightarrow> bool" where
  "operations_ok h v \<longleftrightarrow> (\<forall>i. tm_map (operations h) i \<noteq> None \<longrightarrow> global_observed v i) \<and> \<not> known_edit h base_timestamp"

definition buffer_ok :: "(cell \<Rightarrow> char) \<Rightarrow> buffer \<Rightarrow> bool" where
  "buffer_ok ch b \<longleftrightarrow> (let s = bf_snapshot b; h = bf_history b; clk = bf_clock b in
     snapshot_ok ch s \<and> history_ok h \<and> topic_ok (bf_subscriptions b) \<and>
     global_get (sn_version s) (lreplica clk) < lvalue clk \<and> (transaction_depth h \<noteq> 0 \<longrightarrow> 1 < lvalue clk) \<and>
     operations_ok h (sn_version s) \<and> counts_ok (sn_undo_map s) clk)"

abbreviation buffer_text :: "buffer \<Rightarrow> string" where
  "buffer_text b \<equiv> visible_text (bf_snapshot b)"

abbreviation buffer_fragments :: "buffer \<Rightarrow> fragment list" where
  "buffer_fragments b \<equiv> tree_items (sn_fragments (bf_snapshot b))"

abbreviation buffer_undos :: "buffer \<Rightarrow> undo_map" where
  "buffer_undos b \<equiv> sn_undo_map (bf_snapshot b)"

definition ticks_left :: "buffer \<Rightarrow> nat \<Rightarrow> bool" where
  "ticks_left b n \<longleftrightarrow> unat (lvalue (bf_clock b)) + n < 2 ^ 32"

lemma word_less_Suc: "unat (x :: 'a::len word) + 1 < 2 ^ LENGTH('a) \<Longrightarrow> x < x + 1 \<and> unat (x + 1) = unat x + 1"
  by (simp add: word_less_nat_alt unat_word_ariths)

lemma tick_fresh:
  assumes "global_get v (lreplica clk) < lvalue clk"
  shows "\<not> global_observed v clk"
  using assms by (simp add: global_observed_def)

text \<open>Observing the current time and moving the clock on.\<close>

lemma tick_ahead:
  assumes "global_get v (lreplica clk) < lvalue clk" "unat (lvalue clk) + 1 < 2 ^ 32"
  shows "global_get (global_observe v clk) (lreplica (snd (lamport_tick clk))) < lvalue (snd (lamport_tick clk))"
    and "lvalue clk < lvalue (snd (lamport_tick clk))" "lreplica (snd (lamport_tick clk)) = lreplica clk"
    and "global_get v (lreplica (snd (lamport_tick clk))) < lvalue (snd (lamport_tick clk))"
  using assms word_less_Suc [of "lvalue clk"] by (auto simp: lamport_tick_def global_get_observe max_def intro: less_trans)

section \<open>Counts\<close>

lemma next_counts_ok:
  assumes "um_ok m" "distinct (map fst acc)"
  shows "\<exists>counts. next_counts m es acc = Some counts \<and> distinct (map fst counts) \<and>
    (\<forall>e. map_of counts e = (if e \<in> set es then map_option (\<lambda>n. saturating_add n 1) (undo_count m e) else map_of acc e))"
  using assms(2)
proof (induction es arbitrary: acc)
  case (Cons e es)
  obtain n where n: "undo_count m e = Some n" using undo_count_ok [OF assms(1)] by blast
  have "distinct (map fst (AList.update e (saturating_add n 1) acc))" using Cons.prems by (simp add: distinct_update)
  from Cons.IH [OF this] show ?case using n by (fastforce simp: update_conv)
qed auto

lemma undo_count_greatest:
  assumes "um_ok m" "undo_count m e = Some n"
  shows "um_map m (e, u) = Some k \<Longrightarrow> k \<le> n" and "n = 0 \<or> (\<exists>u. um_map m (e, u) = Some n)"
proof -
  let ?N = "{k. \<exists>u. um_map m (e, u) = Some k}"
  have fin: "finite ?N" by simp
  have n: "n = Max (Set.insert 0 ?N)" using assms undo_count_ok by simp
  show "um_map m (e, u) = Some k \<Longrightarrow> k \<le> n" using fin unfolding n by (intro Max_ge) auto
  have "n \<in> Set.insert 0 ?N" unfolding n by (intro Max_in) auto
  then show "n = 0 \<or> (\<exists>u. um_map m (e, u) = Some n)" by auto
qed

lemma undone_count: "um_ok m \<Longrightarrow> undo_count m e = Some n \<Longrightarrow> undone m e \<longleftrightarrow> odd n"
  using undo_count_ok [of m e] by (auto simp: undone_def odd_iff_mod_2_eq_one)

text \<open>Recording the next counts flips exactly the edits they are for.\<close>

lemma um_insert_next:
  assumes m: "um_ok m" "counts_ok m clk" and clk: "0 < lvalue clk" "unat (lvalue clk) + 1 < 2 ^ 32"
    and counts: "next_counts m es [] = Some counts" and undo: "undo_counts undo = counts" "undo_timestamp undo = clk"
  shows "\<exists>m'. um_insert m undo = Some m' \<and> um_ok m' \<and> counts_ok m' (snd (lamport_tick clk)) \<and>
    (\<forall>e. undone m' e \<longleftrightarrow> undone m e \<noteq> (e \<in> set es)) \<and> (\<forall>e u. u \<noteq> clk \<longrightarrow> um_map m' (e, u) = um_map m (e, u))"
proof -
  obtain counts' where c': "next_counts m es [] = Some counts'" "distinct (map fst counts')"
    "\<forall>e. map_of counts' e = (if e \<in> set es then map_option (\<lambda>n. saturating_add n 1) (undo_count m e) else None)"
    using next_counts_ok [OF m(1), of "[]" es] by auto
  then have c: "distinct (map fst counts)" "\<And>e. map_of counts e = (if e \<in> set es then map_option (\<lambda>n. saturating_add n 1) (undo_count m e) else None)"
    using counts by auto
  obtain m' where m': "um_insert m undo = Some m'" "um_ok m'"
    "um_map m' = (\<lambda>(e, u). case map_of counts e of Some n \<Rightarrow> if u = clk then Some n else um_map m (e, u) | None \<Rightarrow> um_map m (e, u))"
    using um_insert_ok [OF m(1), of undo] c(1) undo by auto
  have step: "saturating_add n 1 = n + 1 \<and> n < n + 1 \<and> n + 1 \<le> lvalue clk" if n: "undo_count m e = Some n" for e n
  proof -
    have "n < lvalue clk"
      using undo_count_greatest(2) [OF m(1) n] m(2) clk(1) unfolding counts_ok_def by (meson order_le_less_trans)
    then show ?thesis using clk(2) by (auto simp: saturating_add_def word_less_nat_alt word_le_nat_alt unat_word_ariths)
  qed
  have flip: "undone m' e \<longleftrightarrow> \<not> undone m e" if e: "e \<in> set es" for e
  proof -
    obtain n n' where n: "undo_count m e = Some n" "undo_count m' e = Some n'" using undo_count_ok m(1) m'(2) by blast
    note g = undo_count_greatest [OF m'(2) n(2)]
    have new: "um_map m' (e, clk) = Some (n + 1)" using c(2) [of e] e n(1) step [OF n(1)] by (simp add: m'(3))
    then have ge: "n < n'" using g(1) step [OF n(1)] by (meson order.strict_trans2)
    then obtain u where u: "um_map m' (e, u) = Some n'" using g(2) by auto
    have "n' = n + 1"
    proof (rule ccontr)
      assume "n' \<noteq> n + 1"
      then have "um_map m (e, u) = Some n'" using u new by (cases "u = clk") (auto simp: m'(3) split: option.splits)
      then show False using undo_count_greatest(1) [OF m(1) n(1)] ge by (meson not_less)
    qed
    then show ?thesis using undone_count [OF m(1) n(1)] undone_count [OF m'(2) n(2)] by simp
  qed
  have same: "undone m' e \<longleftrightarrow> undone m e" if "e \<notin> set es" for e
    using that c(2) [of e] by (intro undone_cong) (simp add: m'(3))
  have "n \<le> lvalue u \<and> lvalue u < lvalue (snd (lamport_tick clk))" if "um_map m' (e, u) = Some n" for e u n
  proof -
    have "lvalue clk < lvalue (snd (lamport_tick clk))" using clk(2) word_less_Suc [of "lvalue clk"] by (simp add: lamport_tick_def)
    moreover have "um_map m (e, u) = Some n \<or> u = clk \<and> (\<exists>k. undo_count m e = Some k \<and> n = k + 1)"
      using that c(2) [of e] step by (auto simp: m'(3) split: option.splits if_splits)
    ultimately show ?thesis using m(2) step unfolding counts_ok_def by (metis less_trans)
  qed
  then have "counts_ok m' (snd (lamport_tick clk))" by (simp add: counts_ok_def)
  moreover have "\<forall>e u. u \<noteq> clk \<longrightarrow> um_map m' (e, u) = um_map m (e, u)" by (auto simp: m'(3) split: option.splits)
  ultimately show ?thesis using m'(1,2) flip same by blast
qed

section \<open>Undo and redo\<close>

text \<open>What undoing or redoing the given edits does to a buffer.\<close>

definition flipped :: "(cell \<Rightarrow> char) \<Rightarrow> lamport set \<Rightarrow> buffer \<Rightarrow> buffer \<Rightarrow> bool" where
  "flipped ch E b b' \<longleftrightarrow>
     (\<forall>e. undone (buffer_undos b') e \<longleftrightarrow> undone (buffer_undos b) e \<noteq> (e \<in> E)) \<and>
     (\<forall>e u. u \<noteq> bf_clock b \<longrightarrow> um_map (buffer_undos b') (e, u) = um_map (buffer_undos b) (e, u)) \<and>
     buffer_version b' = global_observe (buffer_version b) (bf_clock b) \<and>
     (\<exists>ts ids. buffer_fragments b' = map (retouch (buffer_undos b') ts ids) (buffer_fragments b)) \<and>
     buffer_text b' = map ch (cells_under (buffer_undos b') (buffer_fragments b)) \<and>
     (\<exists>p. patch_describes (buffer_text b) (buffer_text b') p \<and> publish p (bf_subscriptions b) = Some (bf_subscriptions b'))"

lemma patch_describes_wf: "patch_describes u v p \<Longrightarrow> wf_patch 0 0 p"
  by (auto simp: patch_describes_def intro: ends_wf)

lemma history_push_fresh:
  assumes "history_ok h" "tm_map (operations h) (operation_timestamp op) = None"
  shows "\<exists>m. history_push h op = Some (h\<lparr>operations := m\<rparr>) \<and> history_ok (h\<lparr>operations := m\<rparr>) \<and>
    tm_map m = (tm_map (operations h))(operation_timestamp op \<mapsto> op)"
proof -
  have "op_allowed h (Push op)" using assms by (simp add: history_ok_def tm_get_eq)
  then obtain h' where h': "history_push h op = Some h'" "history_ok h'"
    "tm_map (operations h') = (tm_map (operations h))(operation_timestamp op \<mapsto> op)"
    using history_push_ok [OF assms(1)] by blast
  moreover from h'(1) have "h' = h\<lparr>operations := operations h'\<rparr>"
    by (auto simp: history_push_def bind_eq_Some_conv)
  ultimately show ?thesis by metis
qed

lemma apply_undo_ok:
  assumes ok: "snapshot_ok ch (bf_snapshot b)" "topic_ok (bf_subscriptions b)" and counts: "distinct (map fst (undo_counts undo))"
    and obs: "base_timestamp \<notin> set (map fst (undo_counts undo))" "global_observed (buffer_version b) (undo_timestamp undo)"
      "\<forall>e\<in>set (map fst (undo_counts undo)). global_observed (buffer_version b) e"
  shows "\<exists>b' m p ids. apply_undo b undo = Some b' \<and> snapshot_ok ch (bf_snapshot b') \<and> topic_ok (bf_subscriptions b') \<and>
    um_insert (buffer_undos b) undo = Some m \<and> buffer_undos b' = m \<and> buffer_version b' = buffer_version b \<and>
    buffer_fragments b' = map (retouch m (undo_timestamp undo) ids) (buffer_fragments b) \<and>
    buffer_text b' = map ch (cells_under m (buffer_fragments b)) \<and> bf_history b' = bf_history b \<and> bf_clock b' = bf_clock b \<and>
    patch_describes (buffer_text b) (buffer_text b') p \<and> publish p (bf_subscriptions b) = Some (bf_subscriptions b')"
proof -
  obtain p m s ids where s: "snapshot_undo (bf_snapshot b) undo = Some (p, s)" "snapshot_ok ch s" "um_insert (buffer_undos b) undo = Some m"
    "sn_undo_map s = m" "sn_version s = buffer_version b" "tree_items (sn_fragments s) = map (retouch m (undo_timestamp undo) ids) (buffer_fragments b)"
    "visible_text s = map ch (cells_under m (buffer_fragments b))" "patch_describes (buffer_text b) (visible_text s) p"
    using snapshot_undo_ok [OF ok(1) counts obs(1) obs(2,3) [unfolded buffer_version_def]] unfolding buffer_version_def by blast
  obtain t where "publish p (bf_subscriptions b) = Some t" "topic_ok t"
    using publish_ok [OF ok(2) patch_describes_wf [OF s(8)]] by blast
  then show ?thesis using s
    by (intro exI [of _ "b\<lparr>bf_snapshot := s, bf_subscriptions := t\<rparr>"] exI [of _ m] exI [of _ p] exI [of _ ids])
      (simp add: apply_undo_def buffer_version_def)
qed

lemma next_counts_keys:
  assumes "um_ok m" "next_counts m es [] = Some counts"
  shows "distinct (map fst counts)" "set (map fst counts) = set es"
proof -
  obtain c where c: "next_counts m es [] = Some c" "distinct (map fst c)"
    "\<forall>e. map_of c e = (if e \<in> set es then map_option (\<lambda>n. saturating_add n 1) (undo_count m e) else None)"
    using next_counts_ok [OF assms(1), of "[]" es] by auto
  have "e \<in> set es \<longleftrightarrow> map_of c e \<noteq> None" for e using c(3) undo_count_ok [OF assms(1), of e] by auto
  then show "distinct (map fst counts)" "set (map fst counts) = set es"
    using c(1,2) assms(2) by (auto simp: map_of_eq_None_iff)
qed

lemma undo_or_redo_ok:
  assumes ok: "buffer_ok ch b" and left: "ticks_left b 1" and edits: "\<forall>e\<in>set (edit_ids tx). known_edit (bf_history b) e"
  shows "\<exists>op b' m. undo_or_redo b tx = Some (op, b') \<and> buffer_ok ch b' \<and> flipped ch (set (edit_ids tx)) b b' \<and>
    bf_clock b' = snd (lamport_tick (bf_clock b)) \<and> bf_history b' = (bf_history b)\<lparr>operations := m\<rparr> \<and>
    (\<forall>e. known_edit (bf_history b) e \<longrightarrow> known_edit (bf_history b') e)"
proof -
  let ?clk = "bf_clock b" and ?v = "buffer_version b" and ?h = "bf_history b"
  let ?clk' = "snd (lamport_tick ?clk)" and ?v' = "global_observe ?v ?clk"
  have s: "snapshot_ok ch (bf_snapshot b)" "history_ok ?h" "topic_ok (bf_subscriptions b)" "global_get ?v (lreplica ?clk) < lvalue ?clk"
    "operations_ok ?h ?v" "counts_ok (buffer_undos b) ?clk" "um_ok (buffer_undos b)" "transaction_depth ?h \<noteq> 0 \<longrightarrow> 1 < lvalue ?clk"
    using ok by (auto simp: buffer_ok_def Let_def buffer_version_def snapshot_ok_def)
  have left: "unat (lvalue ?clk) + 1 < 2 ^ 32" using left by (simp add: ticks_left_def)
  note ahead = tick_ahead [OF s(4) left]
  obtain counts where counts: "next_counts (buffer_undos b) (edit_ids tx) [] = Some counts"
    using next_counts_ok [OF s(7), of "[]" "edit_ids tx"] by auto
  note keys = next_counts_keys [OF s(7) counts]
  define undo where "undo = \<lparr>undo_timestamp = ?clk, undo_version = ?v, undo_counts = counts\<rparr>"
  have u: "undo_counts undo = counts" "undo_timestamp undo = ?clk" by (simp_all add: undo_def)
  have "0 < lvalue ?clk" using s(4) by (metis word_gt_0 word_not_simps(1))
  from um_insert_next [OF s(7,6) this left counts u] obtain m where m: "um_insert (buffer_undos b) undo = Some m"
    "counts_ok m ?clk'" "\<forall>e. undone m e \<longleftrightarrow> undone (buffer_undos b) e \<noteq> (e \<in> set (edit_ids tx))"
    "\<forall>e u. u \<noteq> ?clk \<longrightarrow> um_map m (e, u) = um_map (buffer_undos b) (e, u)" by blast
  let ?b = "observe_version (b\<lparr>bf_clock := ?clk'\<rparr>) ?clk"
  have sel: "buffer_version ?b = ?v'" "buffer_undos ?b = buffer_undos b" "buffer_fragments ?b = buffer_fragments b"
    "buffer_text ?b = buffer_text b" "bf_history ?b = ?h" "bf_clock ?b = ?clk'" "bf_subscriptions ?b = bf_subscriptions b"
    by (simp_all add: observe_version_def buffer_version_def)
  have known: "global_observed ?v e \<and> e \<noteq> base_timestamp" if "e \<in> set (edit_ids tx)" for e
    using edits that s(5) by (auto simp: operations_ok_def known_edit_def)
  have obs: "base_timestamp \<notin> set (map fst counts)" "global_observed ?v' ?clk" "\<forall>e\<in>set (map fst counts). global_observed ?v' e"
    using known keys(2) observed_observe by auto
  have snap: "snapshot_ok ch (bf_snapshot ?b)" using snapshot_ok_observe [OF s(1)] by (simp add: observe_version_def)
  obtain b' m' p ids where b'': "apply_undo ?b undo = Some b'" "snapshot_ok ch (bf_snapshot b')" "topic_ok (bf_subscriptions b')"
    "um_insert (buffer_undos b) undo = Some m'" "buffer_undos b' = m'" "buffer_version b' = ?v'"
    "buffer_fragments b' = map (retouch m' ?clk ids) (buffer_fragments b)"
    "buffer_text b' = map ch (cells_under m' (buffer_fragments b))" "bf_history b' = ?h" "bf_clock b' = ?clk'"
    "patch_describes (buffer_text b) (buffer_text b') p" "publish p (bf_subscriptions b) = Some (bf_subscriptions b')"
    using apply_undo_ok [of ch ?b undo, unfolded sel u, OF snap s(3) keys(1) obs] by blast
  have "m' = m" using b''(4) m(1) by simp
  note b' = b''(1-3) b''(5-12) [unfolded this]
  have "tm_map (operations ?h) ?clk = None" using s(5) tick_fresh [OF s(4)] by (auto simp: operations_ok_def)
  then obtain ops where ops: "history_push ?h (UndoOp undo) = Some (?h\<lparr>operations := ops\<rparr>)" "history_ok (?h\<lparr>operations := ops\<rparr>)"
    "tm_map ops = (tm_map (operations ?h))(?clk \<mapsto> UndoOp undo)"
    using history_push_fresh [OF s(2), of "UndoOp undo"] by (auto simp: u)
  let ?r = "b'\<lparr>bf_history := ?h\<lparr>operations := ops\<rparr>\<rparr>"
  have "undo_or_redo b tx = Some (UndoOp undo, ?r)"
    using counts b'(1,8) ops(1) by (simp add: undo_or_redo_def undo_operations_def Let_def lamport_tick_def undo_def)
  moreover have kn: "known_edit (?h\<lparr>operations := ops\<rparr>) e = known_edit ?h e" for e
    using \<open>tm_map (operations ?h) ?clk = None\<close> by (auto simp: known_edit_def ops(3))
  then have "operations_ok (?h\<lparr>operations := ops\<rparr>) ?v'"
    using s(5) observed_observe by (auto simp: operations_ok_def ops(3) split: if_splits)
  then have "buffer_ok ch ?r"
    using b'(2-5,9) ops(2) ahead s(8) m(2) by (auto simp: buffer_ok_def Let_def buffer_version_def intro: less_trans)
  moreover have "flipped ch (set (edit_ids tx)) b ?r" using b'(4-7,10,11) m(3,4) by (auto simp: flipped_def buffer_version_def)
  ultimately show ?thesis using b'(9) kn by (intro exI [of _ "UndoOp undo"] exI [of _ ?r] exI [of _ ops]) simp
qed

text \<open>Taking an entry off one of the stacks and undoing or redoing it.\<close>

lemma undo_popped_ok:
  assumes ok: "buffer_ok ch b" and left: "ticks_left b 1" and ent: "\<forall>e\<in>set (edit_ids (transaction_of ent)). known_edit h e"
    and h: "history_ok h" "operations h = operations (bf_history b)" "transaction_depth h = 0"
  shows "\<exists>op b' m. undo_popped b (Some ent, h) = Some (Some (transaction_id ent, op), b') \<and> buffer_ok ch b' \<and>
    flipped ch (set (edit_ids (transaction_of ent))) b b' \<and> bf_clock b' = snd (lamport_tick (bf_clock b)) \<and>
    bf_history b' = h\<lparr>operations := m\<rparr> \<and> (\<forall>e. known_edit h e \<longrightarrow> known_edit (bf_history b') e)"
proof -
  let ?b = "b\<lparr>bf_history := h\<rparr>"
  have "buffer_ok ch ?b" using ok h by (simp add: buffer_ok_def Let_def operations_ok_def known_edit_def)
  moreover have "ticks_left ?b 1" using left by (simp add: ticks_left_def)
  ultimately obtain op b' m where r: "undo_or_redo ?b (transaction_of ent) = Some (op, b')" "buffer_ok ch b'"
    "flipped ch (set (edit_ids (transaction_of ent))) ?b b'" "bf_clock b' = snd (lamport_tick (bf_clock b))" "bf_history b' = h\<lparr>operations := m\<rparr>"
    "\<forall>e. known_edit h e \<longrightarrow> known_edit (bf_history b') e"
    using undo_or_redo_ok [of ch ?b "transaction_of ent"] ent by auto
  have "flipped ch E ?b b' = flipped ch E b b'" for E unfolding flipped_def by (simp add: buffer_version_def)
  then show ?thesis using r by (auto simp: undo_popped_def transaction_id_def)
qed

lemma stack_edits_known:
  assumes "history_ok h" "e \<in> set (undo_stack h) \<union> set (redo_stack h)" "i \<in> set (edit_ids (transaction_of e))"
  shows "known_edit h i"
  using assms by (auto simp: history_ok_def set_stack_edits)

lemma buffer_undo_ok:
  assumes ok: "buffer_ok ch b" and left: "ticks_left b 1" and depth: "transaction_depth (bf_history b) = 0"
    and ne: "undo_stack (bf_history b) \<noteq> []"
  defines "ent \<equiv> last (undo_stack (bf_history b))"
  shows "\<exists>op b' m. buffer_undo b = Some (Some (transaction_id ent, op), b') \<and> buffer_ok ch b' \<and>
    flipped ch (set (edit_ids (transaction_of ent))) b b' \<and> bf_clock b' = snd (lamport_tick (bf_clock b)) \<and>
    bf_history b' = (bf_history b)\<lparr>undo_stack := butlast (undo_stack (bf_history b)),
       redo_stack := redo_stack (bf_history b) @ [ent], operations := m\<rparr>"
proof -
  let ?h = "bf_history b"
  let ?h' = "?h\<lparr>undo_stack := butlast (undo_stack ?h), redo_stack := redo_stack ?h @ [ent]\<rparr>"
  have h: "history_ok ?h" using ok by (simp add: buffer_ok_def Let_def)
  have p: "pop_undo ?h = Some (Some ent, ?h')" using depth ne by (simp add: pop_undo_def Let_def ent_def)
  note h' = pop_keeps(1) [OF h p]
  have "\<forall>e\<in>set (edit_ids (transaction_of ent)). known_edit ?h' e"
    using stack_edits_known [OF h', of ent] by simp
  from undo_popped_ok [OF ok left this h'] show ?thesis using p depth by (fastforce simp: buffer_undo_def)
qed

lemma buffer_redo_ok:
  assumes ok: "buffer_ok ch b" and left: "ticks_left b 1" and depth: "transaction_depth (bf_history b) = 0"
    and ne: "redo_stack (bf_history b) \<noteq> []"
  defines "ent \<equiv> last (redo_stack (bf_history b))"
  shows "\<exists>op b' m. buffer_redo b = Some (Some (transaction_id ent, op), b') \<and> buffer_ok ch b' \<and>
    flipped ch (set (edit_ids (transaction_of ent))) b b' \<and> bf_clock b' = snd (lamport_tick (bf_clock b)) \<and>
    bf_history b' = (bf_history b)\<lparr>redo_stack := butlast (redo_stack (bf_history b)),
       undo_stack := undo_stack (bf_history b) @ [ent], operations := m\<rparr>"
proof -
  let ?h = "bf_history b"
  let ?h' = "?h\<lparr>redo_stack := butlast (redo_stack ?h), undo_stack := undo_stack ?h @ [ent]\<rparr>"
  have h: "history_ok ?h" using ok by (simp add: buffer_ok_def Let_def)
  have p: "pop_redo ?h = Some (Some ent, ?h')" using depth ne by (simp add: pop_redo_def Let_def ent_def)
  note h' = pop_keeps(2) [OF h p]
  have "\<forall>e\<in>set (edit_ids (transaction_of ent)). known_edit ?h' e"
    using stack_edits_known [OF h', of ent] by simp
  from undo_popped_ok [OF ok left this h'] show ?thesis using p depth by (fastforce simp: buffer_redo_def)
qed

text \<open>Flipping the same edits twice restores the visible text.\<close>

lemma flipped_twice:
  assumes ok: "buffer_ok ch b" and f: "flipped ch E b b'" "flipped ch E b' b''"
  shows "buffer_text b'' = buffer_text b" "\<forall>e. undone (buffer_undos b'') e = undone (buffer_undos b) e"
proof -
  show u: "\<forall>e. undone (buffer_undos b'') e = undone (buffer_undos b) e" using f by (auto simp: flipped_def)
  then have s: "shown (buffer_undos b'') = shown (buffer_undos b)" by (simp add: shown_def fun_eq_iff)
  have "cells_under (buffer_undos b'') (buffer_fragments b') = cells_under (buffer_undos b'') (buffer_fragments b)"
    using f(1) cells_retouch by (auto simp: flipped_def)
  also have "\<dots> = cells_under (buffer_undos b) (buffer_fragments b)" by (simp add: cells_under_def s)
  also have "\<dots> = vis_cells (buffer_fragments b)"
    using ok vis_cells_under [of "buffer_fragments b" "buffer_undos b"] by (simp add: buffer_ok_def snapshot_ok_def Let_def)
  finally show "buffer_text b'' = buffer_text b"
    using f(2) ok by (simp add: flipped_def buffer_ok_def snapshot_ok_def Let_def)
qed

end
