(* ===== verification/Buffer_Roundtrip.thy ===== *)
theory Buffer_Roundtrip
  imports Buffer_Correct
begin

text \<open>
  Editing a buffer, and the round trips of editing, undoing and redoing: an edit keeps the invariant and replaces the given
  ranges of the visible text, undoing it brings the text back that was there, and redoing what was undone brings the edit back.
\<close>

section \<open>A local edit\<close>

text \<open>What an edit at a time does to a buffer.\<close>

definition edited :: "(string \<Rightarrow> string) \<Rightarrow> ((nat \<times> nat) \<times> string) list \<Rightarrow> lamport \<Rightarrow> buffer \<Rightarrow> buffer \<Rightarrow> bool" where
  "edited replace_all edits ts b b' \<longleftrightarrow>
     buffer_text b' = splice_list (buffer_text b) 0 (normalized replace_all edits) \<and>
     filter (\<lambda>c. fst c \<noteq> ts) (all_cells (buffer_fragments b')) = all_cells (buffer_fragments b) \<and>
     pieces (buffer_fragments b) ts (buffer_fragments b') \<and> buffer_undos b' = buffer_undos b \<and>
     (\<exists>p. patch_describes (buffer_text b) (buffer_text b') p \<and> publish p (bf_subscriptions b) = Some (bf_subscriptions b'))"

lemma apply_local_edit_ok:
  assumes ok: "snapshot_ok ch (bf_snapshot b)" "topic_ok (bf_subscriptions b)" and ts: "\<not> global_observed (buffer_version b) ts"
    and edits: "ranges_ordered (length (buffer_text b)) 0 edits" "debug \<longrightarrow> on_chars (buffer_text b) edits" "texts_ok replace_all edits"
  shows "\<exists>op b'. apply_local_edit debug replace_all b edits ts = Some (op, b') \<and> edit_timestamp op = ts \<and>
    edited replace_all (floored (buffer_text b) edits) ts b b' \<and>
    snapshot_ok (with_insertion ts (inserted replace_all edits) ch) (bf_snapshot (observe_version b' ts)) \<and>
    topic_ok (bf_subscriptions b') \<and> buffer_version b' = buffer_version b \<and> bf_history b' = bf_history b \<and> bf_clock b' = bf_clock b"
proof -
  let ?s = "bf_snapshot b"
  let ?edits = "floored (visible_text ?s) edits"
  have fl: "ranges_ordered (length (visible_text ?s)) 0 ?edits" "on_chars (visible_text ?s) ?edits" "texts_ok replace_all ?edits"
    using floored_ordered [OF edits(1)] floored_on_chars edits(3) by (simp_all add: floored_texts rope_floor_id)
  obtain op p s' where s: "apply_edit_internal replace_all ?s ?edits ts = Some (op, p, s')"
    "snapshot_ok (with_insertion ts (inserted replace_all edits) ch) (s'\<lparr>sn_version := global_observe (sn_version ?s) ts\<rparr>)"
    "visible_text s' = splice_list (visible_text ?s) 0 (normalized replace_all ?edits)"
    "patch_describes (visible_text ?s) (visible_text s') p"
    "filter (\<lambda>c. fst c \<noteq> ts) (all_cells (tree_items (sn_fragments s'))) = all_cells (tree_items (sn_fragments ?s))"
    "pieces (tree_items (sn_fragments ?s)) ts (tree_items (sn_fragments s'))" "sn_undo_map s' = sn_undo_map ?s"
    "sn_version s' = sn_version ?s" "edit_timestamp op = ts"
    using apply_edit_internal_ok [OF ok(1) ts [unfolded buffer_version_def] fl, unfolded floored_texts] by blast
  obtain t where t: "publish p (bf_subscriptions b) = Some t" "topic_ok t"
    using publish_ok [OF ok(2) patch_describes_wf [OF s(4)]] by blast
  let ?b = "b\<lparr>bf_snapshot := s', bf_subscriptions := t\<rparr>"
  have "edited replace_all ?edits ts b ?b" unfolding edited_def using s(3-7) t(1) by auto
  moreover have "snapshot_ok (with_insertion ts (inserted replace_all edits) ch) (bf_snapshot (observe_version ?b ts))"
    using s(2,8) by (simp add: observe_version_def)
  moreover have "edits_to_offsets debug ?s edits = Some ?edits" using edits(2) by (simp add: edits_to_offsets_ok)
  ultimately show ?thesis using s(1,8,9) t by (intro exI [of _ op] exI [of _ ?b]) (simp add: apply_local_edit_def buffer_version_def)
qed

text \<open>With debug assertions, a range that cuts a character is a panic.\<close>

lemma buffer_edit_panics:
  assumes "debug" "\<not> on_chars (buffer_text b) edits"
  shows "buffer_edit debug replace_all b edits started ended = None"
  using assms by (simp add: buffer_edit_def apply_local_edit_def edits_to_offsets_ok start_transaction_at_def case_prod_beta Let_def)

section \<open>The history of an edit\<close>

text \<open>A transaction started now is not grouped with the one before it.\<close>

definition isolated :: "history \<Rightarrow> nat \<Rightarrow> bool" where
  "isolated h started \<longleftrightarrow> (undo_stack h \<noteq> [] \<longrightarrow>
     suppress_grouping (last (undo_stack h)) \<or> group_interval h \<le> started - last_edit_at (last (undo_stack h)))"

lemma group_alone:
  assumes "undo_stack h = us @ [e]" "us \<noteq> [] \<longrightarrow> suppress_grouping (last us) \<or> group_interval h \<le> first_edit_at e - last_edit_at (last us)"
  shows "\<exists>e'. group h = Some (Some (transaction_id e), h\<lparr>undo_stack := us @ [e']\<rparr>) \<and> transaction_id e' = transaction_id e \<and>
    edit_ids (transaction_of e') = edit_ids (transaction_of e)"
proof -
  have "group_count (group_interval h) e (rev us) = 0"
    using assms(2) by (cases us rule: rev_cases) auto
  then have "group h = group_trailing h 0" using assms(1) by (simp add: group_def)
  then show ?thesis using group_trailing_ok [of 0 h] assms(1) by auto
qed

text \<open>The start of a transaction: the current time is that of the edit.\<close>

lemma start_transaction_cases:
  "start_transaction h v now clk = (if transaction_depth h = 0
     then (Some clk, snd (lamport_tick clk), h\<lparr>transaction_depth := 1, undo_stack := undo_stack h @ [new_entry \<lparr>tx_id = clk, edit_ids = [], tx_start = v\<rparr> now]\<rparr>)
     else (None, clk, h\<lparr>transaction_depth := transaction_depth h + 1\<rparr>))"
  by (simp add: start_transaction_def Let_def lamport_tick_def)

lemma edit_history_ok:
  assumes h: "history_ok h" and fresh: "tm_map (operations h) (edit_timestamp op) = None"
  shows "\<exists>h2 h3 h'. history_push (snd (snd (start_transaction h v started clk))) (EditOp op) = Some h2 \<and>
    push_undo h2 (edit_timestamp op) = Some h3 \<and>
    (\<forall>b. \<exists>r. end_transaction_at (b\<lparr>bf_history := h3\<rparr>) ended = Some (r, b\<lparr>bf_history := h'\<rparr>)) \<and>
    history_ok h' \<and> transaction_depth h' = transaction_depth h \<and>
    tm_map (operations h') = (tm_map (operations h))(edit_timestamp op \<mapsto> EditOp op) \<and>
    (transaction_depth h = 0 \<and> isolated h started \<longrightarrow>
      (\<exists>e. undo_stack h' = undo_stack h @ [e] \<and> edit_ids (transaction_of e) = [edit_timestamp op]))"
proof -
  let ?ts = "edit_timestamp op" and ?h1 = "snd (snd (start_transaction h v started clk))"
  note h1 = start_transaction_keeps [OF h, of v started clk]
  have ops1: "operations ?h1 = operations h" by (simp add: start_transaction_cases)
  obtain m where m: "history_push ?h1 (EditOp op) = Some (?h1\<lparr>operations := m\<rparr>)" "history_ok (?h1\<lparr>operations := m\<rparr>)"
    "tm_map m = (tm_map (operations h))(?ts \<mapsto> EditOp op)"
    using history_push_fresh [OF h1, of "EditOp op"] fresh ops1 by auto
  let ?h2 = "?h1\<lparr>operations := m\<rparr>"
  have get: "tm_get m ?ts = Some (EditOp op)" using m(2,3) by (simp add: history_ok_def tm_get_eq)
  have "transaction_depth ?h1 \<noteq> 0" by (simp add: start_transaction_cases)
  moreover from this have us1: "undo_stack ?h1 \<noteq> []" using h1 by (simp add: history_ok_def)
  ultimately obtain e where u: "push_undo ?h2 ?ts = Some (?h2\<lparr>undo_stack := butlast (undo_stack ?h1) @ [e]\<rparr>)"
    "edit_ids (transaction_of e) = edit_ids (transaction_of (last (undo_stack ?h1))) @ [?ts]" "first_edit_at e = first_edit_at (last (undo_stack ?h1))"
    using get by (simp add: push_undo_def Let_def)
  let ?h3 = "?h2\<lparr>undo_stack := butlast (undo_stack ?h1) @ [e]\<rparr>"
  note h3 = push_undo_keeps [OF m(2) u(1)]
  show ?thesis
  proof (cases "transaction_depth h = 0")
    case False
    then have fin: "end_transaction ?h3 ended = Some (None, ?h3\<lparr>transaction_depth := transaction_depth h\<rparr>)"
      by (simp add: end_transaction_def Let_def start_transaction_cases)
    note end_transaction_keeps [OF h3 fin]
    moreover have "\<forall>b. \<exists>r. end_transaction_at (b\<lparr>bf_history := ?h3\<rparr>) ended = Some (r, b\<lparr>bf_history := ?h3\<lparr>transaction_depth := transaction_depth h\<rparr>\<rparr>)"
      using fin by (simp add: end_transaction_at_def)
    ultimately show ?thesis using m(1,3) u(1) False
      by (intro exI [of _ ?h2] exI [where x = ?h3] exI [where x = "?h3\<lparr>transaction_depth := transaction_depth h\<rparr>"]) simp
  next
    case True
    let ?e = "e\<lparr>last_edit_at := ended\<rparr>"
    let ?h4 = "?h3\<lparr>transaction_depth := 0, redo_stack := [], undo_stack := undo_stack h @ [?e]\<rparr>"
    have e: "edit_ids (transaction_of e) = [?ts]" "first_edit_at e = started"
      using u(2,3) True by (simp_all add: start_transaction_cases new_entry_def)
    have fin: "end_transaction ?h3 ended = Some (Some ?e, ?h4)"
      using True e(1) by (simp add: end_transaction_def Let_def start_transaction_cases)
    note h4 = end_transaction_keeps [OF h3 fin]
    obtain tid us where g: "group ?h4 = Some (tid, ?h4\<lparr>undo_stack := us\<rparr>)" "tid \<noteq> None"
      using group_ok [of ?h4] by auto
    have iso: "\<exists>e. us = undo_stack h @ [e] \<and> edit_ids (transaction_of e) = [?ts]" if "isolated h started"
      using group_alone [of ?h4 "undo_stack h" ?e] that g(1) e True by (auto simp: isolated_def start_transaction_cases dest: arg_cong [where f = undo_stack])
    have "\<forall>b. \<exists>r. end_transaction_at (b\<lparr>bf_history := ?h3\<rparr>) ended = Some (r, b\<lparr>bf_history := ?h4\<lparr>undo_stack := us\<rparr>\<rparr>)"
      using fin g by (auto simp: end_transaction_at_def)
    then show ?thesis using m(1,3) u(1) True iso group_keeps [OF h4 g(1)]
      by (intro exI [of _ ?h2] exI [where x = ?h3] exI [where x = "?h4\<lparr>undo_stack := us\<rparr>"]) simp
  qed
qed

section \<open>Editing a buffer\<close>

text \<open>The time of the next edit: starting a transaction takes one tick of its own.\<close>

definition edit_time :: "buffer \<Rightarrow> lamport" where
  "edit_time b = (if transaction_depth (bf_history b) = 0 then snd (lamport_tick (bf_clock b)) else bf_clock b)"

lemma edit_time_ok:
  assumes "buffer_ok ch b" "ticks_left b 2"
  shows "global_get (buffer_version b) (lreplica (edit_time b)) < lvalue (edit_time b)" "unat (lvalue (edit_time b)) + 1 < 2 ^ 32"
    "edit_time b \<noteq> base_timestamp" "lvalue (bf_clock b) \<le> lvalue (edit_time b)" "1 < lvalue (edit_time b)"
    "unat (lvalue (edit_time b)) \<le> unat (lvalue (bf_clock b)) + 1"
proof -
  let ?clk = "bf_clock b"
  have b: "global_get (buffer_version b) (lreplica ?clk) < lvalue ?clk" "unat (lvalue ?clk) + 2 < 2 ^ 32"
    "transaction_depth (bf_history b) \<noteq> 0 \<longrightarrow> 1 < lvalue ?clk"
    using assms by (auto simp: buffer_ok_def Let_def buffer_version_def ticks_left_def)
  have "0 < lvalue ?clk" using b(1) by (metis word_gt_0 word_not_simps(1))
  then have pos: "0 < unat (lvalue ?clk)" by (simp add: word_less_nat_alt)
  have n: "unat (lvalue ?clk + 1) = unat (lvalue ?clk) + 1" using b(2) word_less_Suc [of "lvalue ?clk"] by simp
  show "global_get (buffer_version b) (lreplica (edit_time b)) < lvalue (edit_time b)" "unat (lvalue (edit_time b)) + 1 < 2 ^ 32"
    "lvalue ?clk \<le> lvalue (edit_time b)" "unat (lvalue (edit_time b)) \<le> unat (lvalue ?clk) + 1"
    using b n by (auto simp: edit_time_def lamport_tick_def word_less_nat_alt word_le_nat_alt)
  show *: "1 < lvalue (edit_time b)"
    using b(3) pos n by (auto simp: edit_time_def lamport_tick_def word_less_nat_alt)
  show "edit_time b \<noteq> base_timestamp"
    using * by (auto simp: base_timestamp_def lamport_new_def)
qed

lemma counts_ok_mono: "counts_ok m clk \<Longrightarrow> lvalue clk \<le> lvalue clk' \<Longrightarrow> counts_ok m clk'"
  unfolding counts_ok_def by (meson order.strict_trans2)

lemma buffer_edit_ok:
  assumes ok: "buffer_ok ch b" and left: "ticks_left b 2"
    and edits: "ranges_ordered (length (buffer_text b)) 0 edits" "debug \<longrightarrow> on_chars (buffer_text b) edits" "texts_ok replace_all edits"
  defines "ts \<equiv> edit_time b"
  shows "\<exists>op b'. buffer_edit debug replace_all b edits started ended = Some (EditOp op, b') \<and> edit_timestamp op = ts \<and>
    buffer_ok (with_insertion ts (inserted replace_all edits) ch) b' \<and> edited replace_all (floored (buffer_text b) edits) ts b b' \<and>
    bf_clock b' = snd (lamport_tick ts) \<and> buffer_version b' = global_observe (buffer_version b) ts \<and>
    transaction_depth (bf_history b') = transaction_depth (bf_history b) \<and>
    (transaction_depth (bf_history b) = 0 \<and> isolated (bf_history b) started \<longrightarrow>
      (\<exists>e. undo_stack (bf_history b') = undo_stack (bf_history b) @ [e] \<and> edit_ids (transaction_of e) = [ts]))"
proof -
  let ?h = "bf_history b" and ?v = "buffer_version b" and ?ch = "with_insertion ts (inserted replace_all edits) ch"
  let ?st = "start_transaction ?h ?v started (bf_clock b)"
  have s: "snapshot_ok ch (bf_snapshot b)" "history_ok ?h" "topic_ok (bf_subscriptions b)" "operations_ok ?h ?v" "counts_ok (buffer_undos b) (bf_clock b)"
    using ok by (auto simp: buffer_ok_def Let_def buffer_version_def)
  note t = edit_time_ok [OF ok left, folded ts_def]
  note ahead = tick_ahead [OF t(1,2)] and fresh = tick_fresh [OF t(1)]
  let ?b1 = "b\<lparr>bf_history := snd (snd ?st), bf_clock := snd (lamport_tick ts)\<rparr>"
  have clk: "fst (snd ?st) = ts" by (simp add: start_transaction_cases ts_def edit_time_def)
  have "snapshot_ok ch (bf_snapshot ?b1)" "topic_ok (bf_subscriptions ?b1)" "\<not> global_observed (buffer_version ?b1) ts"
    "ranges_ordered (length (buffer_text ?b1)) 0 edits" "debug \<longrightarrow> on_chars (buffer_text ?b1) edits" using s edits fresh by (simp_all add: buffer_version_def)
  then obtain op b2 where b2: "apply_local_edit debug replace_all ?b1 edits ts = Some (op, b2)" "edit_timestamp op = ts"
    "edited replace_all (floored (buffer_text b) edits) ts ?b1 b2" "snapshot_ok ?ch (bf_snapshot (observe_version b2 ts))" "topic_ok (bf_subscriptions b2)"
    "buffer_version b2 = buffer_version ?b1" "bf_history b2 = bf_history ?b1" "bf_clock b2 = bf_clock ?b1"
    using apply_local_edit_ok [of ch ?b1 ts edits debug replace_all] edits(3) by fastforce
  have none: "tm_map (operations ?h) ts = None" using s(4) fresh by (auto simp: operations_ok_def)
  obtain h2 h3 h' where h: "history_push (snd (snd ?st)) (EditOp op) = Some h2" "push_undo h2 ts = Some h3"
    "\<forall>b. \<exists>r. end_transaction_at (b\<lparr>bf_history := h3\<rparr>) ended = Some (r, b\<lparr>bf_history := h'\<rparr>)"
    "history_ok h'" "transaction_depth h' = transaction_depth ?h" "tm_map (operations h') = (tm_map (operations ?h))(ts \<mapsto> EditOp op)"
    "transaction_depth ?h = 0 \<and> isolated ?h started \<longrightarrow> (\<exists>e. undo_stack h' = undo_stack ?h @ [e] \<and> edit_ids (transaction_of e) = [ts])"
    using edit_history_ok [OF s(2), of op ?v started "bf_clock b" ended] none b2(2) by auto
  let ?b = "(observe_version b2 ts)\<lparr>bf_history := h'\<rparr>"
  have obs: "(observe_version b2 ts)\<lparr>bf_history := h3\<rparr> = observe_version (b2\<lparr>bf_history := h3\<rparr>) ts" by (simp add: observe_version_def)
  obtain r where "end_transaction_at (observe_version (b2\<lparr>bf_history := h3\<rparr>) ts) ended = Some (r, ?b)"
    using h(3) unfolding obs [symmetric] by blast
  then have run: "buffer_edit debug replace_all b edits started ended = Some (EditOp op, ?b)"
    using b2(1,2,7) h(1,2) clk by (simp add: buffer_edit_def start_transaction_at_def case_prod_beta Let_def lamport_tick_def)
  have "edited replace_all (floored (buffer_text b) edits) ts ?b1 b2 = edited replace_all (floored (buffer_text b) edits) ts b ?b" unfolding edited_def observe_version_def by simp
  then have ed: "edited replace_all (floored (buffer_text b) edits) ts b ?b" using b2(3) by blast
  have ver: "buffer_version ?b = global_observe ?v ts" using b2(6) by (simp add: observe_version_def buffer_version_def)
  have "operations_ok h' (global_observe ?v ts)"
    using s(4) t(3) observed_observe by (auto simp: operations_ok_def h(6) known_edit_def)
  moreover have "counts_ok (buffer_undos ?b) (snd (lamport_tick ts))"
    using s(5) ed t(4) ahead(2) by (auto simp: edited_def intro: counts_ok_mono)
  moreover have "1 < lvalue (snd (lamport_tick ts))" using t(5) ahead(2) by (rule less_trans)
  ultimately have "buffer_ok ?ch ?b"
    using b2(4,5,8) h(4) ahead(1) ver by (simp add: buffer_ok_def Let_def buffer_version_def observe_version_def)
  then show ?thesis using run b2(2,8) ed ver h(5,7) by (intro exI [of _ op] exI [of _ ?b]) (simp add: observe_version_def)
qed

section \<open>Undoing an edit\<close>

text \<open>The pieces that an edit leaves show, once it is undone, the cells that were visible before.\<close>

lemma cells_under_undone:
  assumes dist: "distinct (all_cells xs)" and old: "\<forall>f\<in>set xs. frag_visible f = shown m f" and new: "\<And>f. f \<in> set xs \<Longrightarrow> ts \<notin> edits_of f"
    and out: "filter (\<lambda>c. fst c \<noteq> ts) (all_cells out) = all_cells xs" "pieces xs ts out"
    and m: "\<not> undone m ts" "\<forall>e. undone m' e \<longleftrightarrow> undone m e \<noteq> (e = ts)"
  shows "cells_under m' out = cells_under m xs"
  unfolding cells_under_def
proof (rule pieces_select [OF dist new out])
  fix f g assume f: "f \<in> set xs" "part_of g f"
  note n = new [OF f(1)]
  show "shown m' g = shown m f" if "deletions g = deletions f"
    using that f(2) n m(2) by (auto simp: shown_def part_of_def edits_of_def)
  show "shown m' g = shown m f" if "deletions g = deletions f @ [ts]" "frag_visible f"
  proof -
    have "shown m f" using old f(1) that(2) by simp
    then show ?thesis using that(1) f(2) n m by (auto simp: shown_def part_of_def edits_of_def)
  qed
next
  show "\<not> shown m' g" if "frag_timestamp g = ts" for g using that m by (simp add: shown_def)
qed

lemma undo_edited:
  assumes ok: "buffer_ok ch b" and ts: "\<not> global_observed (buffer_version b) ts" and e: "edited replace_all edits ts b b1"
    and f: "flipped (with_insertion ts tx ch) {ts} b1 b2"
  shows "buffer_text b2 = buffer_text b"
proof -
  let ?xs = "buffer_fragments b" and ?m = "buffer_undos b"
  have s: "distinct (all_cells ?xs)" "\<forall>f\<in>set ?xs. frag_visible f = shown ?m f" "visible_text (bf_snapshot b) = map ch (vis_cells ?xs)"
    "\<And>t. t \<in> known_times (bf_snapshot b) \<Longrightarrow> global_observed (buffer_version b) t"
    using ok by (auto simp: buffer_ok_def snapshot_ok_def Let_def frags_ok_def buffer_version_def)
  have fresh: "ts \<notin> known_times (bf_snapshot b)" using s(4) ts by blast
  have new: "ts \<notin> edits_of f" if "f \<in> set ?xs" for f using that fresh by (auto simp: known_times_def)
  have "\<not> undone ?m ts" using fresh by (intro undone_new) (auto simp: known_times_def undo_times_def)
  moreover have "\<forall>e. undone (buffer_undos b2) e \<longleftrightarrow> undone ?m e \<noteq> (e = ts)" using f e by (simp add: flipped_def edited_def)
  ultimately have "cells_under (buffer_undos b2) (buffer_fragments b1) = cells_under ?m ?xs"
    using cells_under_undone [OF s(1,2) new] e by (simp add: edited_def)
  also have "\<dots> = vis_cells ?xs" using vis_cells_under [OF s(2)] by simp
  finally have "buffer_text b2 = map (with_insertion ts tx ch) (vis_cells ?xs)" using f by (simp add: flipped_def)
  moreover have "ts \<notin> frag_timestamp ` set ?xs" using new by (auto simp: edits_of_def)
  ultimately show ?thesis using with_insertion_old(1) [of ts ?xs tx ch] s(3) by simp
qed

section \<open>Round trips\<close>

text \<open>An edit that is a transaction of its own is undone by the next undo.\<close>

lemma edit_then_undo:
  assumes ok: "buffer_ok ch b" and left: "ticks_left b 3"
    and edits: "ranges_ordered (length (buffer_text b)) 0 edits" "debug \<longrightarrow> on_chars (buffer_text b) edits" "texts_ok replace_all edits"
    and alone: "transaction_depth (bf_history b) = 0" "isolated (bf_history b) started"
  shows "\<exists>op b1 tid op' b2. buffer_edit debug replace_all b edits started ended = Some (op, b1) \<and>
    buffer_text b1 = splice_list (buffer_text b) 0 (normalized replace_all (floored (buffer_text b) edits)) \<and>
    buffer_undo b1 = Some (Some (tid, op'), b2) \<and> buffer_text b2 = buffer_text b \<and>
    buffer_ok (with_insertion (edit_time b) (inserted replace_all edits) ch) b2"
proof -
  let ?ts = "edit_time b" and ?ch = "with_insertion (edit_time b) (inserted replace_all edits) ch"
  have left2: "ticks_left b 2" using left by (simp add: ticks_left_def)
  note t = edit_time_ok [OF ok left2]
  obtain op b1 e where b1: "buffer_edit debug replace_all b edits started ended = Some (EditOp op, b1)" "buffer_ok ?ch b1"
    "edited replace_all (floored (buffer_text b) edits) ?ts b b1" "bf_clock b1 = snd (lamport_tick ?ts)" "transaction_depth (bf_history b1) = 0"
    "undo_stack (bf_history b1) = undo_stack (bf_history b) @ [e]" "edit_ids (transaction_of e) = [?ts]"
    using buffer_edit_ok [OF ok left2 edits, of started ended] alone by auto
  have "unat (lvalue (bf_clock b1)) \<le> unat (lvalue (bf_clock b)) + 2"
    using b1(4) t(2,6) word_less_Suc [of "lvalue ?ts"] by (simp add: lamport_tick_def)
  then have left1: "ticks_left b1 1" using left by (simp add: ticks_left_def)
  obtain op' b2 where b2: "buffer_undo b1 = Some (Some (transaction_id e, op'), b2)" "buffer_ok ?ch b2" "flipped ?ch {?ts} b1 b2"
    using buffer_undo_ok [OF b1(2) left1 b1(5)] b1(6,7) by auto
  have "buffer_text b2 = buffer_text b" using undo_edited [OF ok tick_fresh [OF t(1)] b1(3) b2(3)] .
  then show ?thesis using b1(1,3) b2(1,2) by (auto simp: edited_def)
qed

lemma undo_then_redo:
  assumes ok: "buffer_ok ch b" and left: "ticks_left b 2" and depth: "transaction_depth (bf_history b) = 0"
    and ne: "undo_stack (bf_history b) \<noteq> []"
  shows "\<exists>tid op b1 op' b2. buffer_undo b = Some (Some (tid, op), b1) \<and> buffer_redo b1 = Some (Some (tid, op'), b2) \<and>
    buffer_text b2 = buffer_text b \<and> undo_stack (bf_history b2) = undo_stack (bf_history b) \<and>
    redo_stack (bf_history b2) = redo_stack (bf_history b) \<and> buffer_ok ch b2"
proof -
  let ?h = "bf_history b" and ?e = "last (undo_stack (bf_history b))"
  have left1: "ticks_left b 1" using left by (simp add: ticks_left_def)
  obtain op b1 m where b1: "buffer_undo b = Some (Some (transaction_id ?e, op), b1)" "buffer_ok ch b1"
    "flipped ch (set (edit_ids (transaction_of ?e))) b b1" "bf_clock b1 = snd (lamport_tick (bf_clock b))"
    "bf_history b1 = ?h\<lparr>undo_stack := butlast (undo_stack ?h), redo_stack := redo_stack ?h @ [?e], operations := m\<rparr>"
    using buffer_undo_ok [OF ok left1 depth ne] by blast
  have "unat (lvalue (bf_clock b1)) = unat (lvalue (bf_clock b)) + 1"
    using b1(4) left word_less_Suc [of "lvalue (bf_clock b)"] by (simp add: lamport_tick_def ticks_left_def)
  then have left2: "ticks_left b1 1" using left by (simp add: ticks_left_def)
  have h1: "transaction_depth (bf_history b1) = 0" "redo_stack (bf_history b1) \<noteq> []" "last (redo_stack (bf_history b1)) = ?e"
    using b1(5) depth by simp_all
  obtain op' b2 m' where b2: "buffer_redo b1 = Some (Some (transaction_id ?e, op'), b2)" "buffer_ok ch b2"
    "flipped ch (set (edit_ids (transaction_of ?e))) b1 b2"
    "bf_history b2 = (bf_history b1)\<lparr>redo_stack := butlast (redo_stack (bf_history b1)), undo_stack := undo_stack (bf_history b1) @ [?e], operations := m'\<rparr>"
    using buffer_redo_ok [OF b1(2) left2 h1(1,2)] h1(3) by auto
  have "undo_stack (bf_history b2) = undo_stack ?h" "redo_stack (bf_history b2) = redo_stack ?h"
    using b2(4) b1(5) ne by simp_all
  then show ?thesis using b1(1) b2(1,2) flipped_twice(1) [OF ok b1(3) b2(3)] by blast
qed

section \<open>A new buffer\<close>

text \<open>The byte of a cell of the text that a buffer is created with.\<close>

definition base_char :: "string \<Rightarrow> cell \<Rightarrow> char" where
  "base_char text c = text ! snd c"

lemma base_cells: "map (base_char text) (map (Pair ts) [0..<length text]) = text"
  by (rule nth_equalityI) (simp_all add: base_char_def)

lemma base_fragment_ok:
  fixes t :: fragment_tree and i :: insertion_tree
  assumes "0 < n" "n < 2 ^ 32"
  defines "f \<equiv> base_fragment base_timestamp \<lparr>bl_fragments = t, bl_insertions = i, bl_offset = 0, bl_prev = locator_min\<rparr> n"
  shows "frag_ok f" "cells f = map (Pair base_timestamp) [0..<n]" "frag_visible f" "deletions f = []" "frag_timestamp f = base_timestamp"
    "insertion_offset f = 0"
proof -
  have "locator_min < locator_between locator_min locator_max" by (rule locator_between_greater)
  moreover have "locator_between locator_min locator_max < locator_max"
    using locator_between_less [of locator_min locator_max] locator_min_less_max by simp
  ultimately show "frag_ok f" using assms locator_between_ok by (simp add: frag_ok_def f_def base_fragment_def u32_of_small)
qed (use assms in \<open>simp_all add: f_def base_fragment_def cells_def u32_of_small\<close>)

lemma base_loop_ok:
  assumes "text \<noteq> []" "length text < 2 ^ 32"
  shows "\<exists>f st. base_loop text 0 base_timestamp \<lparr>bl_fragments = st_new frag_item, bl_insertions = st_new insertion_item, bl_offset = 0, bl_prev = locator_min\<rparr> = Some st \<and>
    wf_tree frag_item (bl_fragments st) \<and> tree_items (bl_fragments st) = [f] \<and>
    wf_tree insertion_item (bl_insertions st) \<and> tree_items (bl_insertions st) = [insertion_fragment_new f] \<and>
    frag_ok f \<and> cells f = map (Pair base_timestamp) [0..<length text] \<and> frag_visible f \<and> deletions f = [] \<and> frag_timestamp f = base_timestamp \<and>
    insertion_offset f = 0"
proof -
  let ?st = "\<lparr>bl_fragments = st_new frag_item, bl_insertions = st_new insertion_item, bl_offset = 0, bl_prev = locator_min\<rparr>"
  let ?f = "base_fragment base_timestamp ?st (length text)"
  obtain t where t: "push frag_item (st_new frag_item) ?f = Some t" "wf_tree frag_item t" "tree_items t = [?f]"
    using frag_laws.push_ok [of "st_new frag_item" ?f] by auto
  obtain i where i: "push insertion_item (st_new insertion_item) (insertion_fragment_new ?f) = Some i" "wf_tree insertion_item i"
    "tree_items i = [insertion_fragment_new ?f]"
    using insertion_laws.push_ok [of "st_new insertion_item" "insertion_fragment_new ?f"] by auto
  have "base_loop text 0 base_timestamp ?st = Some \<lparr>bl_fragments = t, bl_insertions = i, bl_offset = u32_of (0 + u32_of (length text)), bl_prev = frag_id ?f\<rparr>"
    using assms t(1) i(1) by (subst base_loop.simps) (simp add: chunk_end_small Let_def usize_sub_def base_loop.simps)
  then show ?thesis using t i base_fragment_ok [of "length text" "st_new frag_item" "st_new insertion_item"] assms by auto
qed

lemma slice_set_default [simp]: "slice_set ts_default = {}"
  by (simp add: slice_set_def ts_default_def tm_default_ok)

lemma undo_times_default [simp]: "undo_times um_default = {}" "\<not> undone um_default e"
  by (simp_all add: undo_times_def undone_def um_default_ok)

text \<open>The base text of a new buffer is its visible text, and the invariant holds.\<close>

lemma new_normalized_ok:
  assumes "length text < 2 ^ 32" "starts_on_char text"
  shows "\<exists>b. new_normalized replica remote_id ending text = Some b \<and> buffer_ok (base_char text) b \<and> buffer_text b = text \<and>
    bf_history b = history_new text \<and> buffer_undos b = um_default \<and> lreplica (bf_clock b) = replica \<and> lvalue (bf_clock b) \<le> 2 \<and>
    sn_line_ending (bf_snapshot b) = ending"
proof -
  have h: "history_ok (history_new text)" "transaction_depth (history_new text) = 0" "operations_ok (history_new text) v" for v
    using history_new_ok by (simp_all add: history_new_def operations_ok_def known_edit_def tm_default_ok)
  have counts: "counts_ok um_default clk" for clk by (simp add: counts_ok_def um_default_ok)
  let ?s = "\<lambda>frags ins version. \<lparr>visible_text = text, deleted_text = [], sn_fragments = frags, sn_insertions = ins,
             sn_slices = ts_default, sn_undo_map = um_default, sn_version = version, sn_remote_id = remote_id,
             sn_replica_id = replica, sn_line_ending = ending\<rparr>"
  let ?b = "\<lambda>frags ins clk version. \<lparr>bf_snapshot = ?s frags ins version, bf_history = history_new text, bf_clock = clk, bf_subscriptions = topic_default\<rparr>"
  have tm: "tm_ok ts_default" by (simp add: ts_default_def tm_default_ok)
  show ?thesis
  proof (cases "text = []")
    case True
    have "snapshot_ok (base_char text) (?s (st_new frag_item) (st_new insertion_item) global_new)"
      using True tm by (auto simp: snapshot_ok_def Let_def frags_ok_def insertions_ok_def um_default_ok slices_cover_def known_times_def all_cells_def insertion_order_def intro: exI [of _ "0 :: nat"])
    then have "buffer_ok (base_char text) (?b (st_new frag_item) (st_new insertion_item) (lamport_new replica) global_new)"
      using h counts topic_default_ok by (simp add: buffer_ok_def Let_def lamport_new_def)
    then show ?thesis using True by (simp add: new_normalized_def lamport_new_def history_new_def)
  next
    case False
    obtain f st where l: "base_loop text 0 base_timestamp \<lparr>bl_fragments = st_new frag_item, bl_insertions = st_new insertion_item, bl_offset = 0, bl_prev = locator_min\<rparr> = Some st"
      "wf_tree frag_item (bl_fragments st)" "tree_items (bl_fragments st) = [f]" "wf_tree insertion_item (bl_insertions st)"
      "tree_items (bl_insertions st) = [insertion_fragment_new f]"
      and f: "frag_ok f" "cells f = map (Pair base_timestamp) [0..<length text]" "frag_visible f" "deletions f = []" "frag_timestamp f = base_timestamp"
        "insertion_offset f = 0"
      using base_loop_ok [OF False assms(1)] by blast
    let ?v = "global_observe global_new base_timestamp" and ?clk = "lamport_observe (lamport_new replica) base_timestamp"
    have "distinct (cells f)" by (simp add: f(2) distinct_map inj_on_def)
    moreover have "map (base_char text) (cells f) = text" using base_cells f(2) by simp
    moreover have "starts_ok (base_char text) [f]"
      using f(1,5,6) assms(2) False by (simp add: frag_ok_def base_char_def starts_on_char_def hd_conv_nth)
    moreover have order: "insertion_order (cells f)"
    proof -
      have "map snd (filter (\<lambda>c. fst c = ts) (cells f)) = [0..<if base_timestamp = ts then length text else 0]" for ts
        by (simp add: f(2) filter_map comp_def)
      then show ?thesis unfolding insertion_order_def by blast
    qed
    moreover have "base_timestamp \<noteq> lamport_MIN" by (simp add: base_timestamp_def lamport_new_def lamport_MIN_def)
    moreover have "edits_of f = {base_timestamp}" using f(4,5) by (simp add: edits_of_def)
    ultimately have s: "snapshot_ok (base_char text) (?s (bl_fragments st) (bl_insertions st) ?v)"
      using l(2-5) f tm observed_observe by (simp add: snapshot_ok_def Let_def frags_ok_def insertions_ok_def um_default_ok slices_cover_def
        known_times_def all_cells_def shown_def order undos_seen_def)
    have "global_get ?v replica \<le> 1" by (simp add: global_get_observe base_timestamp_def lamport_new_def)
    then have "global_get ?v replica < 2" by (rule order.strict_trans1) simp
    then have "buffer_ok (base_char text) (?b (bl_fragments st) (bl_insertions st) ?clk ?v)"
      using s h counts topic_default_ok by (simp add: buffer_ok_def Let_def lamport_new_def lamport_observe_def base_timestamp_def)
    moreover have "new_normalized replica remote_id ending text = Some (?b (bl_fragments st) (bl_insertions st) ?clk ?v)"
      using False l(1) by (simp add: new_normalized_def Let_def history_new_def base_timestamp_def)
    ultimately show ?thesis by (auto simp: lamport_observe_def lamport_new_def base_timestamp_def)
  qed
qed

section \<open>Editing a copy\<close>

text \<open>The values of a version after observing a timestamp.\<close>

lemma gvalues_observe: "x \<in> set (gvalues (global_observe v ts)) \<Longrightarrow> x = 0 \<or> x = lvalue ts \<or> x \<in> set (gvalues v)"
  by (auto simp: global_observe_def vec_resize_def max_def Let_def in_set_conv_nth nth_append nth_list_update split: if_splits dest: in_set_takeD)

lemma length_observe: "length (gvalues (global_observe v ts)) \<le> max (length (gvalues v)) (Suc (unat (as_u16 (lreplica ts))))"
  by (simp add: global_observe_def vec_resize_def Let_def)

lemma new_normalized_clock:
  assumes "new_normalized replica remote_id ending text = Some b"
  shows "\<forall>x\<in>set (gvalues (buffer_version b)). x < lvalue (bf_clock b)" "length (gvalues (buffer_version b)) \<le> 1"
  using assms length_observe [of global_new "lamport_new LOCAL"]
  by (auto simp: new_normalized_def buffer_version_def Let_def lamport_observe_def lamport_new_def LOCAL_def global_new_def
      split: if_splits bind_splits dest!: gvalues_observe)

lemma observe_all_ahead:
  assumes "\<forall>t\<in>set ts. lvalue t < lvalue c" "unat (lvalue c) + length ts < 2 ^ 32"
  shows "lreplica (foldl lamport_observe c ts) = lreplica c \<and> lvalue c \<le> lvalue (foldl lamport_observe c ts)"
  using assms
proof (induction ts arbitrary: c)
  case (Cons t ts)
  let ?c = "lamport_observe c t"
  have c: "lreplica ?c = lreplica c" "lvalue ?c = lvalue c + 1" using Cons.prems(1) by (auto simp: lamport_observe_def max_def)
  have n: "lvalue c < lvalue ?c" "unat (lvalue ?c) = unat (lvalue c) + 1" using Cons.prems(2) word_less_Suc [of "lvalue c"] c(2) by simp_all
  have "\<forall>t\<in>set ts. lvalue t < lvalue ?c" "unat (lvalue ?c) + length ts < 2 ^ 32" using Cons.prems n by (auto intro: less_trans)
  from Cons.IH [OF this] c(1) n(1) show ?case by auto
qed simp

lemma not_changed_since_self: "\<not> global_changed_since v v"
  by (auto simp: global_changed_since_def list_ex_iff set_zip)

lemma iter_values: "t \<in> set (global_iter v) \<Longrightarrow> lvalue t \<in> set (gvalues v)"
  by (auto simp: in_set_conv_nth nth_global_iter)

lemma snapshot_with_edits_ok:
  assumes ok: "buffer_ok ch b" and ahead: "\<forall>x\<in>set (gvalues (buffer_version b)). x < lvalue (bf_clock b)"
    and left: "ticks_left b (2 + length (gvalues (global_observe (buffer_version b) (bf_clock b))))"
    and edits: "ranges_ordered (length (buffer_text b)) 0 edits" "debug \<longrightarrow> on_chars (buffer_text b) edits" "texts_ok replace_all edits"
    and ne: "edits \<noteq> []"
  defines "ch' \<equiv> with_insertion (bf_clock b) (inserted replace_all edits) ch"
  shows "\<exists>e clk b'. snapshot_with_edits debug replace_all b edits = Some (e, b\<lparr>bf_clock := clk\<rparr>) \<and> eb_did_edit e \<and>
    eb_base_version e = buffer_version b \<and> snapshot_ok ch' (eb_snapshot e) \<and>
    visible_text (eb_snapshot e) = splice_list (buffer_text b) 0 (normalized replace_all (floored (buffer_text b) edits)) \<and>
    fast_forward (b\<lparr>bf_clock := clk\<rparr>) e = Some b' \<and> bf_snapshot b' = eb_snapshot e \<and> bf_history b' = bf_history b \<and> buffer_ok ch' b'"
proof -
  let ?s = "bf_snapshot b" and ?ts = "bf_clock b"
  let ?edits = "floored (visible_text ?s) edits" and ?v = "global_observe (buffer_version b) (bf_clock b)" and ?clk = "snd (lamport_tick (bf_clock b))"
  have b: "snapshot_ok ch ?s" "history_ok (bf_history b)" "topic_ok (bf_subscriptions b)" "operations_ok (bf_history b) (buffer_version b)"
    "counts_ok (buffer_undos b) ?ts" "global_get (buffer_version b) (lreplica ?ts) < lvalue ?ts"
    using ok by (auto simp: buffer_ok_def Let_def buffer_version_def)
  have room: "unat (lvalue ?ts) + 1 < 2 ^ 32" using left by (simp add: ticks_left_def)
  note tick = tick_ahead [OF b(6) room] and fresh = tick_fresh [OF b(6)]
  have fl: "ranges_ordered (length (visible_text ?s)) 0 ?edits" "on_chars (visible_text ?s) ?edits" "texts_ok replace_all ?edits"
    using floored_ordered [OF edits(1)] floored_on_chars edits(3) by (simp_all add: floored_texts rope_floor_id)
  obtain op p s' where s: "apply_edit_internal replace_all ?s ?edits ?ts = Some (op, p, s')"
    "snapshot_ok ch' (s'\<lparr>sn_version := ?v\<rparr>)" "visible_text s' = splice_list (visible_text ?s) 0 (normalized replace_all ?edits)"
    "sn_undo_map s' = sn_undo_map ?s" "sn_version s' = sn_version ?s"
    using apply_edit_internal_ok [OF b(1) fresh [unfolded buffer_version_def] fl, unfolded floored_texts] unfolding ch'_def buffer_version_def by blast
  let ?e = "\<lparr>eb_base_version = buffer_version b, eb_snapshot = s'\<lparr>sn_version := ?v\<rparr>, eb_did_edit = True\<rparr>"
  have "?edits \<noteq> []" using ne by (simp add: floored_def)
  then have run: "snapshot_with_edits debug replace_all b edits = Some (?e, b\<lparr>bf_clock := ?clk\<rparr>)"
    using s(1,5) edits(2) by (simp add: snapshot_with_edits_def edits_to_offsets_ok lamport_tick_def buffer_version_def Let_def)
  let ?c = "foldl lamport_observe ?clk (global_iter ?v)"
  have "x < lvalue ?clk" if "x \<in> set (gvalues ?v)" for x
  proof -
    have "0 < lvalue ?clk" using tick(2) by (rule order.strict_trans1 [rotated]) simp
    then show ?thesis using gvalues_observe [OF that] ahead tick(2) by (auto intro: less_trans)
  qed
  then have "\<forall>t\<in>set (global_iter ?v). lvalue t < lvalue ?clk" using iter_values by blast
  moreover have "unat (lvalue ?clk) + length (global_iter ?v) < 2 ^ 32"
    using left room word_less_Suc [of "lvalue ?ts"] by (simp add: ticks_left_def lamport_tick_def)
  ultimately have c: "lreplica ?c = lreplica ?ts" "lvalue ?clk \<le> lvalue ?c" using observe_all_ahead tick(3) by auto
  let ?b = "b\<lparr>bf_clock := ?c, bf_snapshot := s'\<lparr>sn_version := ?v\<rparr>\<rparr>"
  have ff: "fast_forward (b\<lparr>bf_clock := ?clk\<rparr>) ?e = Some ?b"
    by (simp add: fast_forward_def buffer_version_def not_changed_since_self)
  have "1 < lvalue ?c" if "transaction_depth (bf_history b) \<noteq> 0"
    using ok that tick(2) c(2) by (auto simp: buffer_ok_def Let_def intro: less_trans order.strict_trans2)
  moreover have "operations_ok (bf_history b) ?v" using b(4) observed_observe by (auto simp: operations_ok_def)
  moreover have "counts_ok (sn_undo_map s') ?c" using b(5) s(4) tick(2) c(2) by (auto intro: counts_ok_mono)
  moreover have "global_get ?v (lreplica ?c) < lvalue ?c" using tick(1,3) c by (auto intro: order.strict_trans2)
  ultimately have "buffer_ok ch' ?b" using b(2,3) s(2) by (simp add: buffer_ok_def Let_def known_times_def)
  then show ?thesis using run ff s(2,3) by (intro exI [of _ ?e] exI [of _ ?clk] exI [of _ ?b]) simp
qed

end
