(* ===== verification/Anchor.thy ===== *)
theory Anchor
  imports Buffer_Undo Sum_Find Selection
begin

text \<open>
  Anchors, \<^verbatim>\<open>crates/text/src/anchor.rs\<close>, and how a snapshot creates and resolves them, \<^verbatim>\<open>BufferSnapshot\<close> of
  \<^verbatim>\<open>crates/text/src/text.rs\<close>. An anchor names a byte of an insertion and the side of it that it is attached to. Some
  checks are made in builds with debug assertions only: \<open>debug\<close> says whether the build has them. The outer option is
  \<open>None\<close> for a panic.
\<close>

section \<open>Anchors\<close>

datatype anchor = Anchor (an_timestamp: lamport) (an_offset: nat) (an_bias: bias) (an_buffer_id: buffer_id)

definition U32_MAX :: nat where
  "U32_MAX = 2 ^ 32 - 1"

definition min_for_buffer :: "buffer_id \<Rightarrow> anchor" where
  "min_for_buffer b = Anchor lamport_MIN 0 Left b"

definition max_for_buffer :: "buffer_id \<Rightarrow> anchor" where
  "max_for_buffer b = Anchor lamport_MAX U32_MAX Right b"

definition anchor_is_min :: "anchor \<Rightarrow> bool" where
  "anchor_is_min a \<longleftrightarrow> an_timestamp a = lamport_MIN \<and> an_offset a = 0 \<and> an_bias a = Left"

definition anchor_is_max :: "anchor \<Rightarrow> bool" where
  "anchor_is_max a \<longleftrightarrow> an_timestamp a = lamport_MAX \<and> an_offset a = U32_MAX \<and> an_bias a = Right"

definition min_min_range_for_buffer :: "buffer_id \<Rightarrow> anchor \<times> anchor" where
  "min_min_range_for_buffer b = (min_for_buffer b, min_for_buffer b)"

definition max_max_range_for_buffer :: "buffer_id \<Rightarrow> anchor \<times> anchor" where
  "max_max_range_for_buffer b = (max_for_buffer b, max_for_buffer b)"

definition min_max_range_for_buffer :: "buffer_id \<Rightarrow> anchor \<times> anchor" where
  "min_max_range_for_buffer b = (min_for_buffer b, max_for_buffer b)"

text \<open>The twenty bytes that identify an anchor; the last one stays zero.\<close>

definition to_le_bytes :: "nat \<Rightarrow> 'w::len word \<Rightarrow> 8 word list" where
  "to_le_bytes n w = map (\<lambda>i. ucast (drop_bit (8 * i) w)) [0..<n]"

fun bias_as_u8 :: "bias \<Rightarrow> 8 word" where
  "bias_as_u8 Left = 0"
| "bias_as_u8 Right = 1"

definition opaque_id :: "anchor \<Rightarrow> 8 word list" where
  "opaque_id a = to_le_bytes 8 (buffer_id_value (an_buffer_id a)) @ to_le_bytes 4 (word_of_nat (an_offset a) :: u32) @
     to_le_bytes 4 (lvalue (an_timestamp a)) @ to_le_bytes 2 (as_u16 (lreplica (an_timestamp a))) @
     [bias_as_u8 (an_bias a), 0]"

section \<open>Creating anchors\<close>

definition anchor_at_offset :: "bool \<Rightarrow> buffer_snapshot \<Rightarrow> nat \<Rightarrow> bias \<Rightarrow> anchor option" where
  "anchor_at_offset debug s offset bias =
     (if bias = Left \<and> offset = 0 then Some (min_for_buffer (sn_remote_id s))
      else if bias = Right \<and> (\<not> debug \<and> length (visible_text s) \<le> offset \<or> offset = length (visible_text s))
      then Some (max_for_buffer (sn_remote_id s))
      else do {
        boundary \<leftarrow> assert_char_boundary debug (visible_text s) offset;
        let offset = (if boundary then offset
          else case bias of Left \<Rightarrow> rope_floor (visible_text s) offset | Right \<Rightarrow> rope_ceil (visible_text s) offset);
        let (start, _, item) = st_find usize_dim (sn_fragments s) (ord_cmp offset) bias;
        (case item of
           None \<Rightarrow> if debug then None else Some (max_for_buffer (sn_remote_id s))
         | Some f \<Rightarrow> do {
             overshoot \<leftarrow> usize_sub offset start;
             Some (Anchor (frag_timestamp f) (u32_of (insertion_offset f + u32_of overshoot)) bias (sn_remote_id s)) }) })"

text \<open>The public operations, at positions that are offsets.\<close>

definition anchor_at :: "bool \<Rightarrow> buffer_snapshot \<Rightarrow> nat \<Rightarrow> bias \<Rightarrow> anchor option" where
  "anchor_at debug s position bias = do { offset \<leftarrow> usize_to_offset debug s position; anchor_at_offset debug s offset bias }"

definition anchor_before :: "bool \<Rightarrow> buffer_snapshot \<Rightarrow> nat \<Rightarrow> anchor option" where
  "anchor_before debug s position = anchor_at debug s position Left"

definition anchor_after :: "bool \<Rightarrow> buffer_snapshot \<Rightarrow> nat \<Rightarrow> anchor option" where
  "anchor_after debug s position = anchor_at debug s position Right"

definition anchor_range_inside :: "bool \<Rightarrow> buffer_snapshot \<Rightarrow> nat \<times> nat \<Rightarrow> (anchor \<times> anchor) option" where
  "anchor_range_inside debug s r = do {
     a \<leftarrow> anchor_after debug s (fst r); b \<leftarrow> anchor_before debug s (snd r); Some (a, b) }"

definition anchor_range_outside :: "bool \<Rightarrow> buffer_snapshot \<Rightarrow> nat \<times> nat \<Rightarrow> (anchor \<times> anchor) option" where
  "anchor_range_outside debug s r = do {
     a \<leftarrow> anchor_before debug s (fst r); b \<leftarrow> anchor_after debug s (snd r); Some (a, b) }"

section \<open>Resolving anchors\<close>

definition anchor_key :: "anchor \<Rightarrow> insertion_key" where
  "anchor_key a = InsertionKey (an_timestamp a) (an_offset a)"

definition try_find_fragment :: "buffer_snapshot \<Rightarrow> anchor \<Rightarrow> insertion_fragment option option" where
  "try_find_fragment s a = do {
     (_, _, found) \<leftarrow> find_with_prev insertion_dim (sn_insertions s) (ord_cmp (anchor_key a)) (an_bias a);
     (case found of
        Some (prev, insertion) \<Rightarrow>
          (let comparison = ord_cmp (insertion_key_of insertion) (anchor_key a) in
           Some (if comparison = Greater \<or> an_bias a = Left \<and> comparison = Equal \<and> 0 < an_offset a
                 then prev else Some insertion))
      | None \<Rightarrow> last_item (sn_insertions s)) }"

definition try_fragment_id_for_anchor :: "bool \<Rightarrow> buffer_snapshot \<Rightarrow> anchor \<Rightarrow> locator option option" where
  "try_fragment_id_for_anchor debug s a =
     (if anchor_is_min a then Some (Some locator_min)
      else if anchor_is_max a then Some (Some locator_max)
      else do {
        item \<leftarrow> try_find_fragment s a;
        Some (case item of
          None \<Rightarrow> None
        | Some i \<Rightarrow> if \<not> debug \<or> ins_timestamp i = an_timestamp a then Some (ins_fragment_id i) else None) })"

definition fragment_id_for_anchor :: "bool \<Rightarrow> buffer_snapshot \<Rightarrow> anchor \<Rightarrow> locator option" where
  "fragment_id_for_anchor debug s a = do { fid \<leftarrow> try_fragment_id_for_anchor debug s a; fid }"

definition offset_for_anchor :: "bool \<Rightarrow> buffer_snapshot \<Rightarrow> anchor \<Rightarrow> nat option" where
  "offset_for_anchor debug s a =
     (if anchor_is_min a then Some 0
      else if anchor_is_max a then Some (length (visible_text s))
      else if debug \<and> (an_buffer_id a \<noteq> sn_remote_id s \<or> \<not> global_observed (sn_version s) (an_timestamp a)) then None
      else do {
        item \<leftarrow> try_find_fragment s a;
        insertion \<leftarrow> (case item of
            None \<Rightarrow> None | Some i \<Rightarrow> if ins_timestamp i = an_timestamp a then Some i else None);
        let (start, _, found) = st_find id_dim (sn_fragments s) (id_target (ins_fragment_id insertion)) Left;
        f \<leftarrow> found;
        if frag_visible f then do {
          n \<leftarrow> usize_sub (an_offset a) (split_offset insertion);
          Some (snd start + n)
        } else Some (snd start) })"

definition can_resolve :: "buffer_snapshot \<Rightarrow> anchor \<Rightarrow> bool" where
  "can_resolve s a \<longleftrightarrow> sn_remote_id s = an_buffer_id a \<and>
     (anchor_is_min a \<or> anchor_is_max a \<or> global_observed (sn_version s) (an_timestamp a))"

definition anchor_is_valid :: "bool \<Rightarrow> buffer_snapshot \<Rightarrow> anchor \<Rightarrow> bool option" where
  "anchor_is_valid debug s a =
     (if an_buffer_id a \<noteq> sn_remote_id s then Some False
      else if anchor_is_min a \<or> anchor_is_max a then Some True
      else do {
        fid \<leftarrow> try_fragment_id_for_anchor debug s a;
        Some (case fid of
          None \<Rightarrow> False
        | Some fid \<Rightarrow> (case snd (snd (st_find id_dim (sn_fragments s) (id_target fid) Left)) of
            None \<Rightarrow> False | Some f \<Rightarrow> frag_visible f)) })"

section \<open>Comparing anchors\<close>

fun bias_cmp :: "bias \<Rightarrow> bias \<Rightarrow> ordering" where
  "bias_cmp Left Left = Equal"
| "bias_cmp Left Right = Less"
| "bias_cmp Right Left = Greater"
| "bias_cmp Right Right = Equal"

definition anchor_cmp :: "bool \<Rightarrow> buffer_snapshot \<Rightarrow> anchor \<Rightarrow> anchor \<Rightarrow> ordering option" where
  "anchor_cmp debug s a b = do {
     by_fragment \<leftarrow> (if an_timestamp a = an_timestamp b then Some Equal
       else do { i \<leftarrow> fragment_id_for_anchor debug s a; j \<leftarrow> fragment_id_for_anchor debug s b; Some (ord_cmp i j) });
     Some (then_with (then_with by_fragment (ord_cmp (an_offset a) (an_offset b))) (bias_cmp (an_bias a) (an_bias b))) }"

definition anchor_min :: "bool \<Rightarrow> buffer_snapshot \<Rightarrow> anchor \<Rightarrow> anchor \<Rightarrow> anchor option" where
  "anchor_min debug s a b = do { c \<leftarrow> anchor_cmp debug s a b; Some (if c \<noteq> Greater then a else b) }"

definition anchor_max :: "bool \<Rightarrow> buffer_snapshot \<Rightarrow> anchor \<Rightarrow> anchor \<Rightarrow> anchor option" where
  "anchor_max debug s a b = do { c \<leftarrow> anchor_cmp debug s a b; Some (if c \<noteq> Less then a else b) }"

definition bias_left :: "bool \<Rightarrow> buffer_snapshot \<Rightarrow> anchor \<Rightarrow> anchor option" where
  "bias_left debug s a = (case an_bias a of
     Left \<Rightarrow> Some a
   | Right \<Rightarrow> do { offset \<leftarrow> offset_for_anchor debug s a; anchor_at_offset debug s offset Left })"

definition bias_right :: "bool \<Rightarrow> buffer_snapshot \<Rightarrow> anchor \<Rightarrow> anchor option" where
  "bias_right debug s a = (case an_bias a of
     Left \<Rightarrow> do { offset \<leftarrow> offset_for_anchor debug s a; anchor_at_offset debug s offset Right }
   | Right \<Rightarrow> Some a)"

definition anchor_bias :: "bool \<Rightarrow> buffer_snapshot \<Rightarrow> bias \<Rightarrow> anchor \<Rightarrow> anchor option" where
  "anchor_bias debug s bias a = (case bias of Left \<Rightarrow> bias_left debug s a | Right \<Rightarrow> bias_right debug s a)"

text \<open>\<^verbatim>\<open>AnchorRangeExt\<close>: comparisons are made from left to right and stop at the first that decides.\<close>

definition anchor_range_cmp :: "bool \<Rightarrow> buffer_snapshot \<Rightarrow> anchor \<times> anchor \<Rightarrow> anchor \<times> anchor \<Rightarrow> ordering option" where
  "anchor_range_cmp debug s a b = do {
     c \<leftarrow> anchor_cmp debug s (fst a) (fst b);
     if c = Equal then anchor_cmp debug s (snd b) (snd a) else Some c }"

definition anchor_range_overlaps :: "bool \<Rightarrow> buffer_snapshot \<Rightarrow> anchor \<times> anchor \<Rightarrow> anchor \<times> anchor \<Rightarrow> bool option" where
  "anchor_range_overlaps debug s a b = do {
     c \<leftarrow> anchor_cmp debug s (fst a) (snd b);
     if c = Less then do { d \<leftarrow> anchor_cmp debug s (fst b) (snd a); Some (d = Less) } else Some False }"

definition contains_anchor :: "bool \<Rightarrow> buffer_snapshot \<Rightarrow> anchor \<times> anchor \<Rightarrow> anchor \<Rightarrow> bool option" where
  "contains_anchor debug s a b = do {
     c \<leftarrow> anchor_cmp debug s (fst a) b;
     if c \<noteq> Greater then do { d \<leftarrow> anchor_cmp debug s (snd a) b; Some (d \<noteq> Less) } else Some False }"

section \<open>Measuring text\<close>

text \<open>
  At the dimension \<^verbatim>\<open>usize\<close> the summary of a range is its number of bytes. Its ends are converted like any other
  offset, also the one an anchor resolves to.
\<close>

definition text_summary_for_range :: "bool \<Rightarrow> buffer_snapshot \<Rightarrow> nat \<times> nat \<Rightarrow> nat option" where
  "text_summary_for_range debug s r = do {
     start \<leftarrow> usize_to_offset debug s (fst r);
     fin \<leftarrow> usize_to_offset debug s (snd r);
     (n, _) \<leftarrow> rope_count (visible_text s) start fin;
     Some n }"

definition summary_for_anchor :: "bool \<Rightarrow> buffer_snapshot \<Rightarrow> anchor \<Rightarrow> nat option" where
  "summary_for_anchor debug s a = do { offset \<leftarrow> offset_for_anchor debug s a; text_summary_for_range debug s (0, offset) }"

text \<open>\<^verbatim>\<open>Selection<Anchor>::resolve\<close> at the dimension \<^verbatim>\<open>usize\<close>.\<close>

definition selection_resolve ::
  "bool \<Rightarrow> buffer_snapshot \<Rightarrow> (anchor, 'f, 'h) selection \<Rightarrow> (nat, 'f, 'h) selection option" where
  "selection_resolve debug s sel = do {
     a \<leftarrow> summary_for_anchor debug s (sel_start sel);
     b \<leftarrow> summary_for_anchor debug s (sel_end sel);
     Some \<lparr>sel_id = sel_id sel, sel_start = a, sel_end = b, reversed = reversed sel, goal = goal sel\<rparr> }"

end
