(* ===== verification/Versions.thy ===== *)
theory Versions
  imports Anchor Cursor_Search
begin

text \<open>
  Looking back from a snapshot, \<^verbatim>\<open>BufferSnapshot\<close> of \<^verbatim>\<open>crates/text/src/text.rs\<close>: the text at a past version
  (\<^verbatim>\<open>rope_for_version\<close>), the iterator \<^verbatim>\<open>Edits\<close> over the edits since a version, whether there are any, offsets translated
  back to a version, and the offsets of many anchors in one pass. Positions are at the dimension \<^verbatim>\<open>usize\<close>.

  The loops over fragments go through a cursor until it has no item; they are partial functions, and \<open>None\<close> stands
  for a panic as for a loop that does not end. An iterator is modelled by the list it yields.
\<close>

section \<open>The text at a version\<close>

text \<open>The filter of the cursors over what a version has not observed.\<close>

definition unseen :: "global \<Rightarrow> fragment_summary \<Rightarrow> bool" where
  "unseen version s \<longleftrightarrow> \<not> global_observed_all version (global_of (max_version s))"

record version_pass =
  vp_cursor :: text_cursor
  vp_visible :: nat
  vp_deleted :: nat
  vp_rope :: string

definition version_catch_up :: "buffer_snapshot \<Rightarrow> version_pass \<Rightarrow> version_pass option" where
  "version_catch_up s st =
     (let start = text_visible (c_position (vp_cursor st)) in
      if vp_visible st < start then do {
        (text, at) \<leftarrow> rope_cut (visible_text s) (vp_visible st) start;
        Some (st\<lparr>vp_visible := at, vp_rope := vp_rope st @ text\<rparr>)
      } else Some st)"

definition version_step :: "buffer_snapshot \<Rightarrow> global \<Rightarrow> fragment \<Rightarrow> version_pass \<Rightarrow> version_pass option" where
  "version_step s version f st = do {
     st \<leftarrow> version_catch_up s st;
     was \<leftarrow> was_visible f version (sn_undo_map s);
     fin \<leftarrow> cursor_end text_dim (vp_cursor st);
     st \<leftarrow> (if was then
         (if frag_visible f then do {
            (text, at) \<leftarrow> rope_cut (visible_text s) (vp_visible st) (text_visible fin);
            Some (st\<lparr>vp_visible := at, vp_rope := vp_rope st @ text\<rparr>)
          } else do {
            at \<leftarrow> rope_seek (deleted_text s) (vp_deleted st) (text_deleted (c_position (vp_cursor st)));
            (text, at) \<leftarrow> rope_cut (deleted_text s) at (text_deleted fin);
            Some (st\<lparr>vp_deleted := at, vp_rope := vp_rope st @ text\<rparr>) })
       else if frag_visible f then do {
         at \<leftarrow> rope_seek (visible_text s) (vp_visible st) (text_visible fin);
         Some (st\<lparr>vp_visible := at\<rparr>)
       } else Some st);
     c \<leftarrow> filter_next text_dim (unseen version) (vp_cursor st);
     Some (st\<lparr>vp_cursor := c\<rparr>) }"

partial_function (option) version_loop :: "buffer_snapshot \<Rightarrow> global \<Rightarrow> version_pass \<Rightarrow> version_pass option" where
  "version_loop s version st = do {
     item \<leftarrow> cursor_item (vp_cursor st);
     (case item of
        None \<Rightarrow> Some st
      | Some f \<Rightarrow> do { st \<leftarrow> version_step s version f st; version_loop s version st }) }"

declare version_loop.simps [code]

definition rope_for_version :: "buffer_snapshot \<Rightarrow> global \<Rightarrow> string option" where
  "rope_for_version s version = do {
     c \<leftarrow> filter_next text_dim (unseen version) (cursor_new text_dim (sn_fragments s));
     st \<leftarrow> version_loop s version \<lparr>vp_cursor = c, vp_visible = 0, vp_deleted = 0, vp_rope = []\<rparr>;
     st \<leftarrow> version_catch_up s st;
     Some (vp_rope st) }"

section \<open>Whether anything has changed\<close>

type_synonym offset_cursor = "(fragment, fragment_summary, nat) cursor"

partial_function (option) changed_loop :: "buffer_snapshot \<Rightarrow> global \<Rightarrow> offset_cursor \<Rightarrow> bool option" where
  "changed_loop s since c = do {
     item \<leftarrow> cursor_item c;
     (case item of
        None \<Rightarrow> Some False
      | Some f \<Rightarrow> do {
          was \<leftarrow> was_visible f since (sn_undo_map s);
          if was \<noteq> frag_visible f then Some True
          else do { c \<leftarrow> filter_next usize_dim (unseen since) c; changed_loop s since c } }) }"

declare changed_loop.simps [code]

definition has_edits_since :: "buffer_snapshot \<Rightarrow> global \<Rightarrow> bool option" where
  "has_edits_since s since =
     (if since \<noteq> sn_version s then do {
        c \<leftarrow> filter_next usize_dim (unseen since) (cursor_new usize_dim (sn_fragments s));
        changed_loop s since c
      } else Some False)"

partial_function (option) changed_in_range_loop ::
  "buffer_snapshot \<Rightarrow> global \<Rightarrow> locator \<Rightarrow> locator \<Rightarrow> offset_cursor \<Rightarrow> bool option" where
  "changed_in_range_loop s since lo hi c = do {
     item \<leftarrow> cursor_item c;
     (case item of
        None \<Rightarrow> Some False
      | Some f \<Rightarrow>
          if hi < frag_id f then Some False
          else do {
            changed \<leftarrow> (if lo < frag_id f then do {
                was \<leftarrow> was_visible f since (sn_undo_map s); Some (was \<noteq> frag_visible f)
              } else Some False);
            if changed then Some True
            else do { c \<leftarrow> filter_next usize_dim (unseen since) c; changed_in_range_loop s since lo hi c } }) }"

declare changed_in_range_loop.simps [code]

definition has_edits_since_in_range :: "bool \<Rightarrow> buffer_snapshot \<Rightarrow> global \<Rightarrow> anchor \<times> anchor \<Rightarrow> bool option" where
  "has_edits_since_in_range debug s since rng =
     (if since \<noteq> sn_version s then do {
        lo \<leftarrow> fragment_id_for_anchor debug s (fst rng);
        hi \<leftarrow> fragment_id_for_anchor debug s (snd rng);
        c \<leftarrow> filter_next usize_dim (unseen since) (cursor_new usize_dim (sn_fragments s));
        changed_in_range_loop s since lo hi c
      } else Some False)"

section \<open>The edits since a version\<close>

text \<open>
  The state of \<^verbatim>\<open>Edits\<close>: the offsets of its rope cursors, its cursor over fragments (always present), the ends of the
  old and the new text it has been through, and the range. The snapshot and the version are arguments of the operations.
\<close>

record edits =
  es_visible :: nat
  es_deleted :: nat
  es_cursor :: text_cursor
  es_old_end :: nat
  es_new_end :: nat
  es_start :: "locator \<times> nat"
  es_end :: "locator \<times> nat"

type_synonym anchored_edit = "text_edit \<times> anchor \<times> anchor"

definition edits_catch_up :: "buffer_snapshot \<Rightarrow> edits \<Rightarrow> edits option" where
  "edits_catch_up s st =
     (let start = text_visible (c_position (es_cursor st)) in
      if es_visible st < start then do {
        (n, at) \<leftarrow> rope_count (visible_text s) (es_visible st) start;
        Some (st\<lparr>es_visible := at, es_old_end := es_old_end st + n, es_new_end := es_new_end st + n\<rparr>)
      } else Some st)"

definition fragment_anchors :: "buffer_id \<Rightarrow> fragment \<Rightarrow> anchor \<times> anchor" where
  "fragment_anchors b f =
     (Anchor (frag_timestamp f) (insertion_offset f) Right b,
      Anchor (frag_timestamp f) (u32_of (insertion_offset f + frag_len f)) Left b)"

text \<open>The end of a fragment, clipped to the end of the range if the range ends in the fragment.\<close>

definition clipped_end :: "locator \<times> nat \<Rightarrow> fragment \<Rightarrow> nat \<Rightarrow> nat \<Rightarrow> nat option" where
  "clipped_end range_end f start fin =
     (if frag_id f = fst range_end
      then do { n \<leftarrow> usize_sub (snd range_end) (insertion_offset f); Some (min fin (start + n)) }
      else Some fin)"

definition extend_pending ::
  "(text_edit \<Rightarrow> text_edit) \<Rightarrow> text_edit \<Rightarrow> anchor \<times> anchor \<Rightarrow> anchored_edit option \<Rightarrow> anchored_edit option" where
  "extend_pending grow e anchors pending = (case pending of
     Some (edit, a, _) \<Rightarrow> Some (grow edit, a, snd anchors)
   | None \<Rightarrow> Some (e, anchors))"

definition edits_change ::
  "buffer_snapshot \<Rightarrow> global \<Rightarrow> fragment \<Rightarrow> anchored_edit option \<Rightarrow> edits \<Rightarrow> (anchored_edit option \<times> edits) option" where
  "edits_change s since f pending st = do {
     let start = c_position (es_cursor st);
     let anchors = fragment_anchors (sn_remote_id s) f;
     fin \<leftarrow> cursor_end text_dim (es_cursor st);
     was \<leftarrow> was_visible f since (sn_undo_map s);
     if \<not> was \<and> frag_visible f then do {
       visible_end \<leftarrow> clipped_end (es_end st) f (text_visible start) (text_visible fin);
       (n, at) \<leftarrow> rope_count (visible_text s) (es_visible st) visible_end;
       let new_end = es_new_end st + n;
       let e = \<lparr>eo_start = es_old_end st, eo_end = es_old_end st, en_start = es_new_end st, en_end = new_end\<rparr>;
       Some (extend_pending (\<lambda>edit. edit\<lparr>en_end := new_end\<rparr>) e anchors pending, st\<lparr>es_visible := at, es_new_end := new_end\<rparr>)
     } else if was \<and> \<not> frag_visible f then do {
       deleted_end \<leftarrow> clipped_end (es_end st) f (text_deleted start) (text_deleted fin);
       at \<leftarrow> (if es_deleted st < text_deleted start then rope_seek (deleted_text s) (es_deleted st) (text_deleted start)
              else Some (es_deleted st));
       (n, at) \<leftarrow> rope_count (deleted_text s) at deleted_end;
       let old_end = es_old_end st + n;
       let e = \<lparr>eo_start = es_old_end st, eo_end = old_end, en_start = es_new_end st, en_end = es_new_end st\<rparr>;
       Some (extend_pending (\<lambda>edit. edit\<lparr>eo_end := old_end\<rparr>) e anchors pending, st\<lparr>es_deleted := at, es_old_end := old_end\<rparr>)
     } else Some (pending, st) }"

partial_function (option) edits_loop ::
  "buffer_snapshot \<Rightarrow> global \<Rightarrow> anchored_edit option \<Rightarrow> edits \<Rightarrow> (anchored_edit option \<times> edits) option" where
  "edits_loop s since pending st = do {
     item \<leftarrow> cursor_item (es_cursor st);
     (case item of
        None \<Rightarrow> Some (pending, st)
      | Some f \<Rightarrow>
          if frag_id f < fst (es_start st) then do {
            c \<leftarrow> filter_next text_dim (unseen since) (es_cursor st);
            edits_loop s since pending (st\<lparr>es_cursor := c\<rparr>)
          } else if fst (es_end st) < frag_id f then Some (pending, st)
          else do {
            st \<leftarrow> edits_catch_up s st;
            if (case pending of None \<Rightarrow> False | Some (edit, _) \<Rightarrow> en_end edit < es_new_end st) then Some (pending, st)
            else do {
              (pending, st) \<leftarrow> edits_change s since f pending st;
              c \<leftarrow> filter_next text_dim (unseen since) (es_cursor st);
              edits_loop s since pending (st\<lparr>es_cursor := c\<rparr>) } }) }"

declare edits_loop.simps [code]

definition edits_next :: "buffer_snapshot \<Rightarrow> global \<Rightarrow> edits \<Rightarrow> (anchored_edit option \<times> edits) option" where
  "edits_next s since st = edits_loop s since None st"

partial_function (option) edits_collect :: "buffer_snapshot \<Rightarrow> global \<Rightarrow> edits \<Rightarrow> anchored_edit list option" where
  "edits_collect s since st = do {
     (e, st) \<leftarrow> edits_next s since st;
     (case e of
        None \<Rightarrow> Some []
      | Some e \<Rightarrow> do { es \<leftarrow> edits_collect s since st; Some (e # es) }) }"

declare edits_collect.simps [code]

text \<open>The dimension of the lookup of the start of the range.\<close>

definition place_dim :: "(fragment_summary, locator option \<times> fragment_text_summary) dim_impl" where
  "place_dim = pair_dim locator_dim text_dim"

definition edits_in_range :: "bool \<Rightarrow> buffer_snapshot \<Rightarrow> global \<Rightarrow> anchor \<times> anchor \<Rightarrow> edits option" where
  "edits_in_range debug s since rng = do {
     c \<leftarrow> filter_next text_dim (unseen since) (cursor_new text_dim (sn_fragments s));
     lo \<leftarrow> fragment_id_for_anchor debug s (fst rng);
     let (start, _, item) = st_find place_dim (sn_fragments s) (pair_target (ord_cmp (Some lo))) Left;
     (v, d) \<leftarrow> (case item of
         None \<Rightarrow> Some (text_visible (snd start), text_deleted (snd start))
       | Some f \<Rightarrow> do {
           overshoot \<leftarrow> usize_sub (an_offset (fst rng)) (insertion_offset f);
           Some (if frag_visible f then (text_visible (snd start) + overshoot, text_deleted (snd start))
                 else (text_visible (snd start), text_deleted (snd start) + overshoot)) });
     hi \<leftarrow> fragment_id_for_anchor debug s (snd rng);
     Some \<lparr>es_visible = v, es_deleted = d, es_cursor = c, es_old_end = 0, es_new_end = 0,
       es_start = (lo, an_offset (fst rng)), es_end = (hi, an_offset (snd rng))\<rparr> }"

definition anchored_edits_since_in_range ::
  "bool \<Rightarrow> buffer_snapshot \<Rightarrow> global \<Rightarrow> anchor \<times> anchor \<Rightarrow> anchored_edit list option" where
  "anchored_edits_since_in_range debug s since rng =
     (if since = sn_version s then Some []
      else do { st \<leftarrow> edits_in_range debug s since rng; edits_collect s since st })"

definition edits_since_in_range :: "bool \<Rightarrow> buffer_snapshot \<Rightarrow> global \<Rightarrow> anchor \<times> anchor \<Rightarrow> patch option" where
  "edits_since_in_range debug s since rng = do {
     es \<leftarrow> anchored_edits_since_in_range debug s since rng; Some (map fst es) }"

definition anchored_edits_since :: "bool \<Rightarrow> buffer_snapshot \<Rightarrow> global \<Rightarrow> anchored_edit list option" where
  "anchored_edits_since debug s since =
     anchored_edits_since_in_range debug s since (min_for_buffer (sn_remote_id s), max_for_buffer (sn_remote_id s))"

definition edits_since :: "bool \<Rightarrow> buffer_snapshot \<Rightarrow> global \<Rightarrow> patch option" where
  "edits_since debug s since =
     edits_since_in_range debug s since (min_for_buffer (sn_remote_id s), max_for_buffer (sn_remote_id s))"

section \<open>Offsets at a past version\<close>

text \<open>The loop for one offset: the result, the edits that are left, and the ends of the last edit passed.\<close>

fun offset_to_version :: "patch \<Rightarrow> nat \<Rightarrow> nat \<Rightarrow> nat \<Rightarrow> nat \<times> patch \<times> nat \<times> nat" where
  "offset_to_version [] last_old last_new offset = (last_old + (offset - last_new), [], last_old, last_new)"
| "offset_to_version (e # es) last_old last_new offset =
     (if offset < en_start e then (last_old + (offset - last_new), e # es, last_old, last_new)
      else if en_end e \<le> offset then offset_to_version es (eo_end e) (en_end e) offset
      else (min (eo_start e + (offset - en_start e)) (eo_end e), e # es, last_old, last_new))"

fun offsets_loop :: "patch \<Rightarrow> nat \<Rightarrow> nat \<Rightarrow> nat list \<Rightarrow> nat list" where
  "offsets_loop es last_old last_new [] = []"
| "offsets_loop es last_old last_new (offset # offsets) =
     (let (old, es, last_old, last_new) = offset_to_version es last_old last_new offset
      in old # offsets_loop es last_old last_new offsets)"

definition offsets_to_version :: "bool \<Rightarrow> buffer_snapshot \<Rightarrow> nat list \<Rightarrow> global \<Rightarrow> nat list option" where
  "offsets_to_version debug s offsets version = do {
     es \<leftarrow> edits_since debug s version; Some (offsets_loop es 0 0 offsets) }"

definition range_to_version :: "bool \<Rightarrow> buffer_snapshot \<Rightarrow> nat \<times> nat \<Rightarrow> global \<Rightarrow> (nat \<times> nat) option" where
  "range_to_version debug s rng version = do {
     offsets \<leftarrow> offsets_to_version debug s [fst rng, snd rng] version;
     Some (offsets ! 0, offsets ! 1) }"

section \<open>Many anchors in one pass\<close>

record anchor_pass =
  ap_cursor :: "(fragment, fragment_summary, locator option \<times> nat) cursor"
  ap_text :: nat
  ap_position :: nat

definition anchor_step :: "buffer_snapshot \<Rightarrow> anchor \<Rightarrow> anchor_pass \<Rightarrow> (nat \<times> anchor_pass) option" where
  "anchor_step s a st =
     (if anchor_is_min a then Some (0, st)
      else if anchor_is_max a then Some (length (visible_text s), st)
      else do {
        item \<leftarrow> try_find_fragment s a;
        insertion \<leftarrow> item;
        if ins_timestamp insertion \<noteq> an_timestamp a then None
        else do {
          (_, c) \<leftarrow> seek_forward id_dim (ap_cursor st) (id_target (ins_fragment_id insertion)) Left;
          found \<leftarrow> cursor_item c;
          f \<leftarrow> found;
          offset \<leftarrow> (if frag_visible f
             then do { n \<leftarrow> usize_sub (an_offset a) (split_offset insertion); Some (snd (c_position c) + n) }
             else Some (snd (c_position c)));
          (n, at) \<leftarrow> rope_count (visible_text s) (ap_text st) offset;
          Some (ap_position st + n, \<lparr>ap_cursor = c, ap_text = at, ap_position = ap_position st + n\<rparr>) } })"

fun anchor_steps :: "buffer_snapshot \<Rightarrow> (anchor \<times> 't) list \<Rightarrow> anchor_pass \<Rightarrow> (nat \<times> 't) list option" where
  "anchor_steps s [] st = Some []"
| "anchor_steps s ((a, payload) # anchors) st = do {
     (n, st) \<leftarrow> anchor_step s a st;
     rest \<leftarrow> anchor_steps s anchors st;
     Some ((n, payload) # rest) }"

definition summaries_for_anchors_with_payload :: "buffer_snapshot \<Rightarrow> (anchor \<times> 't) list \<Rightarrow> (nat \<times> 't) list option" where
  "summaries_for_anchors_with_payload s anchors =
     anchor_steps s anchors \<lparr>ap_cursor = cursor_new id_dim (sn_fragments s), ap_text = 0, ap_position = 0\<rparr>"

definition summaries_for_anchors :: "buffer_snapshot \<Rightarrow> anchor list \<Rightarrow> nat list option" where
  "summaries_for_anchors s anchors = do {
     rs \<leftarrow> summaries_for_anchors_with_payload s (map (\<lambda>a. (a, ())) anchors); Some (map fst rs) }"

end
