(* ===== verification/Anchor_Correct.thy ===== *)
theory Anchor_Correct
  imports Anchor Undo_Correct
begin

text \<open>
  Anchors resolve to the place of the byte they are attached to: the number of visible bytes before it, or up to and
  including it for an anchor with bias to the left. The place does not depend on how the insertions have been split into
  fragments, so an anchor follows its byte through edits and undos.
\<close>

section \<open>The place of an anchor\<close>

definition anchor_cell :: "anchor \<Rightarrow> cell" where
  "anchor_cell a = (an_timestamp a, if an_bias a = Left then an_offset a - 1 else an_offset a)"

definition attached :: "fragment list \<Rightarrow> anchor \<Rightarrow> bool" where
  "attached fs a \<longleftrightarrow> anchor_cell a \<in> set (all_cells fs) \<and> (an_bias a = Left \<longrightarrow> 0 < an_offset a)"

definition anchor_place :: "fragment list \<Rightarrow> anchor \<Rightarrow> nat" where
  "anchor_place fs a =
     length (filter (\<lambda>c. c \<in> set (vis_cells fs)) (takeWhile (\<lambda>c. c \<noteq> anchor_cell a) (all_cells fs))) +
     (if an_bias a = Left \<and> anchor_cell a \<in> set (vis_cells fs) then 1 else 0)"

lemma vis_cell_iff:
  assumes "distinct (all_cells fs)" "f \<in> set fs" "c \<in> set (cells f)"
  shows "c \<in> set (vis_cells fs) \<longleftrightarrow> frag_visible f"
proof -
  have "c \<in> set (vis_cells fs) \<longleftrightarrow> (\<exists>g\<in>set fs. frag_visible g \<and> c \<in> set (cells g))" by (auto simp: vis_cells_def)
  then show ?thesis using assms(2,3) cells_disjoint [OF assms(1,2) _ assms(3)] by blast
qed

lemma vis_cells_filter:
  assumes "distinct (all_cells fs)" "set gs \<subseteq> set fs"
  shows "filter (\<lambda>c. c \<in> set (vis_cells fs)) (all_cells gs) = vis_cells gs"
  unfolding vis_cells_def [of gs]
  by (rule cells_by_fragment [symmetric]) (use vis_cell_iff [OF assms(1)] assms(2) in auto)

lemma takeWhile_before: "c \<notin> set xs \<Longrightarrow> takeWhile (\<lambda>d. d \<noteq> c) (xs @ c # ys) = xs"
  by (induction xs) auto

lemma takeWhile_cells:
  assumes "distinct (all_cells fs)" "k < length fs" "c \<in> set (cells (fs ! k))"
  shows "takeWhile (\<lambda>d. d \<noteq> c) (all_cells fs) =
    all_cells (take k fs) @ map (Pair (frag_timestamp (fs ! k))) [insertion_offset (fs ! k)..<snd c]"
proof -
  let ?f = "fs ! k" and ?o = "insertion_offset (fs ! k)"
  have "fs = take k fs @ ?f # drop (Suc k) fs" using assms(2) by (rule id_take_nth_drop)
  then have all: "all_cells fs = all_cells (take k fs) @ cells ?f @ all_cells (drop (Suc k) fs)" by (metis cells_simps(2,3))
  have c: "c = (frag_timestamp ?f, snd c)" "?o \<le> snd c" "snd c < ?o + frag_len ?f" using assms(3) by (auto simp: cells_def)
  then obtain d where d: "?o + frag_len ?f = snd c + Suc d" by (metis less_iff_Suc_add add_Suc_right)
  have "[?o..<?o + frag_len ?f] = [?o..<snd c] @ snd c # [Suc (snd c)..<?o + frag_len ?f]"
    unfolding d using upt_add_eq_append [OF c(2), of "Suc d"] by (simp add: upt_conv_Cons)
  then have f: "cells ?f = map (Pair (frag_timestamp ?f)) [?o..<snd c] @ c # map (Pair (frag_timestamp ?f)) [Suc (snd c)..<?o + frag_len ?f]"
    using c(1) by (simp add: cells_def)
  have "c \<notin> set (all_cells (take k fs))" using assms(1,3) unfolding all by auto
  moreover have "c \<notin> set (map (Pair (frag_timestamp ?f)) [?o..<snd c])" using c(1) by auto
  ultimately show ?thesis
    using takeWhile_before [of c "all_cells (take k fs) @ map (Pair (frag_timestamp ?f)) [?o..<snd c]"] unfolding all f by simp
qed

lemma anchor_place_at:
  assumes "distinct (all_cells fs)" "k < length fs" "anchor_cell a \<in> set (cells (fs ! k))" "an_bias a = Left \<longrightarrow> 0 < an_offset a"
  shows "anchor_place fs a = vis_at fs k + (if frag_visible (fs ! k) then an_offset a - insertion_offset (fs ! k) else 0)"
    and "insertion_offset (fs ! k) \<le> an_offset a"
proof -
  let ?f = "fs ! k" and ?c = "anchor_cell a"
  have f: "?f \<in> set fs" using assms(2) by simp
  have c: "fst ?c = frag_timestamp ?f" "insertion_offset ?f \<le> snd ?c" "snd ?c < insertion_offset ?f + frag_len ?f"
    using assms(3) by (auto simp: cells_def)
  have "set (map (Pair (frag_timestamp ?f)) [insertion_offset ?f..<snd ?c]) \<subseteq> set (cells ?f)" using c(3) by (auto simp: cells_def)
  then have "filter (\<lambda>c. c \<in> set (vis_cells fs)) (map (Pair (frag_timestamp ?f)) [insertion_offset ?f..<snd ?c]) =
      (if frag_visible ?f then map (Pair (frag_timestamp ?f)) [insertion_offset ?f..<snd ?c] else [])"
    using vis_cell_iff [OF assms(1) f] by (auto simp: filter_id_conv filter_empty_conv subset_iff)
  moreover have "filter (\<lambda>c. c \<in> set (vis_cells fs)) (all_cells (take k fs)) = vis_cells (take k fs)"
    using vis_cells_filter [OF assms(1)] set_take_subset by metis
  ultimately have "anchor_place fs a = vis_at fs k + (if frag_visible ?f then snd ?c - insertion_offset ?f else 0) +
      (if an_bias a = Left \<and> frag_visible ?f then 1 else 0)"
    using takeWhile_cells [OF assms(1-3)] vis_cell_iff [OF assms(1) f assms(3)] by (simp add: anchor_place_def vis_at_def)
  then show "anchor_place fs a = vis_at fs k + (if frag_visible ?f then an_offset a - insertion_offset ?f else 0)"
    using c(2) assms(4) by (auto simp: anchor_cell_def)
  show "insertion_offset ?f \<le> an_offset a" using c(2) by (auto simp: anchor_cell_def split: if_splits)
qed

lemma in_all_cellsE:
  assumes "c \<in> set (all_cells fs)"
  obtains k where "k < length fs" "c \<in> set (cells (fs ! k))"
proof -
  obtain f where "f \<in> set fs" "c \<in> set (cells f)" using assms by (auto simp: all_cells_def)
  then show thesis using that by (metis in_set_conv_nth)
qed

section \<open>Finding the fragment of an anchor\<close>

lemma last_takeWhile_key:
  assumes "sorted_keys key ys" "i \<in> set ys" "P i" "\<And>y. y \<in> set ys \<Longrightarrow> key y < key i \<Longrightarrow> P y" "\<And>y. y \<in> set ys \<Longrightarrow> key i < key y \<Longrightarrow> \<not> P y"
  shows "last_of None (takeWhile P ys) = Some i"
proof -
  obtain pre post where ys: "ys = pre @ i # post" using assms(2) by (meson split_list)
  have "\<forall>y\<in>set pre. P y" using assms(1,4) ys by auto
  moreover have "\<forall>y\<in>set post. \<not> P y" using assms(1,5) ys by auto
  ultimately have "takeWhile P ys = pre @ [i]" using assms(3) ys by (cases post) auto
  then show ?thesis by (simp add: last_of_def)
qed

text \<open>In all cases the lookup returns the last insertion fragment before the key of the anchor.\<close>

lemma try_find_last:
  assumes "wf_tree insertion_item (sn_insertions s)" "sorted_keys insertion_key_of (tree_items (sn_insertions s))"
    "tree_items (sn_insertions s) \<noteq> []" "an_bias a = Left \<longrightarrow> 0 < an_offset a"
  shows "try_find_fragment s a =
    Some (last_of None (takeWhile (insertion_laws.below (an_bias a) (anchor_key a)) (tree_items (sn_insertions s))))"
proof -
  let ?ys = "tree_items (sn_insertions s)" and ?P = "insertion_laws.below (an_bias a) (anchor_key a)"
  define n where "n = length (takeWhile ?P ?ys)"
  have z: "dzero insertion_dim = InsertionKey lamport_MIN 0" by (simp add: insertion_dim_def)
  have t: "takeWhile ?P ?ys = take n ?ys" unfolding n_def by (rule takeWhile_eq_take)
  have "seek_count insertion_item insertion_dim (passes (ord_cmp (anchor_key a)) (an_bias a)) (dzero insertion_dim) ?ys = n"
    using insertion_laws.seek_count_drop [OF assms(2), of "anchor_key a" "an_bias a" 0] by (simp add: n_def z)
  moreover have "seekable insertion_item insertion_dim (passes (ord_cmp (anchor_key a)) (an_bias a)) (dzero insertion_dim) ?ys"
    using insertion_laws.seekable_drop [OF assms(2), of "anchor_key a" "an_bias a" 0] by (simp add: z)
  ultimately have f: "find_with_prev insertion_dim (sn_insertions s) (ord_cmp (anchor_key a)) (an_bias a) =
      Some (pos_after insertion_item insertion_dim (dzero insertion_dim) (take n ?ys), end_at insertion_item insertion_dim n ?ys,
        if n < length ?ys then Some (last_of None (take n ?ys), ?ys ! n) else None)"
    using insertion_laws.find_ok(2) [OF assms(1) _ assms(3)] by (simp add: z)
  show ?thesis
  proof (cases "n < length ?ys")
    case True
    then have "\<not> ?P (?ys ! n)" unfolding n_def by (rule nth_length_takeWhile)
    then have "ord_cmp (insertion_key_of (?ys ! n)) (anchor_key a) = Greater \<or>
        an_bias a = Left \<and> ord_cmp (insertion_key_of (?ys ! n)) (anchor_key a) = Equal \<and> 0 < an_offset a"
      using assms(4) by (cases "an_bias a") (auto simp: insertion_laws.below_def)
    then show ?thesis using True f by (auto simp: try_find_fragment_def t Let_def)
  next
    case False
    then have "take n ?ys = ?ys" by simp
    then show ?thesis using False f insertion_laws.last_item_ok [OF assms(1)] assms(3) by (simp add: try_find_fragment_def t last_of_def)
  qed
qed

lemma try_find_fragment_ok:
  assumes "insertions_ok (sn_insertions s) fs" "list_all frag_ok fs" "distinct (all_cells fs)" "f \<in> set fs"
    "anchor_cell a \<in> set (cells f)" "an_bias a = Left \<longrightarrow> 0 < an_offset a"
  shows "try_find_fragment s a = Some (Some (insertion_fragment_new f))"
proof -
  let ?ys = "tree_items (sn_insertions s)" and ?P = "insertion_laws.below (an_bias a) (anchor_key a)"
  have ins: "wf_tree insertion_item (sn_insertions s)" "sorted_keys insertion_key_of ?ys" using assms(1) by (auto simp: insertions_ok_def)
  note ys = insertions_okD [OF assms(1) distinct_first_keys [OF assms(2,3)]]
  have i: "insertion_fragment_new f \<in> set ?ys" using ys assms(4) by auto
  have c: "an_timestamp a = frag_timestamp f" "insertion_offset f \<le> snd (anchor_cell a)" "snd (anchor_cell a) < insertion_offset f + frag_len f"
    using assms(5) by (auto simp: cells_def anchor_cell_def)
  have P: "?P y \<longleftrightarrow> insertion_key_of y \<le> InsertionKey (an_timestamp a) (snd (anchor_cell a))" for y
    using assms(6) by (cases "an_bias a")
      (auto simp: insertion_laws.below_def anchor_key_def anchor_cell_def less_insertion_key_iff less_eq_insertion_key_iff)
  have "last_of None (takeWhile ?P ?ys) = Some (insertion_fragment_new f)"
  proof (rule last_takeWhile_key [OF ins(2) i])
    show "?P (insertion_fragment_new f)" using c unfolding P by (simp add: first_key_def less_eq_insertion_key_iff)
    then show "?P y" if "insertion_key_of y < insertion_key_of (insertion_fragment_new f)" for y
      using that unfolding P by (meson less_imp_le order_trans)
    show "\<not> ?P y" if y: "y \<in> set ?ys" "insertion_key_of (insertion_fragment_new f) < insertion_key_of y" for y
    proof
      assume "?P y"
      obtain g where g: "g \<in> set fs" "y = insertion_fragment_new g" using ys y(1) by auto
      then have "first_key f < first_key g" "first_key g \<le> InsertionKey (an_timestamp a) (snd (anchor_cell a))"
        using y(2) \<open>?P y\<close> unfolding P by simp_all
      then have k: "frag_timestamp g = frag_timestamp f" "insertion_offset f < insertion_offset g" "insertion_offset g \<le> snd (anchor_cell a)"
        using c(1) by (auto simp: first_key_def less_insertion_key_iff less_eq_insertion_key_iff)
      then have "(frag_timestamp g, insertion_offset g) \<in> set (cells f)" using c(3) by (auto simp: cells_def)
      moreover have "(frag_timestamp g, insertion_offset g) \<in> set (cells g)"
        using assms(2) g(1) by (intro first_cell) (auto simp: list_all_iff frag_ok_def)
      ultimately have "f = g" using cells_disjoint [OF assms(3,4) g(1)] by blast
      then show False using k(2) by simp
    qed
  qed
  then show ?thesis using try_find_last [OF ins _ assms(6)] i by (metis empty_iff list.set(1))
qed

lemma find_by_id:
  assumes "wf_tree frag_item t" "tree_items t = fs" "frags_ok fs" "k < length fs"
  shows "st_find id_dim t (id_target (frag_id (fs ! k))) Left =
    ((if k = 0 then None else Some (frag_id (fs ! (k - 1))), vis_at fs k), end_at frag_item id_dim k fs, Some (fs ! k))"
proof -
  have srt: "sorted_wrt (<) (map frag_id fs)" using assms(3) by (simp add: frags_ok_def)
  have "takeWhile (\<lambda>f. frag_id f < frag_id (fs ! k)) fs = take k fs"
    using srt assms(4) by (intro takeWhile_eq_take_P_nth) (auto simp: sorted_wrt_iff_nth_less)
  then have n: "seek_count frag_item id_dim (passes (id_target (frag_id (fs ! k))) Left) (dzero id_dim) fs = k"
    using assms(4) by (simp add: seek_count_id)
  have "fs \<noteq> []" using assms(4) by auto
  moreover have "pos_after frag_item id_dim (dzero id_dim) (take k fs) = (if k = 0 then None else Some (frag_id (fs ! (k - 1))), vis_at fs k)"
    using assms(4) by (auto simp: pos_after_id id_dim_simps vis_at_def last_conv_nth)
  ultimately show ?thesis
    using locator_laws.find_ok(1) [folded id_dim_def, OF assms(1), of "id_target (frag_id (fs ! k))" Left]
      seekable_id [OF srt] n assms(2,4) by simp
qed

section \<open>Resolving\<close>

lemma snapshot_frags:
  assumes "snapshot_ok ch s"
  shows "wf_tree frag_item (sn_fragments s)" "frags_ok (tree_items (sn_fragments s))" "list_all frag_ok (tree_items (sn_fragments s))"
    "distinct (all_cells (tree_items (sn_fragments s)))" "insertions_ok (sn_insertions s) (tree_items (sn_fragments s))"
    "visible_text s = map ch (vis_cells (tree_items (sn_fragments s)))" "insertion_order (all_cells (tree_items (sn_fragments s)))"
    "\<And>f. f \<in> set (tree_items (sn_fragments s)) \<Longrightarrow> frag_timestamp f \<noteq> lamport_MIN \<and> global_observed (sn_version s) (frag_timestamp f)"
  using assms by (auto simp: snapshot_ok_def Let_def frags_ok_def known_times_def edits_of_def)

lemma attached_not_extreme:
  assumes "frag_ok f" "anchor_cell a \<in> set (cells f)" "frag_timestamp f \<noteq> lamport_MIN"
  shows "\<not> anchor_is_min a" "\<not> anchor_is_max a"
  using assms by (auto simp: anchor_is_min_def anchor_is_max_def cells_def anchor_cell_def frag_ok_def U32_MAX_def)

lemma offset_for_anchor_ok:
  assumes ok: "snapshot_ok ch s" and a: "attached (tree_items (sn_fragments s)) a" "debug \<longrightarrow> an_buffer_id a = sn_remote_id s"
  shows "offset_for_anchor debug s a = Some (anchor_place (tree_items (sn_fragments s)) a)"
proof -
  let ?fs = "tree_items (sn_fragments s)"
  note s = snapshot_frags [OF ok]
  obtain k where k: "k < length ?fs" "anchor_cell a \<in> set (cells (?fs ! k))" using a(1) by (auto simp: attached_def elim: in_all_cellsE)
  let ?f = "?fs ! k"
  have f: "?f \<in> set ?fs" "frag_ok ?f" using k(1) s(3) by (auto simp: list_all_iff)
  have left: "an_bias a = Left \<longrightarrow> 0 < an_offset a" using a(1) by (simp add: attached_def)
  have ts: "an_timestamp a = frag_timestamp ?f" using cells_fst [OF k(2)] by (simp add: anchor_cell_def)
  note place = anchor_place_at [OF s(4) k left]
  have "\<not> (debug \<and> (an_buffer_id a \<noteq> sn_remote_id s \<or> \<not> global_observed (sn_version s) (an_timestamp a)))"
    using a(2) s(8) [OF f(1)] ts by simp
  then show ?thesis
    using attached_not_extreme [OF f(2) k(2)] s(8) [OF f(1)] try_find_fragment_ok [OF s(5,3,4) f(1) k(2) left]
      find_by_id [OF s(1) refl s(2) k(1)] place ts
    by (simp add: offset_for_anchor_def insertion_fragment_new_def usize_sub_def)
qed

section \<open>Creating\<close>

lemma seek_count_bounds:
  "m = seek_count D M pass d xs \<Longrightarrow>
     (0 < m \<longrightarrow> pass (pos_after D M d (take m xs))) \<and> (m < length xs \<longrightarrow> \<not> pass (pos_after D M d (take (Suc m) xs)))"
proof (induction xs arbitrary: d m)
  case (Cons x xs)
  let ?d = "dadd M d (summarize D x)"
  show ?case
  proof (cases "pass ?d")
    case True
    then obtain j where j: "m = Suc j" "j = seek_count D M pass ?d xs" using Cons.prems by (simp add: seek_count_def Let_def)
    show ?thesis using Cons.IH [OF j(2)] j(1) True by (cases "j = 0") auto
  qed (use Cons.prems in \<open>simp add: seek_count_def Let_def\<close>)
qed (simp add: seek_count_def)

lemma pos_after_usize: "pos_after frag_item usize_dim d fs = d + length (vis_cells fs)"
  by (induction fs arbitrary: d) (auto simp: usize_dim_def frag_text_of)

lemma passes_usize: "passes (ord_cmp n) bias d \<longleftrightarrow> (if bias = Left then d < n else d \<le> (n :: nat))"
  by (cases bias) (auto simp: passes_def)

lemma seekable_usize: "seekable frag_item usize_dim (passes (ord_cmp n) bias) d fs"
  unfolding seekable_def pos_after_usize passes_usize
proof (intro allI impI, elim conjE)
  fix i j
  assume "i \<le> j" and "if bias = Left then d + length (vis_cells (take j fs)) < n else d + length (vis_cells (take j fs)) \<le> n"
  then show "if bias = Left then d + length (vis_cells (take i fs)) < n else d + length (vis_cells (take i fs)) \<le> n"
    using vis_at_mono [of i j fs] by (auto simp: vis_at_def split: if_splits)
qed

text \<open>Looking up a position that is neither before the first nor after the last byte finds the visible fragment around it.\<close>

lemma find_by_offset:
  assumes t: "wf_tree frag_item t" "tree_items t = fs" and i: "i \<le> length (vis_cells fs)" "if bias = Left then 0 < i else i < length (vis_cells fs)"
  shows "\<exists>k e. st_find usize_dim t (ord_cmp i) bias = (vis_at fs k, e, Some (fs ! k)) \<and> k < length fs \<and> frag_visible (fs ! k) \<and>
    vis_at fs k \<le> i \<and> (if bias = Left then vis_at fs k < i \<and> i \<le> vis_at fs k + frag_len (fs ! k) else i < vis_at fs k + frag_len (fs ! k))"
proof -
  let ?pass = "passes (ord_cmp i) bias"
  define k where "k = seek_count frag_item usize_dim ?pass 0 fs"
  have z: "dzero usize_dim = 0" by (simp add: usize_dim_def)
  have ne: "fs \<noteq> []" using i by (auto split: if_splits)
  note b = seek_count_bounds [OF k_def]
  have le: "k \<le> length fs" unfolding k_def by (rule usize_laws.seek_count_le)
  have lo: "if bias = Left then vis_at fs k < i else vis_at fs k \<le> i"
    using b i(2) by (cases "k = 0") (auto simp: pos_after_usize passes_usize vis_at_def split: if_splits)
  have k: "k < length fs"
  proof (rule ccontr)
    assume "\<not> k < length fs"
    then have "vis_at fs k = length (vis_cells fs)" by (simp add: vis_at_end)
    then show False using lo i by (auto split: if_splits)
  qed
  then have "\<not> ?pass (vis_at fs (Suc k))" using b by (simp add: pos_after_usize vis_at_def)
  then have hi: "if bias = Left then i \<le> vis_at fs k + width (fs ! k) else i < vis_at fs k + width (fs ! k)"
    using vis_at_Suc [OF k] by (auto simp: passes_usize split: if_splits)
  then have vis: "frag_visible (fs ! k)" using lo by (auto simp: width_def split: if_splits)
  have "st_find usize_dim t (ord_cmp i) bias = (vis_at fs k, end_at frag_item usize_dim k fs, Some (fs ! k))"
    using usize_laws.find_ok(1) [OF t(1), of "ord_cmp i" bias] t(2) ne k seekable_usize
    by (simp add: z k_def [symmetric] pos_after_usize vis_at_def)
  then show ?thesis using k lo hi vis by (intro exI [where x = k] exI [where x = "end_at frag_item usize_dim k fs"]) (auto simp: width_def split: if_splits)
qed

lemma nth_vis_cells:
  assumes "k < length fs" "frag_visible (fs ! k)" "j < frag_len (fs ! k)"
  shows "vis_cells fs ! (vis_at fs k + j) = (frag_timestamp (fs ! k), insertion_offset (fs ! k) + j)"
    and "vis_at fs k + j < length (vis_cells fs)"
proof -
  have "fs = take k fs @ fs ! k # drop (Suc k) fs" using assms(1) by (rule id_take_nth_drop)
  then have v: "vis_cells fs = vis_cells (take k fs) @ cells (fs ! k) @ vis_cells (drop (Suc k) fs)"
    using assms(2) by (metis cells_simps(5,6))
  show "vis_cells fs ! (vis_at fs k + j) = (frag_timestamp (fs ! k), insertion_offset (fs ! k) + j)"
    unfolding v using assms(3) by (simp add: vis_at_def nth_append cells_def)
  show "vis_at fs k + j < length (vis_cells fs)" unfolding v using assms(3) by (simp add: vis_at_def)
qed

lemma anchor_at_offset_ok:
  assumes ok: "snapshot_ok ch s" and i: "is_char_boundary (visible_text s) i" "if bias = Left then 0 < i else i < length (visible_text s)"
  shows "\<exists>a. anchor_at_offset debug s i bias = Some a \<and> attached (tree_items (sn_fragments s)) a \<and>
    anchor_place (tree_items (sn_fragments s)) a = i \<and> an_bias a = bias \<and> an_buffer_id a = sn_remote_id s \<and>
    (let j = if bias = Left then i - 1 else i in j < length (visible_text s) \<and> anchor_cell a = vis_cells (tree_items (sn_fragments s)) ! j)"
proof -
  let ?fs = "tree_items (sn_fragments s)"
  note s = snapshot_frags [OF ok]
  have len: "length (visible_text s) = length (vis_cells ?fs)" using s(6) by simp
  have le: "i \<le> length (vis_cells ?fs)" using i(1) len by (auto simp: is_char_boundary_def)
  obtain k e where k: "st_find usize_dim (sn_fragments s) (ord_cmp i) bias = (vis_at ?fs k, e, Some (?fs ! k))" "k < length ?fs"
    "frag_visible (?fs ! k)" "vis_at ?fs k \<le> i"
    "if bias = Left then vis_at ?fs k < i \<and> i \<le> vis_at ?fs k + frag_len (?fs ! k) else i < vis_at ?fs k + frag_len (?fs ! k)"
    using find_by_offset [OF s(1) refl le i(2) [unfolded len]] by blast
  let ?f = "?fs ! k"
  have fok: "frag_ok ?f" using k(2) s(3) by (auto simp: list_all_length)
  define a where "a = Anchor (frag_timestamp ?f) (insertion_offset ?f + (i - vis_at ?fs k)) bias (sn_remote_id s)"
  have small: "u32_of (insertion_offset ?f + u32_of (i - vis_at ?fs k)) = insertion_offset ?f + (i - vis_at ?fs k)"
    using fok k(5) by (auto simp: frag_ok_def u32_of_small split: if_splits)
  have not_end: "\<not> (bias = Left \<and> i = 0)" "\<not> (bias = Right \<and> (\<not> debug \<and> length (visible_text s) \<le> i \<or> i = length (visible_text s)))"
    using i(2) by (auto split: if_splits)
  have run: "anchor_at_offset debug s i bias = Some a"
    using not_end i(1) k(1,4) small by (auto simp: anchor_at_offset_def assert_char_boundary_def usize_sub_def a_def)
  define j where "j = (if bias = Left then i - 1 else i) - vis_at ?fs k"
  have j: "j < frag_len ?f" "(if bias = Left then i - 1 else i) = vis_at ?fs k + j" using k(4,5) by (auto simp: j_def split: if_splits)
  have c: "anchor_cell a = (frag_timestamp ?f, insertion_offset ?f + j)"
    using k(5) by (auto simp: anchor_cell_def a_def j_def split: if_splits)
  then have cell: "anchor_cell a \<in> set (cells ?f)" using j(1) by (auto simp: cells_def)
  have left: "an_bias a = Left \<longrightarrow> 0 < an_offset a" using k(5) by (auto simp: a_def)
  have "attached ?fs a" using cell k(2) left by (auto simp: attached_def all_cells_def)
  moreover have "anchor_place ?fs a = i" using anchor_place_at(1) [OF s(4) k(2) cell left] k(3,4) by (simp add: a_def)
  moreover note nth_vis_cells [OF k(2,3) j(1)]
  ultimately show ?thesis using run c j(2) len by (intro exI [of _ a]) (simp add: a_def Let_def)
qed

lemma anchor_round_trip:
  assumes ok: "snapshot_ok ch s" and i: "is_char_boundary (visible_text s) i"
  shows "\<exists>a. anchor_at debug s i bias = Some a \<and> offset_for_anchor debug s a = Some i"
proof -
  have at: "anchor_at debug s i bias = anchor_at_offset debug s i bias"
    using i by (simp add: anchor_at_def usize_to_offset_def assert_char_boundary_def)
  have le: "i \<le> length (visible_text s)" using i by (auto simp: is_char_boundary_def)
  show ?thesis
  proof (cases "if bias = Left then 0 < i else i < length (visible_text s)")
    case True
    from anchor_at_offset_ok [OF ok i True, of debug] show ?thesis
      using offset_for_anchor_ok [OF ok] unfolding at by auto
  next
    case False
    then show ?thesis unfolding at using le
      by (cases bias)
        (auto simp: anchor_at_offset_def min_for_buffer_def max_for_buffer_def offset_for_anchor_def anchor_is_min_def anchor_is_max_def)
  qed
qed

section \<open>Following a byte\<close>

lemma anchor_place_visible:
  assumes "distinct (all_cells fs)" "k < length (vis_cells fs)" "vis_cells fs ! k = anchor_cell a"
  shows "anchor_place fs a = (if an_bias a = Left then Suc k else k)"
proof -
  define V where "V = set (vis_cells fs)"
  let ?V = "\<lambda>c. c \<in> V" and ?c = "anchor_cell a"
  have v: "vis_cells fs = filter ?V (all_cells fs)" unfolding V_def by (simp add: vis_cells_filter [OF assms(1)])
  have c: "?c \<in> V" using assms(2,3) unfolding V_def by (metis nth_mem)
  then have "?c \<in> set (all_cells fs)" using set_vis_cells unfolding V_def by blast
  then obtain pre post where all: "all_cells fs = pre @ ?c # post" by (meson split_list)
  then have notin: "?c \<notin> set pre" using assms(1) by simp
  have split: "vis_cells fs = filter ?V pre @ ?c # filter ?V post" unfolding v all using c by simp
  have "distinct (vis_cells fs)" using assms(1) unfolding v by simp
  moreover have "length (filter ?V pre) < length (vis_cells fs)" "vis_cells fs ! length (filter ?V pre) = ?c"
    unfolding split by simp_all
  ultimately have "k = length (filter ?V pre)" using assms(2,3) by (metis nth_eq_iff_index_eq)
  then show ?thesis using all notin c by (simp add: anchor_place_def takeWhile_before V_def [symmetric])
qed

text \<open>An anchor made on one snapshot resolves on a later one; if the patch between them keeps its byte, to the new place of the byte.\<close>

lemma anchor_follows:
  assumes ok: "snapshot_ok ch s" "snapshot_ok ch' s'" and same: "sn_remote_id s' = sn_remote_id s"
    and cells: "set (all_cells (tree_items (sn_fragments s))) \<subseteq> set (all_cells (tree_items (sn_fragments s')))"
    and p: "patch_describes (vis_cells (tree_items (sn_fragments s))) (vis_cells (tree_items (sn_fragments s'))) p"
    and i: "is_char_boundary (visible_text s) i" "if bias = Left then 0 < i else i < length (visible_text s)"
  shows "\<exists>a j. anchor_at debug s i bias = Some a \<and> offset_for_anchor debug s' a = Some j \<and>
    (\<forall>k. keep 0 0 p (if bias = Left then i - 1 else i) = Some k \<longrightarrow> j = (if bias = Left then Suc k else k))"
proof -
  let ?fs = "tree_items (sn_fragments s)" and ?fs' = "tree_items (sn_fragments s')" and ?i = "if bias = Left then i - 1 else i"
  obtain a where a: "anchor_at_offset debug s i bias = Some a" "attached ?fs a" "an_bias a = bias" "an_buffer_id a = sn_remote_id s"
    "?i < length (visible_text s)" "anchor_cell a = vis_cells ?fs ! ?i"
    using anchor_at_offset_ok [OF ok(1) i, of debug] by (auto simp: Let_def)
  have at: "anchor_at debug s i bias = Some a"
    using i a(1) by (simp add: anchor_at_def usize_to_offset_def assert_char_boundary_def)
  have "attached ?fs' a" using a(2) cells by (auto simp: attached_def)
  then have r: "offset_for_anchor debug s' a = Some (anchor_place ?fs' a)"
    using offset_for_anchor_ok [OF ok(2)] a(4) same by simp
  have "anchor_place ?fs' a = (if bias = Left then Suc k else k)" if "keep 0 0 p ?i = Some k" for k
  proof -
    have "?i < length (vis_cells ?fs)" using a(5) snapshot_frags(6) [OF ok(1)] by simp
    then have "k < length (vis_cells ?fs')" "vis_cells ?fs' ! k = anchor_cell a"
      using p that a(6) by (auto simp: patch_describes_def)
    then show ?thesis using anchor_place_visible [OF snapshot_frags(4) [OF ok(2)]] a(3) by simp
  qed
  then show ?thesis using at r by blast
qed

lemma anchor_follows_edit:
  assumes ok: "snapshot_ok ch s" and ts: "\<not> global_observed (sn_version s) ts"
    and edits: "ranges_ordered (length (visible_text s)) 0 edits" "debug \<longrightarrow> on_chars (visible_text s) edits" "texts_ok replace_all edits"
    and i: "is_char_boundary (visible_text s) i" "if bias = Left then 0 < i else i < length (visible_text s)"
  shows "\<exists>edits' op p s' a j. edits_to_offsets debug s edits = Some edits' \<and>
    apply_edit_internal replace_all s edits' ts = Some (op, p, s') \<and> anchor_at debug s i bias = Some a \<and>
    offset_for_anchor debug (s'\<lparr>sn_version := global_observe (sn_version s) ts\<rparr>) a = Some j \<and>
    (\<forall>k. keep 0 0 p (if bias = Left then i - 1 else i) = Some k \<longrightarrow> j = (if bias = Left then Suc k else k))"
proof -
  let ?edits = "floored (visible_text s) edits"
  have fl: "ranges_ordered (length (visible_text s)) 0 ?edits" "on_chars (visible_text s) ?edits" "texts_ok replace_all ?edits"
    using floored_ordered [OF edits(1)] floored_on_chars edits(3) by (simp_all add: floored_texts rope_floor_id)
  obtain op p s' where s: "apply_edit_internal replace_all s ?edits ts = Some (op, p, s')"
    "snapshot_ok (with_insertion ts (inserted replace_all ?edits) ch) (s'\<lparr>sn_version := global_observe (sn_version s) ts\<rparr>)"
    "patch_describes (vis_cells (tree_items (sn_fragments s))) (vis_cells (tree_items (sn_fragments s'))) p"
    "filter (\<lambda>c. fst c \<noteq> ts) (all_cells (tree_items (sn_fragments s'))) = all_cells (tree_items (sn_fragments s))"
    "sn_remote_id s' = sn_remote_id s"
    using apply_edit_internal_ok [OF ok ts fl] by blast
  have "edits_to_offsets debug s edits = Some ?edits" using edits(2) by (simp add: edits_to_offsets_ok)
  moreover have "set (all_cells (tree_items (sn_fragments s))) \<subseteq> set (all_cells (tree_items (sn_fragments s')))"
    using s(4) by (metis filter_is_subset)
  ultimately show ?thesis using anchor_follows [OF ok s(2) _ _ _ i] s(1,3,5) by simp
qed

section \<open>Order\<close>

lemma fragment_id_for_anchor_ok:
  assumes ok: "snapshot_ok ch s" and k: "k < length (tree_items (sn_fragments s))" "anchor_cell a \<in> set (cells (tree_items (sn_fragments s) ! k))"
    and left: "an_bias a = Left \<longrightarrow> 0 < an_offset a"
  shows "fragment_id_for_anchor debug s a = Some (frag_id (tree_items (sn_fragments s) ! k))"
proof -
  let ?f = "tree_items (sn_fragments s) ! k"
  note s = snapshot_frags [OF ok]
  have f: "?f \<in> set (tree_items (sn_fragments s))" "frag_ok ?f" using k(1) s(3) by (auto simp: list_all_iff)
  have "an_timestamp a = frag_timestamp ?f" using cells_fst [OF k(2)] by (simp add: anchor_cell_def)
  then show ?thesis
    using attached_not_extreme [OF f(2) k(2)] s(8) [OF f(1)] try_find_fragment_ok [OF s(5,3,4) f(1) k(2) left]
    by (simp add: fragment_id_for_anchor_def try_fragment_id_for_anchor_def insertion_fragment_new_def)
qed

lemma place_before:
  assumes "distinct C" "c \<in> set C" "d \<in> set C" "insertion_order C" "fst c = fst d" "snd c < snd d"
  shows "\<exists>pre mid post. C = pre @ c # mid @ d # post"
proof -
  obtain pre post where C: "C = pre @ c # post" using assms(2) by (meson split_list)
  have "d \<notin> set pre"
  proof
    assume "d \<in> set pre"
    then obtain p q where "pre = p @ d # q" by (meson split_list)
    then have "sorted (map snd (filter (\<lambda>x. fst x = fst c) (p @ d # q @ c # post)))"
      using insertion_order_sorted [OF assms(4)] C by (metis append.assoc append_Cons)
    then have "snd d \<le> snd c" using assms(5) by (simp add: sorted_append)
    then show False using assms(6) by simp
  qed
  moreover have "d \<noteq> c" using assms(6) by auto
  ultimately have "d \<in> set post" using assms(3) C by auto
  then obtain mid q where "post = mid @ d # q" by (meson split_list)
  then show ?thesis using C by auto
qed

lemma anchor_place_same:
  assumes dist: "distinct (all_cells fs)" and ord: "insertion_order (all_cells fs)" and ab: "attached fs a" "attached fs b"
    and ts: "an_timestamp a = an_timestamp b"
    and le: "snd (anchor_cell a) < snd (anchor_cell b) \<or> snd (anchor_cell a) = snd (anchor_cell b) \<and> (an_bias a = Right \<or> an_bias b = Left)"
  shows "anchor_place fs a \<le> anchor_place fs b"
proof (cases "snd (anchor_cell a) < snd (anchor_cell b)")
  case True
  let ?V = "\<lambda>c. c \<in> set (vis_cells fs)" and ?c = "anchor_cell a" and ?d = "anchor_cell b"
  obtain pre mid post where C: "all_cells fs = pre @ ?c # mid @ ?d # post"
    using place_before [OF dist _ _ ord _ True] ab ts by (auto simp: attached_def anchor_cell_def)
  then have "?c \<notin> set pre" "?d \<notin> set (pre @ ?c # mid)" using dist by auto
  then have "takeWhile (\<lambda>c. c \<noteq> ?c) (all_cells fs) = pre" "takeWhile (\<lambda>c. c \<noteq> ?d) (all_cells fs) = pre @ ?c # mid"
    using takeWhile_before [of ?d "pre @ ?c # mid" post] takeWhile_before [of ?c pre] unfolding C by auto
  then show ?thesis by (simp add: anchor_place_def)
next
  case False
  then have "anchor_cell a = anchor_cell b" "an_bias a = Right \<or> an_bias b = Left" using le ts by (auto simp: anchor_cell_def)
  then show ?thesis by (auto simp: anchor_place_def)
qed

lemma anchor_place_fragments:
  assumes "distinct (all_cells fs)" "k < l" "l < length fs" "anchor_cell a \<in> set (cells (fs ! k))" "anchor_cell b \<in> set (cells (fs ! l))"
    "an_bias a = Left \<longrightarrow> 0 < an_offset a" "an_bias b = Left \<longrightarrow> 0 < an_offset b"
  shows "anchor_place fs a \<le> anchor_place fs b"
proof -
  have k: "k < length fs" using assms(2,3) by simp
  have "an_offset a \<le> insertion_offset (fs ! k) + frag_len (fs ! k)" using assms(4) by (auto simp: cells_def anchor_cell_def split: if_splits)
  then have "anchor_place fs a \<le> vis_at fs (Suc k)"
    using anchor_place_at(1) [OF assms(1) k assms(4,6)] vis_at_Suc [OF k] by (simp add: width_def le_diff_conv add.commute)
  also have "\<dots> \<le> vis_at fs l" using assms(2) by (intro vis_at_mono) simp
  also have "\<dots> \<le> anchor_place fs b" using anchor_place_at(1) [OF assms(1,3,5,7)] by simp
  finally show ?thesis .
qed

lemma anchor_cell_le:
  assumes "an_offset a < an_offset b \<or> an_offset a = an_offset b \<and> an_bias a = Left \<and> an_bias b = Right"
    "an_bias a = Left \<longrightarrow> 0 < an_offset a" "an_bias b = Left \<longrightarrow> 0 < an_offset b"
  shows "snd (anchor_cell a) < snd (anchor_cell b) \<or> snd (anchor_cell a) = snd (anchor_cell b) \<and> (an_bias a = Right \<or> an_bias b = Left)"
  using assms by (cases "an_bias a"; cases "an_bias b") (auto simp: anchor_cell_def)

lemma anchor_cmp_ok:
  assumes ok: "snapshot_ok ch s" and a: "attached (tree_items (sn_fragments s)) a" and b: "attached (tree_items (sn_fragments s)) b"
  shows "\<exists>c. anchor_cmp debug s a b = Some c \<and>
    (c = Equal \<longleftrightarrow> an_timestamp a = an_timestamp b \<and> an_offset a = an_offset b \<and> an_bias a = an_bias b) \<and>
    (c = Less \<longrightarrow> anchor_place (tree_items (sn_fragments s)) a \<le> anchor_place (tree_items (sn_fragments s)) b) \<and>
    (c = Greater \<longrightarrow> anchor_place (tree_items (sn_fragments s)) b \<le> anchor_place (tree_items (sn_fragments s)) a)"
proof -
  let ?fs = "tree_items (sn_fragments s)"
  note s = snapshot_frags [OF ok]
  have la: "an_bias a = Left \<longrightarrow> 0 < an_offset a" and lb: "an_bias b = Left \<longrightarrow> 0 < an_offset b" using a b by (auto simp: attached_def)
  show ?thesis
  proof (cases "an_timestamp a = an_timestamp b")
    case True
    note ab = anchor_place_same [OF s(4,7) a b True anchor_cell_le [OF _ la lb]]
      and ba = anchor_place_same [OF s(4,7) b a True [symmetric] anchor_cell_le [OF _ lb la]]
    have "anchor_cmp debug s a b = Some (then_with (ord_cmp (an_offset a) (an_offset b)) (bias_cmp (an_bias a) (an_bias b)))"
      using True by (simp add: anchor_cmp_def then_with_def)
    then show ?thesis using True ab ba by (cases "an_bias a"; cases "an_bias b") (auto simp: then_with_def ord_cmp_def)
  next
    case False
    obtain k where k: "k < length ?fs" "anchor_cell a \<in> set (cells (?fs ! k))" using a by (auto simp: attached_def elim: in_all_cellsE)
    obtain l where l: "l < length ?fs" "anchor_cell b \<in> set (cells (?fs ! l))" using b by (auto simp: attached_def elim: in_all_cellsE)
    have "k \<noteq> l" using False cells_fst [OF k(2)] cells_fst [OF l(2)] by (auto simp: anchor_cell_def)
    have srt: "m < n \<Longrightarrow> n < length ?fs \<Longrightarrow> frag_id (?fs ! m) < frag_id (?fs ! n)" for m n
      using s(2) by (simp add: frags_ok_def sorted_wrt_iff_nth_less)
    have "ord_cmp (frag_id (?fs ! k)) (frag_id (?fs ! l)) = (if k < l then Less else Greater)"
      using srt [of k l] srt [of l k] \<open>k \<noteq> l\<close> k(1) l(1) by (cases "k < l") (auto simp: ord_cmp_def)
    then have cmp: "anchor_cmp debug s a b = Some (if k < l then Less else Greater)"
      using False fragment_id_for_anchor_ok [OF ok k la] fragment_id_for_anchor_ok [OF ok l lb]
      by (simp add: anchor_cmp_def then_with_def)
    then show ?thesis
      using False \<open>k \<noteq> l\<close> anchor_place_fragments [OF s(4) _ l(1) k(2) l(2) la lb] anchor_place_fragments [OF s(4) _ k(1) l(2) k(2) lb la] by auto
  qed
qed

section \<open>Selections\<close>

text \<open>A selection whose anchors are in order resolves to a range of offsets in order.\<close>

lemma summary_for_anchor_ok:
  assumes "offset_for_anchor debug s a = Some i" "debug \<longrightarrow> is_char_boundary (visible_text s) i"
  shows "summary_for_anchor debug s a = Some (rope_floor (visible_text s) i)"
proof -
  have "usize_to_offset debug s 0 = Some 0" "usize_to_offset debug s i = Some (rope_floor (visible_text s) i)"
    using assms(2) by (auto simp: usize_to_offset_def assert_char_boundary_def rope_floor_id)
  then show ?thesis using assms(1) by (simp add: summary_for_anchor_def text_summary_for_range_def rope_count_chars)
qed

lemma summary_for_anchor_panics:
  assumes "offset_for_anchor True s a = Some i" "\<not> is_char_boundary (visible_text s) i"
  shows "summary_for_anchor True s a = None"
  using assms by (simp add: summary_for_anchor_def text_summary_for_range_def usize_to_offset_def assert_char_boundary_def)

lemma selection_resolve_ok:
  assumes ok: "snapshot_ok ch s" and a: "attached (tree_items (sn_fragments s)) (sel_start sel)" "attached (tree_items (sn_fragments s)) (sel_end sel)"
    and same: "an_buffer_id (sel_start sel) = sn_remote_id s" "an_buffer_id (sel_end sel) = sn_remote_id s"
    and le: "anchor_cmp debug s (sel_start sel) (sel_end sel) \<noteq> Some Greater"
  shows "\<exists>i j. offset_for_anchor debug s (sel_start sel) = Some i \<and> offset_for_anchor debug s (sel_end sel) = Some j \<and> i \<le> j \<and>
    selection_resolve debug s sel =
      (if debug \<and> \<not> (is_char_boundary (visible_text s) i \<and> is_char_boundary (visible_text s) j) then None
       else Some \<lparr>sel_id = sel_id sel, sel_start = rope_floor (visible_text s) i, sel_end = rope_floor (visible_text s) j,
              reversed = reversed sel, goal = goal sel\<rparr>)"
proof -
  let ?fs = "tree_items (sn_fragments s)" and ?a = "sel_start sel" and ?b = "sel_end sel"
  obtain c where c: "anchor_cmp debug s ?a ?b = Some c"
    "c = Equal \<longleftrightarrow> an_timestamp ?a = an_timestamp ?b \<and> an_offset ?a = an_offset ?b \<and> an_bias ?a = an_bias ?b"
    "c = Less \<longrightarrow> anchor_place ?fs ?a \<le> anchor_place ?fs ?b"
    using anchor_cmp_ok [OF ok a] by blast
  have "anchor_place ?fs ?a \<le> anchor_place ?fs ?b"
  proof (cases "c = Equal")
    case True
    then have "anchor_cell ?a = anchor_cell ?b" "an_bias ?a = an_bias ?b" using c(2) by (auto simp: anchor_cell_def)
    then show ?thesis by (simp add: anchor_place_def)
  qed (use c le in \<open>cases c; auto\<close>)
  moreover have o: "offset_for_anchor debug s ?a = Some (anchor_place ?fs ?a)" "offset_for_anchor debug s ?b = Some (anchor_place ?fs ?b)"
    using offset_for_anchor_ok [OF ok] a same by auto
  ultimately show ?thesis
    using summary_for_anchor_ok [OF o(1)] summary_for_anchor_ok [OF o(2)] summary_for_anchor_panics [of s ?a] summary_for_anchor_panics [of s ?b]
    by (cases debug; cases "is_char_boundary (visible_text s) (anchor_place ?fs ?a)") (auto simp: selection_resolve_def)
qed

section \<open>Identifiers\<close>

lemma length_le_bytes [simp]: "length (to_le_bytes n w) = n"
  by (simp add: to_le_bytes_def)

lemma le_bytes_inj:
  fixes a b :: "'w::len word"
  assumes "LENGTH('w) = 8 * n" "to_le_bytes n a = to_le_bytes n b"
  shows "a = b"
proof (rule bit_word_eqI)
  fix j assume j: "j < LENGTH('w)"
  then have i: "j div 8 < n" using assms(1) by (simp add: less_mult_imp_div_less mult.commute)
  have "(ucast (drop_bit (8 * (j div 8)) a) :: 8 word) = ucast (drop_bit (8 * (j div 8)) b)"
    using arg_cong [OF assms(2), of "\<lambda>l. l ! (j div 8)"] i by (simp add: to_le_bytes_def)
  from arg_cong [OF this, of "\<lambda>w. bit w (j mod 8)"] show "bit a j \<longleftrightarrow> bit b j"
    by (simp add: bit_ucast_iff bit_drop_bit_eq)
qed

lemma opaque_id_inj:
  assumes "an_offset a < 2 ^ 32" "an_offset b < 2 ^ 32"
  shows "opaque_id a = opaque_id b \<longleftrightarrow> a = b"
proof
  assume "opaque_id a = opaque_id b"
  then have e: "to_le_bytes 8 (buffer_id_value (an_buffer_id a)) = to_le_bytes 8 (buffer_id_value (an_buffer_id b))"
    "to_le_bytes 4 (word_of_nat (an_offset a) :: u32) = to_le_bytes 4 (word_of_nat (an_offset b) :: u32)"
    "to_le_bytes 4 (lvalue (an_timestamp a)) = to_le_bytes 4 (lvalue (an_timestamp b))"
    "to_le_bytes 2 (as_u16 (lreplica (an_timestamp a))) = to_le_bytes 2 (as_u16 (lreplica (an_timestamp b)))"
    "bias_as_u8 (an_bias a) = bias_as_u8 (an_bias b)"
    by (simp_all add: opaque_id_def)
  have "(word_of_nat (an_offset a) :: u32) = word_of_nat (an_offset b)" using le_bytes_inj [OF _ e(2)] by simp
  from arg_cong [OF this, of unat] have "an_offset a = an_offset b" using assms by (simp add: unsigned_of_nat take_bit_nat_eq_self)
  moreover have "an_bias a = an_bias b" using e(5) by (cases "an_bias a"; cases "an_bias b") auto
  ultimately show "a = b"
    using le_bytes_inj [OF _ e(1)] le_bytes_inj [OF _ e(3)] le_bytes_inj [OF _ e(4)]
    by (intro anchor.expand) (auto intro: buffer_id.expand lamport.expand replica_id.expand)
qed simp

lemma length_opaque_id: "length (opaque_id a) = 20"
  by (simp add: opaque_id_def)

end
