(* ===== verification/Versions_Correct.thy ===== *)
theory Versions_Correct
  imports Versions Anchor_Correct
begin

text \<open>
  What a snapshot says about its past. A fragment was visible at a version when the version had observed its insertion,
  with no undo of it in force, and none of its deletions in force. \<open>rope_for_version\<close> returns exactly the bytes of the
  fragments that were visible, in document order; \<open>edits_since\<close> returns a patch from that text to the current one, and
  \<open>has_edits_since\<close> says whether the two differ. The fragments that the filter of the cursors leaves out are those
  that look the same at the version as now.
\<close>

section \<open>Visibility at a version\<close>

definition undone_at :: "undo_map \<Rightarrow> global \<Rightarrow> lamport \<Rightarrow> bool" where
  "undone_at m v e \<longleftrightarrow> Max (Set.insert 0 {n. \<exists>u. um_map m (e, u) = Some n \<and> global_observed v u}) mod 2 = 1"

definition shown_at :: "undo_map \<Rightarrow> global \<Rightarrow> fragment \<Rightarrow> bool" where
  "shown_at m v f \<longleftrightarrow> global_observed v (frag_timestamp f) \<and> \<not> undone_at m v (frag_timestamp f) \<and>
     (\<forall>d\<in>set (deletions f). global_observed v d \<longrightarrow> undone_at m v d)"

lemma was_visible_ok: "um_ok m \<Longrightarrow> was_visible f v m = Some (shown_at m v f)"
  by (auto simp: was_visible_def was_undone_ok undone_at_def shown_at_def all_option_total
      [of "deletions f" _ "\<lambda>d. \<not> global_observed v d \<or> undone_at m v d"])

lemma undone_at_all: "(\<And>u. um_map m (e, u) \<noteq> None \<Longrightarrow> global_observed v u) \<Longrightarrow> undone_at m v e = undone m e"
proof -
  assume "\<And>u. um_map m (e, u) \<noteq> None \<Longrightarrow> global_observed v u"
  then have "{n. \<exists>u. um_map m (e, u) = Some n \<and> global_observed v u} = {n. \<exists>u. um_map m (e, u) = Some n}" by auto
  then show ?thesis by (simp add: undone_at_def undone_def)
qed

lemma shown_at_all:
  assumes "\<And>e. e \<in> edits_of f \<Longrightarrow> global_observed v e" "\<And>e u. e \<in> edits_of f \<Longrightarrow> um_map m (e, u) \<noteq> None \<Longrightarrow> global_observed v u"
  shows "shown_at m v f = shown m f"
proof -
  have "undone_at m v e = undone m e" if "e \<in> edits_of f" for e by (rule undone_at_all) (rule assms(2) [OF that])
  then show ?thesis using assms(1) by (simp add: shown_at_def shown_def edits_of_def)
qed

definition at_version :: "undo_map \<Rightarrow> global \<Rightarrow> fragment \<Rightarrow> fragment" where
  "at_version m v f = f\<lparr>frag_visible := shown_at m v f\<rparr>"

lemma at_version_simps [simp]:
  "cells (at_version m v f) = cells f" "frag_len (at_version m v f) = frag_len f" "frag_visible (at_version m v f) = shown_at m v f"
  by (simp_all add: at_version_def cells_def)

lemma at_version_same: "shown_at m v f = frag_visible f \<Longrightarrow> at_version m v f = f"
  by (simp add: at_version_def)

text \<open>The cells of the text at a version.\<close>

abbreviation cells_at :: "undo_map \<Rightarrow> global \<Rightarrow> fragment list \<Rightarrow> cell list" where
  "cells_at m v fs \<equiv> vis_cells (map (at_version m v) fs)"

section \<open>The filter\<close>

lemma version_observe_le: "version_get w r \<le> version_get (version_observe w d) r" "lvalue d \<le> version_get (version_observe w d) (lreplica d)"
  by (simp_all add: version_get_observe)

lemma observed_more: "version_get w r \<le> version_get (foldl version_observe w ds) r"
proof (induction ds arbitrary: w)
  case (Cons d ds)
  then show ?case by (auto intro: order_trans [OF version_observe_le(1)])
qed simp

lemma observed_deletion: "d \<in> set ds \<Longrightarrow> lvalue d \<le> version_get (foldl version_observe w ds) (lreplica d)"
proof (induction ds arbitrary: w)
  case (Cons e ds)
  then show ?case by (auto intro: order_trans [OF version_observe_le(2) observed_more])
qed simp

lemma max_version_edits: "e \<in> edits_of f \<Longrightarrow> lvalue e \<le> version_get (max_version (fragment_summary_of f)) (lreplica e)"
proof -
  assume e: "e \<in> edits_of f"
  have "lvalue e \<le> version_get (foldl version_observe (version_observe version_new (frag_timestamp f)) (deletions f)) (lreplica e)"
    using e observed_deletion by (cases "e = frag_timestamp f")
      (auto simp: edits_of_def intro: order_trans [OF version_observe_le(2) observed_more])
  then show ?thesis by (simp add: fragment_summary_of_def Let_def max.coboundedI1)
qed

lemma max_version_undos: "version_get (max_undos f) r \<le> version_get (max_version (fragment_summary_of f)) r"
  by (simp add: fragment_summary_of_def Let_def)

lemma max_version_part: "f \<in> set fs \<Longrightarrow> version_get (max_version (fragment_summary_of f)) r \<le> version_get (max_version (frags_summary fs)) r"
proof (induction fs rule: rev_induct)
  case (snoc g fs)
  have "max_version (frags_summary (fs @ [g])) = version_join (max_version (frags_summary fs)) (max_version (fragment_summary_of g))"
    by (simp add: frags_summary_append frags_summary_single fragment_summary_add_def)
  then show ?case using snoc by (auto intro: max.coboundedI1)
qed simp

lemma unseen_iff: "canonical v \<Longrightarrow> unseen v s \<longleftrightarrow> (\<exists>r. global_get v r < version_get (max_version s) r)"
  using global_of [of "max_version s"]
  by (auto simp: unseen_def global_observed_all_iff version_get.rep_eq not_le)

lemma unseen_filtering:
  assumes "canonical v" "dimension_laws frag_item M"
  shows "filtering frag_item M (unseen v)"
proof -
  have "unseen v (summary_laws.smry frag_item fs)" if "f \<in> set fs" "unseen v (fragment_summary_of f)" for f fs
    using max_version_part [OF that(1)] that(2) by (auto simp: unseen_iff [OF assms(1)] frags_summary_def intro: less_le_trans)
  then show ?thesis by (intro filtering.intro assms(2) filtering_axioms.intro) auto
qed

section \<open>Going through the fragments\<close>

definition next_unseen :: "global \<Rightarrow> fragment list \<Rightarrow> nat \<Rightarrow> nat" where
  "next_unseen v fs j = j + length (takeWhile (\<lambda>f. \<not> unseen v (fragment_summary_of f)) (drop j fs))"

lemma next_unseen_bounds: "j \<le> next_unseen v fs j" "j \<le> length fs \<Longrightarrow> next_unseen v fs j \<le> length fs"
  using length_takeWhile_le [of "\<lambda>f. \<not> unseen v (fragment_summary_of f)" "drop j fs"] by (simp_all add: next_unseen_def)

lemma filter_cursor_first:
  assumes "canonical v" "dimension_laws frag_item M" "wf_tree frag_item t"
  shows "\<exists>c. filter_next M (unseen v) (cursor_new M t) = Some c \<and> c_tree c = t \<and> did_seek c \<and>
    cursor_at frag_item M (next_unseen v (tree_items t) 0) c"
proof -
  note f = unseen_filtering [OF assms(1,2)]
  have "\<not> did_seek (cursor_new M t)" "c_tree (cursor_new M t) = t" by (simp_all add: cursor_new_def)
  then show ?thesis
    using filtering.search_forward_ok [OF f cursor_at_new [OF assms(3)]]
    by (auto simp: filter_next_def next_unseen_def filtering.accept_from_def [OF f])
qed

lemma filter_cursor_step:
  assumes "canonical v" "dimension_laws frag_item M" "cursor_at frag_item M k c" "did_seek c" "tree_items (c_tree c) = fs" "k < length fs"
  shows "\<exists>c'. filter_next M (unseen v) c = Some c' \<and> c_tree c' = c_tree c \<and> did_seek c' \<and>
    cursor_at frag_item M (next_unseen v fs (Suc k)) c'"
proof -
  note f = unseen_filtering [OF assms(1,2)]
  show ?thesis
    using filtering.search_forward_ok [OF f assms(3)] assms(4-6)
    by (auto simp: filter_next_def next_unseen_def filtering.accept_from_def [OF f] min_absorb1)
qed

lemma seen_same:
  assumes "snapshot_ok ch s" "canonical v" "f \<in> set (tree_items (sn_fragments s))" "\<not> unseen v (fragment_summary_of f)"
  shows "shown_at (sn_undo_map s) v f = frag_visible f"
proof -
  have le: "version_get (max_version (fragment_summary_of f)) r \<le> global_get v r" for r
    using assms(4) by (auto simp: unseen_iff [OF assms(2)] not_less)
  have vis: "frag_visible f = shown (sn_undo_map s) f" "undos_seen (sn_undo_map s) f"
    using assms(1,3) by (auto simp: snapshot_ok_def Let_def)
  have "shown_at (sn_undo_map s) v f = shown (sn_undo_map s) f"
  proof (rule shown_at_all)
    show "global_observed v e" if "e \<in> edits_of f" for e
      unfolding global_observed_def by (rule order_trans [OF max_version_edits [OF that] le])
    show "global_observed v u" if "e \<in> edits_of f" "um_map (sn_undo_map s) (e, u) \<noteq> None" for e u
    proof -
      have "lvalue u \<le> version_get (max_undos f) (lreplica u)" using vis(2) that by (auto simp: undos_seen_def)
      then have "lvalue u \<le> global_get v (lreplica u)" by (rule order_trans [OF order_trans [OF _ max_version_undos] le])
      then show ?thesis by (simp add: global_observed_def)
    qed
  qed
  then show ?thesis using vis(1) by simp
qed

lemma skipped_unchanged:
  assumes "snapshot_ok ch s" "canonical v"
  defines "fs \<equiv> tree_items (sn_fragments s)"
  assumes "f \<in> set (take (next_unseen v fs j - j) (drop j fs))"
  shows "shown_at (sn_undo_map s) v f = frag_visible f"
proof -
  have "f \<in> set (takeWhile (\<lambda>f. \<not> unseen v (fragment_summary_of f)) (drop j fs))"
    using assms(4) by (simp add: next_unseen_def flip: takeWhile_eq_take)
  then have "\<not> unseen v (fragment_summary_of f)" "f \<in> set fs" by (auto dest: set_takeWhileD in_set_dropD)
  then show ?thesis using seen_same [OF assms(1,2)] unfolding fs_def by blast
qed

lemma skipped_same:
  fixes j :: nat
  assumes "snapshot_ok ch s" "canonical v"
  defines "fs \<equiv> tree_items (sn_fragments s)"
  defines "n \<equiv> next_unseen v fs j - j"
  shows "map (at_version (sn_undo_map s) v) (take n (drop j fs)) = take n (drop j fs)"
  using skipped_unchanged [OF assms(1,2)] unfolding n_def fs_def by (intro map_idI at_version_same)

lemma at_version_current:
  assumes "snapshot_ok ch s"
  shows "map (at_version (sn_undo_map s) (sn_version s)) (tree_items (sn_fragments s)) = tree_items (sn_fragments s)"
proof (rule map_idI)
  fix f assume f: "f \<in> set (tree_items (sn_fragments s))"
  have known: "\<forall>t\<in>known_times s. global_observed (sn_version s) t" using assms by (simp add: snapshot_ok_def Let_def)
  have "e \<in> known_times s" if "e \<in> edits_of f" for e using that f by (auto simp: known_times_def)
  moreover have "u \<in> known_times s" if "um_map (sn_undo_map s) (e, u) \<noteq> None" for e u
    using that unfolding known_times_def undo_times_def by blast
  ultimately have "shown_at (sn_undo_map s) (sn_version s) f = shown (sn_undo_map s) f"
    using known by (intro shown_at_all) blast+
  then show "at_version (sn_undo_map s) (sn_version s) f = f"
    using assms f by (intro at_version_same) (auto simp: snapshot_ok_def Let_def)
qed

section \<open>The text at a version\<close>

definition version_inv :: "(cell \<Rightarrow> char) \<Rightarrow> buffer_snapshot \<Rightarrow> global \<Rightarrow> nat \<Rightarrow> version_pass \<Rightarrow> bool" where
  "version_inv ch s v k st \<longleftrightarrow> (let fs = tree_items (sn_fragments s) in
     cursor_at frag_item text_dim k (vp_cursor st) \<and> c_tree (vp_cursor st) = sn_fragments s \<and> did_seek (vp_cursor st) \<and>
     vp_visible st \<le> vis_at fs k \<and> vp_deleted st \<le> del_at fs k \<and> is_char_boundary (map ch (vis_cells fs)) (vp_visible st) \<and>
     vp_rope st @ map ch (take (vis_at fs k - vp_visible st) (drop (vp_visible st) (vis_cells fs))) =
       map ch (cells_at (sn_undo_map s) v (take k fs)))"

lemma cursor_text_at: "cursor_at frag_item text_dim k c \<Longrightarrow>
    c_position c = \<lparr>text_visible = vis_at (tree_items (c_tree c)) k, text_deleted = del_at (tree_items (c_tree c)) k\<rparr>"
  by (simp add: cursor_at_def pos_text_at)

lemma cursor_text_end: "cursor_at frag_item text_dim k c \<Longrightarrow> did_seek c \<Longrightarrow> cursor_end text_dim c =
    Some \<lparr>text_visible = vis_at (tree_items (c_tree c)) (Suc k), text_deleted = del_at (tree_items (c_tree c)) (Suc k)\<rparr>"
  by (simp add: cursor_end_at end_at_def pos_text_at)

lemma del_at_le: "del_at fs k \<le> length (del_cells fs)"
  unfolding del_at_def by (metis append_take_drop_id cells_simps(9) le_add1 length_append)

lemma rope_cut_ok:
  "is_char_boundary (map ch cs) a \<Longrightarrow> is_char_boundary (map ch cs) b \<Longrightarrow> a \<le> b \<Longrightarrow>
   rope_cut (map ch cs) a b = Some (map ch (take (b - a) (drop a cs)), b)"
  "is_char_boundary (map ch cs) a \<Longrightarrow> is_char_boundary (map ch cs) b \<Longrightarrow> a \<le> b \<Longrightarrow> rope_count (map ch cs) a b = Some (b - a, b)"
  "a \<le> b \<Longrightarrow> b \<le> length cs \<Longrightarrow> rope_seek (map ch cs) a b = Some b"
  by (simp_all add: rope_cut_chars rope_count_chars rope_seek_def take_map drop_map)

lemma snapshot_boundaries:
  assumes "snapshot_ok ch s"
  shows "is_char_boundary (map ch (vis_cells (tree_items (sn_fragments s)))) (vis_at (tree_items (sn_fragments s)) k)"
    "is_char_boundary (map ch (del_cells (tree_items (sn_fragments s)))) (del_at (tree_items (sn_fragments s)) k)"
  using assms fragment_boundary by (auto simp: snapshot_ok_def Let_def)

lemma vis_fragment: "k < length fs \<Longrightarrow> take (vis_at fs (Suc k) - vis_at fs k) (drop (vis_at fs k) (vis_cells fs)) = vis_cells [fs ! k]"
  using vis_run [of fs k 1] by (simp flip: Cons_nth_drop_Suc)

lemma version_catch_up_ok:
  assumes ok: "snapshot_ok ch s" and inv: "version_inv ch s v k st"
  shows "version_catch_up s st =
    Some (st\<lparr>vp_visible := vis_at (tree_items (sn_fragments s)) k, vp_rope := map ch (cells_at (sn_undo_map s) v (take k (tree_items (sn_fragments s))))\<rparr>)"
proof -
  let ?fs = "tree_items (sn_fragments s)"
  note i = inv [unfolded version_inv_def Let_def]
  have pos: "text_visible (c_position (vp_cursor st)) = vis_at ?fs k" using i cursor_text_at [of k "vp_cursor st"] by simp
  have v: "visible_text s = map ch (vis_cells ?fs)" using snapshot_frags(6) [OF ok] .
  show ?thesis
  proof (cases "vp_visible st < vis_at ?fs k")
    case True
    then show ?thesis using i snapshot_boundaries(1) [OF ok, of k] by (simp add: version_catch_up_def pos v rope_cut_ok)
  next
    case False
    then show ?thesis using i by (simp add: version_catch_up_def pos)
  qed
qed

lemma version_step_ok:
  assumes ok: "snapshot_ok ch s" and v: "canonical v" and inv: "version_inv ch s v k st"
  defines "fs \<equiv> tree_items (sn_fragments s)"
  assumes k: "k < length fs"
  shows "\<exists>st'. version_step s v (fs ! k) st = Some st' \<and> version_inv ch s v (next_unseen v fs (Suc k)) st'"
proof -
  let ?m = "sn_undo_map s" and ?f = "fs ! k" and ?j = "next_unseen v fs (Suc k)"
  let ?w = "shown_at ?m v ?f"
  note i = inv [unfolded version_inv_def Let_def, folded fs_def]
  have c: "cursor_at frag_item text_dim k (vp_cursor st)" "c_tree (vp_cursor st) = sn_fragments s" "did_seek (vp_cursor st)" using i by auto
  have ropes: "visible_text s = map ch (vis_cells fs)" "deleted_text s = map ch (del_cells fs)" "um_ok ?m"
    using ok by (auto simp: snapshot_ok_def Let_def fs_def)
  obtain c' where c': "filter_next text_dim (unseen v) (vp_cursor st) = Some c'" "c_tree c' = sn_fragments s" "did_seek c'"
    "cursor_at frag_item text_dim ?j c'"
    using filter_cursor_step [OF v text_laws.dimension_laws_axioms c(1,3)] c(2) k unfolding fs_def by auto
  define st1 where "st1 = \<lparr>vp_cursor = c', vp_visible = vis_at fs (Suc k),
    vp_deleted = (if ?w \<and> \<not> frag_visible ?f then del_at fs (Suc k) else vp_deleted st),
    vp_rope = map ch (cells_at ?m v (take (Suc k) fs))\<rparr>"
  have suc: "vis_at fs (Suc k) = vis_at fs k + width ?f" "del_at fs (Suc k) = del_at fs k + (if frag_visible ?f then 0 else frag_len ?f)"
    using vis_at_Suc [OF k] del_at_Suc [OF k] by auto
  have piece: "take (vis_at fs (Suc k) - vis_at fs k) (drop (vis_at fs k) (vis_cells fs)) = vis_cells [?f]" by (rule vis_fragment [OF k])
  have rope: "map ch (cells_at ?m v (take (Suc k) fs)) = map ch (cells_at ?m v (take k fs)) @ (if ?w then map ch (cells ?f) else [])"
    using k by (simp add: take_Suc_conv_app_nth)
  note boundary = snapshot_boundaries [OF ok, folded fs_def]
  note cut = vis_at_le [of fs "Suc k"] del_at_le [of fs "Suc k"] del_at_le [of fs k] boundary [of k] boundary [of "Suc k"]
  have "version_step s v ?f st = Some st1"
    using version_catch_up_ok [OF ok inv] c'(1) cursor_text_at [OF c(1)] cursor_text_end [OF c(1,3)] cut piece del_piece [OF k] i
    by (cases ?w; cases "frag_visible ?f")
      (simp_all add: version_step_def ropes rope_cut_ok was_visible_ok c(2) suc st1_def width_def rope fs_def [symmetric])
  moreover have "version_inv ch s v ?j st1"
  proof -
    have j: "Suc k \<le> ?j" by (rule next_unseen_bounds)
    have split: "take ?j fs = take (Suc k) fs @ take (?j - Suc k) (drop (Suc k) fs)" using j by (metis le_add_diff_inverse take_add)
    have "map (at_version ?m v) (take (?j - Suc k) (drop (Suc k) fs)) = take (?j - Suc k) (drop (Suc k) fs)"
      unfolding fs_def by (rule skipped_same [OF ok v])
    then have "cells_at ?m v (take ?j fs) = cells_at ?m v (take (Suc k) fs) @ vis_cells (take (?j - Suc k) (drop (Suc k) fs))"
      using split by simp
    moreover have "take (vis_at fs ?j - vis_at fs (Suc k)) (drop (vis_at fs (Suc k)) (vis_cells fs)) = vis_cells (take (?j - Suc k) (drop (Suc k) fs))"
      using vis_run [of fs "Suc k" "?j - Suc k"] j by simp
    moreover have "del_at fs (Suc k) \<le> del_at fs ?j" using split by (simp add: del_at_def)
    ultimately show ?thesis
      using c' i vis_at_mono [OF j, of fs] suc(2) boundary(1) [of "Suc k"] by (auto simp: version_inv_def Let_def st1_def fs_def [symmetric])
  qed
  ultimately show ?thesis by blast
qed

lemma version_loop_ok:
  assumes ok: "snapshot_ok ch s" and v: "canonical v" and inv: "version_inv ch s v k st"
  shows "\<exists>st'. version_loop s v st = Some st' \<and> version_inv ch s v (length (tree_items (sn_fragments s))) st'"
  using inv
proof (induction "length (tree_items (sn_fragments s)) - k" arbitrary: k st rule: less_induct)
  case less
  let ?fs = "tree_items (sn_fragments s)"
  have c: "cursor_at frag_item text_dim k (vp_cursor st)" "did_seek (vp_cursor st)" "c_tree (vp_cursor st) = sn_fragments s"
    using less.prems by (auto simp: version_inv_def Let_def)
  note item = cursor_item_at(1) [OF c(1,2)]
  have "k \<le> length ?fs" using c by (auto simp: cursor_at_def)
  show ?case
  proof (cases "k < length ?fs")
    case True
    obtain st1 where st1: "version_step s v (?fs ! k) st = Some st1" "version_inv ch s v (next_unseen v ?fs (Suc k)) st1"
      using version_step_ok [OF ok v less.prems True] by blast
    have "k < next_unseen v ?fs (Suc k)" using next_unseen_bounds(1) [of "Suc k" v ?fs] by simp
    then show ?thesis using less.hyps [OF _ st1(2)] st1(1) True item c(3) version_loop.simps [of s v st] by simp
  next
    case False
    then show ?thesis using less.prems \<open>k \<le> length ?fs\<close> item c(3) version_loop.simps [of s v st] by simp
  qed
qed

lemma rope_for_version_ok:
  assumes ok: "snapshot_ok ch s" and v: "canonical v"
  shows "rope_for_version s v = Some (map ch (cells_at (sn_undo_map s) v (tree_items (sn_fragments s))))"
proof -
  let ?fs = "tree_items (sn_fragments s)" and ?m = "sn_undo_map s"
  obtain c where c: "filter_next text_dim (unseen v) (cursor_new text_dim (sn_fragments s)) = Some c" "c_tree c = sn_fragments s" "did_seek c"
    "cursor_at frag_item text_dim (next_unseen v ?fs 0) c"
    using filter_cursor_first [OF v text_laws.dimension_laws_axioms snapshot_frags(1) [OF ok]] by blast
  let ?n = "next_unseen v ?fs 0" and ?st = "\<lparr>vp_cursor = c, vp_visible = 0, vp_deleted = 0, vp_rope = []\<rparr>"
  have "map (at_version ?m v) (take ?n ?fs) = take ?n ?fs" using skipped_same [OF ok v, of 0] by simp
  moreover have "take (vis_at ?fs ?n) (vis_cells ?fs) = vis_cells (take ?n ?fs)" using vis_run [of ?fs 0 ?n] by simp
  ultimately have "version_inv ch s v ?n ?st" using c by (simp add: version_inv_def Let_def)
  from version_loop_ok [OF ok v this] obtain st where st: "version_loop s v ?st = Some st" "version_inv ch s v (length ?fs) st" by blast
  show ?thesis using c(1) st(1) version_catch_up_ok [OF ok st(2)] by (simp add: rope_for_version_def)
qed

section \<open>The changes between a version and now\<close>

primrec changes :: "fragment list \<Rightarrow> fragment list \<Rightarrow> nat \<Rightarrow> patch" where
  "changes ws fs 0 = []"
| "changes ws fs (Suc k) = undo_edit (ws ! k) (fs ! k) (vis_at ws k) (vis_at fs k) (changes ws fs k)"

lemma changes_inv:
  assumes "ws = map (at_version m v) fs"
  shows "k \<le> length fs \<Longrightarrow> patch_inv ws (vis_at ws k) (vis_cells (take k fs)) (changes ws fs k)"
proof (induction k)
  case 0
  then show ?case using patch_inv_empty [of 0 ws] by simp
next
  case (Suc k)
  then have "patch_inv ws (vis_at ws (Suc k)) (vis_cells (take k fs) @ vis_cells [fs ! k])
      (undo_edit (ws ! k) (fs ! k) (vis_at ws k) (length (vis_cells (take k fs))) (changes ws fs k))"
    using assms by (intro undo_edit_inv) simp_all
  then show ?case using Suc.prems by (simp add: take_Suc_conv_app_nth vis_at_def)
qed

lemma changes_ends:
  assumes "ws = map (at_version m v) fs" "k \<le> length fs"
  shows "ends 0 0 (changes ws fs k) (vis_at ws k) (vis_at fs k)"
  using changes_inv [OF assms] by (simp add: patch_inv_def composed_def vis_at_def)

lemma changes_describe:
  assumes "ws = map (at_version m v) fs"
  shows "patch_describes (vis_cells ws) (vis_cells fs) (changes ws fs (length fs))"
  using patch_inv_describes changes_inv [OF assms order_refl] assms by (simp add: vis_at_def)

lemma changes_same:
  assumes "map (at_version m v) (take n (drop k fs)) = take n (drop k fs)" "k + n \<le> length fs" "ws = map (at_version m v) fs"
  shows "changes ws fs (k + n) = changes ws fs k" "vis_at ws (k + n) + vis_at fs k = vis_at fs (k + n) + vis_at ws k"
proof -
  have "changes ws fs (k + n) = changes ws fs k \<and> vis_at ws (k + n) + vis_at fs k = vis_at fs (k + n) + vis_at ws k"
    using assms(1,2)
  proof (induction n)
    case (Suc n)
    have take: "take (Suc n) (drop k fs) = take n (drop k fs) @ [fs ! (k + n)]" using Suc.prems(2) by (simp add: take_Suc_conv_app_nth)
    have same: "at_version m v (fs ! (k + n)) = fs ! (k + n)" using Suc.prems(1) unfolding take by simp
    then have "ws ! (k + n) = fs ! (k + n)" using Suc.prems(2) assms(3) by simp
    moreover have "map (at_version m v) (take n (drop k fs)) = take n (drop k fs)" using Suc.prems(1) unfolding take by simp
    ultimately show ?case using Suc.IH Suc.prems(2) assms(3) by (simp add: undo_edit_def vis_at_Suc)
  qed simp
  then show "changes ws fs (k + n) = changes ws fs k" "vis_at ws (k + n) + vis_at fs k = vis_at fs (k + n) + vis_at ws k" by auto
qed

lemma ends_last:
  "ends x y (p @ [e]) x' y' \<Longrightarrow> eo_end e \<le> x' \<and> en_end e \<le> y' \<and> x' + en_end e = y' + eo_end e"
  by (induction x y p x' y' rule: ends.induct) auto

text \<open>Pushing onto what has been emitted and what is pending.\<close>

lemma push_after: "E = [] \<or> eo_end (last E) < eo_start e \<Longrightarrow> \<not> edit_is_empty e \<Longrightarrow> patch_push E e = E @ [e]"
  by (auto simp: patch_push_def push_maybe_empty_def)

lemma push_onto:
  "eo_start e \<le> eo_end d \<Longrightarrow> \<not> edit_is_empty e \<Longrightarrow> patch_push (E @ [d]) e = E @ [d\<lparr>eo_end := eo_end e, en_end := en_end e\<rparr>]"
  by (simp add: patch_push_def push_maybe_empty_def)

section \<open>The iterator over edits\<close>

definition pending_edits :: "anchored_edit option \<Rightarrow> patch" where
  "pending_edits pending = (case pending of None \<Rightarrow> [] | Some e \<Rightarrow> [fst e])"

lemma pending_edits_simps [simp]: "pending_edits None = []" "pending_edits (Some e) = [fst e]"
  by (simp_all add: pending_edits_def)

text \<open>The state of the iterator before the \<open>k\<close>-th fragment, when \<open>E\<close> has been emitted.\<close>

definition edits_data :: "fragment list \<Rightarrow> fragment list \<Rightarrow> nat \<Rightarrow> patch \<Rightarrow> anchored_edit option \<Rightarrow> edits \<Rightarrow> bool" where
  "edits_data ws fs k E pending st \<longleftrightarrow>
     fst (es_start st) = locator_min \<and> fst (es_end st) = locator_max \<and>
     es_visible st = es_new_end st \<and> es_new_end st \<le> vis_at fs k \<and> es_deleted st \<le> del_at fs k \<and>
     es_old_end st + vis_at fs k = vis_at ws k + es_new_end st \<and>
     changes ws fs k = E @ pending_edits pending \<and>
     (pending = None \<longrightarrow> k < length fs \<longrightarrow> E = [] \<or> eo_end (last E) < es_old_end st)"

definition edits_inv :: "buffer_snapshot \<Rightarrow> global \<Rightarrow> nat \<Rightarrow> patch \<Rightarrow> anchored_edit option \<Rightarrow> edits \<Rightarrow> bool" where
  "edits_inv s v k E pending st \<longleftrightarrow> (let fs = tree_items (sn_fragments s) in
     cursor_at frag_item text_dim k (es_cursor st) \<and> c_tree (es_cursor st) = sn_fragments s \<and> did_seek (es_cursor st) \<and>
     is_char_boundary (visible_text s) (es_visible st) \<and> edits_data (map (at_version (sn_undo_map s) v) fs) fs k E pending st)"

lemma edits_catch_up_ok:
  assumes ok: "snapshot_ok ch s" and inv: "edits_inv s v k E pending st"
  defines "fs \<equiv> tree_items (sn_fragments s)"
  defines "ws \<equiv> map (at_version (sn_undo_map s) v) fs"
  shows "\<exists>st'. edits_catch_up s st = Some st' \<and> edits_inv s v k E pending st' \<and> es_old_end st' = vis_at ws k \<and> es_new_end st' = vis_at fs k"
proof -
  note i = inv [unfolded edits_inv_def Let_def edits_data_def, folded fs_def, folded ws_def]
  have pos: "text_visible (c_position (es_cursor st)) = vis_at fs k" using i cursor_text_at [of k "es_cursor st"] by (simp add: fs_def)
  have v: "visible_text s = map ch (vis_cells fs)" using snapshot_frags(6) [OF ok] by (simp add: fs_def)
  show ?thesis
  proof (cases "es_visible st < vis_at fs k")
    case True
    then show ?thesis
      using i snapshot_boundaries(1) [OF ok, of k, folded fs_def] by (auto simp: edits_catch_up_def pos v rope_cut_ok edits_inv_def edits_data_def Let_def fs_def [symmetric] ws_def [symmetric])
  next
    case False
    then have "edits_catch_up s st = Some st" by (simp add: edits_catch_up_def pos)
    moreover have "es_old_end st = vis_at ws k" "es_new_end st = vis_at fs k" using i False by auto
    ultimately show ?thesis using inv by blast
  qed
qed

lemma frag_ids_inside: "list_all frag_ok fs \<Longrightarrow> k < length fs \<Longrightarrow> locator_min < frag_id (fs ! k) \<and> frag_id (fs ! k) < locator_max \<and> 0 < frag_len (fs ! k)"
  by (auto simp: list_all_length frag_ok_def)

text \<open>One fragment, when the iterator has caught up and no gap follows the pending edit.\<close>

lemma edits_change_ok:
  assumes ok: "snapshot_ok ch s" and inv: "edits_inv s v k E pending st"
  defines "fs \<equiv> tree_items (sn_fragments s)"
  defines "ws \<equiv> map (at_version (sn_undo_map s) v) fs"
  assumes k: "k < length fs" and here: "es_old_end st = vis_at ws k" "es_new_end st = vis_at fs k"
    and adjacent: "\<And>e. pending = Some e \<Longrightarrow> \<not> en_end (fst e) < es_new_end st"
  shows "\<exists>pending' st'. edits_change s v (fs ! k) pending st = Some (pending', st') \<and> es_cursor st' = es_cursor st \<and>
    is_char_boundary (visible_text s) (es_visible st') \<and> edits_data ws fs (Suc k) E pending' st'"
proof -
  let ?f = "fs ! k" and ?m = "sn_undo_map s"
  note i = inv [unfolded edits_inv_def Let_def, folded fs_def, folded ws_def]
  note d = i [THEN conjunct2, THEN conjunct2, THEN conjunct2, THEN conjunct2, unfolded edits_data_def]
  have ropes: "visible_text s = map ch (vis_cells fs)" "deleted_text s = map ch (del_cells fs)" "um_ok ?m" "list_all frag_ok fs"
    using ok by (auto simp: snapshot_ok_def Let_def fs_def frags_ok_def)
  have f: "frag_id ?f \<noteq> locator_max" "0 < frag_len ?f" using frag_ids_inside [OF ropes(4) k] by auto
  have w: "frag_visible (ws ! k) = shown_at ?m v ?f" "frag_len (ws ! k) = frag_len ?f" using k by (simp_all add: ws_def)
  have suc: "vis_at fs (Suc k) = vis_at fs k + width ?f" "vis_at ws (Suc k) = vis_at ws k + width (ws ! k)"
    "del_at fs (Suc k) = del_at fs k + (if frag_visible ?f then 0 else frag_len ?f)"
    using vis_at_Suc [OF k] vis_at_Suc [of k ws] k del_at_Suc [OF k] by (simp_all add: ws_def)
  have le: "vis_at fs (Suc k) \<le> length (vis_cells fs)" "del_at fs (Suc k) \<le> length (del_cells fs)" "del_at fs k \<le> length (del_cells fs)"
    by (rule vis_at_le del_at_le)+
  note boundary = snapshot_boundaries [OF ok, of k, folded fs_def] snapshot_boundaries [OF ok, of "Suc k", folded fs_def]
  have at: "is_char_boundary (visible_text s) (es_visible st)" "is_char_boundary (visible_text s) (vis_at fs (Suc k))"
    using i boundary(3) by (simp_all add: ropes(1))
  have push: "\<exists>e'. extend_pending grow e (fragment_anchors (sn_remote_id s) ?f) pending = Some e' \<and> patch_push (changes ws fs k) e = E @ [fst e']"
    if e: "eo_start e = vis_at ws k" "\<not> edit_is_empty e" "\<And>d. eo_end d = vis_at ws k \<Longrightarrow> en_end d = vis_at fs k \<Longrightarrow> grow d = d\<lparr>eo_end := eo_end e, en_end := en_end e\<rparr>"
    for e grow
  proof (cases pending)
    case None
    then have "changes ws fs k = E" "E = [] \<or> eo_end (last E) < eo_start e" using d k here(1) e(1) by auto
    then show ?thesis using push_after [OF _ e(2)] None by (simp add: extend_pending_def)
  next
    case (Some p)
    then have c: "changes ws fs k = E @ [fst p]" using d by simp
    have "eo_end (fst p) = vis_at ws k" "en_end (fst p) = vis_at fs k"
      using ends_last [of 0 0 E "fst p" "vis_at ws k" "vis_at fs k"] changes_ends [OF meta_eq_to_obj_eq [OF ws_def] less_imp_le [OF k]] adjacent [OF Some] here(2) c by auto
    then show ?thesis using push_onto [of e "fst p" E] e c Some by (cases p) (auto simp: extend_pending_def)
  qed
  have run: "edits_change s v ?f pending st =
      (if \<not> shown_at ?m v ?f \<and> frag_visible ?f
       then Some (extend_pending (\<lambda>edit. edit\<lparr>en_end := vis_at fs k + frag_len ?f\<rparr>)
           \<lparr>eo_start = vis_at ws k, eo_end = vis_at ws k, en_start = vis_at fs k, en_end = vis_at fs k + frag_len ?f\<rparr>
           (fragment_anchors (sn_remote_id s) ?f) pending, st\<lparr>es_visible := vis_at fs (Suc k), es_new_end := vis_at fs (Suc k)\<rparr>)
       else if shown_at ?m v ?f \<and> \<not> frag_visible ?f
       then Some (extend_pending (\<lambda>edit. edit\<lparr>eo_end := vis_at ws k + frag_len ?f\<rparr>)
           \<lparr>eo_start = vis_at ws k, eo_end = vis_at ws k + frag_len ?f, en_start = vis_at fs k, en_end = vis_at fs k\<rparr>
           (fragment_anchors (sn_remote_id s) ?f) pending, st\<lparr>es_deleted := del_at fs (Suc k), es_old_end := vis_at ws (Suc k)\<rparr>)
       else Some (pending, st))"
    using cursor_text_at [of k "es_cursor st"] cursor_text_end [of k "es_cursor st"] i d le suc here f w boundary
    by (cases "shown_at ?m v ?f"; cases "frag_visible ?f"; cases "es_deleted st = del_at fs k")
      (simp_all add: edits_change_def ropes rope_cut_ok was_visible_ok clipped_end_def width_def Let_def fs_def [symmetric])
  consider (ins) "\<not> shown_at ?m v ?f" "frag_visible ?f" | (del) "shown_at ?m v ?f" "\<not> frag_visible ?f" | (same) "shown_at ?m v ?f = frag_visible ?f"
    by blast
  then show ?thesis
  proof cases
    case ins
    let ?e = "\<lparr>eo_start = vis_at ws k, eo_end = vis_at ws k, en_start = vis_at fs k, en_end = vis_at fs k + frag_len ?f\<rparr>"
    obtain e' where e': "extend_pending (\<lambda>edit. edit\<lparr>en_end := vis_at fs k + frag_len ?f\<rparr>) ?e (fragment_anchors (sn_remote_id s) ?f) pending = Some e'"
      "patch_push (changes ws fs k) ?e = E @ [fst e']"
      using push [of ?e "\<lambda>edit. edit\<lparr>en_end := vis_at fs k + frag_len ?f\<rparr>"] f(2) by (auto simp: edit_is_empty_def)
    then show ?thesis using run ins d suc w here at by (simp add: edits_data_def undo_edit_def width_def)
  next
    case del
    let ?e = "\<lparr>eo_start = vis_at ws k, eo_end = vis_at ws k + frag_len ?f, en_start = vis_at fs k, en_end = vis_at fs k\<rparr>"
    obtain e' where e': "extend_pending (\<lambda>edit. edit\<lparr>eo_end := vis_at ws k + frag_len ?f\<rparr>) ?e (fragment_anchors (sn_remote_id s) ?f) pending = Some e'"
      "patch_push (changes ws fs k) ?e = E @ [fst e']"
      using push [of ?e "\<lambda>edit. edit\<lparr>eo_end := vis_at ws k + frag_len ?f\<rparr>"] f(2) by (auto simp: edit_is_empty_def)
    then show ?thesis using run del d suc w here at by (simp add: edits_data_def undo_edit_def width_def)
  next
    case same
    then show ?thesis using run d suc w here k at by (auto simp: edits_data_def undo_edit_def width_def)
  qed
qed

lemma edits_data_skip:
  assumes ok: "snapshot_ok ch s" and v: "canonical v"
  defines "fs \<equiv> tree_items (sn_fragments s)"
  defines "ws \<equiv> map (at_version (sn_undo_map s) v) fs"
  assumes data: "edits_data ws fs k E pending st" and k: "k \<le> length fs"
  shows "edits_data ws fs (next_unseen v fs k) E pending st"
proof -
  let ?j = "next_unseen v fs k"
  have j: "k \<le> ?j" "?j \<le> length fs" using next_unseen_bounds k by auto
  have "map (at_version (sn_undo_map s) v) (take (?j - k) (drop k fs)) = take (?j - k) (drop k fs)"
    unfolding fs_def by (rule skipped_same [OF ok v])
  from changes_same [OF this _ meta_eq_to_obj_eq [OF ws_def]] j
  have same: "changes ws fs ?j = changes ws fs k" "vis_at ws ?j + vis_at fs k = vis_at fs ?j + vis_at ws k" by auto
  have "del_at fs k \<le> del_at fs ?j" using j by (metis cells_simps(9) del_at_def le_add1 le_add_diff_inverse length_append take_add)
  then show ?thesis using data same vis_at_mono [OF j(1), of fs] j by (auto simp: edits_data_def)
qed

text \<open>The loop returns the next edit and stops before a gap, or goes to the end.\<close>

lemma edits_loop_ok:
  assumes ok: "snapshot_ok ch s" and v: "canonical v"
  defines "fs \<equiv> tree_items (sn_fragments s)"
  defines "ws \<equiv> map (at_version (sn_undo_map s) v) fs"
  assumes inv: "edits_inv s v k E pending st"
  shows "\<exists>pending' st' k'. edits_loop s v pending st = Some (pending', st') \<and> k \<le> k' \<and> k' \<le> length fs \<and>
    (case pending' of
       None \<Rightarrow> pending = None \<and> changes ws fs (length fs) = E
     | Some e \<Rightarrow> edits_inv s v k' (E @ [fst e]) None st' \<and> (pending = None \<longrightarrow> k < k'))"
  using inv
proof (induction "length fs - k" arbitrary: k pending st rule: less_induct)
  case less
  have c: "cursor_at frag_item text_dim k (es_cursor st)" "did_seek (es_cursor st)" "c_tree (es_cursor st) = sn_fragments s"
    using less.prems by (auto simp: edits_inv_def Let_def)
  note item = cursor_item_at(1) [OF c(1,2), unfolded c(3), folded fs_def]
  have kl: "k \<le> length fs" using c by (auto simp: cursor_at_def fs_def)
  show ?case
  proof (cases "k < length fs")
    case False
    then have "edits_loop s v pending st = Some (pending, st)" using item edits_loop.simps [of s v pending st] by simp
    moreover have "changes ws fs (length fs) = E @ pending_edits pending" "k = length fs"
      using less.prems kl False by (auto simp: edits_inv_def edits_data_def Let_def fs_def [symmetric] ws_def [symmetric])
    ultimately show ?thesis
      using less.prems by (cases pending) (auto simp: edits_inv_def edits_data_def Let_def fs_def [symmetric] ws_def [symmetric])
  next
    case True
    have ids: "\<not> frag_id (fs ! k) < fst (es_start st)" "\<not> fst (es_end st) < frag_id (fs ! k)"
      using frag_ids_inside [OF snapshot_frags(3) [OF ok], folded fs_def, OF True] less.prems
      by (auto simp: edits_inv_def edits_data_def Let_def)
    obtain st1 where st1: "edits_catch_up s st = Some st1" "edits_inv s v k E pending st1" "es_old_end st1 = vis_at ws k" "es_new_end st1 = vis_at fs k"
      using edits_catch_up_ok [OF ok less.prems] unfolding fs_def ws_def by blast
    let ?gap = "case pending of None \<Rightarrow> False | Some (edit, _) \<Rightarrow> en_end edit < es_new_end st1"
    show ?thesis
    proof (cases ?gap)
      case gap: True
      then obtain e where e: "pending = Some e" "en_end (fst e) < es_new_end st1" by (auto split: option.splits)
      have "edits_loop s v pending st = Some (pending, st1)"
        using item True ids st1(1) gap edits_loop.simps [of s v pending st] by simp
      moreover have "eo_end (fst e) < es_old_end st1"
      proof -
        have "changes ws fs k = E @ [fst e]"
          using st1(2) e(1) by (auto simp: edits_inv_def edits_data_def Let_def fs_def [symmetric] ws_def [symmetric])
        then show ?thesis
          using ends_last [of 0 0 E "fst e" "vis_at ws k" "vis_at fs k"] changes_ends [OF meta_eq_to_obj_eq [OF ws_def] kl] st1(3,4) e(2) by auto
      qed
      then have "edits_inv s v k (E @ [fst e]) None st1"
        using st1(2) e(1) by (auto simp: edits_inv_def edits_data_def Let_def)
      ultimately show ?thesis using e(1) kl by auto
    next
      case nogap: False
      obtain p2 st2 where st2: "edits_change s v (fs ! k) pending st1 = Some (p2, st2)" "es_cursor st2 = es_cursor st1" "edits_data ws fs (Suc k) E p2 st2"
        "is_char_boundary (visible_text s) (es_visible st2)"
        using edits_change_ok [OF ok st1(2), folded fs_def, folded ws_def, OF True st1(3,4)] nogap by (auto split: option.splits)
      have c1: "cursor_at frag_item text_dim k (es_cursor st1)" "did_seek (es_cursor st1)" "c_tree (es_cursor st1) = sn_fragments s"
        using st1(2) by (auto simp: edits_inv_def Let_def)
      let ?j = "next_unseen v fs (Suc k)"
      obtain c2 where c2: "filter_next text_dim (unseen v) (es_cursor st1) = Some c2" "c_tree c2 = sn_fragments s" "did_seek c2"
        "cursor_at frag_item text_dim ?j c2"
        using filter_cursor_step [OF v text_laws.dimension_laws_axioms c1(1,2)] c1(3) True unfolding fs_def by auto
      have j: "Suc k \<le> ?j" by (rule next_unseen_bounds)
      then have smaller: "length fs - ?j < length fs - k" using True by simp
      have "edits_data ws fs ?j E p2 st2"
        using edits_data_skip [OF ok v, folded fs_def, folded ws_def, OF st2(3)] True by simp
      then have inv2: "edits_inv s v ?j E p2 (st2\<lparr>es_cursor := c2\<rparr>)"
        using c2 st2(4) by (simp add: edits_inv_def edits_data_def Let_def fs_def [symmetric] ws_def [symmetric])
      obtain p3 st3 k3 where r: "edits_loop s v p2 (st2\<lparr>es_cursor := c2\<rparr>) = Some (p3, st3)" "?j \<le> k3" "k3 \<le> length fs"
        "case p3 of None \<Rightarrow> p2 = None \<and> changes ws fs (length fs) = E
         | Some e \<Rightarrow> edits_inv s v k3 (E @ [fst e]) None st3 \<and> (p2 = None \<longrightarrow> ?j < k3)"
        using less.hyps [OF _ inv2] smaller by blast
      have "edits_loop s v pending st = Some (p3, st3)"
        using item True ids st1(1) nogap st2(1,2) c2(1) r(1) edits_loop.simps [of s v pending st] by simp
      moreover have "pending = None" if "p2 = None"
        using that st2(1) by (auto simp: edits_change_def extend_pending_def Let_def split: option.splits if_splits bind_splits)
      ultimately show ?thesis using r j by (intro exI [of _ p3] exI [of _ st3] exI [of _ k3]) (auto split: option.splits)
    qed
  qed
qed

lemma edits_collect_ok:
  assumes ok: "snapshot_ok ch s" and v: "canonical v"
  defines "fs \<equiv> tree_items (sn_fragments s)"
  defines "ws \<equiv> map (at_version (sn_undo_map s) v) fs"
  assumes inv: "edits_inv s v k E None st"
  shows "\<exists>es. edits_collect s v st = Some es \<and> E @ map fst es = changes ws fs (length fs)"
  using inv
proof (induction "length fs - k" arbitrary: k E st rule: less_induct)
  case less
  obtain p st' k' where r: "edits_loop s v None st = Some (p, st')" "k \<le> k'" "k' \<le> length fs"
    "case p of None \<Rightarrow> None = (None :: anchored_edit option) \<and> changes ws fs (length fs) = E
     | Some e \<Rightarrow> edits_inv s v k' (E @ [fst e]) None st' \<and> (None = (None :: anchored_edit option) \<longrightarrow> k < k')"
    using edits_loop_ok [OF ok v less.prems] unfolding fs_def ws_def by blast
  show ?case
  proof (cases p)
    case None
    then show ?thesis using r edits_collect.simps [of s v st] by (simp add: edits_next_def)
  next
    case (Some e)
    then have inv': "edits_inv s v k' (E @ [fst e]) None st'" and smaller: "length fs - k' < length fs - k" using r by auto
    obtain es where "edits_collect s v st' = Some es" "(E @ [fst e]) @ map fst es = changes ws fs (length fs)"
      using less.hyps [OF smaller inv'] by blast
    then show ?thesis using r Some edits_collect.simps [of s v st] by (simp add: edits_next_def)
  qed
qed

section \<open>The edits since a version\<close>

lemma place_dimension: "dimension_laws frag_item place_dim"
  by unfold_locales (auto simp: place_dim_def pair_dim_def locator_dim_def text_dim_def fragment_summary_add_def text_add_assoc)

lemma passes_start: "passes (pair_target (ord_cmp (Some locator_min))) Left d \<longleftrightarrow> fst d < Some locator_min"
  by (auto simp: passes_def pair_target_def ord_cmp_def)

lemma insertion_starts:
  assumes "insertion_order (all_cells (f # fs))" "0 < frag_len f"
  shows "insertion_offset f = 0"
proof -
  define cs where "cs = map (Pair (frag_timestamp f)) [Suc (insertion_offset f)..<insertion_offset f + frag_len f]"
  have "cells f = (frag_timestamp f, insertion_offset f) # cs" using assms(2) by (simp add: cells_def cs_def upt_conv_Cons)
  moreover obtain n where "map snd (filter (\<lambda>c. fst c = frag_timestamp f) (all_cells (f # fs))) = [0..<n]"
    using assms(1) by (auto simp: insertion_order_def)
  ultimately have "insertion_offset f # map snd (filter (\<lambda>c. fst c = frag_timestamp f) (cs @ all_cells fs)) = [0..<n]" by simp
  then show ?thesis by (cases n) (simp_all add: upt_conv_Cons del: upt_Suc)
qed

lemma find_first:
  assumes ok: "snapshot_ok ch s"
  shows "\<exists>e item. st_find place_dim (sn_fragments s) (pair_target (ord_cmp (Some locator_min))) Left = ((None, text_zero), e, item) \<and>
    (\<forall>f. item = Some f \<longrightarrow> insertion_offset f = 0)"
proof -
  let ?fs = "tree_items (sn_fragments s)" and ?p = "passes (pair_target (ord_cmp (Some locator_min))) Left"
  note s = snapshot_frags [OF ok]
  show ?thesis
  proof (cases ?fs)
    case Nil
    then have "sn_fragments s = st_new frag_item" using s(1) by (auto elim: wf_treeE)
    then show ?thesis
      by (simp add: st_find_def find_with_def st_new_def passes_start place_dim_def pair_dim_def locator_dim_def text_dim_def
          fragment_summary_default_def)
  next
    case (Cons f fs)
    have zero: "dzero place_dim = (None, text_zero)" by (simp add: place_dim_def pair_dim_def locator_dim_def text_dim_def)
    have f: "locator_min < frag_id f" "0 < frag_len f" using s(3) Cons by (auto simp: frag_ok_def)
    have at: "\<exists>i>locator_min. fst (pos_after frag_item place_dim d gs) = Some i" if "gs \<noteq> []" "set gs \<subseteq> set ?fs" for gs d
      using that
    proof (induction gs rule: rev_induct)
      case (snoc g gs)
      then show ?case using s(3) by (auto simp: place_dim_def pair_dim_def locator_dim_def max_id_of list_all_iff frag_ok_def split: prod.splits)
    qed simp
    have "seekable frag_item place_dim ?p (dzero place_dim) ?fs"
      unfolding seekable_def
    proof (intro allI impI, elim conjE)
      fix i j assume "0 < i" "i \<le> j" "j \<le> length ?fs" and p: "?p (pos_after frag_item place_dim (dzero place_dim) (take j ?fs))"
      then show "?p (pos_after frag_item place_dim (dzero place_dim) (take i ?fs))"
        using at [of "take j ?fs" "dzero place_dim"] Cons set_take_subset [of j ?fs] by (auto simp: passes_start)
    qed
    moreover have "seek_count frag_item place_dim ?p (dzero place_dim) ?fs = 0"
      using at [of "[f]" "dzero place_dim"] Cons by (auto simp: seek_count_def passes_start Let_def)
    moreover have "insertion_offset f = 0" using insertion_starts [of f fs] s(7) f(2) Cons by simp
    ultimately show ?thesis
      using dimension_laws.find_ok(1) [OF place_dimension s(1), of "pair_target (ord_cmp (Some locator_min))" Left] Cons zero by simp
  qed
qed

lemma edits_in_range_ok:
  assumes ok: "snapshot_ok ch s" and v: "canonical v"
  shows "\<exists>st. edits_in_range debug s v (min_for_buffer b, max_for_buffer b) = Some st \<and>
    edits_inv s v (next_unseen v (tree_items (sn_fragments s)) 0) [] None st"
proof -
  let ?fs = "tree_items (sn_fragments s)"
  obtain c where c: "filter_next text_dim (unseen v) (cursor_new text_dim (sn_fragments s)) = Some c" "c_tree c = sn_fragments s" "did_seek c"
    "cursor_at frag_item text_dim (next_unseen v ?fs 0) c"
    using filter_cursor_first [OF v text_laws.dimension_laws_axioms snapshot_frags(1) [OF ok]] by blast
  obtain e item where find: "st_find place_dim (sn_fragments s) (pair_target (ord_cmp (Some locator_min))) Left = ((None, text_zero), e, item)"
    "\<forall>f. item = Some f \<longrightarrow> insertion_offset f = 0"
    using find_first [OF ok] by blast
  let ?st = "\<lparr>es_visible = 0, es_deleted = 0, es_cursor = c, es_old_end = 0, es_new_end = 0,
    es_start = (locator_min, 0), es_end = (locator_max, U32_MAX)\<rparr>"
  have ids: "fragment_id_for_anchor debug s (min_for_buffer b) = Some locator_min" "fragment_id_for_anchor debug s (max_for_buffer b) = Some locator_max"
    by (simp_all add: fragment_id_for_anchor_def try_fragment_id_for_anchor_def anchor_is_min_def anchor_is_max_def min_for_buffer_def max_for_buffer_def)
  have "edits_in_range debug s v (min_for_buffer b, max_for_buffer b) = Some ?st"
    using c(1) ids find by (cases item) (simp_all add: edits_in_range_def min_for_buffer_def max_for_buffer_def usize_sub_def text_zero_def Let_def)
  moreover have "edits_data (map (at_version (sn_undo_map s) v) ?fs) ?fs 0 [] None ?st" by (simp add: edits_data_def)
  then have "edits_data (map (at_version (sn_undo_map s) v) ?fs) ?fs (next_unseen v ?fs 0) [] None ?st"
    by (rule edits_data_skip [OF ok v]) simp
  ultimately show ?thesis using c by (simp add: edits_inv_def Let_def)
qed

lemma changes_length: "length (changes ws fs k) \<le> k"
proof (induction k)
  case (Suc k)
  have "length (patch_push p e) \<le> Suc (length p)" for p e by (simp add: patch_push_def push_maybe_empty_def)
  then have "length (undo_edit f f' x y p) \<le> Suc (length p)" for f f' x y p by (simp add: undo_edit_def)
  then show ?case using Suc by (metis changes.simps(2) Suc_le_mono le_trans)
qed simp

text \<open>The iterator ends, with at most one edit for each fragment.\<close>

lemma anchored_edits_since_ok:
  assumes ok: "snapshot_ok ch s" and v: "canonical v"
  defines "fs \<equiv> tree_items (sn_fragments s)"
  shows "\<exists>es. anchored_edits_since debug s v = Some es \<and> length es \<le> length fs \<and>
    patch_describes (cells_at (sn_undo_map s) v fs) (vis_cells fs) (map fst es)"
proof (cases "v = sn_version s")
  case True
  then have "cells_at (sn_undo_map s) v fs = vis_cells fs" using at_version_current [OF ok] by (simp add: fs_def)
  moreover have "anchored_edits_since debug s v = Some []"
    using True by (simp add: anchored_edits_since_def anchored_edits_since_in_range_def)
  moreover have "patch_describes cs cs []" for cs :: "cell list" by (simp add: patch_describes_def canonical_patch_def)
  ultimately show ?thesis by simp
next
  case False
  let ?ws = "map (at_version (sn_undo_map s) v) fs"
  obtain st where st: "edits_in_range debug s v (min_for_buffer (sn_remote_id s), max_for_buffer (sn_remote_id s)) = Some st"
    "edits_inv s v (next_unseen v fs 0) [] None st"
    using edits_in_range_ok [OF ok v] unfolding fs_def by blast
  obtain es where es: "edits_collect s v st = Some es" "map fst es = changes ?ws fs (length fs)"
    using edits_collect_ok [OF ok v st(2)] unfolding fs_def by auto
  then have "length es \<le> length fs" using changes_length [of ?ws fs "length fs"] by (simp flip: es(2))
  then show ?thesis
    using False st(1) es changes_describe [OF refl, of "sn_undo_map s" v fs]
    by (simp add: anchored_edits_since_def anchored_edits_since_in_range_def)
qed

lemma edits_since_ok:
  assumes "snapshot_ok ch s" "canonical v"
  shows "\<exists>p. edits_since debug s v = Some p \<and>
    patch_describes (cells_at (sn_undo_map s) v (tree_items (sn_fragments s))) (vis_cells (tree_items (sn_fragments s))) p"
  using anchored_edits_since_ok [OF assms, of debug]
  by (auto simp: edits_since_def edits_since_in_range_def anchored_edits_since_def)

section \<open>Whether anything has changed\<close>

lemma changed_iff:
  assumes "list_all frag_ok fs" "distinct (all_cells fs)"
  shows "cells_at m v fs \<noteq> vis_cells fs \<longleftrightarrow> (\<exists>f\<in>set fs. shown_at m v f \<noteq> frag_visible f)"
proof
  assume "cells_at m v fs \<noteq> vis_cells fs"
  then show "\<exists>f\<in>set fs. shown_at m v f \<noteq> frag_visible f" using at_version_same map_idI [of fs "at_version m v"] by metis
next
  let ?ws = "map (at_version m v) fs"
  assume "\<exists>f\<in>set fs. shown_at m v f \<noteq> frag_visible f"
  then obtain f where f: "f \<in> set fs" "shown_at m v f \<noteq> frag_visible f" by blast
  then obtain c where c: "c \<in> set (cells f)" using assms(1) first_cell by (auto simp: list_all_iff frag_ok_def)
  have "all_cells ?ws = all_cells fs" by (simp add: all_cells_def comp_def)
  then have "c \<in> set (vis_cells ?ws) \<longleftrightarrow> shown_at m v f"
    using vis_cell_iff [of ?ws "at_version m v f" c] assms(2) f(1) c by simp
  moreover have "c \<in> set (vis_cells fs) \<longleftrightarrow> frag_visible f" using vis_cell_iff [OF assms(2) f(1) c] .
  ultimately show "cells_at m v fs \<noteq> vis_cells fs" using f(2) by auto
qed

lemma changed_loop_ok:
  assumes ok: "snapshot_ok ch s" and v: "canonical v"
  defines "fs \<equiv> tree_items (sn_fragments s)"
  assumes c: "cursor_at frag_item usize_dim k c" "did_seek c" "c_tree c = sn_fragments s"
  shows "changed_loop s v c = Some (\<exists>f\<in>set (drop k fs). shown_at (sn_undo_map s) v f \<noteq> frag_visible f)"
  using c
proof (induction "length fs - k" arbitrary: k c rule: less_induct)
  case less
  let ?changed = "\<lambda>f. shown_at (sn_undo_map s) v f \<noteq> frag_visible f"
  note item = cursor_item_at(1) [OF less.prems(1,2), unfolded less.prems(3), folded fs_def]
  have um: "um_ok (sn_undo_map s)" using ok by (simp add: snapshot_ok_def Let_def)
  show ?case
  proof (cases "k < length fs")
    case True
    let ?j = "next_unseen v fs (Suc k)"
    obtain c' where c': "filter_next usize_dim (unseen v) c = Some c'" "c_tree c' = sn_fragments s" "did_seek c'" "cursor_at frag_item usize_dim ?j c'"
      using filter_cursor_step [OF v usize_dimension less.prems(1,2)] less.prems(3) True unfolding fs_def by auto
    have j: "Suc k \<le> ?j" by (rule next_unseen_bounds)
    have d: "drop k fs = fs ! k # take (?j - Suc k) (drop (Suc k) fs) @ drop ?j fs"
      using Cons_nth_drop_Suc [OF True] append_take_drop_id [of "?j - Suc k" "drop (Suc k) fs"] j by simp
    have "\<not> ?changed f" if "f \<in> set (take (?j - Suc k) (drop (Suc k) fs))" for f
      using skipped_unchanged [OF ok v] that unfolding fs_def by blast
    then have "(\<exists>f\<in>set (drop k fs). ?changed f) \<longleftrightarrow> ?changed (fs ! k) \<or> (\<exists>f\<in>set (drop ?j fs). ?changed f)" unfolding d by auto
    moreover have "length fs - ?j < length fs - k" using j True by simp
    note less.hyps [OF this c'(4,3,2)]
    ultimately show ?thesis
      using item True c'(1) changed_loop.simps [of s v c] was_visible_ok [OF um, of "fs ! k" v] by simp
  next
    case False
    then show ?thesis using item changed_loop.simps [of s v c] by simp
  qed
qed

lemma has_edits_since_ok:
  assumes ok: "snapshot_ok ch s" and v: "canonical v"
  defines "fs \<equiv> tree_items (sn_fragments s)"
  shows "has_edits_since s v = Some (cells_at (sn_undo_map s) v fs \<noteq> vis_cells fs)"
proof (cases "v = sn_version s")
  case True
  then show ?thesis using at_version_current [OF ok] by (simp add: has_edits_since_def fs_def)
next
  case False
  note s = snapshot_frags [OF ok, folded fs_def]
  obtain c where c: "filter_next usize_dim (unseen v) (cursor_new usize_dim (sn_fragments s)) = Some c" "c_tree c = sn_fragments s" "did_seek c"
    "cursor_at frag_item usize_dim (next_unseen v fs 0) c"
    using filter_cursor_first [OF v usize_dimension s(1)] unfolding fs_def by blast
  have "\<not> (shown_at (sn_undo_map s) v f \<noteq> frag_visible f)" if "f \<in> set (take (next_unseen v fs 0) fs)" for f
    using skipped_unchanged [OF ok v, of f 0] that by (simp add: fs_def)
  then have "(\<exists>f\<in>set (drop (next_unseen v fs 0) fs). shown_at (sn_undo_map s) v f \<noteq> frag_visible f) \<longleftrightarrow>
      (\<exists>f\<in>set fs. shown_at (sn_undo_map s) v f \<noteq> frag_visible f)"
    by (metis (no_types, lifting) Un_iff append_take_drop_id set_append)
  then show ?thesis
    using False c(1) changed_loop_ok [OF ok v c(4,3,2)] changed_iff [OF s(3,4)] by (simp add: has_edits_since_def fs_def)
qed

section \<open>Offsets at a past version\<close>

text \<open>Going on from where one offset stopped gives the same as starting over, for a later offset.\<close>

lemma offset_resume:
  "offset \<le> later \<Longrightarrow> offset_to_version es x y offset = (old, es', x', y') \<Longrightarrow>
   fst (offset_to_version es' x' y' later) = fst (offset_to_version es x y later)"
  by (induction es x y offset rule: offset_to_version.induct) (auto split: if_splits)

lemma offsets_loop_map: "sorted offsets \<Longrightarrow> offsets_loop es x y offsets = map (\<lambda>i. fst (offset_to_version es x y i)) offsets"
proof (induction offsets arbitrary: es x y)
  case (Cons i offsets)
  obtain old es' x' y' where r: "offset_to_version es x y i = (old, es', x', y')" by (metis prod_cases4)
  have "fst (offset_to_version es' x' y' j) = fst (offset_to_version es x y j)" if "j \<in> set offsets" for j
    using offset_resume [OF _ r] Cons.prems that by simp
  then show ?case using Cons r by simp
qed simp

lemma offset_of_kept: "wf_patch x y p \<Longrightarrow> keep x y p i = Some j \<Longrightarrow> fst (offset_to_version p x y j) = i"
proof (induction p arbitrary: x y)
  case (Cons e p)
  have e: "edit_fits x y e" "wf_patch (eo_end e) (en_end e) p" using Cons.prems(1) by auto
  show ?case
  proof (cases "i < eo_start e")
    case True
    then show ?thesis using Cons.prems(2) e(1) by (auto simp: edit_fits_def split: if_splits)
  next
    case False
    then have k: "keep (eo_end e) (en_end e) p i = Some j" using Cons.prems(2) by (simp split: if_splits)
    then have "en_end e \<le> j" using keep_bounds [OF e(2)] by blast
    then show ?thesis using Cons.IH [OF e(2) k] e(1) by (simp add: edit_fits_def)
  qed
qed (auto split: if_splits)

lemma offsets_to_version_ok:
  assumes ok: "snapshot_ok ch s" and v: "canonical v" and offsets: "sorted offsets"
  shows "\<exists>p olds. edits_since debug s v = Some p \<and> offsets_to_version debug s offsets v = Some olds \<and> length olds = length offsets \<and>
    (\<forall>n<length offsets. \<forall>i. keep 0 0 p i = Some (offsets ! n) \<longrightarrow> olds ! n = i)"
proof -
  obtain p where p: "edits_since debug s v = Some p" "wf_patch 0 0 p"
    using edits_since_ok [OF ok v, of debug] ends_wf unfolding patch_describes_def by blast
  then show ?thesis using offsets_loop_map [OF offsets] offset_of_kept [OF p(2)] by (auto simp: offsets_to_version_def)
qed

end
