(* ===== verification/Time_Travel.thy ===== *)
theory Time_Travel
  imports Versions_Correct Buffer_Roundtrip
begin

text \<open>
  A buffer remembers every version it has been at. Whatever edits, undos and redos follow, the text reconstructed for an
  earlier version is the text that the buffer showed then, and the edits reported since that version lead from it to the
  current text: neither depends on how insertions have been split into fragments since, nor on later undos.
\<close>

section \<open>One step leaves the past alone\<close>

lemma cells_at_eq: "cells_at m v fs = concat (map cells (filter (shown_at m v) fs))"
  by (induction fs) (simp_all add: vis_cells_def)

lemma edit_keeps_past:
  assumes "distinct (all_cells xs)" "\<And>f. f \<in> set xs \<Longrightarrow> ts \<notin> edits_of f"
    "filter (\<lambda>c. fst c \<noteq> ts) (all_cells out) = all_cells xs" "pieces xs ts out" "\<not> global_observed v ts"
  shows "cells_at m v out = cells_at m v xs"
  unfolding cells_at_eq
  by (rule pieces_select [OF assms(1-4)]) (use assms(5) in \<open>auto simp: shown_at_def part_of_def\<close>)

lemma undone_at_cong: "(\<And>u. global_observed v u \<Longrightarrow> um_map m (e, u) = um_map m' (e, u)) \<Longrightarrow> undone_at m v e = undone_at m' v e"
proof -
  assume "\<And>u. global_observed v u \<Longrightarrow> um_map m (e, u) = um_map m' (e, u)"
  then have "{n. \<exists>u. um_map m (e, u) = Some n \<and> global_observed v u} = {n. \<exists>u. um_map m' (e, u) = Some n \<and> global_observed v u}"
    by (metis (no_types, lifting))
  then show ?thesis by (simp add: undone_at_def)
qed

lemma undo_keeps_past:
  assumes "\<forall>e u. u \<noteq> ts \<longrightarrow> um_map m' (e, u) = um_map m (e, u)" "\<not> global_observed v ts"
  shows "cells_at m' v (map (retouch m' t ids) fs) = cells_at m v fs"
proof -
  have "undone_at m' v e = undone_at m v e" for e using assms by (intro undone_at_cong) metis
  then have "shown_at m' v (retouch m' t ids f) = shown_at m v f" for f by (simp add: shown_at_def)
  then show ?thesis unfolding cells_at_eq by (induction fs) simp_all
qed

section \<open>Runs of a buffer\<close>

inductive leads_to :: "buffer \<Rightarrow> buffer \<Rightarrow> bool" where
  stay: "leads_to b b"
| edit: "leads_to b b1 \<Longrightarrow> ticks_left b1 2 \<Longrightarrow> ranges_ordered (length (buffer_text b1)) 0 edits \<Longrightarrow>
    texts_ok replace_all edits \<Longrightarrow> buffer_edit debug replace_all b1 edits started ended = Some (op, b2) \<Longrightarrow> leads_to b b2"
| undo: "leads_to b b1 \<Longrightarrow> ticks_left b1 1 \<Longrightarrow> buffer_undo b1 = Some (r, b2) \<Longrightarrow> leads_to b b2"
| redo: "leads_to b b1 \<Longrightarrow> ticks_left b1 1 \<Longrightarrow> buffer_redo b1 = Some (r, b2) \<Longrightarrow> leads_to b b2"

text \<open>What is known of a buffer that came from one with version \<open>v\<close> and text \<open>old\<close>.\<close>

definition remembers :: "global \<Rightarrow> string \<Rightarrow> buffer \<Rightarrow> bool" where
  "remembers v old b \<longleftrightarrow> (\<exists>ch. buffer_ok ch b \<and> map ch (cells_at (buffer_undos b) v (buffer_fragments b)) = old) \<and>
     (\<forall>t. global_observed v t \<longrightarrow> global_observed (buffer_version b) t)"

lemma remembers_self:
  assumes "buffer_ok ch b"
  shows "remembers (buffer_version b) (buffer_text b) b"
proof -
  have s: "snapshot_ok ch (bf_snapshot b)" using assms by (simp add: buffer_ok_def Let_def)
  show ?thesis
    using assms at_version_current [OF s] snapshot_frags(6) [OF s] by (auto simp: remembers_def buffer_version_def)
qed

lemma remembers_edit:
  assumes r: "remembers v old b1" and left: "ticks_left b1 2" and edits: "ranges_ordered (length (buffer_text b1)) 0 edits"
    "texts_ok replace_all edits" and run: "buffer_edit debug replace_all b1 edits started ended = Some (op, b2)"
  shows "remembers v old b2"
proof -
  let ?ts = "edit_time b1" and ?xs = "buffer_fragments b1"
  obtain ch where ch: "buffer_ok ch b1" "map ch (cells_at (buffer_undos b1) v ?xs) = old"
    and v: "\<And>t. global_observed v t \<Longrightarrow> global_observed (buffer_version b1) t"
    using r by (auto simp: remembers_def)
  let ?ch = "with_insertion ?ts (inserted replace_all edits) ch"
  have chars: "debug \<longrightarrow> on_chars (buffer_text b1) edits" using buffer_edit_panics [of debug b1 edits replace_all started ended] run by fastforce
  have b2: "buffer_ok ?ch b2" "edited replace_all (floored (buffer_text b1) edits) ?ts b1 b2"
    "buffer_version b2 = global_observe (buffer_version b1) ?ts"
    using buffer_edit_ok [OF ch(1) left edits(1) chars edits(2), of started ended] run by auto
  have s: "snapshot_ok ch (bf_snapshot b1)" using ch(1) by (simp add: buffer_ok_def Let_def)
  have fresh: "\<not> global_observed (buffer_version b1) ?ts" by (rule tick_fresh [OF edit_time_ok(1) [OF ch(1) left]])
  have new: "?ts \<notin> edits_of f" if "f \<in> set ?xs" for f
    using that s fresh by (auto simp: snapshot_ok_def Let_def known_times_def buffer_version_def)
  have "cells_at (buffer_undos b2) v (buffer_fragments b2) = cells_at (buffer_undos b1) v ?xs"
    using edit_keeps_past [OF snapshot_frags(4) [OF s] new] b2(2) fresh v by (auto simp: edited_def)
  moreover have "map ?ch (cells_at (buffer_undos b1) v ?xs) = map ch (cells_at (buffer_undos b1) v ?xs)"
  proof (rule map_cong [OF refl])
    fix c assume "c \<in> set (cells_at (buffer_undos b1) v ?xs)"
    then obtain f where "f \<in> set ?xs" "c \<in> set (cells f)" by (auto simp: vis_cells_def)
    then have "fst c \<noteq> ?ts" using new [of f] cells_fst [of c f] by (auto simp: edits_of_def)
    then show "?ch c = ch c" by (simp add: with_insertion_def)
  qed
  ultimately show ?thesis using b2(1,3) ch(2) v observed_observe by (auto simp: remembers_def)
qed

lemma remembers_flip:
  assumes "remembers v old b1" "\<And>ch. buffer_ok ch b1 \<Longrightarrow> buffer_ok ch b2 \<and> flipped ch E b1 b2"
  shows "remembers v old b2"
proof -
  obtain ch where ch: "buffer_ok ch b1" "map ch (cells_at (buffer_undos b1) v (buffer_fragments b1)) = old"
    and v: "\<And>t. global_observed v t \<Longrightarrow> global_observed (buffer_version b1) t"
    using assms(1) by (auto simp: remembers_def)
  have b2: "buffer_ok ch b2" "flipped ch E b1 b2" using assms(2) [OF ch(1)] by auto
  then obtain t ids where f: "buffer_fragments b2 = map (retouch (buffer_undos b2) t ids) (buffer_fragments b1)"
    "\<forall>e u. u \<noteq> bf_clock b1 \<longrightarrow> um_map (buffer_undos b2) (e, u) = um_map (buffer_undos b1) (e, u)"
    "buffer_version b2 = global_observe (buffer_version b1) (bf_clock b1)"
    by (auto simp: flipped_def)
  have "\<not> global_observed (buffer_version b1) (bf_clock b1)"
    using ch(1) by (intro tick_fresh) (simp add: buffer_ok_def Let_def buffer_version_def)
  then have "cells_at (buffer_undos b2) v (buffer_fragments b2) = cells_at (buffer_undos b1) v (buffer_fragments b1)"
    unfolding f(1) using v by (intro undo_keeps_past [OF f(2)]) blast
  then show ?thesis using b2(1) ch(2) v f(3) observed_observe by (auto simp: remembers_def)
qed

lemma remembers_undo:
  assumes r: "remembers v old b1" and left: "ticks_left b1 1" and run: "buffer_undo b1 = Some (res, b2)"
  shows "remembers v old b2"
proof -
  have depth: "transaction_depth (bf_history b1) = 0" using run by (auto simp: buffer_undo_def pop_undo_def split: if_splits)
  show ?thesis
  proof (cases "undo_stack (bf_history b1) = []")
    case True
    then show ?thesis using r run depth by (simp add: buffer_undo_def pop_undo_def undo_popped_def)
  next
    case False
    show ?thesis by (rule remembers_flip [OF r]) (use buffer_undo_ok [OF _ left depth False] run in force)
  qed
qed

lemma remembers_redo:
  assumes r: "remembers v old b1" and left: "ticks_left b1 1" and run: "buffer_redo b1 = Some (res, b2)"
  shows "remembers v old b2"
proof -
  have depth: "transaction_depth (bf_history b1) = 0" using run by (auto simp: buffer_redo_def pop_redo_def split: if_splits)
  show ?thesis
  proof (cases "redo_stack (bf_history b1) = []")
    case True
    then show ?thesis using r run depth by (simp add: buffer_redo_def pop_redo_def undo_popped_def)
  next
    case False
    show ?thesis by (rule remembers_flip [OF r]) (use buffer_redo_ok [OF _ left depth False] run in force)
  qed
qed

lemma leads_to_remembers: "leads_to b b' \<Longrightarrow> buffer_ok ch b \<Longrightarrow> remembers (buffer_version b) (buffer_text b) b'"
proof (induction rule: leads_to.induct)
  case (stay b)
  then show ?case by (rule remembers_self)
qed (auto intro: remembers_edit remembers_undo remembers_redo)

lemma past_text:
  assumes "buffer_ok ch b" "canonical (buffer_version b)" "leads_to b b'"
  shows "rope_for_version (bf_snapshot b') (buffer_version b) = Some (buffer_text b)"
    "\<exists>p. edits_since debug (bf_snapshot b') (buffer_version b) = Some p \<and> patch_describes (buffer_text b) (buffer_text b') p"
    "has_edits_since (bf_snapshot b') (buffer_version b) = Some False \<Longrightarrow> buffer_text b' = buffer_text b"
proof -
  let ?v = "buffer_version b" and ?s = "bf_snapshot b'" and ?fs = "buffer_fragments b'"
  obtain ch' where ch': "buffer_ok ch' b'" "map ch' (cells_at (buffer_undos b') ?v ?fs) = buffer_text b"
    using leads_to_remembers [OF assms(3,1)] by (auto simp: remembers_def)
  have s: "snapshot_ok ch' ?s" using ch'(1) by (simp add: buffer_ok_def Let_def)
  show "rope_for_version ?s ?v = Some (buffer_text b)" using rope_for_version_ok [OF s assms(2)] ch'(2) by simp
  show "\<exists>p. edits_since debug ?s ?v = Some p \<and> patch_describes (buffer_text b) (buffer_text b') p"
    using edits_since_ok [OF s assms(2), of debug] patch_describes_map [of _ _ _ ch'] ch'(2) snapshot_frags(6) [OF s] by fastforce
  show "has_edits_since ?s ?v = Some False \<Longrightarrow> buffer_text b' = buffer_text b"
    using has_edits_since_ok [OF s assms(2)] ch'(2) snapshot_frags(6) [OF s] by simp
qed

section \<open>Versions in normal form\<close>

lemma canonical_flip: "canonical (buffer_version b) \<Longrightarrow> flipped ch E b b' \<Longrightarrow> canonical (buffer_version b')"
  by (auto simp: flipped_def)

lemma new_normalized_canonical: "new_normalized replica remote_id ending text = Some b \<Longrightarrow> canonical (buffer_version b)"
  by (auto simp: new_normalized_def buffer_version_def Let_def split: if_splits bind_splits)

end
