(* ===== verification/Anchor_Batch.thy ===== *)
theory Anchor_Batch
  imports Versions Anchor_Correct
begin

text \<open>
  Resolving many anchors in one pass, \<^verbatim>\<open>summaries_for_anchors\<close>, gives for anchors in order what resolving each of them
  on its own gives: the cursor only ever moves forward and the distances add up. The distances are those of pieces rounded
  to whole characters, so the anchors have to be at character boundaries.
\<close>

section \<open>Anchors in order are in fragments in order\<close>

lemma same_fragment:
  assumes "frags_ok fs" "k < length fs" "l < length fs" "c \<in> set (cells (fs ! k))" "c \<in> set (cells (fs ! l))"
  shows "k = l"
proof -
  have "fs ! k = fs ! l" using cells_disjoint [of fs "fs ! k" "fs ! l" c] assms by (simp add: frags_ok_def)
  moreover have "distinct (map frag_id fs)" using assms(1) by (simp add: frags_ok_def strict_sorted_iff)
  ultimately show ?thesis using assms(2,3) by (metis length_map nth_eq_iff_index_eq nth_map)
qed

lemma cells_before_fragments:
  assumes "distinct (all_cells fs)" "all_cells fs = pre @ c # mid @ d # post" "c \<in> set (cells (fs ! k))" "d \<in> set (cells (fs ! l))" "k < length fs"
  shows "k \<le> l"
proof (rule ccontr)
  assume "\<not> k \<le> l"
  then have "fs ! l \<in> set (take k fs)" using assms(5) by (metis in_set_conv_nth length_take min.absorb2 not_le less_imp_le nth_take)
  then have d: "d \<in> set (all_cells (take k fs))" using assms(4) by (auto simp: all_cells_def)
  have all: "all_cells fs = all_cells (take k fs) @ all_cells (drop k fs)" by (metis append_take_drop_id cells_simps(3))
  have "fs ! k \<in> set (drop k fs)" using assms(5) by (metis Cons_nth_drop_Suc list.set_intros(1))
  then have "c \<in> set (all_cells (drop k fs))" using assms(3) by (auto simp: all_cells_def)
  then have "c \<notin> set (all_cells (take k fs))" using assms(1) unfolding all by auto
  then have "takeWhile (\<lambda>x. x \<noteq> c) (all_cells fs) = all_cells (take k fs) @ takeWhile (\<lambda>x. x \<noteq> c) (all_cells (drop k fs))"
    unfolding all by (intro takeWhile_append2) auto
  moreover have "takeWhile (\<lambda>x. x \<noteq> c) (all_cells fs) = pre" using assms(1,2) by (simp add: takeWhile_before)
  ultimately have "d \<in> set pre" using d by auto
  then show False using assms(1,2) by auto
qed

lemma ordered_fragments:
  assumes ok: "snapshot_ok ch s" and a: "attached (tree_items (sn_fragments s)) a" and b: "attached (tree_items (sn_fragments s)) b"
    and cmp: "anchor_cmp debug s a b \<noteq> Some Greater"
  defines "fs \<equiv> tree_items (sn_fragments s)"
  assumes k: "k < length fs" "anchor_cell a \<in> set (cells (fs ! k))" and l: "l < length fs" "anchor_cell b \<in> set (cells (fs ! l))"
  shows "k \<le> l" "anchor_place fs a \<le> anchor_place fs b"
proof -
  note s = snapshot_frags [OF ok, folded fs_def]
  have left: "an_bias a = Left \<longrightarrow> 0 < an_offset a" "an_bias b = Left \<longrightarrow> 0 < an_offset b" using a b by (auto simp: attached_def)
  show "anchor_place fs a \<le> anchor_place fs b"
  proof -
    obtain c where c: "anchor_cmp debug s a b = Some c"
      "c = Equal \<longleftrightarrow> an_timestamp a = an_timestamp b \<and> an_offset a = an_offset b \<and> an_bias a = an_bias b"
      "c = Less \<longrightarrow> anchor_place fs a \<le> anchor_place fs b"
      using anchor_cmp_ok [OF ok a b] unfolding fs_def by blast
    then show ?thesis using cmp by (cases c) (auto simp: anchor_place_def anchor_cell_def)
  qed
  show "k \<le> l"
  proof (cases "an_timestamp a = an_timestamp b")
    case False
    have "ord_cmp (frag_id (fs ! k)) (frag_id (fs ! l)) \<noteq> Greater"
      using False cmp fragment_id_for_anchor_ok [OF ok k [unfolded fs_def] left(1)] fragment_id_for_anchor_ok [OF ok l [unfolded fs_def] left(2)]
      by (auto simp: anchor_cmp_def then_with_def fs_def split: if_splits)
    then have "frag_id (fs ! k) \<le> frag_id (fs ! l)" by (auto simp: ord_cmp_def split: if_splits)
    moreover have "frag_id (fs ! l) < frag_id (fs ! k)" if "l < k" using s(2) k(1) that by (simp add: frags_ok_def sorted_wrt_iff_nth_less)
    ultimately show ?thesis by (meson not_le)
  next
    case True
    then have c: "anchor_cmp debug s a b = Some (then_with (ord_cmp (an_offset a) (an_offset b)) (bias_cmp (an_bias a) (an_bias b)))"
      by (simp add: anchor_cmp_def then_with_def)
    have "snd (anchor_cell a) \<le> snd (anchor_cell b)"
      using cmp left unfolding c by (cases "an_bias a"; cases "an_bias b") (auto simp: anchor_cell_def then_with_def ord_cmp_def split: if_splits)
    moreover have ts: "fst (anchor_cell a) = fst (anchor_cell b)" using True by (simp add: anchor_cell_def)
    ultimately consider "anchor_cell a = anchor_cell b" | "snd (anchor_cell a) < snd (anchor_cell b)" by (metis le_neq_implies_less prod.collapse)
    then show ?thesis
    proof cases
      case 1
      then show ?thesis using same_fragment [OF s(2) k(1) l(1) k(2)] l(2) by simp
    next
      case 2
      obtain pre mid post where "all_cells fs = pre @ anchor_cell a # mid @ anchor_cell b # post"
        using place_before [OF s(4) _ _ s(7) ts 2] a b by (auto simp: attached_def fs_def)
      then show ?thesis using cells_before_fragments [OF s(4) _ k(2) l(2) k(1)] by blast
    qed
  qed
qed

section \<open>One anchor\<close>

definition anchor_inv :: "buffer_snapshot \<Rightarrow> nat \<Rightarrow> nat \<Rightarrow> anchor_pass \<Rightarrow> bool" where
  "anchor_inv s j p st \<longleftrightarrow> cursor_at frag_item id_dim j (ap_cursor st) \<and> c_tree (ap_cursor st) = sn_fragments s \<and>
     ap_text st = p \<and> ap_position st = p \<and> is_char_boundary (visible_text s) p"

lemma seek_to_fragment:
  assumes c: "cursor_at frag_item id_dim j c" "tree_items (c_tree c) = fs" and fs: "frags_ok fs" "j \<le> k" "k < length fs"
  shows "\<exists>b c'. seek_forward id_dim c (id_target (frag_id (fs ! k))) Left = Some (b, c') \<and> c_tree c' = c_tree c \<and> did_seek c' \<and>
    cursor_at frag_item id_dim k c'"
proof -
  let ?fid = "frag_id (fs ! k)"
  have srt: "sorted_wrt (<) (map frag_id fs)" using fs(1) by (simp add: frags_ok_def)
  have "takeWhile (\<lambda>f. frag_id f < ?fid) (drop j fs) = take (k - j) (drop j fs)"
    using srt fs(2,3) by (intro takeWhile_eq_take_P_nth) (auto simp: sorted_wrt_iff_nth_less)
  then have n: "seek_count frag_item id_dim (passes (id_target ?fid) Left) (c_position c) (drop j fs) = k - j"
    using fs(2,3) by (simp add: seek_count_id)
  have "fst (c_position c) \<le> Some ?fid"
  proof (cases "take j fs = []")
    case False
    then have "j - 1 < k" "last (take j fs) = fs ! (j - 1)" "0 < j" using fs(2,3) by (auto simp: last_conv_nth)
    then show ?thesis using c srt fs(3) False by (simp add: cursor_at_def pos_after_id id_dim_simps sorted_wrt_iff_nth_less less_imp_le)
  qed (use c in \<open>simp add: cursor_at_def pos_after_id id_dim_simps\<close>)
  moreover have "sorted_wrt (<) (map frag_id (drop j fs))" using srt by (simp add: drop_map [symmetric] sorted_wrt_drop)
  ultimately show ?thesis
    using locator_laws.seek_forward_ok [folded id_dim_def, OF c(1), of "id_target ?fid" Left] id_target_ge seekable_id c(2) n fs(2) by auto
qed

lemma anchor_step_ok:
  assumes ok: "snapshot_ok ch s" and inv: "anchor_inv s j p st"
  defines "fs \<equiv> tree_items (sn_fragments s)"
  assumes a: "attached fs a" "k < length fs" "anchor_cell a \<in> set (cells (fs ! k))" "j \<le> k" "p \<le> anchor_place fs a"
    "is_char_boundary (visible_text s) (anchor_place fs a)"
  shows "\<exists>st'. anchor_step s a st = Some (anchor_place fs a, st') \<and> anchor_inv s k (anchor_place fs a) st'"
proof -
  note s = snapshot_frags [OF ok, folded fs_def]
  let ?f = "fs ! k"
  have f: "?f \<in> set fs" "frag_ok ?f" using a(2) s(3) by (auto simp: list_all_iff)
  have left: "an_bias a = Left \<longrightarrow> 0 < an_offset a" using a(1) by (simp add: attached_def)
  have ts: "an_timestamp a = frag_timestamp ?f" using cells_fst [OF a(3)] by (simp add: anchor_cell_def)
  note place = anchor_place_at [OF s(4) a(2,3) left]
  have c: "cursor_at frag_item id_dim j (ap_cursor st)" "c_tree (ap_cursor st) = sn_fragments s" "ap_text st = p" "ap_position st = p"
    using inv by (auto simp: anchor_inv_def)
  have "tree_items (c_tree (ap_cursor st)) = fs" by (simp add: c(2) fs_def)
  from seek_to_fragment [OF c(1) this s(2) a(4,2)] obtain b c' where c': "seek_forward id_dim (ap_cursor st) (id_target (frag_id ?f)) Left = Some (b, c')"
    "c_tree c' = sn_fragments s" "did_seek c'" "cursor_at frag_item id_dim k c'" using c(2) by auto
  have item: "cursor_item c' = Some (Some ?f)" using cursor_item_at(1) [OF c'(4,3)] c'(2) a(2) by (simp add: fs_def)
  have pos: "snd (c_position c') = vis_at fs k" using c'(2,4) by (simp add: cursor_at_def pos_after_id id_dim_simps vis_at_def fs_def)
  have "rope_count (visible_text s) p (anchor_place fs a) = Some (anchor_place fs a - p, anchor_place fs a)"
    using inv a(5,6) by (simp add: rope_count_chars anchor_inv_def)
  then have "anchor_step s a st = Some (anchor_place fs a, \<lparr>ap_cursor = c', ap_text = anchor_place fs a, ap_position = anchor_place fs a\<rparr>)"
    using attached_not_extreme [OF f(2) a(3)] s(8) [OF f(1)] try_find_fragment_ok [OF s(5,3,4) f(1) a(3) left] ts c'(1) item pos place a(5) c(3,4)
    by (auto simp: anchor_step_def insertion_fragment_new_def usize_sub_def)
  then show ?thesis using c' a(6) by (simp add: anchor_inv_def)
qed

section \<open>All anchors\<close>

lemma anchor_steps_ok:
  assumes ok: "snapshot_ok ch s"
  defines "fs \<equiv> tree_items (sn_fragments s)"
  assumes "anchor_inv s j p st" "\<forall>a\<in>fst ` set anchors. anchor_is_min a \<or> anchor_is_max a \<or> attached fs a \<and> an_buffer_id a = sn_remote_id s"
    "\<forall>a\<in>fst ` set anchors. \<forall>i. offset_for_anchor debug s a = Some i \<longrightarrow> is_char_boundary (visible_text s) i"
    "sorted_wrt (\<lambda>a b. anchor_cmp debug s a b \<noteq> Some Greater) (map fst anchors)"
    "\<And>a k. a \<in> fst ` set anchors \<Longrightarrow> attached fs a \<Longrightarrow> k < length fs \<Longrightarrow> anchor_cell a \<in> set (cells (fs ! k)) \<Longrightarrow> j \<le> k \<and> p \<le> anchor_place fs a"
  shows "\<exists>rs. anchor_steps s anchors st = Some rs \<and> map snd rs = map snd anchors \<and> map (Some \<circ> fst) rs = map (offset_for_anchor debug s \<circ> fst) anchors"
  using assms(3-)
proof (induction anchors arbitrary: j p st)
  case (Cons x anchors)
  obtain a payload where x: "x = (a, payload)" by fastforce
  have rest: "\<forall>a\<in>fst ` set anchors. anchor_is_min a \<or> anchor_is_max a \<or> attached fs a \<and> an_buffer_id a = sn_remote_id s"
    "\<forall>a\<in>fst ` set anchors. \<forall>i. offset_for_anchor debug s a = Some i \<longrightarrow> is_char_boundary (visible_text s) i"
    "sorted_wrt (\<lambda>a b. anchor_cmp debug s a b \<noteq> Some Greater) (map fst anchors)" using Cons.prems(2,3,4) by auto
  show ?case
  proof (cases "anchor_is_min a \<or> anchor_is_max a")
    case True
    have "j \<le> l \<and> p \<le> anchor_place fs b" if "b \<in> fst ` set anchors" "attached fs b" "l < length fs" "anchor_cell b \<in> set (cells (fs ! l))" for b l
      using Cons.prems(5) [OF _ that(2-4)] that(1) by simp
    then obtain rs where "anchor_steps s anchors st = Some rs" "map snd rs = map snd anchors"
      "map (Some \<circ> fst) rs = map (offset_for_anchor debug s \<circ> fst) anchors"
      using Cons.IH [OF Cons.prems(1) rest] by blast
    moreover obtain n where "anchor_step s a st = Some (n, st)" "offset_for_anchor debug s a = Some n"
      using True by (cases "anchor_is_min a") (simp_all add: anchor_step_def offset_for_anchor_def)
    ultimately show ?thesis by (simp add: x comp_def)
  next
    case False
    then have a: "attached fs a" "an_buffer_id a = sn_remote_id s" using Cons.prems(2) x by auto
    obtain k where k: "k < length fs" "anchor_cell a \<in> set (cells (fs ! k))" using a(1) by (auto simp: attached_def elim: in_all_cellsE)
    have jp: "j \<le> k" "p \<le> anchor_place fs a" using Cons.prems(5) [of a k] a(1) k x by auto
    have at: "offset_for_anchor debug s a = Some (anchor_place fs a)"
      using offset_for_anchor_ok [OF ok] a by (simp add: fs_def)
    then have chars: "is_char_boundary (visible_text s) (anchor_place fs a)" using Cons.prems(3) x by simp
    obtain st' where st': "anchor_step s a st = Some (anchor_place fs a, st')" "anchor_inv s k (anchor_place fs a) st'"
      using anchor_step_ok [OF ok Cons.prems(1), folded fs_def, OF a(1) k jp chars] by blast
    have "k \<le> l \<and> anchor_place fs a \<le> anchor_place fs b" if "b \<in> fst ` set anchors" "attached fs b" "l < length fs" "anchor_cell b \<in> set (cells (fs ! l))" for b l
      using ordered_fragments [OF ok a(1) [unfolded fs_def] that(2) [unfolded fs_def], folded fs_def, OF _ k that(3,4)] Cons.prems(4) that(1) x by auto
    then obtain rs where "anchor_steps s anchors st' = Some rs" "map snd rs = map snd anchors"
      "map (Some \<circ> fst) rs = map (offset_for_anchor debug s \<circ> fst) anchors"
      using Cons.IH [OF st'(2) rest] by blast
    then show ?thesis using st'(1) at by (simp add: x comp_def)
  qed
qed simp

lemma summaries_for_anchors_ok:
  assumes ok: "snapshot_ok ch s"
    and anchors: "\<forall>a\<in>set anchors. anchor_is_min a \<or> anchor_is_max a \<or> attached (tree_items (sn_fragments s)) a \<and> an_buffer_id a = sn_remote_id s"
    and chars: "\<forall>a\<in>set anchors. \<forall>i. offset_for_anchor debug s a = Some i \<longrightarrow> is_char_boundary (visible_text s) i"
    and srt: "sorted_wrt (\<lambda>a b. anchor_cmp debug s a b \<noteq> Some Greater) anchors"
  shows "\<exists>rs. summaries_for_anchors s anchors = Some rs \<and> map Some rs = map (offset_for_anchor debug s) anchors"
proof -
  let ?st = "\<lparr>ap_cursor = cursor_new id_dim (sn_fragments s), ap_text = 0, ap_position = 0\<rparr>" and ?as = "map (\<lambda>a. (a, ())) anchors"
  have "anchor_inv s 0 0 ?st" using cursor_at_new [OF snapshot_frags(1) [OF ok]] by (simp add: anchor_inv_def cursor_new_def)
  from anchor_steps_ok [OF ok this, of ?as debug] anchors chars srt
  obtain rs where "anchor_steps s ?as ?st = Some rs" "map (Some \<circ> fst) rs = map (offset_for_anchor debug s) anchors"
    by (auto simp: comp_def image_image)
  then show ?thesis by (auto simp: summaries_for_anchors_def summaries_for_anchors_with_payload_def comp_def)
qed

end
