(* ===== verification/Buffer_Liveness.thy ===== *)
theory Buffer_Liveness
  imports Buffer_Roundtrip
begin

text \<open>
  Undo makes progress: outside of a transaction, as long as the clock has room, every entry of the undo stack can be undone
  in turn until none is left, and redoing as often brings back the text and both stacks.
\<close>

primrec undo_many :: "nat \<Rightarrow> buffer \<Rightarrow> buffer option" where
  "undo_many 0 b = Some b"
| "undo_many (Suc n) b = do { (_, b') \<leftarrow> buffer_undo b; undo_many n b' }"

primrec redo_many :: "nat \<Rightarrow> buffer \<Rightarrow> buffer option" where
  "redo_many 0 b = Some b"
| "redo_many (Suc n) b = do { b' \<leftarrow> redo_many n b; (_, b'') \<leftarrow> buffer_redo b'; Some b'' }"

text \<open>Buffers that differ only in how often edits have been undone and redone.\<close>

definition similar :: "buffer \<Rightarrow> buffer \<Rightarrow> bool" where
  "similar b b' \<longleftrightarrow> (\<forall>e. undone (buffer_undos b') e = undone (buffer_undos b) e) \<and>
     (\<forall>m. cells_under m (buffer_fragments b') = cells_under m (buffer_fragments b)) \<and>
     undo_stack (bf_history b') = undo_stack (bf_history b) \<and> redo_stack (bf_history b') = redo_stack (bf_history b) \<and>
     transaction_depth (bf_history b') = transaction_depth (bf_history b)"

lemma similar_text:
  assumes "buffer_ok ch b" "buffer_ok ch b'" "similar b b'"
  shows "buffer_text b' = buffer_text b"
proof -
  have shown: "shown (buffer_undos b') = shown (buffer_undos b)" using assms(3) by (simp add: similar_def shown_def fun_eq_iff)
  have spells: "buffer_text c = map ch (cells_under (buffer_undos c) (buffer_fragments c))" if "buffer_ok ch c" for c
    using that vis_cells_under [of "buffer_fragments c" "buffer_undos c"] by (simp add: buffer_ok_def snapshot_ok_def Let_def)
  show ?thesis using spells [OF assms(1)] spells [OF assms(2)] assms(3) shown by (simp add: similar_def cells_under_def)
qed

lemma flipped_cells: "flipped ch E b b' \<Longrightarrow> cells_under m (buffer_fragments b') = cells_under m (buffer_fragments b)"
  using cells_retouch by (auto simp: flipped_def)

lemma ticks_after: "ticks_left b (Suc n) \<Longrightarrow> bf_clock b' = snd (lamport_tick (bf_clock b)) \<Longrightarrow> ticks_left b' n"
  using word_less_Suc [of "lvalue (bf_clock b)"] by (auto simp: ticks_left_def lamport_tick_def)

lemma ticks_fewer: "ticks_left b n \<Longrightarrow> k \<le> n \<Longrightarrow> ticks_left b k"
  by (simp add: ticks_left_def)

lemma undo_redo_many:
  assumes "buffer_ok ch b" "ticks_left b (2 * n)" "transaction_depth (bf_history b) = 0" "n \<le> length (undo_stack (bf_history b))"
  shows "\<exists>b1 b2. undo_many n b = Some b1 \<and> buffer_ok ch b1 \<and>
    undo_stack (bf_history b1) = take (length (undo_stack (bf_history b)) - n) (undo_stack (bf_history b)) \<and>
    redo_many n b1 = Some b2 \<and> buffer_ok ch b2 \<and> similar b b2 \<and>
    unat (lvalue (bf_clock b2)) = unat (lvalue (bf_clock b)) + 2 * n"
  using assms
proof (induction n arbitrary: b)
  case 0
  then show ?case by (simp add: similar_def)
next
  case (Suc n)
  let ?u = "undo_stack (bf_history b)" and ?e = "last (undo_stack (bf_history b))"
  have ne: "?u \<noteq> []" using Suc.prems(4) by auto
  have clock: "unat (lvalue (snd (lamport_tick (bf_clock c)))) = unat (lvalue (bf_clock c)) + 1" if "ticks_left c 1" for c
    using that word_less_Suc [of "lvalue (bf_clock c)"] by (simp add: ticks_left_def lamport_tick_def)
  obtain op b1 m where b1: "buffer_undo b = Some (Some (transaction_id ?e, op), b1)" "buffer_ok ch b1"
    "flipped ch (set (edit_ids (transaction_of ?e))) b b1" "bf_clock b1 = snd (lamport_tick (bf_clock b))"
    "bf_history b1 = (bf_history b)\<lparr>undo_stack := butlast ?u, redo_stack := redo_stack (bf_history b) @ [?e], operations := m\<rparr>"
    using buffer_undo_ok [OF Suc.prems(1) ticks_fewer [OF Suc.prems(2)] Suc.prems(3) ne] by auto
  have left1: "ticks_left b1 (2 * n)" using ticks_fewer [OF ticks_after [OF _ b1(4), of "Suc (2 * n)"]] Suc.prems(2) by simp
  have "transaction_depth (bf_history b1) = 0" "n \<le> length (undo_stack (bf_history b1))" "undo_stack (bf_history b1) = butlast ?u"
    using b1(5) Suc.prems(3,4) by auto
  then obtain b2 b3 where b3: "undo_many n b1 = Some b2" "buffer_ok ch b2" "undo_stack (bf_history b2) = take (length (butlast ?u) - n) (butlast ?u)"
    "redo_many n b2 = Some b3" "buffer_ok ch b3" "similar b1 b3" "unat (lvalue (bf_clock b3)) = unat (lvalue (bf_clock b1)) + 2 * n"
    using Suc.IH [OF b1(2) left1] by auto
  have h3: "redo_stack (bf_history b3) = redo_stack (bf_history b) @ [?e]" "undo_stack (bf_history b3) = butlast ?u" "transaction_depth (bf_history b3) = 0"
    using b3(6) b1(5) Suc.prems(3) by (auto simp: similar_def)
  have c1: "unat (lvalue (bf_clock b1)) = unat (lvalue (bf_clock b)) + 1" using clock [OF ticks_fewer [OF Suc.prems(2)]] b1(4) by simp
  have left3: "ticks_left b3 1" using b3(7) c1 Suc.prems(2) by (simp add: ticks_left_def)
  obtain op' b4 m' where b4: "buffer_redo b3 = Some (Some (transaction_id ?e, op'), b4)" "buffer_ok ch b4"
    "flipped ch (set (edit_ids (transaction_of ?e))) b3 b4" "bf_clock b4 = snd (lamport_tick (bf_clock b3))"
    "bf_history b4 = (bf_history b3)\<lparr>redo_stack := redo_stack (bf_history b), undo_stack := butlast ?u @ [?e], operations := m'\<rparr>"
    using buffer_redo_ok [OF b3(5) left3 h3(3)] h3(1,2) by auto
  have "similar b b4"
    using b1(3) b3(6) b4(3,5) flipped_cells [OF b1(3)] flipped_cells [OF b4(3)] h3(3) Suc.prems(3) ne
    by (auto simp: similar_def flipped_def)
  moreover have "undo_stack (bf_history b2) = take (length ?u - Suc n) ?u"
    using b3(3) by (simp add: butlast_conv_take take_take min_def)
  moreover have "unat (lvalue (bf_clock b4)) = unat (lvalue (bf_clock b)) + 2 * Suc n" using clock [OF left3] b4(4) b3(7) c1 by simp
  ultimately show ?case using b1(1) b3(1,2,4) b4(1,2) by simp
qed

lemma undo_all_redo_all:
  assumes "buffer_ok ch b" "ticks_left b (2 * length (undo_stack (bf_history b)))" "transaction_depth (bf_history b) = 0"
  defines "n \<equiv> length (undo_stack (bf_history b))"
  shows "\<exists>b1 b2. undo_many n b = Some b1 \<and> buffer_ok ch b1 \<and> undo_stack (bf_history b1) = [] \<and>
    redo_many n b1 = Some b2 \<and> buffer_ok ch b2 \<and> buffer_text b2 = buffer_text b \<and>
    undo_stack (bf_history b2) = undo_stack (bf_history b) \<and> redo_stack (bf_history b2) = redo_stack (bf_history b)"
proof -
  obtain b1 b2 where "undo_many n b = Some b1" "buffer_ok ch b1" "undo_stack (bf_history b1) = []" "redo_many n b1 = Some b2" "buffer_ok ch b2" "similar b b2"
    using undo_redo_many [OF assms(1,2,3)] by (auto simp: n_def)
  then show ?thesis using similar_text [OF assms(1)] by (auto simp: similar_def)
qed

end
