(* ===== verification/Spec2Isabelle.thy ===== *)
theory Spec2Isabelle
  imports Clock Locator Tree_Map Undo_Map Patch_Correct Subscription History_Correct Selection Line_Ending Buffer_Roundtrip Time_Travel Anchor_Batch Buffer_Liveness
begin

text \<open>
  The editing core of RDG: the crates \<^verbatim>\<open>clock\<close>, \<^verbatim>\<open>sum_tree\<close> and \<^verbatim>\<open>text\<close> under \<^verbatim>\<open>src/crates/\<close>.

  \<^bold>\<open>The program.\<close> A \<^verbatim>\<open>text::Buffer\<close> is a replicated text. Its text is never overwritten: every insertion stays in the
  buffer as a sequence of fragments, each a run of consecutive bytes of one insertion, and deleting bytes marks their
  fragments with the timestamp of the deletion. Two ropes hold the bytes of the visible and of the other fragments. Undoing
  an edit counts up an entry of the undo map; a fragment is visible when its insertion is not undone and all of its
  deletions are. The fragments are kept in a balanced tree with cached summaries, \<^verbatim>\<open>sum_tree::SumTree\<close>, in the order of
  dense position identifiers, \<^verbatim>\<open>text::Locator\<close>; two more trees find the fragments of an insertion and the insertions an
  edit touched. Edits and undos are timestamped by a Lamport clock, and a version of the buffer is a vector of
  timestamps, \<^verbatim>\<open>clock::Global\<close>. Positions that survive edits are \<^verbatim>\<open>text::Anchor\<close>s, changes between two versions are
  \<^verbatim>\<open>text::Patch\<close>es, which subscribers accumulate, and \<^verbatim>\<open>History\<close> groups edits into transactions on an undo and a
  redo stack.

  \<^bold>\<open>The theories\<close>, in the order of their dependence. Names of operations are those of the source, with the prefix of their
  type where two types have an operation of the same name.

  \<^item> \<open>Prelude\<close>: machine integers, three-way comparison, and the operations of the standard library that the sources call.
  \<^item> \<open>Clock\<close> (\<^verbatim>\<open>clock/src/clock.rs\<close>): replica identifiers, Lamport timestamps and version vectors at their widths; joins
    are least upper bounds, observation is monotone, vectors without trailing zeros are canonical.
  \<^item> \<open>Locator\<close> (\<^verbatim>\<open>text/src/locator.rs\<close>): the locator between two locators lies strictly between them. The locale
    \<open>dense_ids\<close> is the contract, interpreted on \<open>locator_between\<close>.
  \<^item> \<open>Sum_Tree\<close>, \<open>Sum_Tree_Build\<close> (\<^verbatim>\<open>sum_tree/src/sum_tree.rs\<close>): nodes, splitting and underflow, \<^verbatim>\<open>append\<close>, \<^verbatim>\<open>push\<close>,
    in-place updates, bulk construction sequential and parallel. The locale \<open>summary_laws\<close> states what the trees ask of a
    summary; in it the operations keep the balance and the cached summaries and act on the sequence of items.
  \<^item> \<open>Sum_Cursor\<close>, \<open>Cursor_Correct\<close>, \<open>Cursor_Ops\<close>, \<open>Cursor_Search\<close>, \<open>Cursor_Back\<close>, \<open>Cursor_Chain\<close>, \<open>Sum_Iter\<close>, \<open>Sum_Find\<close>
    (\<^verbatim>\<open>sum_tree/src/cursor.rs\<close>, and \<^verbatim>\<open>find\<close> of \<^verbatim>\<open>sum_tree.rs\<close>): cursors with their explicit stack. The locales
    \<open>dimension_laws\<close> (the dimension of a cursor adds up as the summaries do), \<open>aggregate_laws\<close> (what a seek collects),
    \<open>seeking\<close> and \<open>filtering\<close> carry the proofs; \<open>sublocale\<close>s give slices, summaries and plain seeks. Going
    backward relies on the positions kept in the stack, which \<open>chained\<close> describes.
  \<^item> \<open>Keyed_Tree\<close>, \<open>Tree_Map\<close>, \<open>Undo_Map\<close> (\<^verbatim>\<open>sum_tree.rs\<close>, \<^verbatim>\<open>tree_map.rs\<close>, \<^verbatim>\<open>text/src/undo_map.rs\<close>): trees sorted by a
    key under the locale \<open>keyed_laws\<close>, interpreted on the entries of maps, of the undo map and of the insertion tree;
    \<open>TreeMap\<close> refines finite maps through the locale \<open>dictionary\<close>.
  \<^item> \<open>Patch\<close>, \<open>Patch_Correct\<close>, \<open>Subscription\<close> (\<^verbatim>\<open>patch.rs\<close>, \<^verbatim>\<open>subscription.rs\<close>): a patch means the partial function
    \<open>keep\<close> on offsets; composition, inversion and publication act on it as they should.
  \<^item> \<open>History\<close>, \<open>History_Correct\<close> (\<^verbatim>\<open>History\<close> of \<^verbatim>\<open>text.rs\<close>): transactions, grouping, merging, both stacks; the invariant
    over all sequences of operations, and exactly when an operation panics.
  \<^item> \<open>Rope_Text\<close> (\<^verbatim>\<open>rope/src/rope.rs\<close>, \<^verbatim>\<open>rope/src/chunk.rs\<close>): the character boundaries of a rope and its cursor, on its bytes.
    The pieces that a cursor cuts or counts are rounded inwards to whole characters.
  \<^item> \<open>Selection\<close>, \<open>Line_Ending\<close> (\<^verbatim>\<open>selection.rs\<close>, small values of \<^verbatim>\<open>text.rs\<close>).
  \<^item> \<open>Fragment\<close>, \<open>Fragment_Cells\<close>: fragments, their summaries and the four dimensions over them, the builders of ropes
    and fragments. A cell is one byte of one insertion; cells give fragments, ropes and summaries their meaning.
  \<^item> \<open>Buffer_Edit\<close>, \<open>Edit_Invariant\<close>, \<open>Edit_Steps\<close>, \<open>Edit_Correct\<close>, \<open>Snapshot\<close>: the conversion of ranges to offsets,
    \<^verbatim>\<open>apply_edit_internal\<close>, the invariant of its pass over the fragments, and the invariant \<open>snapshot_ok\<close> of a snapshot, by
    which every fragment starts at a character boundary, so that the ropes are cut without loss. An edit is compared with
    \<open>splice_list\<close>, which edits a plain list.
  \<^item> \<open>Buffer_Undo\<close>, \<open>Undo_Ids\<close>, \<open>Undo_Correct\<close>: \<^verbatim>\<open>fragment_ids_for_edits\<close> and \<^verbatim>\<open>apply_undo\<close>.
  \<^item> \<open>Buffer\<close>, \<open>Buffer_Correct\<close>, \<open>Buffer_Roundtrip\<close>, \<open>Buffer_Liveness\<close>: \<^verbatim>\<open>Buffer\<close>, its invariant \<open>buffer_ok\<close>, the round
    trips of edit, undo and redo, edits on a copy that the buffer takes over, and undoing everything.
  \<^item> \<open>Anchor\<close>, \<open>Anchor_Correct\<close>, \<open>Anchor_Batch\<close> (\<^verbatim>\<open>anchor.rs\<close>): anchors resolve to the place of their byte, before and
    after edits, one by one or many in a pass.
  \<^item> \<open>Versions\<close>, \<open>Versions_Correct\<close>, \<open>Time_Travel\<close>: the text, the edits and the offsets at a past version. The relation
    \<open>leads_to\<close> is the runs of a buffer; along them the text of every version passed stays reconstructible.

  \<^bold>\<open>Conventions.\<close> \<open>None\<close> is a panic (an assertion, an unwrap, an index or a slice out of range, a subtraction below zero)
  or, for the loops that are partial functions, a loop that does not end; the theorems state that the result is \<open>Some\<close>.
  Timestamps, counts, locator digits and replica identifiers are words of their width; offsets are natural numbers, with
  the conversions to \<^verbatim>\<open>u32\<close> of fragment lengths and insertion offsets written out as \<open>mod\<close>. An insertion of four gibibytes or
  more would wrap there, hence the bounds \<open>2 ^ 32\<close>; \<open>ticks_left b n\<close> says that the clock can tick \<open>n\<close> times more without
  wrapping. \<open>canonical v\<close> says that a version vector has no trailing zeros, as \<^verbatim>\<open>Global\<close> keeps them. Debug assertions are the
  argument \<open>debug\<close> where they differ from a release build. A rope is the string of its bytes.
  \<open>on_chars text edits\<close> says that the ranges of edits are at character boundaries of the text; ranges that are not make a
  debug build panic, and a release build moves them back to the boundaries before, \<open>floored text edits\<close>. Of the validity of Rust
  strings as UTF-8 only \<open>starts_on_char\<close> is used, that a string does not start inside a character; \<open>texts_ok\<close> asks it of the
  new texts, with the bound on their length. The regular expression that
  normalises line separators is the argument \<open>replace_all\<close>, with the law \<open>replaces_line_separators\<close> where it is needed.

  \<^bold>\<open>Bounds and fuel.\<close> The loops of trees and cursors terminate by a measure on the height or the weight of the stack. The loop
  that deletes a range runs with the fuel \<open>edit_fuel\<close>, one more than the number of fragments, and is proved never to run out.
  The loops of \<open>Versions\<close> and of the lookup of fragments are partial functions that are proved to return. The iterators that
  are driven to their end take the number of items as the number of calls, after which they are proved to be exhausted.

  \<^bold>\<open>Not modelled.\<close> Operations from other replicas (\<^verbatim>\<open>apply_ops\<close>, \<^verbatim>\<open>apply_remote_edit\<close>, the deferred operations): their
  cursor uses the dimension \<^verbatim>\<open>VersionedFullOffset\<close>, whose sum depends on the version and turns invalid part of the way, so
  that it is outside of \<open>dimension_laws\<close>; and \<^verbatim>\<open>OperationQueue\<close> adds summaries with an assertion on the order of keys, so
  that its sum is partial. \<^verbatim>\<open>SumTree::edit\<close> sorts its edits with an unstable sort, modelled as a stable one: the results
  about it are for distinct keys, where the two agree. Waiting for edits and anchors is asynchronous and has no result of its own. The representation of a rope
  by chunks, points and UTF-16 offsets, and the dimensions other than \<^verbatim>\<open>usize\<close> of the operations that are generic in them;
  \<^verbatim>\<open>network.rs\<close>, a helper of the tests. The capacity of a cursor's stack and the \<^verbatim>\<open>usize\<close> limit of lengths. The crates
  above, such as the multi-buffer, the language server client, the editor, the workspace and the user interface, use this
  core through the operations above.
\<close>


section \<open>Sample values for the witnesses\<close>

definition sample_map :: "(nat, nat) tree_map" where
  "sample_map = tm_from_ordered_entries [(1, 10), (3, 30), (5, 50)]"

lemma sample_map_ok: "tm_ok sample_map"
  using tm_from_ordered_entries_ok [of "[(1 :: nat, 10 :: nat), (3, 30), (5, 50)]"] by (simp add: sample_map_def)

lemma sample_map_wf: "wf_tree map_item sample_map"
  using sample_map_ok by (simp add: tm_ok_def)

lemma sample_items: "tree_items sample_map = map entry [(1, 10), (3, 30), (5, 50)]"
  using map_laws.from_iter_ok [of "map entry [(1 :: nat, 10 :: nat), (3, 30), (5, 50)]"]
  by (simp add: sample_map_def tm_from_ordered_entries_def)

lemma sample_seekable: "seekable map_item map_dim (passes (map_target (3 :: nat)) bias) (dzero map_dim) (tree_items sample_map)"
  using map_laws.seekable_keys [of "tree_items sample_map" None "Some 3" bias] sample_map_ok
  by (simp add: tm_ok_def map_target_eq map_dim_def)

lemma sample_target: "map_target (3 :: nat) (dzero map_dim) \<noteq> Less"
  by (simp add: map_target_def ord_cmp_def map_dim_def)

definition sample_edits :: "((nat, nat) map_entry, nat option) edit list" where
  "sample_edits = [Remove (Some 3), Insert (entry (2, 20))]"

definition sample_undos :: undo_map where
  "sample_undos = from_iter undo_item
     [undo_entry (Lamport 5 LOCAL) (Lamport 1 LOCAL, 1), undo_entry (Lamport 6 LOCAL) (Lamport 2 LOCAL, 1)]"

lemma sample_undos_wf: "wf_tree undo_item sample_undos"
  unfolding sample_undos_def using undo_laws.from_iter_ok by blast

definition sample_undo :: "u32 \<Rightarrow> u32 \<Rightarrow> undo_operation" where
  "sample_undo t e = \<lparr>undo_timestamp = Lamport t LOCAL, undo_version = global_new, undo_counts = [(Lamport e LOCAL, 1)]\<rparr>"

definition sample_entry :: "u32 \<Rightarrow> history_entry" where
  "sample_entry n = new_entry \<lparr>tx_id = Lamport n LOCAL, edit_ids = [Lamport (n + 10) LOCAL], tx_start = global_new\<rparr> 0"

definition sample_history :: history where
  "sample_history = (history_new [])\<lparr>undo_stack := [sample_entry 1, sample_entry 2], redo_stack := [sample_entry 3]\<rparr>"

text \<open>A topic with two subscriptions, of which the first has been dropped.\<close>

definition sample_topic :: topic where
  "sample_topic = drop_subscription 0 (snd (subscribe (snd (subscribe topic_default))))"

text \<open>An edit stored and recorded inside of a transaction, next to a nested one.\<close>

definition sample_operation :: edit_operation where
  "sample_operation = \<lparr>edit_timestamp = Lamport 1 LOCAL, edit_version = global_new, edit_ranges = [(0, 0)], edit_new_text = [''x'']\<rparr>"

definition sample_body :: "history_op list" where
  "sample_body = [Push (EditOp sample_operation), Start global_new 1 lamport_MIN, PushUndo (Lamport 1 LOCAL), End 2]"

definition sample_selection :: "(nat, nat, nat) selection" where
  "sample_selection = \<lparr>sel_id = 0, sel_start = 2, sel_end = 5, reversed = False, goal = NoGoal\<rparr>"

text \<open>A function with the behaviour asked of the regular expression.\<close>

fun replace_separators :: "string \<Rightarrow> string" where
  "replace_separators [] = []"
| "replace_separators [c] = (if c = CHR 0x0D then [CHR 0x0A] else [c])"
| "replace_separators (c # d # s) =
     (if c = CHR 0x0D then (if d = CHR 0x0A then CHR 0x0A # replace_separators s else CHR 0x0A # replace_separators (d # s))
      else c # replace_separators (d # s))"



definition sample_buffer :: buffer where
  "sample_buffer = the (new_normalized LOCAL (BufferId 1) Unix ''hello'')"

lemma sample_buffer_ok:
  shows "buffer_ok (base_char ''hello'') sample_buffer" "buffer_text sample_buffer = ''hello''"
    "bf_history sample_buffer = history_new ''hello''" "ticks_left sample_buffer 3"
proof -
  obtain b where b: "new_normalized LOCAL (BufferId 1) Unix ''hello'' = Some b" "buffer_ok (base_char ''hello'') b" "buffer_text b = ''hello''"
    "bf_history b = history_new ''hello''" "lvalue (bf_clock b) \<le> 2"
    using new_normalized_ok [of "''hello''" LOCAL "BufferId 1" Unix] by (auto simp: starts_on_char_def char_start_def)
  then have "sample_buffer = b" by (simp add: sample_buffer_def)
  moreover from b(5) have "unat (lvalue (bf_clock b)) \<le> 2" by (simp add: word_le_nat_alt)
  ultimately show "buffer_ok (base_char ''hello'') sample_buffer" "buffer_text sample_buffer = ''hello''"
    "bf_history sample_buffer = history_new ''hello''" "ticks_left sample_buffer 3"
    using b by (simp_all add: ticks_left_def)
qed

lemma sample_ticks: "ticks_left sample_buffer 2" "ticks_left sample_buffer 1"
  using sample_buffer_ok(4) by (simp_all add: ticks_left_def)

lemma sample_snapshot: "snapshot_ok (base_char ''hello'') (bf_snapshot sample_buffer)"
  "\<not> global_observed (sn_version (bf_snapshot sample_buffer)) (edit_time sample_buffer)"
  using sample_buffer_ok(1) edit_time_ok(1) [OF sample_buffer_ok(1) sample_ticks(1)] tick_fresh
  by (auto simp: buffer_ok_def Let_def buffer_version_def)

text \<open>The buffer after replacing the first letter by two others.\<close>

definition buffer_edits :: "((nat \<times> nat) \<times> string) list" where
  "buffer_edits = [((0, 1), ''Je'')]"

lemma buffer_edits_ok: "ranges_ordered (length (buffer_text sample_buffer)) 0 buffer_edits"
  "on_chars (buffer_text sample_buffer) buffer_edits" "texts_ok replace_separators buffer_edits"
  by (simp_all add: buffer_edits_def sample_buffer_ok(2) inserted_def normalized_def normalize_def texts_ok_def starts_on_char_def
      is_char_boundary_def char_start_def)

lemmas buffer_edits_debug = buffer_edits_ok(1) impI [OF buffer_edits_ok(2)] buffer_edits_ok(3)

lemma buffer_edits_floored: "floored (buffer_text sample_buffer) buffer_edits = buffer_edits"
  using buffer_edits_ok(2) by (rule floored_id)

definition edited_buffer :: buffer where
  "edited_buffer = snd (the (buffer_edit True replace_separators sample_buffer buffer_edits 0 0))"

definition edited_char :: "cell \<Rightarrow> char" where
  "edited_char = with_insertion (edit_time sample_buffer) (inserted replace_separators buffer_edits) (base_char ''hello'')"

lemma edited_buffer_ok:
  shows "buffer_ok edited_char edited_buffer" "transaction_depth (bf_history edited_buffer) = 0"
    "undo_stack (bf_history edited_buffer) \<noteq> []" "ticks_left edited_buffer 2" "buffer_text edited_buffer = ''Jeello''"
proof -
  note t = edit_time_ok [OF sample_buffer_ok(1) sample_ticks(1)]
  obtain op b where b: "buffer_edit True replace_separators sample_buffer buffer_edits 0 0 = Some (EditOp op, b)" "buffer_ok edited_char b"
    "edited replace_separators buffer_edits (edit_time sample_buffer) sample_buffer b" "bf_clock b = snd (lamport_tick (edit_time sample_buffer))"
    "transaction_depth (bf_history b) = 0" "undo_stack (bf_history b) \<noteq> []"
    using buffer_edit_ok [OF sample_buffer_ok(1) sample_ticks(1) buffer_edits_debug, of True 0 0] sample_buffer_ok(3) buffer_edits_floored
    by (auto simp: history_new_def isolated_def edited_char_def)
  then have eq: "edited_buffer = b" by (simp add: edited_buffer_def)
  have c: "unat (lvalue (bf_clock sample_buffer)) \<le> 2"
  proof -
    obtain b' where "new_normalized LOCAL (BufferId 1) Unix ''hello'' = Some b'" "lvalue (bf_clock b') \<le> 2"
      using new_normalized_ok [of "''hello''" LOCAL "BufferId 1" Unix] by (auto simp: starts_on_char_def char_start_def)
    then show ?thesis by (simp add: sample_buffer_def word_le_nat_alt)
  qed
  have "unat (lvalue (bf_clock b)) \<le> 4" using b(4) t(2,6) c word_less_Suc [of "lvalue (edit_time sample_buffer)"] by (simp add: lamport_tick_def)
  then show "buffer_ok edited_char edited_buffer" "transaction_depth (bf_history edited_buffer) = 0"
    "undo_stack (bf_history edited_buffer) \<noteq> []" "ticks_left edited_buffer 2" using b eq by (simp_all add: ticks_left_def)
  show "buffer_text edited_buffer = ''Jeello''"
    using b(3) by (simp add: eq edited_def sample_buffer_ok(2) buffer_edits_def normalized_def normalize_def)
qed


text \<open>A text of one character of two bytes, and an insertion in its middle.\<close>

definition accent :: string where
  "accent = [CHR 0xC3, CHR 0xA9]"

definition accent_edits :: "((nat \<times> nat) \<times> string) list" where
  "accent_edits = [((1, 1), ''x'')]"

definition accent_buffer :: buffer where
  "accent_buffer = the (new_normalized LOCAL (BufferId 1) Unix accent)"

lemma accent_ok:
  shows "buffer_ok (base_char accent) accent_buffer" "buffer_text accent_buffer = accent" "ticks_left accent_buffer 2"
    "ranges_ordered (length (buffer_text accent_buffer)) 0 accent_edits" "texts_ok replace_separators accent_edits"
    "\<not> on_chars (buffer_text accent_buffer) accent_edits"
    "floored (buffer_text accent_buffer) accent_edits = [((0, 0), ''x'')]"
proof -
  obtain b where b: "new_normalized LOCAL (BufferId 1) Unix accent = Some b" "buffer_ok (base_char accent) b" "buffer_text b = accent"
    "lvalue (bf_clock b) \<le> 2"
    using new_normalized_ok [of accent LOCAL "BufferId 1" Unix] by (auto simp: accent_def starts_on_char_def char_start_def)
  then have eq: "accent_buffer = b" by (simp add: accent_buffer_def)
  from b(4) have "unat (lvalue (bf_clock b)) \<le> 2" by (simp add: word_le_nat_alt)
  then show "buffer_ok (base_char accent) accent_buffer" "buffer_text accent_buffer = accent" "ticks_left accent_buffer 2"
    using b eq by (simp_all add: ticks_left_def)
  then show "ranges_ordered (length (buffer_text accent_buffer)) 0 accent_edits" "\<not> on_chars (buffer_text accent_buffer) accent_edits"
    "floored (buffer_text accent_buffer) accent_edits = [((0, 0), ''x'')]"
    by (simp_all add: accent_def accent_edits_def is_char_boundary_def char_start_def floored_def rope_floor_def numeral_2_eq_2)
  show "texts_ok replace_separators accent_edits"
    by (simp add: accent_edits_def texts_ok_def inserted_def normalized_def normalize_def starts_on_char_def char_start_def)
qed

text \<open>The edit above as a run of the buffer, and its version in normal form.\<close>

lemma sample_canonical: "canonical (buffer_version sample_buffer)"
proof -
  obtain b where "new_normalized LOCAL (BufferId 1) Unix ''hello'' = Some b"
    using new_normalized_ok [of "''hello''" LOCAL "BufferId 1" Unix] by (auto simp: starts_on_char_def char_start_def)
  then show ?thesis using new_normalized_canonical by (simp add: sample_buffer_def)
qed

lemma sample_clock: "\<forall>x\<in>set (gvalues (buffer_version sample_buffer)). x < lvalue (bf_clock sample_buffer)"
  "ticks_left sample_buffer (2 + length (gvalues (global_observe (buffer_version sample_buffer) (bf_clock sample_buffer))))"
proof -
  obtain b where b: "new_normalized LOCAL (BufferId 1) Unix ''hello'' = Some b" "lreplica (bf_clock b) = LOCAL" "lvalue (bf_clock b) \<le> 2"
    using new_normalized_ok [of "''hello''" LOCAL "BufferId 1" Unix] by (auto simp: starts_on_char_def char_start_def)
  then have eq: "sample_buffer = b" by (simp add: sample_buffer_def)
  have "\<forall>x\<in>set (gvalues (buffer_version b)). x < lvalue (bf_clock b)" "length (gvalues (buffer_version b)) \<le> 1"
    using new_normalized_clock [OF b(1)] by simp_all
  moreover have "length (gvalues (global_observe (buffer_version b) (bf_clock b))) \<le> max (length (gvalues (buffer_version b))) 1"
    using b(2) length_observe [of "buffer_version b" "bf_clock b"] by (simp add: LOCAL_def)
  moreover have "unat (lvalue (bf_clock b)) \<le> 2" using b(3) by (simp add: word_le_nat_alt)
  ultimately show "\<forall>x\<in>set (gvalues (buffer_version sample_buffer)). x < lvalue (bf_clock sample_buffer)"
    "ticks_left sample_buffer (2 + length (gvalues (global_observe (buffer_version sample_buffer) (bf_clock sample_buffer))))"
    unfolding eq by (auto simp: ticks_left_def)
qed

lemma buffer_edits_ne: "buffer_edits \<noteq> []"
  by (simp add: buffer_edits_def)

lemma sample_run: "leads_to sample_buffer edited_buffer"
proof -
  obtain op b where "buffer_edit True replace_separators sample_buffer buffer_edits 0 0 = Some (op, b)"
    using buffer_edit_ok [OF sample_buffer_ok(1) sample_ticks(1) buffer_edits_debug, of True 0 0] by auto
  then show ?thesis using leads_to.edit [OF stay sample_ticks(1) buffer_edits_ok(1,3)] by (simp add: edited_buffer_def)
qed

lemma edited_snapshot: "snapshot_ok edited_char (bf_snapshot edited_buffer)"
  using edited_buffer_ok(1) by (simp add: buffer_ok_def Let_def)

lemma edited_stack: "length (undo_stack (bf_history edited_buffer)) = 1"
proof -
  obtain op b where "buffer_edit True replace_separators sample_buffer buffer_edits 0 0 = Some (op, b)" "length (undo_stack (bf_history b)) = 1"
    using buffer_edit_ok [OF sample_buffer_ok(1) sample_ticks(1) buffer_edits_debug, of True 0 0] sample_buffer_ok(3)
    by (auto simp: history_new_def isolated_def)
  then show ?thesis by (simp add: edited_buffer_def)
qed

section \<open>Properties\<close>

text \<open>
  C1. Applying a batch of ordered, disjoint edits to a coherent snapshot never panics and replaces exactly the given ranges of the visible text by the normalised new texts, when the ranges are at character boundaries, as its callers make them (see buffer_edit_correct); the snapshot is coherent again at the version that has observed the edit, the returned patch describes the change, the old bytes keep their order, and the returned operation carries the timestamp, the version before the edit and the texts.
\<close>

theorem local_edit_correct:
  assumes "snapshot_ok ch s" "\<not> global_observed (sn_version s) ts"
    "ranges_ordered (length (visible_text s)) 0 edits" "on_chars (visible_text s) edits" "texts_ok replace_all edits"
  shows "\<exists>op p s'. apply_edit_internal replace_all s edits ts = Some (op, p, s') \<and>
    visible_text s' = splice_list (visible_text s) 0 (normalized replace_all edits) \<and>
    snapshot_ok (with_insertion ts (inserted replace_all edits) ch) (s'\<lparr>sn_version := global_observe (sn_version s) ts\<rparr>) \<and>
    patch_describes (visible_text s) (visible_text s') p \<and>
    filter (\<lambda>c. fst c \<noteq> ts) (all_cells (tree_items (sn_fragments s'))) = all_cells (tree_items (sn_fragments s)) \<and>
    edit_timestamp op = ts \<and> edit_version op = sn_version s \<and> edit_new_text op = map snd (normalized replace_all edits) \<and>
    length (edit_ranges op) = length edits"
  using apply_edit_internal_ok [OF assms] by blast

theorem local_edit_correct_witness:
  "\<exists>op p s'. apply_edit_internal replace_separators (bf_snapshot sample_buffer) buffer_edits (edit_time sample_buffer) = Some (op, p, s') \<and>
    visible_text s' = ''Jeello'' \<and> patch_describes ''hello'' ''Jeello'' p \<and> edit_timestamp op = edit_time sample_buffer"
  using local_edit_correct [OF sample_snapshot buffer_edits_ok]
  by (auto simp: sample_buffer_ok(2) buffer_edits_def normalized_def normalize_def)

text \<open>
  C2. An edit made outside of any transaction and not grouped with an earlier one, followed by an undo, restores the visible text that the buffer had, whatever was deleted and inserted, and leaves the buffer coherent. In a build with debug assertions the ranges have to be at character boundaries; in a release build they are moved back to the boundary before.
\<close>

theorem edit_then_undo_restores:
  assumes "buffer_ok ch b" "ticks_left b 3" "ranges_ordered (length (buffer_text b)) 0 edits"
    "debug \<longrightarrow> on_chars (buffer_text b) edits" "texts_ok replace_all edits"
    "transaction_depth (bf_history b) = 0" "isolated (bf_history b) started"
  shows "\<exists>op b1 tid op' b2. buffer_edit debug replace_all b edits started ended = Some (op, b1) \<and>
    buffer_text b1 = splice_list (buffer_text b) 0 (normalized replace_all (floored (buffer_text b) edits)) \<and>
    (on_chars (buffer_text b) edits \<longrightarrow> floored (buffer_text b) edits = edits) \<and>
    buffer_undo b1 = Some (Some (tid, op'), b2) \<and> buffer_text b2 = buffer_text b \<and>
    buffer_ok (with_insertion (edit_time b) (inserted replace_all edits) ch) b2"
  using edit_then_undo [OF assms] floored_id [of "buffer_text b" edits] by blast

theorem edit_then_undo_restores_witness:
  "\<exists>op b1 tid op' b2. buffer_edit True replace_separators sample_buffer buffer_edits 5 7 = Some (op, b1) \<and>
    buffer_text b1 = ''Jeello'' \<and> buffer_undo b1 = Some (Some (tid, op'), b2) \<and> buffer_text b2 = ''hello''"
  using edit_then_undo_restores [OF sample_buffer_ok(1,4) buffer_edits_debug, of 5 True 7] sample_buffer_ok(2,3) buffer_edits_floored
  by (auto simp: history_new_def isolated_def buffer_edits_def normalized_def normalize_def)

text \<open>
  C3. Editing a coherent buffer, inside or outside of a transaction: in a build with debug assertions a range that is not at character boundaries is a panic. In every other case the edit succeeds, keeps the invariant of the buffer, replaces the given ranges (in a release build each end is first moved back to the character boundary before it), observes the timestamp of the edit in the version and moves the clock past it, closes the transaction it opened, and publishes a patch that describes the change.
\<close>

theorem buffer_edit_correct:
  assumes "buffer_ok ch b" "ticks_left b 2" "ranges_ordered (length (buffer_text b)) 0 edits" "texts_ok replace_all edits"
  shows "(debug \<and> \<not> on_chars (buffer_text b) edits \<longrightarrow> buffer_edit debug replace_all b edits started ended = None) \<and>
    (on_chars (buffer_text b) edits \<longrightarrow> floored (buffer_text b) edits = edits) \<and>
    (\<not> debug \<or> on_chars (buffer_text b) edits \<longrightarrow>
     (\<exists>op b' p. buffer_edit debug replace_all b edits started ended = Some (EditOp op, b') \<and> edit_timestamp op = edit_time b \<and>
      buffer_ok (with_insertion (edit_time b) (inserted replace_all edits) ch) b' \<and>
      buffer_text b' = splice_list (buffer_text b) 0 (normalized replace_all (floored (buffer_text b) edits)) \<and>
      bf_clock b' = snd (lamport_tick (edit_time b)) \<and> buffer_version b' = global_observe (buffer_version b) (edit_time b) \<and>
      transaction_depth (bf_history b') = transaction_depth (bf_history b) \<and>
      patch_describes (buffer_text b) (buffer_text b') p \<and> publish p (bf_subscriptions b) = Some (bf_subscriptions b')))"
proof (intro conjI impI)
  show "buffer_edit debug replace_all b edits started ended = None" if "debug \<and> \<not> on_chars (buffer_text b) edits"
    using that buffer_edit_panics by blast
  show "floored (buffer_text b) edits = edits" if "on_chars (buffer_text b) edits" using that by (rule floored_id)
  assume "\<not> debug \<or> on_chars (buffer_text b) edits"
  then have chars: "debug \<longrightarrow> on_chars (buffer_text b) edits" by blast
  show "\<exists>op b' p. buffer_edit debug replace_all b edits started ended = Some (EditOp op, b') \<and> edit_timestamp op = edit_time b \<and>
      buffer_ok (with_insertion (edit_time b) (inserted replace_all edits) ch) b' \<and>
      buffer_text b' = splice_list (buffer_text b) 0 (normalized replace_all (floored (buffer_text b) edits)) \<and>
      bf_clock b' = snd (lamport_tick (edit_time b)) \<and> buffer_version b' = global_observe (buffer_version b) (edit_time b) \<and>
      transaction_depth (bf_history b') = transaction_depth (bf_history b) \<and>
      patch_describes (buffer_text b) (buffer_text b') p \<and> publish p (bf_subscriptions b) = Some (bf_subscriptions b')"
    using buffer_edit_ok [OF assms(1-3) chars assms(4), of started ended] unfolding edited_def by blast
qed

theorem buffer_edit_correct_witness:
  "(\<exists>op b' p. buffer_edit True replace_separators sample_buffer buffer_edits 5 7 = Some (EditOp op, b') \<and> edit_timestamp op = edit_time sample_buffer \<and>
     buffer_text b' = ''Jeello'' \<and> transaction_depth (bf_history b') = 0 \<and>
     patch_describes ''hello'' ''Jeello'' p \<and> publish p (bf_subscriptions sample_buffer) = Some (bf_subscriptions b')) \<and>
   buffer_edit True replace_separators accent_buffer accent_edits 5 7 = None \<and>
   (\<exists>op b'. buffer_edit False replace_separators accent_buffer accent_edits 5 7 = Some (EditOp op, b') \<and>
     buffer_text b' = [CHR ''x'', CHR 0xC3, CHR 0xA9])"
proof (intro conjI)
  show "\<exists>op b' p. buffer_edit True replace_separators sample_buffer buffer_edits 5 7 = Some (EditOp op, b') \<and> edit_timestamp op = edit_time sample_buffer \<and>
     buffer_text b' = ''Jeello'' \<and> transaction_depth (bf_history b') = 0 \<and>
     patch_describes ''hello'' ''Jeello'' p \<and> publish p (bf_subscriptions sample_buffer) = Some (bf_subscriptions b')"
    using buffer_edit_correct [OF sample_buffer_ok(1) sample_ticks(1) buffer_edits_ok(1,3), of True 5 7] sample_buffer_ok(2,3)
      buffer_edits_ok(2) by (auto simp: history_new_def buffer_edits_def normalized_def normalize_def)
  note accent = buffer_edit_correct [OF accent_ok(1,3,4,5), of _ 5 7]
  show "buffer_edit True replace_separators accent_buffer accent_edits 5 7 = None" using accent [of True] accent_ok(6) by blast
  show "\<exists>op b'. buffer_edit False replace_separators accent_buffer accent_edits 5 7 = Some (EditOp op, b') \<and>
     buffer_text b' = [CHR ''x'', CHR 0xC3, CHR 0xA9]"
  proof -
    obtain op b' where b': "buffer_edit False replace_separators accent_buffer accent_edits 5 7 = Some (EditOp op, b')"
      "buffer_text b' = splice_list (buffer_text accent_buffer) 0 (normalized replace_separators (floored (buffer_text accent_buffer) accent_edits))"
      using accent [of False] by blast
    have "buffer_text b' = [CHR ''x'', CHR 0xC3, CHR 0xA9]"
      using b'(2) unfolding accent_ok(7) unfolding accent_ok(2) by (simp add: normalized_def normalize_def accent_def)
    then show ?thesis using b'(1) by blast
  qed
qed

text \<open>
  C4. Undoing the last transaction and redoing it never panics, returns the same transaction twice, and restores the visible text and both stacks, for any coherent buffer with something to undo.
\<close>

theorem undo_then_redo_restores:
  assumes "buffer_ok ch b" "ticks_left b 2" "transaction_depth (bf_history b) = 0" "undo_stack (bf_history b) \<noteq> []"
  shows "\<exists>tid op b1 op' b2. buffer_undo b = Some (Some (tid, op), b1) \<and> buffer_redo b1 = Some (Some (tid, op'), b2) \<and>
    buffer_text b2 = buffer_text b \<and> undo_stack (bf_history b2) = undo_stack (bf_history b) \<and>
    redo_stack (bf_history b2) = redo_stack (bf_history b) \<and> buffer_ok ch b2"
  using undo_then_redo [OF assms] .

theorem undo_then_redo_restores_witness:
  "\<exists>tid op b1 op' b2. buffer_undo edited_buffer = Some (Some (tid, op), b1) \<and> buffer_redo b1 = Some (Some (tid, op'), b2) \<and>
    buffer_text b2 = ''Jeello'' \<and> buffer_ok edited_char b2"
  using undo_then_redo_restores [OF edited_buffer_ok(1,4,2,3)] edited_buffer_ok(5) by auto

text \<open>
  C5. Undoing the last transaction flips, for exactly the edits of that transaction, whether they are undone; the visible text becomes the bytes of the fragments whose insertion is not undone and whose deletions all are, in document order, and the entry moves to the redo stack.
\<close>

theorem undo_flips_edits:
  assumes "buffer_ok ch b" "ticks_left b 1" "transaction_depth (bf_history b) = 0" "undo_stack (bf_history b) \<noteq> []"
  shows "\<exists>op b'. buffer_undo b = Some (Some (transaction_id (last (undo_stack (bf_history b))), op), b') \<and> buffer_ok ch b' \<and>
    (\<forall>e. undone (buffer_undos b') e \<longleftrightarrow>
       undone (buffer_undos b) e \<noteq> (e \<in> set (edit_ids (transaction_of (last (undo_stack (bf_history b))))))) \<and>
    buffer_text b' = map ch (concat (map cells (filter (shown (buffer_undos b')) (buffer_fragments b)))) \<and>
    undo_stack (bf_history b') = butlast (undo_stack (bf_history b)) \<and>
    redo_stack (bf_history b') = redo_stack (bf_history b) @ [last (undo_stack (bf_history b))]"
  using buffer_undo_ok [OF assms] unfolding flipped_def cells_under_def by force

theorem undo_flips_edits_witness:
  "\<exists>op b'. buffer_undo edited_buffer = Some (Some (transaction_id (last (undo_stack (bf_history edited_buffer))), op), b') \<and>
    buffer_ok edited_char b' \<and> undo_stack (bf_history b') = butlast (undo_stack (bf_history edited_buffer))"
proof -
  have "ticks_left edited_buffer 1" using edited_buffer_ok(4) by (simp add: ticks_left_def)
  from undo_flips_edits [OF edited_buffer_ok(1) this edited_buffer_ok(2,3)] show ?thesis by blast
qed

text \<open>
  C6. The fragments looked up for a set of edits are found without a panic, in increasing order of their locators without repetition, and include every fragment that one of the edits inserted or deleted.
\<close>

theorem undo_finds_fragments:
  assumes "snapshot_ok ch s" "base_timestamp \<notin> set es"
  shows "\<exists>ids. fragment_ids_for_edits s es = Some ids \<and> sorted_wrt (<) ids \<and>
    set ids \<subseteq> frag_id ` set (tree_items (sn_fragments s)) \<and>
    (\<forall>f\<in>set (tree_items (sn_fragments s)). edits_of f \<inter> set es \<noteq> {} \<longrightarrow> frag_id f \<in> set ids)"
  using fragment_ids_for_edits_ok [OF assms] by auto

theorem undo_finds_fragments_witness:
  "\<exists>ids. fragment_ids_for_edits (bf_snapshot edited_buffer) [edit_time sample_buffer] = Some ids \<and> sorted_wrt (<) ids \<and>
    (\<forall>f\<in>set (buffer_fragments edited_buffer). edits_of f \<inter> {edit_time sample_buffer} \<noteq> {} \<longrightarrow> frag_id f \<in> set ids)"
proof -
  have "snapshot_ok edited_char (bf_snapshot edited_buffer)" using edited_buffer_ok(1) by (simp add: buffer_ok_def Let_def)
  moreover have "base_timestamp \<notin> set [edit_time sample_buffer]"
    using edit_time_ok(3) [OF sample_buffer_ok(1) sample_ticks(1)] by auto
  ultimately show ?thesis using undo_finds_fragments by force
qed

text \<open>
  C7. A buffer created from a text shorter than four gibibytes, which as a Rust string does not start inside a character, is well formed: the invariant of buffers holds, its visible text is the text, nothing is undone, and its clock is that of its replica.
\<close>

theorem new_buffer_coherent:
  assumes "length text < 2 ^ 32" "starts_on_char text"
  shows "\<exists>b. new_normalized replica remote_id ending text = Some b \<and> buffer_ok (base_char text) b \<and> buffer_text b = text \<and>
    buffer_undos b = um_default \<and> lreplica (bf_clock b) = replica \<and> sn_line_ending (bf_snapshot b) = ending"
  using new_normalized_ok [OF assms] by blast

theorem new_buffer_coherent_witness:
  "\<exists>b. new_normalized LOCAL (BufferId 1) Unix ''hello'' = Some b \<and> buffer_ok (base_char ''hello'') b \<and> buffer_text b = ''hello'' \<and>
    buffer_undos b = um_default \<and> lreplica (bf_clock b) = LOCAL \<and> sn_line_ending (bf_snapshot b) = Unix"
  by (rule new_buffer_coherent) (simp_all add: starts_on_char_def char_start_def)

text \<open>
  C8. A buffer remembers its past: whatever edits, undos and redos follow, the text reconstructed for an earlier version is the text the buffer had then, and the edits since that version are a patch from that text to the current one; when no edits are reported the texts are equal.
\<close>

theorem past_text_restored:
  assumes "buffer_ok ch b" "canonical (buffer_version b)" "leads_to b b'"
  shows "rope_for_version (bf_snapshot b') (buffer_version b) = Some (buffer_text b) \<and>
    (\<exists>p. edits_since debug (bf_snapshot b') (buffer_version b) = Some p \<and> patch_describes (buffer_text b) (buffer_text b') p) \<and>
    (has_edits_since (bf_snapshot b') (buffer_version b) = Some False \<longrightarrow> buffer_text b' = buffer_text b)"
  using past_text [OF assms] by blast

theorem past_text_restored_witness:
  "rope_for_version (bf_snapshot edited_buffer) (buffer_version sample_buffer) = Some ''hello'' \<and>
    (\<exists>p. edits_since True (bf_snapshot edited_buffer) (buffer_version sample_buffer) = Some p \<and> patch_describes ''hello'' ''Jeello'' p)"
  using past_text_restored [OF sample_buffer_ok(1) sample_canonical sample_run] sample_buffer_ok(2) edited_buffer_ok(5) by simp

text \<open>
  C9. For any version vector, seen by this buffer or not, reconstructing the text never panics and gives the bytes of the fragments that were visible at the version, in document order; the edits since the version lead from these bytes to the visible ones, and has_edits_since says exactly whether the two differ.
\<close>

theorem edits_since_correct:
  assumes "snapshot_ok ch s" "canonical v"
  shows "rope_for_version s v = Some (map ch (cells_at (sn_undo_map s) v (tree_items (sn_fragments s)))) \<and>
    (\<exists>p. edits_since debug s v = Some p \<and>
      patch_describes (cells_at (sn_undo_map s) v (tree_items (sn_fragments s))) (vis_cells (tree_items (sn_fragments s))) p) \<and>
    has_edits_since s v = Some (cells_at (sn_undo_map s) v (tree_items (sn_fragments s)) \<noteq> vis_cells (tree_items (sn_fragments s)))"
  using rope_for_version_ok [OF assms] edits_since_ok [OF assms, of debug] has_edits_since_ok [OF assms] by blast

theorem edits_since_correct_witness:
  "\<exists>p. edits_since True (bf_snapshot edited_buffer) (buffer_version sample_buffer) = Some p \<and>
    patch_describes (cells_at (buffer_undos edited_buffer) (buffer_version sample_buffer) (buffer_fragments edited_buffer))
      (vis_cells (buffer_fragments edited_buffer)) p"
  using edits_since_correct [OF edited_snapshot sample_canonical] by blast

text \<open>
  C10. An anchor made at any character boundary of the text, with either bias, resolves back to the offset it was made at, in builds with and without debug assertions.
\<close>

theorem anchor_resolves_back:
  assumes "snapshot_ok ch s" "is_char_boundary (visible_text s) i"
  shows "\<exists>a. anchor_at debug s i bias = Some a \<and> offset_for_anchor debug s a = Some i"
  using anchor_round_trip [OF assms] .

theorem anchor_resolves_back_witness:
  "\<exists>a. anchor_at True (bf_snapshot sample_buffer) 3 Left = Some a \<and> offset_for_anchor True (bf_snapshot sample_buffer) a = Some 3"
  by (rule anchor_resolves_back [OF sample_snapshot(1)]) (use sample_buffer_ok(2) in \<open>simp add: is_char_boundary_def char_start_def\<close>)

text \<open>
  C11. An anchor made before an edit still resolves after it, for every edit that the conversion of its ranges to character boundaries lets through; if the patch of the edit keeps the byte the anchor is attached to, the anchor resolves to the new place of that byte, before it or after it according to its bias.
\<close>

theorem anchor_tracks_edit:
  assumes "snapshot_ok ch s" "\<not> global_observed (sn_version s) ts"
    "ranges_ordered (length (visible_text s)) 0 edits" "debug \<longrightarrow> on_chars (visible_text s) edits" "texts_ok replace_all edits"
    "is_char_boundary (visible_text s) i" "if bias = Left then 0 < i else i < length (visible_text s)"
  shows "\<exists>edits' op p s' a j. edits_to_offsets debug s edits = Some edits' \<and>
    apply_edit_internal replace_all s edits' ts = Some (op, p, s') \<and> anchor_at debug s i bias = Some a \<and>
    offset_for_anchor debug (s'\<lparr>sn_version := global_observe (sn_version s) ts\<rparr>) a = Some j \<and>
    (\<forall>k. keep 0 0 p (if bias = Left then i - 1 else i) = Some k \<longrightarrow> j = (if bias = Left then Suc k else k))"
  using anchor_follows_edit [OF assms] .

theorem anchor_tracks_edit_witness:
  "\<exists>op p s' a j. apply_edit_internal replace_separators (bf_snapshot sample_buffer) buffer_edits (edit_time sample_buffer) = Some (op, p, s') \<and>
    anchor_at False (bf_snapshot sample_buffer) 2 Right = Some a \<and>
    offset_for_anchor False (s'\<lparr>sn_version := global_observe (sn_version (bf_snapshot sample_buffer)) (edit_time sample_buffer)\<rparr>) a = Some j \<and>
    (\<forall>k. keep 0 0 p 2 = Some k \<longrightarrow> j = k)"
  using anchor_tracks_edit [OF sample_snapshot buffer_edits_debug, of 2 Right False] sample_buffer_ok(2) buffer_edits_floored
  by (auto simp: edits_to_offsets_ok is_char_boundary_def char_start_def)

text \<open>
  C12. Comparing two anchors attached to bytes of the buffer never panics, finds them equal only when they are the same position, and otherwise agrees with the order of the offsets they resolve to, even for deleted bytes.
\<close>

theorem anchor_order_correct:
  assumes "snapshot_ok ch s" "attached (tree_items (sn_fragments s)) a" "attached (tree_items (sn_fragments s)) b"
    "an_buffer_id a = sn_remote_id s" "an_buffer_id b = sn_remote_id s"
  shows "\<exists>c i j. anchor_cmp debug s a b = Some c \<and> offset_for_anchor debug s a = Some i \<and> offset_for_anchor debug s b = Some j \<and>
    (c = Equal \<longleftrightarrow> a = b) \<and> (c = Less \<longrightarrow> i \<le> j) \<and> (c = Greater \<longrightarrow> j \<le> i)"
  using anchor_cmp_ok [OF assms(1-3), of debug] offset_for_anchor_ok [OF assms(1,2), of debug] offset_for_anchor_ok [OF assms(1,3), of debug]
    assms(4,5) by (auto simp: anchor.expand)

theorem anchor_order_correct_witness:
  "\<exists>a b c i j. anchor_at_offset True (bf_snapshot sample_buffer) 1 Right = Some a \<and> anchor_at_offset True (bf_snapshot sample_buffer) 4 Right = Some b \<and>
    anchor_cmp True (bf_snapshot sample_buffer) a b = Some c \<and>
    offset_for_anchor True (bf_snapshot sample_buffer) a = Some i \<and> offset_for_anchor True (bf_snapshot sample_buffer) b = Some j \<and>
    (c = Equal \<longleftrightarrow> a = b) \<and> (c = Less \<longrightarrow> i \<le> j) \<and> (c = Greater \<longrightarrow> j \<le> i)"
proof -
  let ?s = "bf_snapshot sample_buffer"
  have v: "visible_text ?s = ''hello''" using sample_buffer_ok(2) by simp
  have "\<exists>a. anchor_at_offset True ?s i Right = Some a \<and> attached (tree_items (sn_fragments ?s)) a \<and> an_buffer_id a = sn_remote_id ?s" if "i \<in> {1, 4}" for i
    using anchor_at_offset_ok [OF sample_snapshot(1), of i Right True] that by (auto simp: v is_char_boundary_def char_start_def)
  then obtain a b where "anchor_at_offset True ?s 1 Right = Some a" "attached (tree_items (sn_fragments ?s)) a" "an_buffer_id a = sn_remote_id ?s"
    "anchor_at_offset True ?s 4 Right = Some b" "attached (tree_items (sn_fragments ?s)) b" "an_buffer_id b = sn_remote_id ?s"
    by (metis insertCI)
  then show ?thesis using anchor_order_correct [OF sample_snapshot(1), of a b True] by blast
qed

text \<open>
  C13. A selection between anchors that compare in order resolves to the offsets of its anchors, each moved back to the character boundary before it, with the same identifier, direction and goal, and the start is not after the end. The only panic is that of a build with debug assertions for an anchor inside of a character.
\<close>

theorem selection_resolves_ordered:
  assumes "snapshot_ok ch s" "attached (tree_items (sn_fragments s)) (sel_start sel)" "attached (tree_items (sn_fragments s)) (sel_end sel)"
    "an_buffer_id (sel_start sel) = sn_remote_id s" "an_buffer_id (sel_end sel) = sn_remote_id s"
    "anchor_cmp debug s (sel_start sel) (sel_end sel) \<noteq> Some Greater"
  shows "\<exists>i j. offset_for_anchor debug s (sel_start sel) = Some i \<and> offset_for_anchor debug s (sel_end sel) = Some j \<and>
    rope_floor (visible_text s) i \<le> rope_floor (visible_text s) j \<and>
    (is_char_boundary (visible_text s) i \<longrightarrow> rope_floor (visible_text s) i = i) \<and>
    (is_char_boundary (visible_text s) j \<longrightarrow> rope_floor (visible_text s) j = j) \<and>
    selection_resolve debug s sel =
      (if debug \<and> \<not> (is_char_boundary (visible_text s) i \<and> is_char_boundary (visible_text s) j) then None
       else Some \<lparr>sel_id = sel_id sel, sel_start = rope_floor (visible_text s) i, sel_end = rope_floor (visible_text s) j,
              reversed = reversed sel, goal = goal sel\<rparr>)"
proof -
  obtain i j where ij: "offset_for_anchor debug s (sel_start sel) = Some i" "offset_for_anchor debug s (sel_end sel) = Some j" "i \<le> j"
    "selection_resolve debug s sel =
      (if debug \<and> \<not> (is_char_boundary (visible_text s) i \<and> is_char_boundary (visible_text s) j) then None
       else Some \<lparr>sel_id = sel_id sel, sel_start = rope_floor (visible_text s) i, sel_end = rope_floor (visible_text s) j,
              reversed = reversed sel, goal = goal sel\<rparr>)"
    using selection_resolve_ok [OF assms] by blast
  then show ?thesis using rope_floor_mono [OF ij(3)] rope_floor_id by blast
qed

theorem selection_resolves_ordered_witness:
  "\<exists>a. selection_resolve True (bf_snapshot sample_buffer) \<lparr>sel_id = 7, sel_start = a, sel_end = a, reversed = True, goal = NoGoal\<rparr> =
    Some \<lparr>sel_id = 7, sel_start = 2, sel_end = 2, reversed = True, goal = NoGoal\<rparr>"
proof -
  let ?s = "bf_snapshot sample_buffer"
  have v: "visible_text ?s = ''hello''" using sample_buffer_ok(2) by simp
  have two: "is_char_boundary ''hello'' 2" by (simp add: is_char_boundary_def char_start_def)
  obtain a where a: "attached (tree_items (sn_fragments ?s)) a" "an_buffer_id a = sn_remote_id ?s" "anchor_place (tree_items (sn_fragments ?s)) a = 2"
    using anchor_at_offset_ok [OF sample_snapshot(1), of 2 Left True] two by (auto simp: v)
  have "offset_for_anchor True ?s a = Some 2" using offset_for_anchor_ok [OF sample_snapshot(1) a(1)] a(2,3) by simp
  moreover have "anchor_cmp True ?s a a \<noteq> Some Greater" by (cases "an_bias a") (simp_all add: anchor_cmp_def then_with_def ord_cmp_def)
  ultimately show ?thesis
    using selection_resolves_ordered [OF sample_snapshot(1), of "\<lparr>sel_id = 7, sel_start = a, sel_end = a, reversed = True, goal = NoGoal\<rparr>" True] a(1,2) two
    by (intro exI [of _ a]) (simp add: v rope_floor_id)
qed

text \<open>
  C14. The iterator over the edits since a version always comes to its end, after at most as many edits as there are fragments, and the edits it has returned by then are the whole change.
\<close>

theorem edits_iterator_ends:
  assumes "snapshot_ok ch s" "canonical v"
  shows "\<exists>es. anchored_edits_since debug s v = Some es \<and> length es \<le> length (tree_items (sn_fragments s)) \<and>
    patch_describes (cells_at (sn_undo_map s) v (tree_items (sn_fragments s))) (vis_cells (tree_items (sn_fragments s))) (map fst es)"
  using anchored_edits_since_ok [OF assms] .

theorem edits_iterator_ends_witness:
  "\<exists>es. anchored_edits_since False (bf_snapshot edited_buffer) (buffer_version sample_buffer) = Some es \<and>
    length es \<le> length (buffer_fragments edited_buffer)"
  using edits_iterator_ends [OF edited_snapshot sample_canonical] by blast

text \<open>
  C15. Outside of a transaction and with room left on the clock, undoing as often as the undo stack is long never panics and empties the stack, and redoing as often afterwards restores the text and both stacks.
\<close>

theorem undo_all_then_redo_all:
  assumes "buffer_ok ch b" "ticks_left b (2 * length (undo_stack (bf_history b)))" "transaction_depth (bf_history b) = 0"
  shows "\<exists>b1 b2. undo_many (length (undo_stack (bf_history b))) b = Some b1 \<and> undo_stack (bf_history b1) = [] \<and>
    redo_many (length (undo_stack (bf_history b))) b1 = Some b2 \<and> buffer_text b2 = buffer_text b \<and> buffer_ok ch b2 \<and>
    undo_stack (bf_history b2) = undo_stack (bf_history b) \<and> redo_stack (bf_history b2) = redo_stack (bf_history b)"
  using undo_all_redo_all [OF assms] by blast

theorem undo_all_then_redo_all_witness:
  "\<exists>b1 b2. undo_many 1 edited_buffer = Some b1 \<and> undo_stack (bf_history b1) = [] \<and> redo_many 1 b1 = Some b2 \<and> buffer_text b2 = ''Jeello''"
  using undo_all_then_redo_all [OF edited_buffer_ok(1) _ edited_buffer_ok(2)] edited_buffer_ok(4,5) by (fastforce simp: edited_stack)

text \<open>
  C16. Resolving many anchors in one pass over the fragments gives, for anchors given in order that are at character boundaries of the text, the same offsets as resolving each of them on its own, and never panics.
\<close>

theorem anchors_batch_equivalent:
  assumes "snapshot_ok ch s"
    "\<forall>a\<in>set anchors. anchor_is_min a \<or> anchor_is_max a \<or> attached (tree_items (sn_fragments s)) a \<and> an_buffer_id a = sn_remote_id s"
    "\<forall>a\<in>set anchors. \<forall>i. offset_for_anchor debug s a = Some i \<longrightarrow> is_char_boundary (visible_text s) i"
    "sorted_wrt (\<lambda>a b. anchor_cmp debug s a b \<noteq> Some Greater) anchors"
  shows "\<exists>rs. summaries_for_anchors s anchors = Some rs \<and> map Some rs = map (offset_for_anchor debug s) anchors"
  using summaries_for_anchors_ok [OF assms] .

theorem anchors_batch_equivalent_witness:
  "\<exists>a. anchor_at_offset True (bf_snapshot sample_buffer) 2 Left = Some a \<and>
    summaries_for_anchors (bf_snapshot sample_buffer) [a, a] = Some [2, 2]"
proof -
  let ?s = "bf_snapshot sample_buffer"
  have v: "visible_text ?s = ''hello''" using sample_buffer_ok(2) by simp
  obtain a where a: "anchor_at_offset True ?s 2 Left = Some a" "attached (tree_items (sn_fragments ?s)) a" "an_buffer_id a = sn_remote_id ?s"
    "anchor_place (tree_items (sn_fragments ?s)) a = 2"
    using anchor_at_offset_ok [OF sample_snapshot(1), of 2 Left True] by (auto simp: v is_char_boundary_def char_start_def)
  have at: "offset_for_anchor True ?s a = Some 2" using offset_for_anchor_ok [OF sample_snapshot(1) a(2)] a(3,4) by simp
  have "anchor_cmp True ?s a a \<noteq> Some Greater" by (cases "an_bias a") (simp_all add: anchor_cmp_def then_with_def ord_cmp_def)
  then show ?thesis using anchors_batch_equivalent [OF sample_snapshot(1), of "[a, a]" True] a(1-3) at by (auto simp: v is_char_boundary_def char_start_def)
qed

text \<open>
  C17. Translating offsets given in increasing order to a past version never panics, and every offset that is the new place of a byte kept since that version is taken back to the place of the byte then.
\<close>

theorem offsets_back_correct:
  assumes "snapshot_ok ch s" "canonical v" "sorted offsets"
  shows "\<exists>p olds. edits_since debug s v = Some p \<and> offsets_to_version debug s offsets v = Some olds \<and> length olds = length offsets \<and>
    (\<forall>n<length offsets. \<forall>i. keep 0 0 p i = Some (offsets ! n) \<longrightarrow> olds ! n = i)"
  using offsets_to_version_ok [OF assms] .

theorem offsets_back_correct_witness:
  "\<exists>p olds. edits_since True (bf_snapshot edited_buffer) (buffer_version sample_buffer) = Some p \<and>
    offsets_to_version True (bf_snapshot edited_buffer) [0, 3, 4] (buffer_version sample_buffer) = Some olds \<and> length olds = 3 \<and>
    (\<forall>n<3. \<forall>i. keep 0 0 p i = Some ([0, 3, 4] ! n) \<longrightarrow> olds ! n = i)"
  using offsets_back_correct [OF edited_snapshot sample_canonical, of "[0, 3, 4]" True] by (simp add: numeral_3_eq_3)

text \<open>
  C18. Appending two well-formed trees never panics, keeps the balance and the cached summaries, and concatenates the items.
\<close>

theorem append_concatenates:
  assumes "summary_laws D" "wf_tree D a" "wf_tree D b"
  shows "\<exists>c. append_tree D a b = Some c \<and> wf_tree D c \<and> tree_items c = tree_items a @ tree_items b"
  using summary_laws.append_tree_ok [OF assms] .

theorem append_concatenates_witness:
  "\<exists>c. append_tree map_item sample_map sample_map = Some c \<and> wf_tree map_item c \<and>
     tree_items c = tree_items sample_map @ tree_items sample_map"
  by (rule append_concatenates [OF map_laws.summary_laws_axioms sample_map_wf sample_map_wf])

text \<open>
  C19. Composing two well-formed patches returns a well-formed patch with no empty or touching edits, which maps every kept position the way the two patches do one after the other.
\<close>

theorem patch_compose_correct:
  assumes "wf_patch 0 0 p" "wf_patch 0 0 q"
  shows "\<exists>r. patch_compose p q = Some r \<and> wf_patch 0 0 r \<and> canonical_patch r \<and>
    (\<forall>i. keep 0 0 r i = Option.bind (keep 0 0 p i) (keep 0 0 q))"
  using patch_compose_ok [OF assms] .

theorem patch_compose_correct_witness:
  "\<exists>r. patch_compose [\<lparr>eo_start = 1, eo_end = 1, en_start = 1, en_end = 4\<rparr>] [\<lparr>eo_start = 2, eo_end = 7, en_start = 2, en_end = 2\<rparr>] = Some r \<and>
     wf_patch 0 0 r \<and> canonical_patch r \<and>
     (\<forall>i. keep 0 0 r i = Option.bind (keep 0 0 [\<lparr>eo_start = 1, eo_end = 1, en_start = 1, en_end = 4\<rparr>] i)
       (keep 0 0 [\<lparr>eo_start = 2, eo_end = 7, en_start = 2, en_end = 2\<rparr>]))"
  by (rule patch_compose_correct) (simp_all add: edit_fits_def)

text \<open>
  C20. Slicing a fresh cursor up to a target and then taking the suffix splits the items of the tree at the first one that the target does not pass, as two well-formed trees.
\<close>

theorem slice_suffix_split:
  assumes "dimension_laws D M" "wf_tree D t" "cmp (dzero M) \<noteq> Less"
    and "seekable D M (passes cmp bias) (dzero M) (tree_items t)"
  shows "\<exists>l c r c'. slice D M (cursor_new M t) cmp bias = Some (l, c) \<and> Sum_Cursor.suffix D M c = Some (r, c') \<and>
    wf_tree D l \<and> wf_tree D r \<and> tree_items l = passed_prefix D M (passes cmp bias) (dzero M) (tree_items t) \<and>
    tree_items l @ tree_items r = tree_items t"
proof -
  let ?n = "seek_count D M (passes cmp bias) (dzero M) (tree_items t)"
  have new: "cursor_at D M 0 (cursor_new M t)" "c_tree (cursor_new M t) = t" "c_position (cursor_new M t) = dzero M"
    using cursor_at_new [OF assms(2)] by (simp_all add: cursor_new_def)
  obtain l c where l: "slice D M (cursor_new M t) cmp bias = Some (l, c)" "wf_tree D l"
    "tree_items l = take ?n (tree_items t)" "c_tree c = t" "cursor_at D M ?n c"
    using dimension_laws.slice_ok [OF assms(1) new(1), of cmp bias] assms(3,4) by (auto simp: new)
  obtain r c' where "Sum_Cursor.suffix D M c = Some (r, c')" "wf_tree D r" "tree_items r = drop ?n (tree_items t)"
    using dimension_laws.suffix_ok [OF assms(1) l(5)] l(4) by auto
  moreover have "passed_prefix D M (passes cmp bias) (dzero M) (tree_items t) = take ?n (tree_items t)"
    unfolding seek_count_def by (rule passed_prefix_take)
  ultimately show ?thesis using l by (metis append_take_drop_id)
qed

theorem slice_suffix_split_witness:
  "\<exists>l c r c'. slice map_item map_dim (cursor_new map_dim sample_map) (map_target 3) Left = Some (l, c) \<and>
     Sum_Cursor.suffix map_item map_dim c = Some (r, c') \<and> wf_tree map_item l \<and> wf_tree map_item r \<and>
     tree_items l = passed_prefix map_item map_dim (passes (map_target 3) Left) (dzero map_dim) (tree_items sample_map) \<and>
     tree_items l @ tree_items r = tree_items sample_map"
  by (rule slice_suffix_split [OF map_laws.dimension_laws_axioms sample_map_wf sample_target sample_seekable])

text \<open>
  C21. Searching backward any number of times, from the end of the tree or from where a seek has left the cursor, never panics and visits exactly the items before it that the filter admits, in reverse order; every search after the last of them leaves the cursor before the first item, without an item.
\<close>

theorem backward_search_correct:
  assumes "filtering D M f" "wf_tree D t" "cmp (dzero M) \<noteq> Less" "seekable D M (passes cmp bias) (dzero M) (tree_items t)"
  shows "back_visits M f n (cursor_new M t) =
      (let R = rev (filter (\<lambda>x. f (summarize D x)) (tree_items t))
       in Some (map Some (take n R) @ replicate (n - length R) None)) \<and>
    (\<exists>b c. seek M (cursor_new M t) cmp bias = Some (b, c) \<and>
      back_visits M f n c =
       (let R = rev (filter (\<lambda>x. f (summarize D x)) (passed_prefix D M (passes cmp bias) (dzero M) (tree_items t)))
        in Some (map Some (take n R) @ replicate (n - length R) None)))"
proof -
  let ?n = "seek_count D M (passes cmp bias) (dzero M) (tree_items t)"
  have dim: "dimension_laws D M" using assms(1) by (rule filtering.axioms)
  have new: "dimension_laws.chain_at D M 0 (cursor_new M t)" by (rule dimension_laws.chain_at_new [OF dim assms(2)])
  obtain b c where c: "seek M (cursor_new M t) cmp bias = Some (b, c)" "c_tree c = t" "did_seek c" "cursor_at D M ?n c"
    using dimension_laws.seek_ok [OF dim cursor_at_new [OF assms(2)], of cmp bias] assms(3,4) by auto
  have "dimension_laws.chain_at D M ?n c"
    using dimension_laws.seek_chained [OF dim new c(1)] c(2,4) by (simp add: dimension_laws.chain_at_def [OF dim])
  from filtering.back_visits_ok [OF assms(1) this, of n] filtering.back_visits_ok [OF assms(1) new, of n] show ?thesis
    using c passed_prefix_take [of D M "passes cmp bias" "dzero M" "tree_items t"]
    by (simp add: cursor_new_def seek_count_def)
qed

theorem backward_search_correct_witness:
  "back_visits map_dim (\<lambda>_. True) 5 (cursor_new map_dim sample_map) =
      Some [Some (entry (5, 50)), Some (entry (3, 30)), Some (entry (1, 10)), None, None] \<and>
    (\<exists>b c. seek map_dim (cursor_new map_dim sample_map) (map_target 3) Left = Some (b, c) \<and>
      back_visits map_dim (\<lambda>_. True) 3 c = Some [Some (entry (1, 10)), None, None])"
proof
  note visits = backward_search_correct [OF map_laws.every.filtering_axioms sample_map_wf sample_target sample_seekable, where bias = Left]
  show "back_visits map_dim (\<lambda>_. True) 5 (cursor_new map_dim sample_map) =
      Some [Some (entry (5, 50)), Some (entry (3, 30)), Some (entry (1, 10)), None, None]"
    using visits [of 5] by (simp add: sample_items Let_def numeral_eq_Suc)
  have "passed_prefix map_item map_dim (passes (map_target 3) Left) (dzero map_dim) (tree_items sample_map) = [entry (1, 10)]"
    unfolding sample_items by (simp add: passes_def map_target_def ord_cmp_def map_dim_def map_item_def entry_def)
  then show "\<exists>b c. seek map_dim (cursor_new map_dim sample_map) (map_target 3) Left = Some (b, c) \<and>
      back_visits map_dim (\<lambda>_. True) 3 c = Some [Some (entry (1, 10)), None, None]"
    using visits [of 3] by (auto simp: Let_def numeral_eq_Suc)
qed

text \<open>
  C22. Every sequence of insertions and removals on an empty TreeMap succeeds, keeps the map well formed, and answers lookups as the finite map that the same updates give.
\<close>

theorem tree_map_refines_map:
  fixes ops :: "('k::linorder, 'v) dict_op list"
  shows "\<exists>m. tm_run tm_default ops = Some m \<and> tm_ok m \<and> tm_get m = fold dict_effect ops Map.empty"
  unfolding tm_run_eq by (rule tm.run_empty)

text \<open>
  C23. Asking a map for the entry closest to a key returns the entry with the greatest key that is not after it, or nothing when all keys are after it, and never panics.
\<close>

theorem closest_entry_correct:
  assumes "tm_ok m"
  shows "tm_closest m k = Some (let es = filter (\<lambda>e. me_key e \<le> k) (tree_items m) in if es = [] then None else Some (kv_of (last es)))"
  using tm_closest_ok [OF assms] by (simp add: Let_def)

theorem closest_entry_correct_witness: "tm_closest sample_map 4 = Some (Some (3, 30)) \<and> tm_closest sample_map 0 = Some None"
  using closest_entry_correct [OF sample_map_ok, of 4] closest_entry_correct [OF sample_map_ok, of 0] by (simp add: sample_items)

text \<open>
  C24. A batch of insertions and removals with distinct keys succeeds on a tree sorted by key, returns the entries it displaced in key order, and leaves exactly the map that the edits describe.
\<close>

theorem keyed_edit_correct:
  assumes "keyed_laws K" "keyed_laws.keyed_ok K t" "distinct (map (edit_key K) es)"
  shows "\<exists>t'. edit_tree K t es = Some
      (concat (map (\<lambda>e. case keyed_laws.entries K t (edit_key K e) of Some x \<Rightarrow> [x] | None \<Rightarrow> []) (sort_key (edit_key K) es)), t') \<and>
    keyed_laws.keyed_ok K t' \<and> keyed_laws.entries K t' = edit_effect K es (keyed_laws.entries K t)"
  using keyed_laws.edit_tree_ok [OF assms] .

theorem keyed_edit_correct_witness:
  "\<exists>t'. edit_tree map_keyed sample_map sample_edits = Some
      (concat (map (\<lambda>e. case keyed_laws.entries map_keyed sample_map (edit_key map_keyed e) of Some x \<Rightarrow> [x] | None \<Rightarrow> [])
         (sort_key (edit_key map_keyed) sample_edits)), t') \<and>
    keyed_laws.keyed_ok map_keyed t' \<and>
    keyed_laws.entries map_keyed t' = edit_effect map_keyed sample_edits (keyed_laws.entries map_keyed sample_map)"
  by (rule keyed_edit_correct [OF map_laws.keyed_laws_axioms])
    (use sample_map_ok in \<open>simp add: tm_ok_keyed\<close>, simp add: sample_edits_def entry_def map_keyed_def)

text \<open>
  C25. Building a tree from a sequence gives a balanced tree with exactly these items, and the parallel construction gives the same tree.
\<close>

theorem from_iter_builds:
  assumes "summary_laws D"
  shows "wf_tree D (from_iter D xs) \<and> tree_items (from_iter D xs) = xs \<and> from_par_iter D xs = from_iter D xs"
  using summary_laws.from_iter_ok [OF assms] summary_laws.from_par_iter_eq [OF assms] by blast

theorem from_iter_builds_witness:
  "wf_tree map_item (from_iter map_item [entry (2 :: nat, 3 :: nat)]) \<and>
   tree_items (from_iter map_item [entry (2 :: nat, 3 :: nat)]) = [entry (2, 3)] \<and>
   from_par_iter map_item [entry (2 :: nat, 3 :: nat)] = from_iter map_item [entry (2, 3)]"
  by (rule from_iter_builds [OF map_laws.summary_laws_axioms])

text \<open>
  C26. The recursive find on a non-empty tree returns the start and the item that a cursor has after seeking to the same target.
\<close>

theorem find_agrees_with_cursor:
  assumes "dimension_laws D M" "wf_tree D t" "tree_items t \<noteq> []" "cmp (dzero M) \<noteq> Less"
    and "seekable D M (passes cmp bias) (dzero M) (tree_items t)"
  shows "\<exists>b c. seek M (cursor_new M t) cmp bias = Some (b, c) \<and>
    fst (st_find M t cmp bias) = c_position c \<and> cursor_item c = Some (snd (snd (st_find M t cmp bias)))"
proof -
  let ?n = "seek_count D M (passes cmp bias) (dzero M) (tree_items t)"
  have new: "cursor_at D M 0 (cursor_new M t)" "c_tree (cursor_new M t) = t"
    using cursor_at_new [OF assms(2)] by (simp_all add: cursor_new_def)
  obtain b c where c: "seek M (cursor_new M t) cmp bias = Some (b, c)" "c_tree c = t" "did_seek c" "cursor_at D M ?n c"
    using dimension_laws.seek_ok [OF assms(1) new(1), of cmp bias] assms(4,5) new(2) by auto
  have "c_position c = pos_after D M (dzero M) (take ?n (tree_items t))" using c(2,4) by (simp add: cursor_at_def)
  with c dimension_laws.find_ok(1) [OF assms(1,2,5,3)] cursor_item_at(1) [OF c(4,3)] show ?thesis by auto
qed

theorem find_agrees_with_cursor_witness:
  "\<exists>b c. seek map_dim (cursor_new map_dim sample_map) (map_target 3) Left = Some (b, c) \<and>
     fst (st_find map_dim sample_map (map_target 3) Left) = c_position c \<and>
     cursor_item c = Some (snd (snd (st_find map_dim sample_map (map_target 3) Left)))"
  by (rule find_agrees_with_cursor [OF map_laws.dimension_laws_axioms sample_map_wf _ sample_target sample_seekable])
    (simp add: sample_items)

text \<open>
  C27. Iterating a filtering cursor whose filter admits a summary as soon as it admits one of its parts yields exactly the admitted items in order.
\<close>

theorem filter_cursor_correct:
  assumes "filtering D M f" "wf_tree D t"
  shows "filter_collect M f n (cursor_new M t) = Some (take n (filter (\<lambda>x. f (summarize D x)) (tree_items t)))"
  using filtering.filter_collect_ok [OF assms] .

theorem filter_cursor_correct_witness:
  "filter_collect undo_dim (\<lambda>key. UndoMapKey (Lamport 2 LOCAL) lamport_MIN \<le> key) 5 (cursor_new undo_dim sample_undos) =
     Some (take 5 (filter (\<lambda>x. UndoMapKey (Lamport 2 LOCAL) lamport_MIN \<le> summarize undo_item x) (tree_items sample_undos)))"
  by (rule filter_cursor_correct [OF undo_from.filtering_axioms sample_undos_wf])

text \<open>
  C28. Undo operations with different timestamps have the same effect on the undo map in whatever order they arrive: the same counts and the same answers for every past version.
\<close>

theorem undo_any_order:
  assumes "um_ok m" "\<forall>undo\<in>set undos. distinct (map fst (undo_counts undo))" "distinct (map undo_timestamp undos)"
    and "set undos' = set undos" "distinct (map undo_timestamp undos')"
  shows "\<exists>a b. um_insert_all m undos = Some a \<and> um_insert_all m undos' = Some b \<and> um_map a = um_map b \<and>
    (\<forall>e. undo_count a e = undo_count b e) \<and> (\<forall>e v. was_undone a e v = was_undone b e v)"
  using um_insert_any_order [OF assms] .

theorem undo_any_order_witness:
  "\<exists>a b. um_insert_all um_default [sample_undo 5 1, sample_undo 6 2] = Some a \<and>
     um_insert_all um_default [sample_undo 6 2, sample_undo 5 1] = Some b \<and> um_map a = um_map b \<and>
    (\<forall>e. undo_count a e = undo_count b e) \<and> (\<forall>e v. was_undone a e v = was_undone b e v)"
  by (rule undo_any_order) (auto simp: um_default_ok sample_undo_def)

text \<open>
  C29. In every history reached by its operations, started and ended transactions leave exactly the right one open: the transaction opened by the outermost start, or the one it has since been grouped into, is on top of the undo stack until the matching end, and the depth is zero when none is open. Operations are stored under their timestamps, and all transactions refer only to recorded edits. This assumes of the callers that a timestamp names one operation and that a transaction handed to push_transaction names recorded edits.
\<close>

theorem history_invariant:
  assumes "history_reached tid h"
  shows "(case tid of
       None \<Rightarrow> transaction_depth h = 0
     | Some i \<Rightarrow> transaction_depth h \<noteq> 0 \<and> undo_stack h \<noteq> [] \<and> History.transaction_id (last (undo_stack h)) = i) \<and>
    (\<forall>i op. tm_get (operations h) i = Some op \<longrightarrow> operation_timestamp op = i) \<and>
    (\<forall>i\<in>set (stack_edits (undo_stack h @ redo_stack h)). \<exists>e. tm_get (operations h) i = Some (EditOp e))"
proof -
  have "history_ok h" using history_reachable_ok assms history_reached_iff by blast
  then show ?thesis using history_reached_open [OF assms] by (auto simp: open_ok_def history_ok_def known_edit_def tm_get_eq)
qed

theorem history_invariant_witness:
  "\<exists>h. history_reached (Some (Lamport 5 LOCAL)) h \<and> transaction_depth h \<noteq> 0 \<and> undo_stack h \<noteq> [] \<and>
    History.transaction_id (last (undo_stack h)) = Lamport 5 LOCAL \<and>
    (\<forall>i op. tm_get (operations h) i = Some op \<longrightarrow> operation_timestamp op = i)"
proof -
  let ?op = "Start global_new 0 (Lamport 5 LOCAL)"
  have "history_reached (opened_by (history_new []) ?op None) (snd (snd (start_transaction (history_new []) global_new 0 (Lamport 5 LOCAL))))"
    by (rule reached_step [OF reached_new]) simp_all
  then have r: "history_reached (Some (Lamport 5 LOCAL)) (snd (snd (start_transaction (history_new []) global_new 0 (Lamport 5 LOCAL))))"
    by (simp add: history_new_def lamport_tick_def)
  from history_invariant [OF r] r show ?thesis by (simp only: option.case) blast
qed

text \<open>
  C30. On a reachable history an operation panics exactly when its assertion on the transaction depth fails: no unwrap and no slice index can fail.
\<close>

theorem history_panics_only_on_depth:
  assumes "history_reachable h" "op_allowed h op"
  shows "history_exec h op = None \<longleftrightarrow> \<not> depth_required op (transaction_depth h)"
  using history_exec_panics_iff [OF history_reachable_ok [OF assms(1)] assms(2)] .

theorem history_panics_only_on_depth_witness:
  "history_exec (history_new []) (End 0) = None \<longleftrightarrow> \<not> depth_required (End 0) (transaction_depth (history_new []))"
  by (rule history_panics_only_on_depth) (simp_all add: history_reachable.init)

text \<open>
  C31. A transaction in which operations are stored and edits recorded, with nested transactions inside, stores the operations, leaves one entry with exactly the edits that were recorded in between, in order, and clears the redo stack; when no edit was recorded both stacks are unchanged.
\<close>

theorem transaction_records_edits:
  assumes "history_reachable h" "transaction_depth h = 0" "body_depth 1 body = Some 1"
  shows "\<exists>m. tm_get m = body_operations (tm_get (operations h)) body \<and>
    history_run h (Start s t0 clk # body @ [End t1]) =
     (if body_edits (tm_get (operations h)) body = [] then Some (h\<lparr>operations := m\<rparr>)
      else Some (h\<lparr>operations := m, undo_stack := undo_stack h @
        [\<lparr>transaction_of = \<lparr>tx_id = fst (lamport_tick clk), edit_ids = body_edits (tm_get (operations h)) body, tx_start = s\<rparr>,
          first_edit_at = t0, last_edit_at = t1, suppress_grouping = False\<rparr>], redo_stack := []\<rparr>))"
proof -
  have ok: "tm_ok (operations h)" using history_reachable_ok [OF assms(1)] by (simp add: history_ok_def)
  have get: "tm_get m = tm_map m" if "tm_ok m" for m :: "(lamport, operation) tree_map" using tm_get_eq [OF that] by blast
  show ?thesis using transaction_bracket_ok [OF assms(2,3) ok, of s t0 clk t1] get unfolding get [OF ok] by metis
qed

theorem transaction_records_edits_witness:
  "\<exists>m. tm_get m (Lamport 1 LOCAL) = Some (EditOp sample_operation) \<and>
    history_run (history_new []) (Start global_new 0 (Lamport 5 LOCAL) # sample_body @ [End 3]) =
     Some ((history_new [])\<lparr>operations := m, undo_stack :=
        [\<lparr>transaction_of = \<lparr>tx_id = Lamport 5 LOCAL, edit_ids = [Lamport 1 LOCAL], tx_start = global_new\<rparr>,
          first_edit_at = 0, last_edit_at = 3, suppress_grouping = False\<rparr>], redo_stack := []\<rparr>)"
proof -
  have "body_depth 1 sample_body = Some 1" by (simp add: sample_body_def)
  from transaction_records_edits [OF history_reachable.init _ this, of "[]" global_new 0 "Lamport 5 LOCAL" 3]
  obtain m where m: "tm_get m = body_operations (tm_get (operations (history_new []))) sample_body"
    "history_run (history_new []) (Start global_new 0 (Lamport 5 LOCAL) # sample_body @ [End 3]) =
     (if body_edits (tm_get (operations (history_new []))) sample_body = [] then Some ((history_new [])\<lparr>operations := m\<rparr>)
      else Some ((history_new [])\<lparr>operations := m, undo_stack := undo_stack (history_new []) @
        [\<lparr>transaction_of = \<lparr>tx_id = fst (lamport_tick (Lamport 5 LOCAL)), edit_ids = body_edits (tm_get (operations (history_new []))) sample_body,
            tx_start = global_new\<rparr>, first_edit_at = 0, last_edit_at = 3, suppress_grouping = False\<rparr>], redo_stack := []\<rparr>))"
    by (auto simp: history_new_def)
  have "body_edits (tm_get (operations (history_new []))) sample_body = [Lamport 1 LOCAL]"
    "body_operations (tm_get (operations (history_new []))) sample_body (Lamport 1 LOCAL) = Some (EditOp sample_operation)"
    by (simp_all add: sample_body_def sample_operation_def)
  then show ?thesis using m by (intro exI [of _ m]) (simp add: history_new_def lamport_tick_def)
qed

text \<open>
  C32. Grouping recent transactions, or grouping until a given transaction, never panics, keeps the undo stack non-empty, and conserves the sequence of edits to undo.
\<close>

theorem grouping_conserves_edits:
  "(\<exists>tid us. group h = Some (tid, h\<lparr>undo_stack := us\<rparr>) \<and> stack_edits us = stack_edits (undo_stack h) \<and>
      (us = [] \<longleftrightarrow> undo_stack h = []) \<and> (tid = None \<longleftrightarrow> undo_stack h = [])) \<and>
   (\<exists>us. group_until h t = Some (h\<lparr>undo_stack := us\<rparr>) \<and> stack_edits us = stack_edits (undo_stack h) \<and>
      (us = [] \<longleftrightarrow> undo_stack h = []))"
  using group_ok [of h] group_until_ok [of h t] by blast

text \<open>
  C33. Undoing down to a transaction and then redoing up to the transaction that was on top restores the history, and the entries pass through the redo stack in reverse order.
\<close>

theorem undo_until_redo_roundtrip:
  assumes "transaction_depth h = 0" "distinct (map transaction_id (undo_stack h @ redo_stack h))"
    "tid \<in> transaction_id ` set (undo_stack h)"
  shows "\<exists>es h'. remove_from_undo_until h tid = Some (es, h') \<and> undo_stack h = undo_stack h' @ rev es \<and>
    transaction_id (last es) = tid \<and> redo_stack h' = redo_stack h @ es \<and>
    remove_from_redo h' (transaction_id (last (undo_stack h))) = Some (rev es, h)"
  using undo_until_then_redo [OF assms] .

theorem undo_until_redo_roundtrip_witness:
  "\<exists>es h'. remove_from_undo_until sample_history (Lamport 1 LOCAL) = Some (es, h') \<and>
    undo_stack sample_history = undo_stack h' @ rev es \<and>
    transaction_id (last es) = Lamport 1 LOCAL \<and> redo_stack h' = redo_stack sample_history @ es \<and>
    remove_from_redo h' (transaction_id (last (undo_stack sample_history))) = Some (rev es, sample_history)"
  by (rule undo_until_redo_roundtrip)
    (simp_all add: sample_history_def history_new_def sample_entry_def new_entry_def transaction_id_def)

text \<open>
  C34. Merging a transaction into a different one that is in the history removes one entry and keeps every edit of the history, with multiplicity.
\<close>

theorem merge_conserves_edits:
  assumes "transaction_depth h = 0" "tid \<noteq> dst" "{tid, dst} \<subseteq> transaction_id ` set (undo_stack h @ redo_stack h)"
  shows "\<exists>h'. merge_transactions h tid dst = Some h' \<and> history_edits h' = history_edits h \<and>
    Suc (length (undo_stack h' @ redo_stack h')) = length (undo_stack h @ redo_stack h)"
  using merge_transactions_ok [OF assms] .

theorem merge_conserves_edits_witness:
  "\<exists>h'. merge_transactions sample_history (Lamport 2 LOCAL) (Lamport 1 LOCAL) = Some h' \<and>
    history_edits h' = history_edits sample_history \<and>
    Suc (length (undo_stack h' @ redo_stack h')) = length (undo_stack sample_history @ redo_stack sample_history)"
  by (rule merge_conserves_edits)
    (simp_all add: sample_history_def history_new_def sample_entry_def new_entry_def transaction_id_def)

text \<open>
  C35. Inverting a well-formed patch gives a well-formed patch that maps kept positions back, and inverting twice gives the patch.
\<close>

theorem patch_invert_roundtrip:
  assumes "wf_patch 0 0 p"
  shows "wf_patch 0 0 (patch_invert p) \<and> patch_invert (patch_invert p) = p \<and>
    (\<forall>i j. keep 0 0 (patch_invert p) j = Some i \<longleftrightarrow> keep 0 0 p i = Some j)"
  using wf_patch_invert [of 0 0 p] keep_invert_iff [OF assms] patch_invert_invert [of p] assms by blast

theorem patch_invert_roundtrip_witness:
  "wf_patch 0 0 (patch_invert [\<lparr>eo_start = 1, eo_end = 3, en_start = 1, en_end = 2\<rparr>]) \<and>
    patch_invert (patch_invert [\<lparr>eo_start = 1, eo_end = 3, en_start = 1, en_end = 2\<rparr>]) =
      [\<lparr>eo_start = 1, eo_end = 3, en_start = 1, en_end = 2\<rparr>] \<and>
    (\<forall>i j. keep 0 0 (patch_invert [\<lparr>eo_start = 1, eo_end = 3, en_start = 1, en_end = 2\<rparr>]) j = Some i \<longleftrightarrow>
       keep 0 0 [\<lparr>eo_start = 1, eo_end = 3, en_start = 1, en_end = 2\<rparr>] i = Some j)"
  by (rule patch_invert_roundtrip) (simp add: edit_fits_def)

text \<open>
  C36. After any non-empty sequence of published patches, the subscriptions of the topic are exactly the live ones, the dropped ones being gone, and each of them holds one patch that maps positions as all of the published patches in order.
\<close>

theorem publish_composes:
  assumes "topic_ok t" "\<forall>q\<in>set qs. wf_patch 0 0 q" "qs \<noteq> []"
  shows "\<exists>t'. publish_all qs t = Some t' \<and> topic_ok t' \<and> set (subscriptions t') = dom (sub_cells t) \<and>
    dom (sub_cells t') = dom (sub_cells t) \<and>
    (\<forall>c p. sub_cells t c = Some p \<longrightarrow>
      (\<exists>r. sub_cells t' c = Some r \<and> (\<forall>i. keep 0 0 r i = Option.bind (keep 0 0 p i) (keep_all qs))))"
  using publish_all_ok [OF assms(1,2)] assms(3) by blast

theorem publish_composes_witness:
  "\<exists>t'. publish_all [[\<lparr>eo_start = 1, eo_end = 3, en_start = 1, en_end = 2\<rparr>]] sample_topic = Some t' \<and>
    subscriptions sample_topic = [0, 1] \<and> set (subscriptions t') = {1} \<and>
    (\<exists>r. sub_cells t' 1 = Some r \<and>
      (\<forall>i. keep 0 0 r i = Option.bind (keep 0 0 [] i) (keep_all [[\<lparr>eo_start = 1, eo_end = 3, en_start = 1, en_end = 2\<rparr>]])))"
proof -
  have t: "sub_cells sample_topic = [1 \<mapsto> []]" "subscriptions sample_topic = [0, 1]" "topic_ok sample_topic"
    by (auto simp: sample_topic_def subscribe_def drop_subscription_def topic_default_def patch_empty_def topic_ok_def fun_eq_iff split: if_splits)
  let ?qs = "[[\<lparr>eo_start = 1, eo_end = 3, en_start = 1, en_end = 2\<rparr>]]"
  have "\<forall>q\<in>set ?qs. wf_patch 0 0 q" by (simp add: edit_fits_def)
  from publish_composes [OF t(3) this] obtain t' where t': "publish_all ?qs sample_topic = Some t'" "set (subscriptions t') = {1}"
    "\<forall>c p. [1 \<mapsto> []] c = Some p \<longrightarrow> (\<exists>r. sub_cells t' c = Some r \<and> (\<forall>i. keep 0 0 r i = Option.bind (keep 0 0 p i) (keep_all ?qs)))"
    unfolding t(1) by auto
  from t'(3) have "\<exists>r. sub_cells t' 1 = Some r \<and> (\<forall>i. keep 0 0 r i = Option.bind (keep 0 0 [] i) (keep_all ?qs))" by (metis fun_upd_same)
  then show ?thesis using t(2) t'(1,2) by blast
qed

text \<open>
  C37. The locator made between two locators lies strictly between them and is valid again, so the construction can be repeated for ever.
\<close>

theorem locator_between_strict:
  assumes "lhs < rhs" "locator_ok rhs"
  shows "lhs < locator_between lhs rhs \<and> locator_between lhs rhs < rhs \<and> locator_ok (locator_between lhs rhs)"
  using locator_between_greater locator_between_less [OF assms] locator_between_ok by blast

theorem locator_between_strict_witness:
  "locator_min < locator_between locator_min locator_max \<and> locator_between locator_min locator_max < locator_max \<and>
   locator_ok (locator_between locator_min locator_max)"
  by (rule locator_between_strict) (simp_all add: locator_min_less_max)

text \<open>
  C38. swap_head_tail exchanges head and tail, but the range stays ordered only when the selection was reversed or empty: a forward selection becomes one whose start is after its end.
\<close>

theorem swap_head_tail_breaks_order:
  assumes "selection_ok s"
  shows "head (swap_head_tail s) = tail s \<and> tail (swap_head_tail s) = head s \<and>
    (selection_ok (swap_head_tail s) \<longleftrightarrow> reversed s \<or> selection_is_empty s)"
  using swap_head_tail_ok [of s] swap_head_tail_ordered_iff [OF assms] by blast

theorem swap_head_tail_breaks_order_witness:
  "head (swap_head_tail sample_selection) = tail sample_selection \<and> tail (swap_head_tail sample_selection) = head sample_selection \<and>
    (selection_ok (swap_head_tail sample_selection) \<longleftrightarrow> reversed sample_selection \<or> selection_is_empty sample_selection) \<and>
    \<not> selection_ok (swap_head_tail sample_selection)"
  using swap_head_tail_breaks_order [of sample_selection]
  by (simp add: selection_ok_def sample_selection_def selection_is_empty_def)



text \<open>
  C40. Edits made on a copy of the snapshot give the text that editing gives, at the version before the edits for comparison, without touching anything of the buffer but its clock; fast forwarding a buffer that has not changed since takes the edited snapshot over, keeps the invariant of the buffer with the clock past the new version, and leaves the history, which does not know of the edits, as it was.
\<close>

theorem preview_then_fast_forward:
  assumes "buffer_ok ch b" "\<forall>x\<in>set (gvalues (buffer_version b)). x < lvalue (bf_clock b)"
    "ticks_left b (2 + length (gvalues (global_observe (buffer_version b) (bf_clock b))))"
    "ranges_ordered (length (buffer_text b)) 0 edits" "debug \<longrightarrow> on_chars (buffer_text b) edits" "texts_ok replace_all edits" "edits \<noteq> []"
  shows "\<exists>e clk b'. snapshot_with_edits debug replace_all b edits = Some (e, b\<lparr>bf_clock := clk\<rparr>) \<and> eb_did_edit e \<and>
    eb_base_version e = buffer_version b \<and>
    snapshot_ok (with_insertion (bf_clock b) (inserted replace_all edits) ch) (eb_snapshot e) \<and>
    visible_text (eb_snapshot e) = splice_list (buffer_text b) 0 (normalized replace_all (floored (buffer_text b) edits)) \<and>
    fast_forward (b\<lparr>bf_clock := clk\<rparr>) e = Some b' \<and> bf_snapshot b' = eb_snapshot e \<and> bf_history b' = bf_history b \<and>
    buffer_ok (with_insertion (bf_clock b) (inserted replace_all edits) ch) b'"
  using snapshot_with_edits_ok [OF assms] .

theorem preview_then_fast_forward_witness:
  "\<exists>e clk b'. snapshot_with_edits True replace_separators sample_buffer buffer_edits = Some (e, sample_buffer\<lparr>bf_clock := clk\<rparr>) \<and>
    visible_text (eb_snapshot e) = ''Jeello'' \<and> fast_forward (sample_buffer\<lparr>bf_clock := clk\<rparr>) e = Some b' \<and> buffer_text b' = ''Jeello'' \<and>
    undo_stack (bf_history b') = []"
proof -
  obtain e clk b' where e: "snapshot_with_edits True replace_separators sample_buffer buffer_edits = Some (e, sample_buffer\<lparr>bf_clock := clk\<rparr>)"
    "visible_text (eb_snapshot e) =
       splice_list (buffer_text sample_buffer) 0 (normalized replace_separators (floored (buffer_text sample_buffer) buffer_edits))"
    "fast_forward (sample_buffer\<lparr>bf_clock := clk\<rparr>) e = Some b'" "bf_snapshot b' = eb_snapshot e" "bf_history b' = bf_history sample_buffer"
    using preview_then_fast_forward [OF sample_buffer_ok(1) sample_clock buffer_edits_debug buffer_edits_ne, of True] by blast
  moreover have "visible_text (eb_snapshot e) = ''Jeello''"
    using e(2) unfolding buffer_edits_floored by (simp add: sample_buffer_ok(2) buffer_edits_def normalized_def normalize_def)
  ultimately show ?thesis using sample_buffer_ok(3) by (auto simp: history_new_def)
qed

end
